(* ===== verification/Prelude.thy ===== *)
theory Prelude
  imports Main "HOL-Library.Word" "HOL-Library.Multiset"
begin

text \<open>
  Shared vocabulary of the development: the machine integers of the program, the string
  and container operations of the Rust standard library that the sources call, the
  collections of rewrite rules the component theories add to, and one locale for the
  argument every component repeats (an operation-wise invariant holds after any run).
\<close>

named_theorems handler_defs \<open>unfolding rules of the operations of a component\<close>
named_theorems frame_simps \<open>what an operation leaves unchanged\<close>

section \<open>Machine integers\<close>

text \<open>
  \<open>u64\<close> values (sequence numbers, millisecond stamps) are 64-bit words. Sizes and lengths
  (\<open>usize\<close>) are natural numbers: they count elements or bytes that are held in memory, and
  \<open>usize::saturating_sub\<close> is the subtraction of \<open>nat\<close>.
\<close>

type_synonym u64 = "64 word"

definition saturating_add :: "u64 \<Rightarrow> u64 \<Rightarrow> u64" where
  "saturating_add a b = (if unat a + unat b < 2 ^ 64 then a + b else - 1)"

definition saturating_sub :: "u64 \<Rightarrow> u64 \<Rightarrow> u64" where
  "saturating_sub a b = (if b \<le> a then a - b else 0)"

text \<open>\<open>Duration::as_millis() as u64\<close>: a cast that keeps the low 64 bits.\<close>

definition millis_u64 :: "nat \<Rightarrow> u64" where
  "millis_u64 d = word_of_nat d"

lemma unat_u64_less: "unat (a :: u64) < 18446744073709551616"
proof -
  have "unat a < 2 ^ LENGTH(64)" by (rule unsigned_less)
  then show ?thesis by simp
qed

lemma unat_saturating_add: "unat (saturating_add a b) = min (unat a + unat b) (2 ^ 64 - 1)"
proof (cases "unat a + unat b < 2 ^ 64")
  case True
  then show ?thesis
    by (simp add: saturating_add_def unat_add_lem [THEN iffD1])
next
  case False
  have "unat (- 1 :: u64) = 2 ^ 64 - 1"
    by (simp add: unsigned_minus_1_eq_mask mask_eq_exp_minus_1)
  with False show ?thesis by (simp add: saturating_add_def)
qed

lemma unat_saturating_sub: "unat (saturating_sub a b) = unat a - unat b"
  by (auto simp: saturating_sub_def unat_sub word_le_nat_alt)

lemma saturating_add_le [simp]: "a \<le> saturating_add a b"
proof -
  have "unat a \<le> 2 ^ 64 - 1" using unat_u64_less [of a] by simp
  then show ?thesis by (simp add: word_le_nat_alt unat_saturating_add)
qed

lemma saturating_sub_le [simp]: "saturating_sub a b \<le> a"
  by (simp add: word_le_nat_alt unat_saturating_sub)

lemma saturating_succ_less: "saturating_add s 1 < k \<longleftrightarrow> unat s + 1 < unat k"
  using unat_u64_less [of k] by (auto simp: word_less_nat_alt unat_saturating_add)

section \<open>Options\<close>

text \<open>\<open>Option::or_else\<close>, \<open>unwrap_or\<close>, \<open>is_some_and\<close>, \<open>is_none_or\<close>; \<open>and_then\<close> is \<open>Option.bind\<close>.\<close>

definition or_else :: "'a option \<Rightarrow> 'a option \<Rightarrow> 'a option" where
  "or_else a b = (case a of Some x \<Rightarrow> Some x | None \<Rightarrow> b)"

definition unwrap_or :: "'a option \<Rightarrow> 'a \<Rightarrow> 'a" where
  "unwrap_or a d = (case a of Some x \<Rightarrow> x | None \<Rightarrow> d)"

definition is_some_and :: "'a option \<Rightarrow> ('a \<Rightarrow> bool) \<Rightarrow> bool" where
  "is_some_and a p = (case a of Some x \<Rightarrow> p x | None \<Rightarrow> False)"

definition is_none_or :: "'a option \<Rightarrow> ('a \<Rightarrow> bool) \<Rightarrow> bool" where
  "is_none_or a p = (case a of Some x \<Rightarrow> p x | None \<Rightarrow> True)"

lemma or_else_simps [simp]: "or_else (Some x) b = Some x" "or_else None b = b"
  by (simp_all add: or_else_def)

lemma unwrap_or_simps [simp]: "unwrap_or (Some x) d = x" "unwrap_or None d = d"
  by (simp_all add: unwrap_or_def)

lemma is_some_and_simps [simp]: "is_some_and (Some x) p = p x" "is_some_and None p = False"
  by (simp_all add: is_some_and_def)

lemma is_none_or_simps [simp]: "is_none_or (Some x) p = p x" "is_none_or None p = True"
  by (simp_all add: is_none_or_def)

section \<open>Strings\<close>

text \<open>\<open>str::starts_with\<close>, \<open>ends_with\<close> and \<open>contains\<close>.\<close>

definition starts_with :: "string \<Rightarrow> string \<Rightarrow> bool" where
  "starts_with s p = (take (length p) s = p)"

definition ends_with :: "string \<Rightarrow> string \<Rightarrow> bool" where
  "ends_with s p = starts_with (rev s) (rev p)"

fun str_contains :: "string \<Rightarrow> string \<Rightarrow> bool" where
  "str_contains [] p = (p = [])"
| "str_contains (c # s) p = (starts_with (c # s) p \<or> str_contains s p)"

lemma starts_with_iff: "starts_with s p \<longleftrightarrow> (\<exists>t. s = p @ t)"
  unfolding starts_with_def by (metis append_eq_conv_conj append_take_drop_id)

lemma ends_with_iff: "ends_with s p \<longleftrightarrow> (\<exists>t. s = t @ p)"
  unfolding ends_with_def starts_with_iff by (metis rev_append rev_rev_ident)

lemma str_contains_iff: "str_contains s p \<longleftrightarrow> (\<exists>u t. s = u @ p @ t)"
proof (induction s)
  case Nil
  then show ?case by auto
next
  case (Cons c s)
  then show ?case
    unfolding str_contains.simps starts_with_iff
    by (metis append_Cons append_Nil list.exhaust list.inject)
qed

section \<open>Vectors and deques\<close>

text \<open>\<open>Vec::swap_remove(i)\<close>: the removed element, and the vector with its last element at \<open>i\<close>.\<close>

definition swap_remove :: "'a list \<Rightarrow> nat \<Rightarrow> 'a \<times> 'a list" where
  "swap_remove xs i = (xs ! i, butlast (xs[i := last xs]))"

text \<open>\<open>VecDeque::remove(i)\<close>: \<open>None\<close> out of range.\<close>

definition deque_remove :: "'a list \<Rightarrow> nat \<Rightarrow> ('a \<times> 'a list) option" where
  "deque_remove xs i = (if i < length xs then Some (xs ! i, take i xs @ drop (Suc i) xs) else None)"

text \<open>\<open>Iterator::position\<close> and \<open>Iterator::find\<close>.\<close>

fun position :: "('a \<Rightarrow> bool) \<Rightarrow> 'a list \<Rightarrow> nat option" where
  "position p [] = None"
| "position p (x # xs) = (if p x then Some 0 else map_option Suc (position p xs))"

text \<open>\<open>while deque.len() > cap { pop_front() }\<close>.\<close>

fun pop_to_capacity :: "nat \<Rightarrow> 'a list \<Rightarrow> 'a list" where
  "pop_to_capacity c [] = []"
| "pop_to_capacity c (x # xs) = (if length (x # xs) > c then pop_to_capacity c xs else x # xs)"

lemma length_swap_remove [simp]: "length (snd (swap_remove xs i)) = length xs - 1"
  by (simp add: swap_remove_def)

lemma mset_swap_remove:
  assumes "i < length xs"
  shows "add_mset (fst (swap_remove xs i)) (mset (snd (swap_remove xs i))) = mset xs"
proof -
  from assms have ne: "xs \<noteq> []" by auto
  then obtain ys z where xs: "xs = ys @ [z]" by (metis rev_exhaust)
  show ?thesis
  proof (cases "i = length ys")
    case True
    then show ?thesis by (simp add: swap_remove_def xs)
  next
    case False
    with assms xs have i: "i < length ys" by simp
    then have "mset (ys[i := z]) = add_mset z (mset ys - {#ys ! i#})"
      by (simp add: mset_update)
    moreover from i have "ys ! i \<in># mset ys" by simp
    ultimately show ?thesis using i
      by (simp add: swap_remove_def xs list_update_append nth_append)
  qed
qed

lemma position_SomeD: "position p xs = Some i \<Longrightarrow> i < length xs \<and> p (xs ! i) \<and> (\<forall>j<i. \<not> p (xs ! j))"
  by (induction xs arbitrary: i) (auto split: if_splits simp: nth_Cons' less_Suc_eq_0_disj)

lemma position_None_iff: "position p xs = None \<longleftrightarrow> (\<forall>x \<in> set xs. \<not> p x)"
  by (induction xs) auto

lemma pop_to_capacity_eq: "pop_to_capacity c xs = drop (length xs - c) xs"
  by (induction xs) (auto simp: Suc_diff_le)

lemma deque_remove_None_iff [simp]: "deque_remove xs i = None \<longleftrightarrow> length xs \<le> i"
  by (auto simp: deque_remove_def)

lemma deque_remove_split:
  assumes "deque_remove xs i = Some (x, ys)"
  shows "xs = take i xs @ x # drop (Suc i) xs \<and> ys = take i xs @ drop (Suc i) xs"
  using assms by (auto simp: deque_remove_def id_take_nth_drop split: if_splits)

section \<open>Runs of operations\<close>

text \<open>
  Every component is a state with a family of operations. An invariant that each operation
  keeps holds after every run of them; a quantity that no operation decreases is monotone
  along a run.
\<close>

fun admissible :: "('s \<Rightarrow> 'o \<Rightarrow> 's) \<Rightarrow> ('s \<Rightarrow> 'o \<Rightarrow> bool) \<Rightarrow> 's \<Rightarrow> 'o list \<Rightarrow> bool" where
  "admissible step ok s [] = True"
| "admissible step ok s (x # xs) = (ok s x \<and> admissible step ok (step s x) xs)"

lemma admissible_append:
  "admissible step ok s (xs @ ys) \<longleftrightarrow> admissible step ok s xs \<and> admissible step ok (foldl step s xs) ys"
  by (induction xs arbitrary: s) auto

lemma admissible_True [simp]: "admissible step (\<lambda>_ _. True) s xs"
  by (induction xs arbitrary: s) auto

lemma admissible_static [simp]: "admissible step (\<lambda>_. p) s xs \<longleftrightarrow> (\<forall>x \<in> set xs. p x)"
  by (induction xs arbitrary: s) auto

locale preserved_by =
  fixes step :: "'s \<Rightarrow> 'o \<Rightarrow> 's"
    and inv :: "'s \<Rightarrow> bool"
    and ok :: "'s \<Rightarrow> 'o \<Rightarrow> bool"
  assumes step_inv: "inv s \<Longrightarrow> ok s x \<Longrightarrow> inv (step s x)"
begin

lemma run_inv: "inv s \<Longrightarrow> admissible step ok s xs \<Longrightarrow> inv (foldl step s xs)"
  by (induction xs arbitrary: s) (auto intro: step_inv)

lemma run_prefix_inv: "inv s \<Longrightarrow> admissible step ok s (xs @ ys) \<Longrightarrow> inv (foldl step s xs)"
  by (auto simp: admissible_append intro: run_inv)

end

end
