(* ===== verification/Os_Text.thy ===== *)
theory Os_Text
  imports Prelude "HOL-Library.Char_ord"
begin

text \<open>
  What the supervisor uses of the standard library's text and paths: \<open>str::lines\<close> and
  \<open>str::trim\<close>, the UTF-8 readings of an operating-system string (\<open>Path::to_str\<close>,
  \<open>to_string_lossy\<close>, \<open>String::from_utf8_lossy\<close>), and the ancestors and the extension of a Unix
  path. A text is the list of its bytes.
\<close>

section \<open>Lines and white space\<close>

fun split_lines :: "string \<Rightarrow> string list" where
  "split_lines [] = []"
| "split_lines (c # s) =
     (if c = CHR 0x0A then [] # split_lines s
      else case split_lines s of [] \<Rightarrow> [[c]] | l # ls \<Rightarrow> (c # l) # ls)"

text \<open>\<open>lines\<close> also drops a carriage return before the line feed.\<close>

definition strip_cr :: "string \<Rightarrow> string" where
  "strip_cr l = (if l \<noteq> [] \<and> last l = CHR 0x0D then butlast l else l)"

text \<open>
  The last line keeps its carriage return when no line feed follows it.
\<close>

definition lines :: "string \<Rightarrow> string list" where
  "lines s =
     (if s = [] \<or> last s = CHR 0x0A then List.map strip_cr (split_lines s)
      else List.map strip_cr (butlast (split_lines s)) @ [last (split_lines s)])"

text \<open>The encodings of the characters with the property \<open>White_Space\<close>.\<close>

definition white_space :: "string list" where
  "white_space =
     List.map (\<lambda>n. [char_of (n :: nat)]) [0x09 ..< 0x0E] @ [[CHR 0x20]] @
     [[CHR 0xC2, CHR 0x85], [CHR 0xC2, CHR 0xA0], [CHR 0xE1, CHR 0x9A, CHR 0x80]] @
     List.map (\<lambda>n. [CHR 0xE2, CHR 0x80, char_of (n :: nat)]) [0x80 ..< 0x8B] @
     [[CHR 0xE2, CHR 0x80, CHR 0xA8], [CHR 0xE2, CHR 0x80, CHR 0xA9], [CHR 0xE2, CHR 0x80, CHR 0xAF],
      [CHR 0xE2, CHR 0x81, CHR 0x9F], [CHR 0xE3, CHR 0x80, CHR 0x80]]"

text \<open>\<open>strip_prefixes ps s\<close> drops members of \<open>ps\<close> from the front of \<open>s\<close> while there is one.\<close>

function strip_prefixes :: "string list \<Rightarrow> string \<Rightarrow> string" where
  "strip_prefixes ps s =
     (case List.find (\<lambda>p. p \<noteq> [] \<and> starts_with s p) ps of
        None \<Rightarrow> s
      | Some p \<Rightarrow> strip_prefixes ps (drop (length p) s))"
  by pat_completeness auto
termination
proof (relation "measure (\<lambda>(ps, s). length s)")
  fix ps :: "string list" and s p
  assume "List.find (\<lambda>p. p \<noteq> [] \<and> starts_with s p) ps = Some p"
  then have "p \<noteq> []" "starts_with s p" by (auto simp: find_Some_iff)
  then have "0 < length p" "0 < length s" by (auto simp: starts_with_def)
  then show "((ps, drop (length p) s), (ps, s)) \<in> measure (\<lambda>(ps, s). length s)" by simp
qed simp

declare strip_prefixes.simps [simp del]

definition trim :: "string \<Rightarrow> string" where
  "trim s =
     rev (strip_prefixes (List.map rev white_space) (rev (strip_prefixes white_space s)))"

section \<open>UTF-8\<close>

definition in_range :: "nat \<Rightarrow> nat \<Rightarrow> char \<Rightarrow> bool" where
  "in_range a b c = (a \<le> of_char c \<and> of_char c \<le> b)"

text \<open>
  \<open>utf8_head s\<close> reads the front of a nonempty text: a character of \<open>n\<close> bytes (\<open>Inr n\<close>), or an
  invalid sequence of \<open>n\<close> bytes that is replaced as one (\<open>Inl n\<close>).
\<close>

definition second_ok :: "char \<Rightarrow> char \<Rightarrow> bool" where
  "second_ok a b =
     (if a = CHR 0xE0 then in_range 0xA0 0xBF b
      else if a = CHR 0xED then in_range 0x80 0x9F b
      else if a = CHR 0xF0 then in_range 0x90 0xBF b
      else if a = CHR 0xF4 then in_range 0x80 0x8F b
      else in_range 0x80 0xBF b)"

definition utf8_width :: "char \<Rightarrow> nat" where
  "utf8_width a =
     (if in_range 0 0x7F a then 1 else if in_range 0xC2 0xDF a then 2
      else if in_range 0xE0 0xEF a then 3 else if in_range 0xF0 0xF4 a then 4 else 0)"

fun continued :: "nat \<Rightarrow> nat \<Rightarrow> string \<Rightarrow> nat + nat" where
  "continued seen 0 s = Inr seen"
| "continued seen (Suc k) [] = Inl seen"
| "continued seen (Suc k) (c # s) =
     (if in_range 0x80 0xBF c then continued (Suc seen) k s else Inl seen)"

fun utf8_head :: "string \<Rightarrow> nat + nat" where
  "utf8_head [] = Inl 0"
| "utf8_head (a # s) =
     (if utf8_width a = 0 then Inl 1
      else if utf8_width a = 1 then Inr 1
      else case s of
             [] \<Rightarrow> Inl 1
           | b # t \<Rightarrow> if second_ok a b then continued 2 (utf8_width a - 2) t else Inl 1)"

lemma continued_ge: "seen \<le> (case continued seen k s of Inl n \<Rightarrow> n | Inr n \<Rightarrow> n)"
  by (induction seen k s rule: continued.induct) (auto split: sum.splits)

lemma utf8_head_positive:
  "s \<noteq> [] \<Longrightarrow> 0 < (case utf8_head s of Inl n \<Rightarrow> n | Inr n \<Rightarrow> n)"
proof (cases s)
  case (Cons a t)
  then show ?thesis
    using continued_ge [of 2 "utf8_width a - 2" "tl t"]
    by (cases t) (auto split: sum.splits)
qed simp

lemma utf8_head_drop:
  "utf8_head s = Inr n \<Longrightarrow> length (drop n s) < length s"
  "s \<noteq> [] \<Longrightarrow> utf8_head s = Inl n \<Longrightarrow> length (drop n s) < length s"
  using utf8_head_positive [of s] by (cases "s = []"; auto)+

text \<open>\<open>from_utf8_lossy\<close>: every invalid sequence becomes U+FFFD.\<close>

function lossy :: "string \<Rightarrow> string" where
  "lossy s =
     (if s = [] then []
      else case utf8_head s of
             Inr n \<Rightarrow> take n s @ lossy (drop n s)
           | Inl n \<Rightarrow> [CHR 0xEF, CHR 0xBF, CHR 0xBD] @ lossy (drop n s))"
  by pat_completeness auto
termination
  by (relation "measure length") (simp_all add: utf8_head_drop del: utf8_head.simps length_drop)

declare lossy.simps [simp del]

function utf8_valid :: "string \<Rightarrow> bool" where
  "utf8_valid s =
     (s = [] \<or> (case utf8_head s of Inr n \<Rightarrow> utf8_valid (drop n s) | Inl n \<Rightarrow> False))"
  by pat_completeness auto
termination
  by (relation "measure length") (simp_all add: utf8_head_drop del: utf8_head.simps length_drop)

declare utf8_valid.simps [simp del]

text \<open>\<open>Path::to_str\<close>.\<close>

definition to_str :: "string \<Rightarrow> string option" where
  "to_str p = (if utf8_valid p then Some p else None)"

text \<open>A text that is valid UTF-8 is read unchanged.\<close>

lemma lossy_valid: "utf8_valid s \<Longrightarrow> lossy s = s"
proof (induction s rule: utf8_valid.induct)
  case (1 s)
  show ?case
  proof (cases "s = []")
    case True
    then show ?thesis by (simp add: lossy.simps)
  next
    case False
    with 1(2) obtain n where n: "utf8_head s = Inr n" "utf8_valid (drop n s)"
      unfolding utf8_valid.simps [of s] by (auto split: sum.splits simp del: utf8_head.simps)
    from 1(1) [OF n] have "lossy (drop n s) = drop n s" .
    with n(1) False show ?thesis
      unfolding lossy.simps [of s] by (simp del: utf8_head.simps)
  qed
qed

section \<open>Paths\<close>

text \<open>
  A path is read from its end: \<open>body_start\<close> is the length of the root or of a leading current
  directory, which stay; empty and \<open>.\<close> components are skipped.
\<close>

definition body_start :: "string \<Rightarrow> nat" where
  "body_start p =
     (if starts_with p ''/'' then 1 else if p = ''.'' \<or> starts_with p ''./'' then 1 else 0)"

definition last_component :: "nat \<Rightarrow> string \<Rightarrow> string" where
  "last_component n p = rev (takeWhile (\<lambda>c. c \<noteq> CHR ''/'') (rev (drop n p)))"

definition last_size :: "nat \<Rightarrow> string \<Rightarrow> nat" where
  "last_size n p =
     length (last_component n p) + (if CHR ''/'' \<in> set (drop n p) then 1 else 0)"

lemma last_size_positive: "n < length p \<Longrightarrow> 0 < last_size n p"
proof -
  assume "n < length p"
  then obtain c s where cs: "rev (drop n p) = c # s"
    by (metis drop_eq_Nil leD neq_Nil_conv rev_is_Nil_conv)
  then have "c \<in> set (drop n p)"
    by (metis list.set_intros(1) set_rev)
  then show ?thesis
    by (auto simp: last_size_def last_component_def cs)
qed

function trim_body :: "nat \<Rightarrow> string \<Rightarrow> string" where
  "trim_body n p =
     (if length p \<le> n then p
      else if last_component n p \<in> {[], ''.''}
      then trim_body n (take (length p - last_size n p) p)
      else p)"
  by pat_completeness auto
termination
proof (relation "measure (\<lambda>(n, p). length p)")
  fix n :: nat and p :: string
  assume "\<not> length p \<le> n"
  then have "0 < last_size n p" "0 < length p" by (auto intro: last_size_positive)
  then show "((n, take (length p - last_size n p) p), (n, p)) \<in> measure (\<lambda>(n, p). length p)"
    by simp
qed simp

declare trim_body.simps [simp del]

definition parent :: "string \<Rightarrow> string option" where
  "parent p =
     (let n = body_start p; q = trim_body n p
      in if n < length q then Some (trim_body n (take (length q - last_size n q) q))
         else if n = 1 \<and> \<not> starts_with p ''/'' then Some [] else None)"

definition file_name :: "string \<Rightarrow> string option" where
  "file_name p =
     (let n = body_start p; q = trim_body n p; c = last_component n q
      in if n < length q \<and> c \<noteq> ''..'' then Some c else None)"

text \<open>The part after the last dot of the file name, unless the name starts with its only dot.\<close>

definition extension :: "string \<Rightarrow> string option" where
  "extension p =
     Option.bind (file_name p)
       (\<lambda>f. let after = rev (takeWhile (\<lambda>c. c \<noteq> CHR ''.'') (rev f))
            in if length after = length f \<or> length after + 1 = length f then None else Some after)"

lemma length_trim_body: "length (trim_body n p) \<le> length p"
proof (induction n p rule: trim_body.induct)
  case (1 n p)
  show ?case
  proof (cases "length p \<le> n \<or> last_component n p \<notin> {[], ''.''}")
    case True
    then show ?thesis by (subst trim_body.simps) auto
  next
    case False
    with 1 have "length (trim_body n (take (length p - last_size n p) p))
        \<le> length (take (length p - last_size n p) p)"
      by blast
    with False show ?thesis by (subst trim_body.simps) simp
  qed
qed

lemma body_start_nonempty: "body_start p = 1 \<Longrightarrow> p \<noteq> []"
  by (cases p) (simp_all add: body_start_def starts_with_def)

lemma shorter_without_last:
  assumes "n < length t"
  shows "length (trim_body n (take (length t - last_size n t) t)) < length t"
proof -
  have "length (take (length t - last_size n t) t) < length t"
    using assms last_size_positive [OF assms] by simp
  with length_trim_body [of n "take (length t - last_size n t) t"] show ?thesis
    by (rule le_less_trans)
qed

lemma parent_shorter:
  assumes "parent p = Some q"
  shows "length q < length p"
proof (cases "body_start p < length (trim_body (body_start p) p)")
  case True
  with assms have "length q < length (trim_body (body_start p) p)"
    unfolding parent_def Let_def using shorter_without_last [OF True] by (metis option.inject)
  also have "\<dots> \<le> length p" by (rule length_trim_body)
  finally show ?thesis .
next
  case False
  with assms have "q = [] \<and> body_start p = 1"
    unfolding parent_def Let_def by (metis option.distinct(1) option.inject)
  with body_start_nonempty [of p] show ?thesis by simp
qed

text \<open>\<open>Path::join\<close> inserts one separator; an absolute second path replaces the first.\<close>

definition path_join :: "string \<Rightarrow> string \<Rightarrow> string" where
  "path_join p q =
     (if starts_with q ''/'' then q else if p = [] \<or> ends_with p ''/'' then p @ q else p @ ''/'' @ q)"

text \<open>\<open>Path::ancestors\<close>: the path itself, its parent, and so on.\<close>

function ancestors :: "string \<Rightarrow> string list" where
  "ancestors p = p # (case parent p of None \<Rightarrow> [] | Some q \<Rightarrow> ancestors q)"
  by pat_completeness auto
termination
  by (relation "measure length") (simp_all add: parent_shorter)

declare ancestors.simps [simp del]

section \<open>Plain texts\<close>

text \<open>A text of seven-bit characters is valid UTF-8; one without white space at its ends is its own trim.\<close>

lemma strip_prefixes_none: "s = [] \<or> hd s \<notin> hd ` set ps \<Longrightarrow> strip_prefixes ps s = s"
  by (subst strip_prefixes.simps)
     (force simp: find_None_iff starts_with_iff split: option.split dest!: find_Some_iff [THEN iffD1] nth_mem)

definition ascii :: "string \<Rightarrow> bool" where
  "ascii s \<longleftrightarrow> list_all (\<lambda>c. \<not> digit7 c) s"

lemma ascii_range: "\<not> digit7 c \<Longrightarrow> in_range 0 127 c"
  by (cases c) (auto simp: in_range_def of_char_def)

lemma ascii_valid: "ascii s \<Longrightarrow> utf8_valid s"
proof (induction s)
  case Nil
  then show ?case by (simp add: utf8_valid.simps)
next
  case (Cons c s)
  then have "utf8_width c = 1" by (simp add: ascii_def utf8_width_def ascii_range)
  with Cons show ?case by (subst utf8_valid.simps) (simp add: ascii_def)
qed

lemma text_trim:
  assumes "s = [] \<or> (hd s \<notin> hd ` set white_space \<and> last s \<notin> last ` set white_space)"
  shows "trim s = s"
proof -
  have "hd ` set (List.map rev white_space) = last ` set white_space"
    by (auto simp: hd_rev image_iff)
  with assms show ?thesis
    by (auto simp: trim_def strip_prefixes_none hd_rev)
qed

end
