(* ===== verification/Supervisor.thy ===== *)
theory Supervisor
  imports Os_Text
begin

text \<open>
  GUI and daemon supervision (\<open>src/supervisor/src/lib.rs\<close>): the process operations and their
  implementation by commands, the initialisation with its three waiting loops, one check of the
  monitor, and the monitor loop. The operating system is a parameter: an opaque world that each
  operation reads and changes. Every call of a process operation is recorded with its answer,
  so that properties can speak of what was observed before what was done. Times are
  milliseconds; a path is the list of its bytes.
\<close>

section \<open>Data\<close>

record SupervisorConfig =
  standalone_codex :: string
  daemon_socket :: string  \<comment> \<open>\<open>socket_path\<close>\<close>
  gui_executable :: string
  restart_gui_on_initialize :: bool
  startup_timeout :: nat
  graceful_quit_timeout :: nat
  monitor_interval :: nat

text \<open>\<open>home\<close> is the value of \<open>HOME\<close>, if it is set.\<close>

definition default_supervisor_config :: "string option \<Rightarrow> SupervisorConfig" where
  "default_supervisor_config home =
     (let h = unwrap_or home ''/var/empty''
      in \<lparr>standalone_codex = path_join h ''.codex/packages/standalone/current/codex'',
          daemon_socket = path_join h ''.codex/app-server-control/app-server-control.sock'',
          gui_executable = ''/Applications/ChatGPT.app/Contents/MacOS/ChatGPT'',
          restart_gui_on_initialize = True, startup_timeout = 10 * 1000,
          graceful_quit_timeout = 8 * 1000, monitor_interval = 5 * 1000\<rparr>)"

datatype DaemonOwnership = Attached | Started

record SupervisionState =
  daemon_ownership :: DaemonOwnership
  daemon_version :: string
  state_gui_attached :: bool
  daemon_left_running :: bool

datatype MonitorEvent =
  Healthy | DaemonRestarted | GuiRestarted | Incompatible string | MonitorUserActionRequired string

datatype SupervisorError =
    MissingStandalone string
  | MissingGui string
  | DaemonCommand string
  | IncompatibleVersion string
  | AttachmentUnverified string
  | UserActionRequired string
  | Inspection string

record CommandOutput =
  success :: bool
  stdout :: string
  stderr :: string

section \<open>The process operations\<close>

text \<open>The trait \<open>ProcessOps\<close>, and the clock of the runtime.\<close>

record 'w ProcessOps =
  op_exists :: "string \<Rightarrow> 'w \<Rightarrow> bool \<times> 'w"
  op_ps_environment :: "'w \<Rightarrow> (string + string) \<times> 'w"
  op_socket_users :: "string \<Rightarrow> 'w \<Rightarrow> (string + string) \<times> 'w"
  op_output :: "string \<Rightarrow> string list \<Rightarrow> 'w \<Rightarrow> (string + CommandOutput) \<times> 'w"
  op_spawn :: "string \<Rightarrow> string list \<Rightarrow> (string \<times> string) list \<Rightarrow> 'w \<Rightarrow> (string + unit) \<times> 'w"
  op_graceful_quit :: "'w \<Rightarrow> (string + unit) \<times> 'w"
  op_now :: "'w \<Rightarrow> nat"
  op_sleep :: "nat \<Rightarrow> 'w \<Rightarrow> 'w"

text \<open>What the runtime documents of its clock: it is monotonic, and a sleep lasts.\<close>

definition clock_laws :: "'w ProcessOps \<Rightarrow> bool" where
  "clock_laws X \<longleftrightarrow>
     (\<forall>p w. op_now X w \<le> op_now X (snd (op_exists X p w))) \<and>
     (\<forall>w. op_now X w \<le> op_now X (snd (op_ps_environment X w))) \<and>
     (\<forall>p w. op_now X w \<le> op_now X (snd (op_socket_users X p w))) \<and>
     (\<forall>p a w. op_now X w \<le> op_now X (snd (op_output X p a w))) \<and>
     (\<forall>d w. op_now X w + d \<le> op_now X (op_sleep X d w))"

text \<open>A call with the answer it got.\<close>

datatype Call =
    Exists string bool
  | Ps "string + string"
  | SocketUsers string "string + string"
  | Output string "string list" "string + CommandOutput"
  | Spawn string "string list" "(string \<times> string) list" "string + unit"
  | GracefulQuit "string + unit"

record 'w host =
  world :: 'w
  calls :: "Call list"

definition exists_path :: "'w ProcessOps \<Rightarrow> string \<Rightarrow> 'w host \<Rightarrow> bool \<times> 'w host" where
  "exists_path X p h =
     (case op_exists X p (world h) of (r, w) \<Rightarrow> (r, \<lparr>world = w, calls = calls h @ [Exists p r]\<rparr>))"

definition ps_environment :: "'w ProcessOps \<Rightarrow> 'w host \<Rightarrow> (string + string) \<times> 'w host" where
  "ps_environment X h =
     (case op_ps_environment X (world h) of (r, w) \<Rightarrow> (r, \<lparr>world = w, calls = calls h @ [Ps r]\<rparr>))"

definition socket_users :: "'w ProcessOps \<Rightarrow> string \<Rightarrow> 'w host \<Rightarrow> (string + string) \<times> 'w host" where
  "socket_users X p h =
     (case op_socket_users X p (world h) of
        (r, w) \<Rightarrow> (r, \<lparr>world = w, calls = calls h @ [SocketUsers p r]\<rparr>))"

definition run_output ::
    "'w ProcessOps \<Rightarrow> string \<Rightarrow> string list \<Rightarrow> 'w host \<Rightarrow> (string + CommandOutput) \<times> 'w host" where
  "run_output X p a h =
     (case op_output X p a (world h) of
        (r, w) \<Rightarrow> (r, \<lparr>world = w, calls = calls h @ [Output p a r]\<rparr>))"

definition spawn_process ::
    "'w ProcessOps \<Rightarrow> string \<Rightarrow> string list \<Rightarrow> (string \<times> string) list \<Rightarrow> 'w host \<Rightarrow>
     (string + unit) \<times> 'w host" where
  "spawn_process X p a env h =
     (case op_spawn X p a env (world h) of
        (r, w) \<Rightarrow> (r, \<lparr>world = w, calls = calls h @ [Spawn p a env r]\<rparr>))"

definition graceful_quit_chatgpt :: "'w ProcessOps \<Rightarrow> 'w host \<Rightarrow> (string + unit) \<times> 'w host" where
  "graceful_quit_chatgpt X h =
     (case op_graceful_quit X (world h) of
        (r, w) \<Rightarrow> (r, \<lparr>world = w, calls = calls h @ [GracefulQuit r]\<rparr>))"

definition now :: "'w ProcessOps \<Rightarrow> 'w host \<Rightarrow> nat" where
  "now X h = op_now X (world h)"

definition sleep :: "'w ProcessOps \<Rightarrow> nat \<Rightarrow> 'w host \<Rightarrow> 'w host" where
  "sleep X d h = h\<lparr>world := op_sleep X d (world h)\<rparr>"

lemmas process_call_defs =
  exists_path_def ps_environment_def socket_users_def run_output_def spawn_process_def
  graceful_quit_chatgpt_def

section \<open>Reading listings\<close>

definition application_bundle :: "string \<Rightarrow> string" where
  "application_bundle e =
     unwrap_or (List.find (\<lambda>p. is_some_and (extension p) (\<lambda>x. x = ''app'')) (ancestors e)) e"

definition has_managed_daemon :: "string \<Rightarrow> string \<Rightarrow> bool" where
  "has_managed_daemon processes codex =
     list_ex (\<lambda>l. str_contains l (lossy codex) \<and> str_contains l ''app-server'' \<and>
                  (str_contains l ''daemon'' \<or> str_contains l ''--listen unix://''))
       (lines processes)"

definition gui_running :: "string \<Rightarrow> string \<Rightarrow> bool" where
  "gui_running processes gui = list_ex (\<lambda>l. str_contains l (lossy gui)) (lines processes)"

definition gui_mode_enabled :: "string \<Rightarrow> string \<Rightarrow> bool" where
  "gui_mode_enabled processes gui =
     list_ex (\<lambda>l. str_contains l (lossy gui) \<and>
                  str_contains l ''CODEX_APP_SERVER_USE_LOCAL_DAEMON=1'' \<and>
                  \<not> str_contains l ''CODEX_APP_SERVER_FORCE_CLI=1'' \<and>
                  \<not> str_contains l ''CODEX_CLI_PATH='')
       (lines processes)"

definition has_accepted_socket_connection :: "string \<Rightarrow> bool" where
  "has_accepted_socket_connection users =
     (1 < length (filter (\<lambda>l. trim l \<noteq> [] \<and> \<not> starts_with (trim l) ''COMMAND'') (lines users)))"

text \<open>A GUI in daemon mode is a running GUI.\<close>

lemma gui_mode_running: "gui_mode_enabled ps gui \<Longrightarrow> gui_running ps gui"
  by (auto simp: gui_mode_enabled_def gui_running_def list_ex_iff)

section \<open>The operations of the supervisor\<close>

definition launch_gui :: "'w ProcessOps \<Rightarrow> SupervisorConfig \<Rightarrow> 'w host \<Rightarrow> (string + unit) \<times> 'w host" where
  "launch_gui X cfg h =
     (case to_str (application_bundle (gui_executable cfg)) of
        None \<Rightarrow> (Inl ''ChatGPT application path is not valid UTF-8'', h)
      | Some application \<Rightarrow>
          spawn_process X ''/usr/bin/open'' [''-a'', application]
            [(''CODEX_APP_SERVER_USE_LOCAL_DAEMON'', ''1''), (''CODEX_APP_SERVER_FORCE_CLI'', ''0'')] h)"

definition start_daemon :: "'w ProcessOps \<Rightarrow> SupervisorConfig \<Rightarrow> 'w host \<Rightarrow> (string + unit) \<times> 'w host" where
  "start_daemon X cfg h =
     spawn_process X (standalone_codex cfg) [''app-server'', ''daemon'', ''start''] [] h"

definition probe_version ::
    "'w ProcessOps \<Rightarrow> SupervisorConfig \<Rightarrow> 'w host \<Rightarrow> (string + CommandOutput) \<times> 'w host" where
  "probe_version X cfg h = run_output X (standalone_codex cfg) [''app-server'', ''daemon'', ''version''] h"

definition gui_attached ::
    "'w ProcessOps \<Rightarrow> SupervisorConfig \<Rightarrow> string \<Rightarrow> 'w host \<Rightarrow> bool \<times> 'w host" where
  "gui_attached X cfg processes h =
     (if \<not> gui_mode_enabled processes (gui_executable cfg) then (False, h)
      else case socket_users X (daemon_socket cfg) h of
             (Inl e, h1) \<Rightarrow> (False, h1)
           | (Inr users, h1) \<Rightarrow> (has_accepted_socket_connection users, h1))"

text \<open>
  The waiting loops. Each ends when its clock passes the deadline; a loop that never ends is
  \<open>None\<close>.
\<close>

type_synonym ('w, 'a) action = "'w host \<Rightarrow> ((SupervisorError + 'a) \<times> 'w host) option"

partial_function (option) version_loop ::
    "'w ProcessOps \<Rightarrow> SupervisorConfig \<Rightarrow> nat \<Rightarrow> string \<Rightarrow> 'w host \<Rightarrow>
     ((SupervisorError + string) \<times> 'w host) option" where
  "version_loop X cfg deadline detail h =
     (if now X h < deadline
      then (case probe_version X cfg h of
              (Inr out, h1) \<Rightarrow>
                if success out \<and> stdout out \<noteq> [] then Some (Inr (stdout out), h1)
                else version_loop X cfg deadline (if stderr out = [] then stdout out else stderr out)
                       (sleep X 100 h1)
            | (Inl error, h1) \<Rightarrow> version_loop X cfg deadline error (sleep X 100 h1))
      else Some (Inl (IncompatibleVersion detail), h))"

definition wait_for_daemon_version :: "'w ProcessOps \<Rightarrow> SupervisorConfig \<Rightarrow> ('w, string) action" where
  "wait_for_daemon_version X cfg h = version_loop X cfg (now X h + startup_timeout cfg) [] h"

partial_function (option) attachment_loop ::
    "'w ProcessOps \<Rightarrow> SupervisorConfig \<Rightarrow> nat \<Rightarrow> 'w host \<Rightarrow>
     ((SupervisorError + unit) \<times> 'w host) option" where
  "attachment_loop X cfg deadline h =
     (if now X h < deadline
      then (case ps_environment X h of
              (Inl e, h1) \<Rightarrow> Some (Inl (Inspection e), h1)
            | (Inr processes, h1) \<Rightarrow>
                (case gui_attached X cfg processes h1 of
                   (attached, h2) \<Rightarrow>
                     if attached then Some (Inr (), h2)
                     else attachment_loop X cfg deadline (sleep X 100 h2)))
      else Some (Inl (AttachmentUnverified
             ''ChatGPT did not establish an accepted connection to the managed daemon within the startup timeout''), h))"

definition wait_for_gui_attachment :: "'w ProcessOps \<Rightarrow> SupervisorConfig \<Rightarrow> ('w, unit) action" where
  "wait_for_gui_attachment X cfg h = attachment_loop X cfg (now X h + startup_timeout cfg) h"

partial_function (option) quit_loop ::
    "'w ProcessOps \<Rightarrow> SupervisorConfig \<Rightarrow> nat \<Rightarrow> string \<Rightarrow> 'w host \<Rightarrow>
     ((SupervisorError + string) \<times> 'w host) option" where
  "quit_loop X cfg deadline processes h =
     (if now X h < deadline
      then (case ps_environment X (sleep X 100 h) of
              (Inl e, h1) \<Rightarrow> Some (Inl (Inspection e), h1)
            | (Inr ps, h1) \<Rightarrow>
                if gui_running ps (gui_executable cfg) then quit_loop X cfg deadline ps h1
                else Some (Inr ps, h1))
      else Some (Inr processes, h))"

declare version_loop.simps [code] attachment_loop.simps [code] quit_loop.simps [code]

text \<open>The operator \<open>?\<close>, and \<open>map_err\<close> on a call.\<close>

definition and_then :: "('w, 'a) action \<Rightarrow> ('a \<Rightarrow> ('w, 'b) action) \<Rightarrow> ('w, 'b) action" where
  "and_then m k h =
     (case m h of
        None \<Rightarrow> None
      | Some (Inl e, h1) \<Rightarrow> Some (Inl e, h1)
      | Some (Inr a, h1) \<Rightarrow> k a h1)"

definition map_err ::
    "(string \<Rightarrow> SupervisorError) \<Rightarrow> ('w host \<Rightarrow> (string + 'a) \<times> 'w host) \<Rightarrow> ('w, 'a) action" where
  "map_err f m h = (case m h of (Inl e, h1) \<Rightarrow> Some (Inl (f e), h1) | (Inr a, h1) \<Rightarrow> Some (Inr a, h1))"

definition ok :: "'a \<Rightarrow> ('w, 'a) action" where
  "ok a h = Some (Inr a, h)"

definition err :: "SupervisorError \<Rightarrow> ('w, 'a) action" where
  "err e h = Some (Inl e, h)"

definition infallible :: "('w host \<Rightarrow> 'a \<times> 'w host) \<Rightarrow> ('w, 'a) action" where
  "infallible m h = (case m h of (a, h1) \<Rightarrow> Some (Inr a, h1))"

definition require_path :: "'w ProcessOps \<Rightarrow> string \<Rightarrow> SupervisorError \<Rightarrow> ('w, unit) action" where
  "require_path X p e =
     and_then (infallible (exists_path X p)) (\<lambda>found. if \<not> found then err e else ok ())"

definition claim_daemon :: "'w ProcessOps \<Rightarrow> SupervisorConfig \<Rightarrow> string \<Rightarrow> ('w, DaemonOwnership) action" where
  "claim_daemon X cfg processes =
     (if has_managed_daemon processes (standalone_codex cfg) then ok Attached
      else and_then (map_err DaemonCommand (start_daemon X cfg)) (\<lambda>_. ok Started))"

definition quit_gui :: "'w ProcessOps \<Rightarrow> SupervisorConfig \<Rightarrow> string \<Rightarrow> ('w, unit) action" where
  "quit_gui X cfg processes =
     (if gui_running processes (gui_executable cfg)
      then and_then (map_err UserActionRequired (graceful_quit_chatgpt X)) (\<lambda>_.
           and_then (\<lambda>h. quit_loop X cfg (now X h + graceful_quit_timeout cfg) processes h) (\<lambda>ps.
           if gui_running ps (gui_executable cfg)
           then err (UserActionRequired
                  ''ChatGPT ignored graceful quit; quit it manually. It was not force-killed.'')
           else ok ()))
      else ok ())"

definition needs_launch :: "'w ProcessOps \<Rightarrow> SupervisorConfig \<Rightarrow> string \<Rightarrow> 'w host \<Rightarrow> bool \<times> 'w host" where
  "needs_launch X cfg processes h =
     (if restart_gui_on_initialize cfg then (True, h)
      else case gui_attached X cfg processes h of (attached, h1) \<Rightarrow> (\<not> attached, h1))"

definition ensure_gui :: "'w ProcessOps \<Rightarrow> SupervisorConfig \<Rightarrow> ('w, unit) action" where
  "ensure_gui X cfg =
     and_then (map_err Inspection (ps_environment X)) (\<lambda>processes.
     and_then (infallible (needs_launch X cfg processes)) (\<lambda>needed.
     if needed
     then and_then (quit_gui X cfg processes) (\<lambda>_.
          and_then (map_err UserActionRequired (launch_gui X cfg)) (\<lambda>_.
          wait_for_gui_attachment X cfg))
     else ok ()))"

definition initialize :: "'w ProcessOps \<Rightarrow> SupervisorConfig \<Rightarrow> ('w, SupervisionState) action" where
  "initialize X cfg =
     and_then (require_path X (standalone_codex cfg) (MissingStandalone (standalone_codex cfg))) (\<lambda>_.
     and_then (require_path X (gui_executable cfg) (MissingGui (gui_executable cfg))) (\<lambda>_.
     and_then (map_err Inspection (ps_environment X)) (\<lambda>processes.
     and_then (claim_daemon X cfg processes) (\<lambda>ownership.
     and_then (wait_for_daemon_version X cfg) (\<lambda>version.
     and_then (ensure_gui X cfg) (\<lambda>_.
     ok \<lparr>daemon_ownership = ownership, daemon_version = version, state_gui_attached = True,
         daemon_left_running = True\<rparr>))))))"

definition check :: "'w ProcessOps \<Rightarrow> SupervisorConfig \<Rightarrow> 'w host \<Rightarrow> MonitorEvent \<times> 'w host" where
  "check X cfg h =
     (case ps_environment X h of
        (Inl _, h1) \<Rightarrow> (MonitorUserActionRequired ''cannot inspect processes'', h1)
      | (Inr processes, h1) \<Rightarrow>
          if \<not> has_managed_daemon processes (standalone_codex cfg)
          then (case start_daemon X cfg h1 of
                  (Inr _, h2) \<Rightarrow> (DaemonRestarted, h2)
                | (Inl error, h2) \<Rightarrow> (MonitorUserActionRequired error, h2))
          else (case probe_version X cfg h1 of
                  (Inl error, h2) \<Rightarrow> (Incompatible error, h2)
                | (Inr out, h2) \<Rightarrow>
                    if \<not> success out then (Incompatible (stderr out), h2)
                    else (case gui_attached X cfg processes h2 of
                            (attached, h3) \<Rightarrow>
                              if attached then (Healthy, h3)
                              else if gui_running processes (gui_executable cfg)
                              then (MonitorUserActionRequired
                                      ''ChatGPT is not attached to the shared daemon'', h3)
                              else (case launch_gui X cfg h3 of
                                      (Inr _, h4) \<Rightarrow> (GuiRestarted, h4)
                                    | (Inl error, h4) \<Rightarrow> (MonitorUserActionRequired error, h4)))))"

text \<open>
  The monitor: the shutdown signal is polled first; \<open>None\<close> is a dropped sender. A tick is one
  interval slept and one check made. A change of the signal to \<open>false\<close> only restarts the
  interval.
\<close>

datatype MonitorInput = ShutdownChanged "bool option" | MonitorTick

record 'w Monitor =
  monitoring :: bool
  host :: "'w host"
  sent :: "MonitorEvent list"

definition start_monitor :: "'w host \<Rightarrow> 'w Monitor" where
  "start_monitor h = \<lparr>monitoring = True, host = h, sent = []\<rparr>"

definition monitor_step :: "'w ProcessOps \<Rightarrow> SupervisorConfig \<Rightarrow> 'w Monitor \<Rightarrow> MonitorInput \<Rightarrow> 'w Monitor" where
  "monitor_step X cfg m i =
     (if \<not> monitoring m then m
      else case i of
             ShutdownChanged v \<Rightarrow> (if v = None \<or> v = Some True then m\<lparr>monitoring := False\<rparr> else m)
           | MonitorTick \<Rightarrow>
               (case check X cfg (sleep X (monitor_interval cfg) (host m)) of
                  (event, h) \<Rightarrow> m\<lparr>host := h, sent := sent m @ [event]\<rparr>))"

definition shutdown_state :: "SupervisionState \<Rightarrow> SupervisionState" where
  "shutdown_state s = s\<lparr>daemon_left_running := True\<rparr>"

section \<open>Reasoning about actions\<close>

text \<open>
  \<open>triple P m Q E\<close>: from a host with \<open>P\<close>, if \<open>m\<close> returns, a value satisfies \<open>Q\<close> and an error
  \<open>E\<close>. \<open>within n m\<close>: \<open>m\<close> returns, and makes at most \<open>n\<close> calls.
\<close>

definition triple ::
    "('w host \<Rightarrow> bool) \<Rightarrow> ('w, 'a) action \<Rightarrow> ('a \<Rightarrow> 'w host \<Rightarrow> bool) \<Rightarrow>
     (SupervisorError \<Rightarrow> 'w host \<Rightarrow> bool) \<Rightarrow> bool" where
  "triple P m Q E \<longleftrightarrow>
     (\<forall>h r h'. P h \<longrightarrow> m h = Some (r, h') \<longrightarrow> (case r of Inl e \<Rightarrow> E e h' | Inr a \<Rightarrow> Q a h'))"

definition within :: "nat \<Rightarrow> ('w, 'a) action \<Rightarrow> bool" where
  "within n m \<longleftrightarrow> (\<forall>h. \<exists>r h'. m h = Some (r, h') \<and> length (calls h') \<le> length (calls h) + n)"

lemma tripleD:
  "triple P m Q E \<Longrightarrow> P h \<Longrightarrow> m h = Some (r, h') \<Longrightarrow> (case r of Inl e \<Rightarrow> E e h' | Inr a \<Rightarrow> Q a h')"
  unfolding triple_def by blast

lemma triple_and_then:
  assumes "triple P m R E" and "\<And>a. triple (R a) (k a) Q E"
  shows "triple P (and_then m k) Q E"
  unfolding triple_def
proof (intro allI impI)
  fix h r h'
  assume P: "P h" and run: "and_then m k h = Some (r, h')"
  then obtain r1 h1 where m: "m h = Some (r1, h1)"
    by (auto simp: and_then_def split: option.splits)
  show "case r of Inl e \<Rightarrow> E e h' | Inr a \<Rightarrow> Q a h'"
  proof (cases r1)
    case (Inl e)
    with m run tripleD [OF assms(1) P m] show ?thesis by (auto simp: and_then_def)
  next
    case (Inr a)
    with m run have "k a h1 = Some (r, h')" by (simp add: and_then_def)
    moreover from Inr tripleD [OF assms(1) P m] have "R a h1" by simp
    ultimately show ?thesis by (rule tripleD [OF assms(2), rotated])
  qed
qed

lemma triple_map_err:
  assumes "\<And>h r h'. P h \<Longrightarrow> m h = (r, h') \<Longrightarrow> (case r of Inl e \<Rightarrow> E (f e) h' | Inr a \<Rightarrow> Q a h')"
  shows "triple P (map_err f m) Q E"
  unfolding triple_def map_err_def
  by (auto split: prod.splits sum.splits dest!: assms)

lemma triple_infallible:
  assumes "\<And>h a h'. P h \<Longrightarrow> m h = (a, h') \<Longrightarrow> Q a h'"
  shows "triple P (infallible m) Q E"
  unfolding triple_def infallible_def by (auto split: prod.splits dest!: assms)

lemma triple_ok: "(\<And>h. P h \<Longrightarrow> Q a h) \<Longrightarrow> triple P (ok a) Q E"
  by (simp add: triple_def ok_def)

lemma triple_err: "(\<And>h. P h \<Longrightarrow> E e h) \<Longrightarrow> triple P (err e) Q E"
  by (simp add: triple_def err_def)

lemma triple_if:
  "(b \<Longrightarrow> triple P m Q E) \<Longrightarrow> (\<not> b \<Longrightarrow> triple P n Q E) \<Longrightarrow> triple P (if b then m else n) Q E"
  by simp

lemma triple_weaken:
  "triple P m Q E \<Longrightarrow> (\<And>h. P' h \<Longrightarrow> P h) \<Longrightarrow> (\<And>a h. Q a h \<Longrightarrow> Q' a h) \<Longrightarrow> triple P' m Q' E"
  unfolding triple_def by (fastforce split: sum.splits)

lemma and_then_Inr_iff:
  "and_then m k h = Some (Inr b, h') \<longleftrightarrow> (\<exists>a h1. m h = Some (Inr a, h1) \<and> k a h1 = Some (Inr b, h'))"
  by (auto simp: and_then_def split: option.splits sum.splits)

lemma map_err_Inr_iff: "map_err f m h = Some (Inr a, h') \<longleftrightarrow> m h = (Inr a, h')"
  by (auto simp: map_err_def split: prod.splits sum.splits)

lemma infallible_iff: "infallible m h = Some (r, h') \<longleftrightarrow> (\<exists>a. r = Inr a \<and> m h = (a, h'))"
  by (auto simp: infallible_def split: prod.splits)

lemma ok_iff: "ok a h = Some (r, h') \<longleftrightarrow> r = Inr a \<and> h' = h"
  by (auto simp: ok_def)

lemma err_iff: "err e h = Some (r, h') \<longleftrightarrow> r = Inl e \<and> h' = h"
  by (auto simp: err_def)

lemmas action_iffs = and_then_Inr_iff map_err_Inr_iff infallible_iff ok_iff err_iff

lemma within_and_then:
  assumes m: "within a m" and k: "\<And>x. within b (k x)"
  shows "within (a + b) (and_then m k)"
  unfolding within_def
proof
  fix h
  from m obtain r1 h1 where m1: "m h = Some (r1, h1)" "length (calls h1) \<le> length (calls h) + a"
    unfolding within_def by blast
  show "\<exists>r h'. and_then m k h = Some (r, h') \<and> length (calls h') \<le> length (calls h) + (a + b)"
  proof (cases r1)
    case (Inl e)
    with m1 show ?thesis by (simp add: and_then_def)
  next
    case (Inr x)
    from k [of x] obtain r h' where "k x h1 = Some (r, h')" "length (calls h') \<le> length (calls h1) + b"
      unfolding within_def by blast
    with m1 Inr show ?thesis by (simp add: and_then_def)
  qed
qed

lemma within_mono: "within a m \<Longrightarrow> a \<le> b \<Longrightarrow> within b m"
  unfolding within_def by (meson add_left_mono le_trans)

lemma within_ok: "within 0 (ok a)" and within_err: "within 0 (err e)"
  by (simp_all add: within_def ok_def err_def)

lemma within_map_err: "(\<And>h. length (calls (snd (m h))) \<le> length (calls h) + n) \<Longrightarrow> within n (map_err f m)"
  unfolding within_def map_err_def
  by (rule allI, rename_tac h, case_tac "fst (m h)") (auto split: prod.splits, (metis snd_conv)+)

lemma within_infallible: "(\<And>h. length (calls (snd (m h))) \<le> length (calls h) + n) \<Longrightarrow> within n (infallible m)"
  unfolding within_def infallible_def by (auto split: prod.splits) (metis snd_conv)

lemma within_if: "within a m \<Longrightarrow> within b n \<Longrightarrow> within (max a b) (if c then m else n)"
  by (auto intro: within_mono)

section \<open>What the calls show\<close>

text \<open>The last listing that was read, unless a later attempt to read one failed.\<close>

fun seen_after :: "string option \<Rightarrow> Call list \<Rightarrow> string option" where
  "seen_after l [] = l"
| "seen_after l (Ps (Inr ps) # cs) = seen_after (Some ps) cs"
| "seen_after l (Ps (Inl e) # cs) = seen_after None cs"
| "seen_after l (_ # cs) = seen_after l cs"

text \<open>
  What may be launched after a listing: the daemon, if the listing shows none; the GUI, with the
  environment of the daemon mode, if the listing does not show it running. A quit is requested
  only of a GUI that the listing shows.
\<close>

fun call_justified :: "SupervisorConfig \<Rightarrow> string option \<Rightarrow> Call \<Rightarrow> bool" where
  "call_justified cfg l (Spawn p a env r) =
     is_some_and l (\<lambda>ps.
       (p = standalone_codex cfg \<and> a = [''app-server'', ''daemon'', ''start''] \<and> env = [] \<and>
          \<not> has_managed_daemon ps (standalone_codex cfg)) \<or>
       (p = ''/usr/bin/open'' \<and> a = [''-a'', application_bundle (gui_executable cfg)] \<and>
          env = [(''CODEX_APP_SERVER_USE_LOCAL_DAEMON'', ''1''), (''CODEX_APP_SERVER_FORCE_CLI'', ''0'')] \<and>
          \<not> gui_running ps (gui_executable cfg)))"
| "call_justified cfg l (GracefulQuit r) = is_some_and l (\<lambda>ps. gui_running ps (gui_executable cfg))"
| "call_justified cfg l _ = True"

fun justified :: "SupervisorConfig \<Rightarrow> string option \<Rightarrow> Call list \<Rightarrow> bool" where
  "justified cfg l [] = True"
| "justified cfg l (c # cs) = (call_justified cfg l c \<and> justified cfg (seen_after l [c]) cs)"

fun quiet :: "Call \<Rightarrow> bool" where
  "quiet (Spawn p a env r) = False"
| "quiet (GracefulQuit r) = False"
| "quiet _ = True"

abbreviation latest :: "'w host \<Rightarrow> string option" where
  "latest h \<equiv> seen_after None (calls h)"

abbreviation log_ok :: "SupervisorConfig \<Rightarrow> 'w host \<Rightarrow> bool" where
  "log_ok cfg h \<equiv> justified cfg None (calls h)"

definition quietly :: "'w host \<Rightarrow> 'w host \<Rightarrow> bool" where
  "quietly h h' \<longleftrightarrow> (\<exists>new. calls h' = calls h @ new \<and> list_all quiet new)"

lemma seen_after_append: "seen_after l (xs @ ys) = seen_after (seen_after l xs) ys"
  by (induction l xs rule: seen_after.induct) auto

lemma seen_after_step: "seen_after (seen_after l [c]) cs = seen_after l (c # cs)"
  using seen_after_append [of l "[c]" cs] by simp

lemma justified_append:
  "justified cfg l (xs @ ys) \<longleftrightarrow> justified cfg l xs \<and> justified cfg (seen_after l xs) ys"
  by (induction xs arbitrary: l) (simp_all add: seen_after_step)

lemma quiet_justified: "list_all quiet cs \<Longrightarrow> justified cfg l cs"
proof (induction cs arbitrary: l)
  case (Cons c cs)
  then show ?case by (cases c) auto
qed simp

lemma quietly_refl [simp]: "quietly h h" "quietly h (h\<lparr>world := w\<rparr>)" "quietly (h\<lparr>world := w\<rparr>) h"
  by (simp_all add: quietly_def)

lemma quietly_trans: "quietly h h1 \<Longrightarrow> quietly h1 h2 \<Longrightarrow> quietly h h2"
  unfolding quietly_def by force

lemma quietly_log_ok: "quietly h h' \<Longrightarrow> log_ok cfg h \<Longrightarrow> log_ok cfg h'"
  by (auto simp: quietly_def justified_append quiet_justified)

text \<open>What each call records.\<close>

lemma exists_path_calls: "exists_path X p h = (r, h') \<Longrightarrow> calls h' = calls h @ [Exists p r]"
  and ps_environment_calls: "ps_environment X h = (l, h') \<Longrightarrow> calls h' = calls h @ [Ps l]"
  and socket_users_calls: "socket_users X p h = (u, h') \<Longrightarrow> calls h' = calls h @ [SocketUsers p u]"
  and run_output_calls: "run_output X p a h = (out, h') \<Longrightarrow> calls h' = calls h @ [Output p a out]"
  and spawn_process_calls:
    "spawn_process X p a env h = (done', h') \<Longrightarrow> calls h' = calls h @ [Spawn p a env done']"
  and graceful_quit_calls: "graceful_quit_chatgpt X h = (q, h') \<Longrightarrow> calls h' = calls h @ [GracefulQuit q]"
  and sleep_calls [simp]: "calls (sleep X d h) = calls h"
  by (auto simp: process_call_defs sleep_def split: prod.splits)

lemmas call_records = exists_path_calls ps_environment_calls socket_users_calls run_output_calls
  spawn_process_calls graceful_quit_calls

lemma quietly_sleep [simp]: "quietly h (sleep X d h')  = quietly h h'" "quietly (sleep X d h) h' = quietly h h'"
  by (simp_all add: quietly_def)

lemma gui_attached_cases:
  assumes "gui_attached X cfg ps h = (a, h')"
  shows "(h' = h \<and> \<not> a \<and> \<not> gui_mode_enabled ps (gui_executable cfg)) \<or>
    (\<exists>u. calls h' = calls h @ [SocketUsers (daemon_socket cfg) u] \<and> gui_mode_enabled ps (gui_executable cfg) \<and>
         (a \<longleftrightarrow> (\<exists>t. u = Inr t \<and> has_accepted_socket_connection t)))"
  using assms
  by (auto simp: gui_attached_def split: if_splits prod.splits sum.splits dest!: socket_users_calls)

lemma gui_attached_quiet:
  assumes "gui_attached X cfg ps h = (a, h')"
  shows "quietly h h' \<and> latest h' = latest h"
  using gui_attached_cases [OF assms] by (auto simp: quietly_def seen_after_append)

lemma needs_launch_quiet:
  "needs_launch X cfg ps h = (a, h') \<Longrightarrow> quietly h h' \<and> latest h' = latest h"
  by (auto simp: needs_launch_def split: if_splits prod.splits dest!: gui_attached_quiet)

lemma probe_quiet: "probe_version X cfg h = (out, h') \<Longrightarrow> quietly h h' \<and> latest h' = latest h"
  by (auto simp: probe_version_def quietly_def seen_after_append dest!: run_output_calls)

lemma ps_quiet: "ps_environment X h = (l, h') \<Longrightarrow> quietly h h'"
  by (auto simp: quietly_def dest!: ps_environment_calls)

lemma ps_latest: "ps_environment X h = (Inr l, h') \<Longrightarrow> latest h' = Some l"
  by (auto simp: seen_after_append dest!: ps_environment_calls)

section \<open>The waiting loops\<close>

abbreviation version_call :: "SupervisorConfig \<Rightarrow> CommandOutput \<Rightarrow> Call" where
  "version_call cfg out \<equiv> Output (standalone_codex cfg) [''app-server'', ''daemon'', ''version''] (Inr out)"

lemma version_loop_result:
  assumes ret: "version_loop X cfg d detail h = Some rh"
  shows "quietly h (snd rh) \<and>
    (\<forall>v. fst rh = Inr v \<longrightarrow>
       (\<exists>out xs. success out \<and> stdout out = v \<and> v \<noteq> [] \<and> calls (snd rh) = calls h @ xs @ [version_call cfg out]))"
proof (rule version_loop.raw_induct [where P = "\<lambda>X cfg d detail h rh. quietly h (snd rh) \<and>
    (\<forall>v. fst rh = Inr v \<longrightarrow>
       (\<exists>out xs. success out \<and> stdout out = v \<and> v \<noteq> [] \<and> calls (snd rh) = calls h @ xs @ [version_call cfg out]))",
    OF _ ret])
  fix loop and X :: "'w ProcessOps" and cfg d detail h rh
  let ?Q = "\<lambda>cfg (h :: 'w host) (rh :: (SupervisorError + string) \<times> 'w host). quietly h (snd rh) \<and>
    (\<forall>v. fst rh = Inr v \<longrightarrow>
       (\<exists>out xs. success out \<and> stdout out = v \<and> v \<noteq> [] \<and> calls (snd rh) = calls h @ xs @ [version_call cfg out]))"
  assume IH: "\<And>X cfg d detail h rh. loop X cfg d detail h = Some rh \<Longrightarrow> ?Q cfg h rh"
    and eq: "(if now X h < d
      then (case probe_version X cfg h of
              (Inr out, h1) \<Rightarrow>
                if success out \<and> stdout out \<noteq> [] then Some (Inr (stdout out), h1)
                else loop X cfg d (if stderr out = [] then stdout out else stderr out) (sleep X 100 h1)
            | (Inl error, h1) \<Rightarrow> loop X cfg d error (sleep X 100 h1))
      else Some (Inl (IncompatibleVersion detail), h)) = Some rh"
  show "?Q cfg h rh"
  proof (cases "now X h < d")
    case False
    with eq show ?thesis by auto
  next
    case True
    obtain o1 h1 where probe: "probe_version X cfg h = (o1, h1)" by fastforce
    then have c1: "calls h1 = calls h @ [Output (standalone_codex cfg) [''app-server'', ''daemon'', ''version''] o1]"
      by (auto simp: probe_version_def dest: run_output_calls)
    have q1: "quietly h h1" using probe_quiet [OF probe] by blast
    have again: "?Q cfg h rh" if "loop X cfg d det (sleep X 100 h1) = Some rh" for det
    proof -
      from IH [OF that] have Q: "?Q cfg (sleep X 100 h1) rh" .
      then have "quietly h (snd rh)" using q1 quietly_trans by auto
      moreover from Q c1 have "\<exists>out xs. success out \<and> stdout out = v \<and> v \<noteq> [] \<and>
          calls (snd rh) = calls h @ xs @ [version_call cfg out]" if "fst rh = Inr v" for v
        using that by (simp, metis append_Cons)
      ultimately show ?thesis by blast
    qed
    show ?thesis
    proof (cases o1)
      case (Inl e)
      with True eq probe have "loop X cfg d e (sleep X 100 h1) = Some rh" by simp
      then show ?thesis by (rule again)
    next
      case (Inr out)
      show ?thesis
      proof (cases "success out \<and> stdout out \<noteq> []")
        case ok: True
        with True Inr eq probe have rh: "rh = (Inr (stdout out), h1)" by simp
        from c1 Inr have "calls h1 = calls h @ [] @ [version_call cfg out]" by simp
        with ok q1 rh show ?thesis by auto
      next
        case False
        with True Inr eq probe
        have "loop X cfg d (if stderr out = [] then stdout out else stderr out) (sleep X 100 h1) = Some rh"
          by simp
        then show ?thesis by (rule again)
      qed
    qed
  qed
qed

text \<open>What verifies an attachment: a listing with a GUI in daemon mode, and then its socket.\<close>

definition attachment_shown :: "SupervisorConfig \<Rightarrow> string \<Rightarrow> string \<Rightarrow> bool" where
  "attachment_shown cfg ps users \<longleftrightarrow>
     gui_mode_enabled ps (gui_executable cfg) \<and> has_accepted_socket_connection users"

lemma attachment_loop_result:
  assumes ret: "attachment_loop X cfg d h = Some rh"
  shows "quietly h (snd rh) \<and>
    (fst rh = Inr () \<longrightarrow>
       (\<exists>ps users xs. attachment_shown cfg ps users \<and>
          calls (snd rh) = calls h @ xs @ [Ps (Inr ps), SocketUsers (daemon_socket cfg) (Inr users)]))"
proof (rule attachment_loop.raw_induct [where P = "\<lambda>X cfg d h rh. quietly h (snd rh) \<and>
    (fst rh = Inr () \<longrightarrow>
       (\<exists>ps users xs. attachment_shown cfg ps users \<and>
          calls (snd rh) = calls h @ xs @ [Ps (Inr ps), SocketUsers (daemon_socket cfg) (Inr users)]))",
    OF _ ret])
  fix loop and X :: "'w ProcessOps" and cfg d h rh
  let ?Q = "\<lambda>cfg (h :: 'w host) (rh :: (SupervisorError + unit) \<times> 'w host). quietly h (snd rh) \<and>
    (fst rh = Inr () \<longrightarrow>
       (\<exists>ps users xs. attachment_shown cfg ps users \<and>
          calls (snd rh) = calls h @ xs @ [Ps (Inr ps), SocketUsers (daemon_socket cfg) (Inr users)]))"
  assume IH: "\<And>X cfg d h rh. loop X cfg d h = Some rh \<Longrightarrow> ?Q cfg h rh"
    and eq: "(if now X h < d
      then (case ps_environment X h of
              (Inl e, h1) \<Rightarrow> Some (Inl (Inspection e), h1)
            | (Inr processes, h1) \<Rightarrow>
                (case gui_attached X cfg processes h1 of
                   (attached, h2) \<Rightarrow>
                     if attached then Some (Inr (), h2) else loop X cfg d (sleep X 100 h2)))
      else Some (Inl (AttachmentUnverified
             ''ChatGPT did not establish an accepted connection to the managed daemon within the startup timeout''), h)) = Some rh"
  obtain l h1 where ps: "ps_environment X h = (l, h1)" by fastforce
  show "?Q cfg h rh"
  proof (cases "now X h < d \<and> (\<exists>processes. l = Inr processes)")
    case False
    with eq ps ps_quiet [OF ps] show ?thesis by (cases l) (auto split: if_splits)
  next
    case True
    then obtain processes where l: "l = Inr processes" by blast
    obtain a h2 where a: "gui_attached X cfg processes h1 = (a, h2)" by fastforce
    have q: "quietly h h2"
      using ps_quiet [OF ps] gui_attached_quiet [OF a] quietly_trans by blast
    have c1: "calls h1 = calls h @ [Ps (Inr processes)]"
      using ps_environment_calls [OF ps] l by simp
    show ?thesis
    proof (cases a)
      case True
      from gui_attached_cases [OF a] True obtain users where
        "calls h2 = calls h @ [] @ [Ps (Inr processes), SocketUsers (daemon_socket cfg) (Inr users)]"
        "attachment_shown cfg processes users"
        by (auto simp: attachment_shown_def c1)
      with q True \<open>now X h < d \<and> _\<close> l ps a eq show ?thesis by auto
    next
      case False
      with \<open>now X h < d \<and> _\<close> l ps a eq have "loop X cfg d (sleep X 100 h2) = Some rh" by simp
      from IH [OF this] have Q: "?Q cfg (sleep X 100 h2) rh" .
      then have "quietly h (snd rh)" using q quietly_trans by auto
      moreover from q obtain mid where "calls h2 = calls h @ mid" by (auto simp: quietly_def)
      ultimately show ?thesis using Q by (simp, metis append_assoc)
    qed
  qed
qed

lemma quit_loop_result:
  assumes ret: "quit_loop X cfg d ps h = Some rh"
  shows "quietly h (snd rh) \<and>
    (\<forall>ps'. latest h = Some ps \<longrightarrow> fst rh = Inr ps' \<longrightarrow> latest (snd rh) = Some ps')"
proof (rule quit_loop.raw_induct [where P = "\<lambda>X cfg d ps h rh. quietly h (snd rh) \<and>
    (\<forall>ps'. latest h = Some ps \<longrightarrow> fst rh = Inr ps' \<longrightarrow> latest (snd rh) = Some ps')", OF _ ret])
  fix loop and X :: "'w ProcessOps" and cfg d ps h rh
  let ?Q = "\<lambda>ps (h :: 'w host) (rh :: (SupervisorError + string) \<times> 'w host). quietly h (snd rh) \<and>
    (\<forall>ps'. latest h = Some ps \<longrightarrow> fst rh = Inr ps' \<longrightarrow> latest (snd rh) = Some ps')"
  assume IH: "\<And>X cfg d ps h rh. loop X cfg d ps h = Some rh \<Longrightarrow> ?Q ps h rh"
    and eq: "(if now X h < d
      then (case ps_environment X (sleep X 100 h) of
              (Inl e, h1) \<Rightarrow> Some (Inl (Inspection e), h1)
            | (Inr ps, h1) \<Rightarrow>
                if gui_running ps (gui_executable cfg) then loop X cfg d ps h1 else Some (Inr ps, h1))
      else Some (Inr ps, h)) = Some rh"
  obtain l h1 where call: "ps_environment X (sleep X 100 h) = (l, h1)" by fastforce
  have q: "quietly h h1" using ps_quiet [OF call] by simp
  show "?Q ps h rh"
  proof (cases "now X h < d \<and> (\<exists>ps1. l = Inr ps1 \<and> gui_running ps1 (gui_executable cfg))")
    case True
    then obtain ps1 where ps1: "l = Inr ps1" "loop X cfg d ps1 h1 = Some rh" using eq call by auto
    from IH [OF ps1(2)] call ps1(1) q show ?thesis
      using quietly_trans ps_latest by blast
  next
    case False
    with eq call q show ?thesis
      by (cases l) (auto split: if_splits dest!: ps_latest)
  qed
qed

section \<open>Nothing is launched that was not seen to be missing\<close>

lemma triple_quiet:
  assumes "\<And>h r h'. m h = Some (r, h') \<Longrightarrow> quietly h h'"
  shows "triple (log_ok cfg) m (\<lambda>_. log_ok cfg) (\<lambda>_. log_ok cfg)"
  unfolding triple_def
proof (intro allI impI)
  fix h r h'
  assume ok: "log_ok cfg h" and run: "m h = Some (r, h')"
  from quietly_log_ok [OF assms [OF run] ok] show "case r of Inl e \<Rightarrow> log_ok cfg h' | Inr a \<Rightarrow> log_ok cfg h'"
    by (cases r) simp_all
qed

lemma require_path_keeps_log:
  "triple (log_ok cfg) (require_path X p e) (\<lambda>_. log_ok cfg) (\<lambda>_. log_ok cfg)"
  unfolding require_path_def
  by (rule triple_and_then [where R = "\<lambda>_. log_ok cfg"])
     (auto intro!: triple_infallible triple_ok triple_err dest!: exists_path_calls simp: justified_append)

lemma listing_keeps_log:
  "triple (log_ok cfg) (map_err Inspection (ps_environment X))
     (\<lambda>ps h. log_ok cfg h \<and> latest h = Some ps) (\<lambda>_. log_ok cfg)"
  by (rule triple_map_err)
     (auto split: sum.splits dest: quietly_log_ok [OF ps_quiet] ps_latest)

lemma start_daemon_keeps_log:
  assumes "log_ok cfg h" "latest h = Some ps" "\<not> has_managed_daemon ps (standalone_codex cfg)"
    and "start_daemon X cfg h = (r, h')"
  shows "log_ok cfg h'"
  using assms by (auto simp: start_daemon_def justified_append dest!: spawn_process_calls)

lemma launch_gui_keeps_log:
  assumes "log_ok cfg h" "latest h = Some ps" "\<not> gui_running ps (gui_executable cfg)"
    and "launch_gui X cfg h = (r, h')"
  shows "log_ok cfg h'"
  using assms
  by (auto simp: launch_gui_def justified_append to_str_def split: option.splits if_splits
      dest!: spawn_process_calls)

lemma claim_daemon_keeps_log:
  "triple (\<lambda>h. log_ok cfg h \<and> latest h = Some ps) (claim_daemon X cfg ps)
     (\<lambda>_. log_ok cfg) (\<lambda>_. log_ok cfg)"
  unfolding claim_daemon_def
  by (intro triple_if triple_ok triple_and_then [where R = "\<lambda>_. log_ok cfg"] triple_map_err)
     (auto split: sum.splits intro: start_daemon_keeps_log)

lemma version_wait_keeps_log:
  "triple (log_ok cfg) (wait_for_daemon_version X cfg) (\<lambda>_. log_ok cfg) (\<lambda>_. log_ok cfg)"
  by (rule triple_quiet) (auto simp: wait_for_daemon_version_def dest!: version_loop_result)

lemma attachment_wait_keeps_log:
  "triple (log_ok cfg) (wait_for_gui_attachment X cfg) (\<lambda>_. log_ok cfg) (\<lambda>_. log_ok cfg)"
  by (rule triple_quiet) (auto simp: wait_for_gui_attachment_def dest!: attachment_loop_result)

abbreviation gui_gone :: "SupervisorConfig \<Rightarrow> 'w host \<Rightarrow> bool" where
  "gui_gone cfg h \<equiv> \<exists>ps. latest h = Some ps \<and> \<not> gui_running ps (gui_executable cfg)"

lemma quit_request_keeps_log:
  assumes "gui_running ps (gui_executable cfg)"
  shows "triple (\<lambda>h. log_ok cfg h \<and> latest h = Some ps) (map_err UserActionRequired (graceful_quit_chatgpt X))
    (\<lambda>_ h. log_ok cfg h \<and> latest h = Some ps) (\<lambda>_. log_ok cfg)"
  using assms
  by (intro triple_map_err)
     (auto split: sum.splits simp: justified_append seen_after_append dest!: graceful_quit_calls)

lemma quit_wait_keeps_log:
  "triple (\<lambda>h. log_ok cfg h \<and> latest h = Some ps)
     (\<lambda>h. quit_loop X cfg (now X h + graceful_quit_timeout cfg) ps h)
     (\<lambda>ps' h. log_ok cfg h \<and> latest h = Some ps') (\<lambda>_. log_ok cfg)"
  unfolding triple_def
  by (auto split: sum.splits dest!: quit_loop_result intro: quietly_log_ok)

lemma quit_gui_keeps_log:
  "triple (\<lambda>h. log_ok cfg h \<and> latest h = Some ps) (quit_gui X cfg ps)
     (\<lambda>_ h. log_ok cfg h \<and> gui_gone cfg h) (\<lambda>_. log_ok cfg)"
  unfolding quit_gui_def
  by (intro triple_if triple_and_then [OF quit_request_keeps_log] triple_and_then [OF quit_wait_keeps_log]
      triple_ok triple_err) auto

lemma ensure_gui_keeps_log:
  "triple (log_ok cfg) (ensure_gui X cfg) (\<lambda>_. log_ok cfg) (\<lambda>_. log_ok cfg)"
proof -
  have needs: "triple (\<lambda>h. log_ok cfg h \<and> latest h = Some ps) (infallible (needs_launch X cfg ps))
      (\<lambda>_ h. log_ok cfg h \<and> latest h = Some ps) (\<lambda>_. log_ok cfg)" for ps
    by (rule triple_infallible) (auto dest!: needs_launch_quiet intro: quietly_log_ok)
  have launch: "triple (\<lambda>h. log_ok cfg h \<and> gui_gone cfg h) (map_err UserActionRequired (launch_gui X cfg))
      (\<lambda>_. log_ok cfg) (\<lambda>_. log_ok cfg)"
    by (rule triple_map_err) (auto split: sum.splits intro: launch_gui_keeps_log)
  show ?thesis
    unfolding ensure_gui_def
    by (intro triple_and_then [OF listing_keeps_log] triple_and_then [OF needs] triple_if
        triple_and_then [OF quit_gui_keeps_log] triple_and_then [OF launch] attachment_wait_keeps_log triple_ok)
       simp
qed

lemma initialize_keeps_log:
  "triple (log_ok cfg) (initialize X cfg) (\<lambda>_. log_ok cfg) (\<lambda>_. log_ok cfg)"
  unfolding initialize_def
  by (intro triple_and_then [OF require_path_keeps_log] triple_and_then [OF listing_keeps_log]
      triple_and_then [OF claim_daemon_keeps_log] triple_and_then [OF version_wait_keeps_log]
      triple_and_then [OF ensure_gui_keeps_log] triple_ok)

lemma check_keeps_log:
  assumes "log_ok cfg h" "check X cfg h = (ev, h')"
  shows "log_ok cfg h'"
proof -
  obtain l h1 where ps: "ps_environment X h = (l, h1)" by fastforce
  have ok1: "log_ok cfg h1" using quietly_log_ok [OF ps_quiet [OF ps] assms(1)] .
  show ?thesis
  proof (cases "\<exists>processes. l = Inr processes \<and> has_managed_daemon processes (standalone_codex cfg)")
    case False
    with assms(2) ps ok1 show ?thesis
      by (cases l) (auto simp: check_def split: prod.splits sum.splits
          intro: start_daemon_keeps_log [OF ok1 ps_latest [of X h _ h1]])
  next
    case True
    then obtain processes where l: "l = Inr processes" "has_managed_daemon processes (standalone_codex cfg)"
      by blast
    obtain out h2 where out: "probe_version X cfg h1 = (out, h2)" by fastforce
    obtain a h3 where a: "gui_attached X cfg processes h2 = (a, h3)" by fastforce
    have ok2: "log_ok cfg h2" and l2: "latest h2 = Some processes"
      using probe_quiet [OF out] quietly_log_ok ok1 ps_latest ps l(1) by auto
    have ok3: "log_ok cfg h3" and l3: "latest h3 = Some processes"
      using gui_attached_quiet [OF a] quietly_log_ok ok2 l2 by auto
    show ?thesis
      using assms(2) ps l out a ok2 ok3 launch_gui_keeps_log [OF ok3 l3]
      by (auto simp: check_def split: prod.splits sum.splits if_splits)
  qed
qed

text \<open>The provider of the monitor's invariant.\<close>

interpretation monitored: preserved_by "monitor_step X cfg" "\<lambda>m. log_ok cfg (host m)" "\<lambda>_ _. True"
  for X :: "'w ProcessOps" and cfg
proof
  fix m :: "'w Monitor" and i
  assume m: "log_ok cfg (host m)"
  obtain ev h where run: "check X cfg (sleep X (monitor_interval cfg) (host m)) = (ev, h)" by fastforce
  with m have "log_ok cfg h" by (auto intro: check_keeps_log [OF _ run])
  with m run show "log_ok cfg (host (monitor_step X cfg m i))"
    by (auto simp: monitor_step_def split: MonitorInput.splits)
qed

section \<open>What the results mean\<close>

lemma claim_daemon_Inr:
  assumes "claim_daemon X cfg ps h = Some (Inr o1, h')"
  shows "(o1 = Attached \<longrightarrow> has_managed_daemon ps (standalone_codex cfg) \<and> h' = h) \<and>
    (o1 = Started \<longrightarrow> \<not> has_managed_daemon ps (standalone_codex cfg) \<and>
       calls h' = calls h @ [Spawn (standalone_codex cfg) [''app-server'', ''daemon'', ''start''] [] (Inr ())])"
  using assms
  by (auto simp: claim_daemon_def start_daemon_def action_iffs split: if_splits dest!: spawn_process_calls)

lemma require_path_Inr:
  "require_path X p e h = Some (Inr u, h') \<Longrightarrow> calls h' = calls h @ [Exists p True]"
  by (auto simp: require_path_def action_iffs split: if_splits dest!: exists_path_calls)

lemma wait_for_daemon_version_Inr:
  assumes "wait_for_daemon_version X cfg h = Some (Inr v, h')"
  shows "\<exists>out xs. success out \<and> stdout out = v \<and> v \<noteq> [] \<and> calls h' = calls h @ xs @ [version_call cfg out]"
  using version_loop_result [OF assms [unfolded wait_for_daemon_version_def]] by simp

text \<open>Every run extends the log.\<close>

definition extends :: "'w host \<Rightarrow> 'w host \<Rightarrow> bool" where
  "extends h h' \<longleftrightarrow> (\<exists>new. calls h' = calls h @ new)"

lemma quietly_extends: "quietly h h' \<Longrightarrow> extends h h'"
  by (auto simp: quietly_def extends_def)

lemma extends_trans: "extends h h1 \<Longrightarrow> extends h1 h2 \<Longrightarrow> extends h h2"
  by (auto simp: extends_def)

lemma quit_gui_extends: "quit_gui X cfg ps h = Some (Inr u, h') \<Longrightarrow> extends h h'"
  by (auto simp: quit_gui_def action_iffs extends_def quietly_def split: if_splits
      dest!: graceful_quit_calls quit_loop_result)

lemma launch_gui_extends: "launch_gui X cfg h = (r, h') \<Longrightarrow> extends h h'"
  by (auto simp: launch_gui_def extends_def split: option.splits dest!: spawn_process_calls)

lemma needs_launch_False:
  assumes "needs_launch X cfg ps h = (False, h')"
  shows "\<exists>users. attachment_shown cfg ps users \<and>
    calls h' = calls h @ [SocketUsers (daemon_socket cfg) (Inr users)]"
  using assms
  by (auto simp: needs_launch_def attachment_shown_def split: if_splits prod.splits dest!: gui_attached_cases)

lemma ensure_gui_Inr:
  assumes "ensure_gui X cfg h = Some (Inr u, h')"
  shows "\<exists>ps users xs. attachment_shown cfg ps users \<and>
    calls h' = calls h @ xs @ [Ps (Inr ps), SocketUsers (daemon_socket cfg) (Inr users)]"
proof -
  from assms obtain ps h1 needed h2 where ps: "ps_environment X h = (Inr ps, h1)"
    and needs: "needs_launch X cfg ps h1 = (needed, h2)"
    and rest: "(if needed
        then and_then (quit_gui X cfg ps) (\<lambda>_. and_then (map_err UserActionRequired (launch_gui X cfg)) (\<lambda>_.
             wait_for_gui_attachment X cfg))
        else ok ()) h2 = Some (Inr u, h')"
    by (auto simp: ensure_gui_def action_iffs)
  have c1: "calls h1 = calls h @ [Ps (Inr ps)]" using ps_environment_calls [OF ps] .
  show ?thesis
  proof (cases needed)
    case False
    with needs have "needs_launch X cfg ps h1 = (False, h2)" by simp
    from needs_launch_False [OF this] obtain users where "attachment_shown cfg ps users"
      "calls h2 = calls h1 @ [SocketUsers (daemon_socket cfg) (Inr users)]"
      by blast
    moreover have "h' = h2" using rest False by (simp add: ok_iff)
    ultimately show ?thesis using c1 by (intro exI [of _ ps] exI [of _ users] exI [of _ "[]"]) simp
  next
    case True
    with rest obtain h3 h4 where q: "quit_gui X cfg ps h2 = Some (Inr (), h3)"
      and l: "launch_gui X cfg h3 = (Inr (), h4)"
      and w: "wait_for_gui_attachment X cfg h4 = Some (Inr u, h')"
      by (auto simp: action_iffs)
    have "extends h h4"
      using c1 needs_launch_quiet [OF needs] quit_gui_extends [OF q] launch_gui_extends [OF l]
      by (meson extends_trans quietly_extends ps_quiet [OF ps])
    then obtain ys where ys: "calls h4 = calls h @ ys" by (auto simp: extends_def)
    from attachment_loop_result [OF w [unfolded wait_for_gui_attachment_def]]
    obtain ps1 users xs where "attachment_shown cfg ps1 users"
      "calls h' = calls h4 @ xs @ [Ps (Inr ps1), SocketUsers (daemon_socket cfg) (Inr users)]"
      by auto
    with ys show ?thesis by (intro exI [of _ ps1] exI [of _ users] exI [of _ "ys @ xs"]) simp
  qed
qed

section \<open>The waiting loops end\<close>

lemma now_sleep: "clock_laws X \<Longrightarrow> now X h + d \<le> now X (sleep X d h)"
  by (simp add: clock_laws_def now_def sleep_def)

lemma now_ps: "clock_laws X \<Longrightarrow> ps_environment X h = (l, h') \<Longrightarrow> now X h \<le> now X h'"
  unfolding clock_laws_def now_def ps_environment_def
  by (auto split: prod.splits) (metis snd_conv)

lemma now_probe: "clock_laws X \<Longrightarrow> probe_version X cfg h = (l, h') \<Longrightarrow> now X h \<le> now X h'"
  unfolding clock_laws_def now_def probe_version_def run_output_def
  by (auto split: prod.splits) (metis snd_conv)

lemma now_attached: "clock_laws X \<Longrightarrow> gui_attached X cfg ps h = (a, h') \<Longrightarrow> now X h \<le> now X h'"
  unfolding clock_laws_def now_def gui_attached_def socket_users_def
  by (auto split: prod.splits if_splits sum.splits) (metis snd_conv)+

lemma attached_calls: "gui_attached X cfg ps h = (a, h') \<Longrightarrow> length (calls h') \<le> length (calls h) + 1"
  by (auto dest!: gui_attached_cases)

text \<open>The number of rounds of 100 milliseconds that fit in a time.\<close>

abbreviation rounds :: "nat \<Rightarrow> nat" where
  "rounds t \<equiv> (t + 99) div 100"

lemma rounds_step: "a < d \<Longrightarrow> a + 100 \<le> a' \<Longrightarrow> Suc (rounds (d - a')) \<le> rounds (d - a)"
proof -
  assume a: "a < d" "a + 100 \<le> a'"
  have "Suc (rounds (d - a')) = (d - a' + 99 + 100) div 100" by simp
  also have "\<dots> \<le> rounds (d - a)"
  proof (cases "d \<le> a'")
    case True
    with a show ?thesis by (simp add: div_le_mono Suc_le_eq)
  next
    case False
    with a show ?thesis by (intro div_le_mono) simp
  qed
  finally show ?thesis .
qed

lemma version_loop_returns:
  assumes laws: "clock_laws X"
  shows "\<exists>r h'. version_loop X cfg d detail h = Some (r, h') \<and>
    length (calls h') \<le> length (calls h) + rounds (d - now X h)"
proof (induction "d - now X h" arbitrary: detail h rule: less_induct)
  case less
  show ?case
  proof (cases "now X h < d")
    case False
    then show ?thesis by (subst version_loop.simps) simp
  next
    case True
    obtain o1 h1 where probe: "probe_version X cfg h = (o1, h1)" by fastforce
    then have c1: "length (calls h1) = Suc (length (calls h))"
      by (auto simp: probe_version_def dest!: run_output_calls)
    have later: "now X h + 100 \<le> now X (sleep X 100 h1)"
      using now_probe [OF laws probe] now_sleep [OF laws, of h1 100] by simp
    have again: "\<exists>r h'. version_loop X cfg d det (sleep X 100 h1) = Some (r, h') \<and>
        length (calls h') \<le> length (calls h) + rounds (d - now X h)" for det
    proof -
      have "d - now X (sleep X 100 h1) < d - now X h" using later True by simp
      from less [OF this, of det] c1 rounds_step [OF True later] show ?thesis
        by (auto intro: le_trans)
    qed
    have "0 < rounds (d - now X h)" using True by (simp add: div_greater_zero_iff)
    with again [of "projl o1"] again [of "if stderr (projr o1) = [] then stdout (projr o1) else stderr (projr o1)"]
      True probe c1
    show ?thesis by (subst version_loop.simps) (cases o1; auto)
  qed
qed

lemma attachment_loop_returns:
  assumes laws: "clock_laws X"
  shows "\<exists>r h'. attachment_loop X cfg d h = Some (r, h') \<and>
    length (calls h') \<le> length (calls h) + 2 * rounds (d - now X h)"
proof (induction "d - now X h" arbitrary: h rule: less_induct)
  case less
  show ?case
  proof (cases "now X h < d")
    case False
    then show ?thesis by (subst attachment_loop.simps) simp
  next
    case True
    obtain l h1 where ps: "ps_environment X h = (l, h1)" by fastforce
    obtain a h2 where a: "gui_attached X cfg (projr l) h1 = (a, h2)" by fastforce
    have c: "length (calls h1) = Suc (length (calls h))" "length (calls h2) \<le> length (calls h) + 2"
      using ps_environment_calls [OF ps] attached_calls [OF a] by auto
    have later: "now X h + 100 \<le> now X (sleep X 100 h2)"
      using now_ps [OF laws ps] now_attached [OF laws a] now_sleep [OF laws, of h2 100] by simp
    have "d - now X (sleep X 100 h2) < d - now X h" using later True by simp
    from less [OF this] obtain r h' where "attachment_loop X cfg d (sleep X 100 h2) = Some (r, h')"
      "length (calls h') \<le> length (calls h2) + 2 * rounds (d - now X (sleep X 100 h2))" by auto
    moreover from this(2) have "length (calls h') \<le> length (calls h) + 2 * rounds (d - now X h)"
      using c(2) rounds_step [OF True later] by linarith
    ultimately have again: "\<exists>r h'. attachment_loop X cfg d (sleep X 100 h2) = Some (r, h') \<and>
        length (calls h') \<le> length (calls h) + 2 * rounds (d - now X h)"
      by blast
    have "0 < rounds (d - now X h)" using True by (simp add: div_greater_zero_iff)
    then show ?thesis
      using True ps a c again by (subst attachment_loop.simps) (cases l; cases a; auto)
  qed
qed

lemma quit_loop_returns:
  assumes laws: "clock_laws X"
  shows "\<exists>r h'. quit_loop X cfg d ps h = Some (r, h') \<and>
    length (calls h') \<le> length (calls h) + rounds (d - now X h)"
proof (induction "d - now X h" arbitrary: ps h rule: less_induct)
  case less
  show ?case
  proof (cases "now X h < d")
    case False
    then show ?thesis by (subst quit_loop.simps) simp
  next
    case True
    obtain l h1 where call: "ps_environment X (sleep X 100 h) = (l, h1)" by fastforce
    have c: "length (calls h1) = Suc (length (calls h))"
      using ps_environment_calls [OF call] by simp
    have later: "now X h + 100 \<le> now X h1"
      using now_sleep [OF laws, of h 100] now_ps [OF laws call] by simp
    then have "d - now X h1 < d - now X h" using True by simp
    from less [OF this, of "projr l"] c rounds_step [OF True later]
    have again: "\<exists>r h'. quit_loop X cfg d (projr l) h1 = Some (r, h') \<and>
        length (calls h') \<le> length (calls h) + rounds (d - now X h)"
      by (auto intro: le_trans)
    have "0 < rounds (d - now X h)" using True by (simp add: div_greater_zero_iff)
    then show ?thesis
      using True call c again by (subst quit_loop.simps) (cases l; auto)
  qed
qed

lemma require_path_within: "within 1 (require_path X p e)"
proof -
  have "within (1 + max 0 0) (require_path X p e)"
    unfolding require_path_def
    by (intro within_and_then within_infallible within_if within_ok within_err)
       (simp add: exists_path_def split: prod.splits)
  then show ?thesis by simp
qed

lemma listing_within: "within 1 (map_err Inspection (ps_environment X))"
  by (rule within_map_err) (simp add: ps_environment_def split: prod.splits)

lemma claim_daemon_within: "within 1 (claim_daemon X cfg ps)"
proof -
  have "within (max 0 (1 + 0)) (claim_daemon X cfg ps)"
    unfolding claim_daemon_def
    by (intro within_and_then within_map_err within_if within_ok)
       (simp add: start_daemon_def spawn_process_def split: prod.splits)
  then show ?thesis by simp
qed

lemma version_wait_within: "clock_laws X \<Longrightarrow> within (rounds (startup_timeout cfg)) (wait_for_daemon_version X cfg)"
  unfolding within_def wait_for_daemon_version_def
  by (metis add_diff_cancel_left' version_loop_returns)

lemma attachment_wait_within: "clock_laws X \<Longrightarrow> within (2 * rounds (startup_timeout cfg)) (wait_for_gui_attachment X cfg)"
  unfolding within_def wait_for_gui_attachment_def
  by (metis add_diff_cancel_left' attachment_loop_returns)

lemma quit_wait_within:
  "clock_laws X \<Longrightarrow> within (rounds (graceful_quit_timeout cfg))
     (\<lambda>h. quit_loop X cfg (now X h + graceful_quit_timeout cfg) ps h)"
  unfolding within_def by (metis add_diff_cancel_left' quit_loop_returns)

lemma quit_gui_within:
  assumes "clock_laws X"
  shows "within (1 + rounds (graceful_quit_timeout cfg)) (quit_gui X cfg ps)"
proof -
  have "within (max (1 + (rounds (graceful_quit_timeout cfg) + max 0 0)) 0) (quit_gui X cfg ps)"
    unfolding quit_gui_def
    by (intro within_and_then within_map_err within_if within_ok within_err quit_wait_within [OF assms])
       (simp add: graceful_quit_chatgpt_def split: prod.splits)
  then show ?thesis by simp
qed

lemma needs_launch_within: "within 1 (infallible (needs_launch X cfg ps))"
  by (rule within_infallible)
     (auto simp: needs_launch_def split: prod.splits dest!: attached_calls)

lemma launch_gui_within: "within 1 (map_err UserActionRequired (launch_gui X cfg))"
  by (rule within_map_err)
     (simp add: launch_gui_def spawn_process_def split: option.splits prod.splits)

lemma ensure_gui_within:
  assumes "clock_laws X"
  shows "within (4 + rounds (graceful_quit_timeout cfg) + 2 * rounds (startup_timeout cfg)) (ensure_gui X cfg)"
proof -
  have "within (1 + (1 + max ((1 + rounds (graceful_quit_timeout cfg)) + (1 + 2 * rounds (startup_timeout cfg))) 0))
      (ensure_gui X cfg)"
    unfolding ensure_gui_def
    by (intro within_and_then within_if listing_within needs_launch_within quit_gui_within [OF assms]
        launch_gui_within attachment_wait_within [OF assms] within_ok)
  then show ?thesis by (rule within_mono) simp
qed


end
