(* ===== verification/Process_Ops.thy ===== *)
theory Process_Ops
  imports Supervisor
begin

text \<open>
  The process operations the supervisor runs on in production (\<open>RealProcessOps\<close> of
  \<open>src/supervisor/src/lib.rs\<close>): each operation is one command of the operating system, and the
  text of the answer is made from the command's outcome. Running a command and asking for a
  file are the parameter. The theory shows which commands the supervision can run at all, and
  closes with a machine on which the supervisor's results can be evaluated.
\<close>

section \<open>Commands\<close>

record Cmd =
  program :: string
  arguments :: "string list"
  environment :: "(string \<times> string) list"  \<comment> \<open>added to the inherited environment\<close>
  stdio_null :: bool
  process_group :: "int option"

record 'w Os =
  os_metadata :: "string \<Rightarrow> 'w \<Rightarrow> bool \<times> 'w"
  os_run :: "Cmd \<Rightarrow> 'w \<Rightarrow> (string + bool \<times> string \<times> string) \<times> 'w"
    \<comment> \<open>\<open>Command::output\<close>: an I/O error, or exit success and the bytes of both streams\<close>
  os_spawn :: "Cmd \<Rightarrow> 'w \<Rightarrow> (string + unit) \<times> 'w"
  os_now :: "'w \<Rightarrow> nat"
  os_sleep :: "nat \<Rightarrow> 'w \<Rightarrow> 'w"

text \<open>The world of the supervisor: that of the system, and the commands given to it.\<close>

record 'w system =
  os_world :: 'w
  commands :: "Cmd list"

definition plain_command :: "string \<Rightarrow> string list \<Rightarrow> Cmd" where
  "plain_command p a =
     \<lparr>program = p, arguments = a, environment = [], stdio_null = False, process_group = None\<rparr>"

definition child_command :: "string \<Rightarrow> string list \<Rightarrow> (string \<times> string) list \<Rightarrow> Cmd" where
  "child_command p a env =
     \<lparr>program = p, arguments = a, environment = env, stdio_null = True, process_group = Some 0\<rparr>"

definition run_command ::
    "'w Os \<Rightarrow> Cmd \<Rightarrow> 'w system \<Rightarrow> (string + bool \<times> string \<times> string) \<times> 'w system" where
  "run_command os c s =
     (case os_run os c (os_world s) of (r, w) \<Rightarrow> (r, \<lparr>os_world = w, commands = commands s @ [c]\<rparr>))"

definition real_exists :: "'w Os \<Rightarrow> string \<Rightarrow> 'w system \<Rightarrow> bool \<times> 'w system" where
  "real_exists os p s = (case os_metadata os p (os_world s) of (r, w) \<Rightarrow> (r, s\<lparr>os_world := w\<rparr>))"

definition real_ps_environment :: "'w Os \<Rightarrow> 'w system \<Rightarrow> (string + string) \<times> 'w system" where
  "real_ps_environment os s =
     (case run_command os (plain_command ''/bin/ps'' [''eww'', ''-axo'', ''pid=,command='']) s of
        (Inl e, s1) \<Rightarrow> (Inl e, s1)
      | (Inr (exit_ok, out, errs), s1) \<Rightarrow>
          (if \<not> exit_ok then Inl (lossy errs) else Inr (lossy out), s1))"

definition real_socket_users :: "'w Os \<Rightarrow> string \<Rightarrow> 'w system \<Rightarrow> (string + string) \<times> 'w system" where
  "real_socket_users os socket s =
     (case run_command os (plain_command ''/usr/sbin/lsof'' [''-n'', socket]) s of
        (Inl e, s1) \<Rightarrow> (Inl e, s1)
      | (Inr (exit_ok, out, errs), s1) \<Rightarrow> (if \<not> exit_ok then Inr [] else Inr (lossy out), s1))"

definition real_output ::
    "'w Os \<Rightarrow> string \<Rightarrow> string list \<Rightarrow> 'w system \<Rightarrow> (string + CommandOutput) \<times> 'w system" where
  "real_output os p a s =
     (case run_command os (plain_command p a) s of
        (Inl e, s1) \<Rightarrow> (Inl e, s1)
      | (Inr (exit_ok, out, errs), s1) \<Rightarrow>
          (Inr \<lparr>success = exit_ok, stdout = trim (lossy out), stderr = trim (lossy errs)\<rparr>, s1))"

definition real_spawn ::
    "'w Os \<Rightarrow> string \<Rightarrow> string list \<Rightarrow> (string \<times> string) list \<Rightarrow> 'w system \<Rightarrow>
     (string + unit) \<times> 'w system" where
  "real_spawn os p a env s =
     (let c = child_command p a env
      in case os_spawn os c (os_world s) of
           (r, w) \<Rightarrow> (r, \<lparr>os_world = w, commands = commands s @ [c]\<rparr>))"

definition real_graceful_quit :: "'w Os \<Rightarrow> 'w system \<Rightarrow> (string + unit) \<times> 'w system" where
  "real_graceful_quit os s =
     (case run_command os
             (plain_command ''/usr/bin/osascript''
                [''-e'', ''tell application '' @ [CHR 0x22] @ ''ChatGPT'' @ [CHR 0x22] @ '' to quit'']) s of
        (Inl e, s1) \<Rightarrow> (Inl e, s1)
      | (Inr (exit_ok, out, errs), s1) \<Rightarrow> (if exit_ok then Inr () else Inl (lossy errs), s1))"

definition real_ops :: "'w Os \<Rightarrow> 'w system ProcessOps" where
  "real_ops os =
     \<lparr>op_exists = real_exists os, op_ps_environment = real_ps_environment os,
      op_socket_users = real_socket_users os, op_output = real_output os, op_spawn = real_spawn os,
      op_graceful_quit = real_graceful_quit os, op_now = \<lambda>s. os_now os (os_world s),
      op_sleep = \<lambda>d s. s\<lparr>os_world := os_sleep os d (os_world s)\<rparr>\<rparr>"

section \<open>What every call keeps, supervision keeps\<close>

locale kept_by_calls =
  fixes X :: "'w ProcessOps" and cfg :: SupervisorConfig and I :: "'w host \<Rightarrow> bool"
  assumes keeps_exists: "I h \<Longrightarrow> exists_path X p h = (b, h') \<Longrightarrow> I h'"
    and keeps_ps: "I h \<Longrightarrow> ps_environment X h = (l, h') \<Longrightarrow> I h'"
    and keeps_users: "I h \<Longrightarrow> socket_users X (daemon_socket cfg) h = (u, h') \<Longrightarrow> I h'"
    and keeps_probe: "I h \<Longrightarrow> probe_version X cfg h = (out, h') \<Longrightarrow> I h'"
    and keeps_start: "I h \<Longrightarrow> start_daemon X cfg h = (d, h') \<Longrightarrow> I h'"
    and keeps_launch: "I h \<Longrightarrow> launch_gui X cfg h = (g, h') \<Longrightarrow> I h'"
    and keeps_quit: "I h \<Longrightarrow> graceful_quit_chatgpt X h = (q, h') \<Longrightarrow> I h'"
    and keeps_sleep: "I h \<Longrightarrow> I (sleep X t h)"
begin

abbreviation keeps :: "('w, 'a) action \<Rightarrow> bool" where
  "keeps m \<equiv> triple I m (\<lambda>_. I) (\<lambda>_. I)"

lemma keepsI: "(\<And>h r h'. I h \<Longrightarrow> m h = Some (r, h') \<Longrightarrow> I h') \<Longrightarrow> keeps m"
  unfolding triple_def by (auto split: sum.splits)

lemma keepsD: "keeps m \<Longrightarrow> I h \<Longrightarrow> m h = Some (r, h') \<Longrightarrow> I h'"
  by (drule (2) tripleD) (simp split: sum.splits)

lemma keeps_map_err: "(\<And>h r h'. I h \<Longrightarrow> m h = (r, h') \<Longrightarrow> I h') \<Longrightarrow> keeps (map_err f m)"
  by (rule triple_map_err) (auto split: sum.splits)

lemma keeps_attached: "I h \<Longrightarrow> gui_attached X cfg ps h = (a, h') \<Longrightarrow> I h'"
  by (auto simp: gui_attached_def split: if_splits prod.splits sum.splits dest: keeps_users)

lemma keeps_version_loop:
  assumes "version_loop X cfg d detail h = Some rh" and "I h"
  shows "I (snd rh)"
proof -
  have "X' = X \<longrightarrow> cfg' = cfg \<longrightarrow> I h \<longrightarrow> I (snd rh)"
    if "version_loop X' cfg' d detail h = Some rh" for X' cfg' d detail h rh
  proof (rule version_loop.raw_induct [where P = "\<lambda>X' cfg' d detail h rh.
      X' = X \<longrightarrow> cfg' = cfg \<longrightarrow> I h \<longrightarrow> I (snd rh)", OF _ that])
    fix loop and X' :: "'w ProcessOps" and cfg' d detail h rh
    assume IH: "\<And>X' cfg' d detail h rh. loop X' cfg' d detail h = Some rh \<Longrightarrow>
        X' = X \<longrightarrow> cfg' = cfg \<longrightarrow> I h \<longrightarrow> I (snd rh)"
      and eq: "(if now X' h < d
        then (case probe_version X' cfg' h of
                (Inr out, h1) \<Rightarrow>
                  if success out \<and> stdout out \<noteq> [] then Some (Inr (stdout out), h1)
                  else loop X' cfg' d (if stderr out = [] then stdout out else stderr out) (sleep X' 100 h1)
              | (Inl error, h1) \<Rightarrow> loop X' cfg' d error (sleep X' 100 h1))
        else Some (Inl (IncompatibleVersion detail), h)) = Some rh"
    show "X' = X \<longrightarrow> cfg' = cfg \<longrightarrow> I h \<longrightarrow> I (snd rh)"
      using eq by (auto split: if_splits prod.splits sum.splits dest!: IH dest: keeps_probe keeps_sleep)
  qed
  with assms show ?thesis by blast
qed

lemma keeps_attachment_loop:
  assumes "attachment_loop X cfg d h = Some rh" and "I h"
  shows "I (snd rh)"
proof -
  have "X' = X \<longrightarrow> cfg' = cfg \<longrightarrow> I h \<longrightarrow> I (snd rh)"
    if "attachment_loop X' cfg' d h = Some rh" for X' cfg' d h rh
  proof (rule attachment_loop.raw_induct [where P = "\<lambda>X' cfg' d h rh.
      X' = X \<longrightarrow> cfg' = cfg \<longrightarrow> I h \<longrightarrow> I (snd rh)", OF _ that])
    fix loop and X' :: "'w ProcessOps" and cfg' d h rh
    assume IH: "\<And>X' cfg' d h rh. loop X' cfg' d h = Some rh \<Longrightarrow>
        X' = X \<longrightarrow> cfg' = cfg \<longrightarrow> I h \<longrightarrow> I (snd rh)"
      and eq: "(if now X' h < d
        then (case ps_environment X' h of
                (Inl e, h1) \<Rightarrow> Some (Inl (Inspection e), h1)
              | (Inr processes, h1) \<Rightarrow>
                  (case gui_attached X' cfg' processes h1 of
                     (attached, h2) \<Rightarrow>
                       if attached then Some (Inr (), h2) else loop X' cfg' d (sleep X' 100 h2)))
        else Some (Inl (AttachmentUnverified
               ''ChatGPT did not establish an accepted connection to the managed daemon within the startup timeout''), h)) = Some rh"
    show "X' = X \<longrightarrow> cfg' = cfg \<longrightarrow> I h \<longrightarrow> I (snd rh)"
      using eq
      by (auto split: if_splits prod.splits sum.splits dest!: IH)
         (blast dest: keeps_ps keeps_attached keeps_sleep)+
  qed
  with assms show ?thesis by blast
qed

lemma keeps_quit_loop:
  assumes "quit_loop X cfg d ps h = Some rh" and "I h"
  shows "I (snd rh)"
proof -
  have "X' = X \<longrightarrow> cfg' = cfg \<longrightarrow> I h \<longrightarrow> I (snd rh)"
    if "quit_loop X' cfg' d ps h = Some rh" for X' cfg' d ps h rh
  proof (rule quit_loop.raw_induct [where P = "\<lambda>X' cfg' d ps h rh.
      X' = X \<longrightarrow> cfg' = cfg \<longrightarrow> I h \<longrightarrow> I (snd rh)", OF _ that])
    fix loop and X' :: "'w ProcessOps" and cfg' d ps h rh
    assume IH: "\<And>X' cfg' d ps h rh. loop X' cfg' d ps h = Some rh \<Longrightarrow>
        X' = X \<longrightarrow> cfg' = cfg \<longrightarrow> I h \<longrightarrow> I (snd rh)"
      and eq: "(if now X' h < d
        then (case ps_environment X' (sleep X' 100 h) of
                (Inl e, h1) \<Rightarrow> Some (Inl (Inspection e), h1)
              | (Inr ps, h1) \<Rightarrow>
                  if gui_running ps (gui_executable cfg') then loop X' cfg' d ps h1 else Some (Inr ps, h1))
        else Some (Inr ps, h)) = Some rh"
    show "X' = X \<longrightarrow> cfg' = cfg \<longrightarrow> I h \<longrightarrow> I (snd rh)"
      using eq by (auto split: if_splits prod.splits sum.splits dest!: IH dest: keeps_ps [OF keeps_sleep])
  qed
  with assms show ?thesis by blast
qed

lemma keeps_waits:
  "keeps (wait_for_daemon_version X cfg)" "keeps (wait_for_gui_attachment X cfg)"
  "keeps (\<lambda>h. quit_loop X cfg (now X h + t) ps h)"
  by (rule keepsI; fastforce simp: wait_for_daemon_version_def wait_for_gui_attachment_def
      dest: keeps_version_loop keeps_attachment_loop keeps_quit_loop)+

lemma initialize_keeps: "keeps (initialize X cfg)"
  unfolding initialize_def require_path_def claim_daemon_def ensure_gui_def quit_gui_def
  by (intro triple_and_then [where R = "\<lambda>_. I"] triple_if triple_ok triple_err keeps_waits
      keeps_map_err triple_infallible; (assumption | rule TrueI)?)
     (auto simp: needs_launch_def split: if_splits prod.splits
       dest: keeps_exists keeps_ps keeps_start keeps_launch keeps_quit keeps_attached)

lemma check_keeps: "I h \<Longrightarrow> check X cfg h = (ev, h') \<Longrightarrow> I h'"
  unfolding check_def
  by (auto split: prod.splits sum.splits if_splits)
     (blast dest: keeps_ps keeps_start keeps_probe keeps_attached keeps_launch)+

sublocale monitor: preserved_by "monitor_step X cfg" "\<lambda>m. I (host m)" "\<lambda>_ _. True"
proof
  fix m :: "'w Monitor" and i
  assume m: "I (host m)"
  show "I (host (monitor_step X cfg m i))"
    using m keeps_sleep [OF m, THEN check_keeps]
    by (auto simp: monitor_step_def split: MonitorInput.splits prod.splits)
qed

lemma supervision_keeps:
  assumes "I h" and "initialize X cfg h = Some (r, h')"
  shows "I (host (foldl (monitor_step X cfg) (start_monitor h') inputs))"
  using keepsD [OF initialize_keeps assms]
  by (intro monitor.run_inv) (simp_all add: start_monitor_def)

end

section \<open>The commands of the supervision\<close>

text \<open>
  Everything supervision may run: the two inspections, the version and the start of the
  configured daemon, the opening of the configured application, and the request to quit.
\<close>

definition permitted :: "SupervisorConfig \<Rightarrow> Cmd \<Rightarrow> bool" where
  "permitted cfg c \<longleftrightarrow> List.member
     [plain_command ''/bin/ps'' [''eww'', ''-axo'', ''pid=,command=''],
      plain_command ''/usr/sbin/lsof'' [''-n'', daemon_socket cfg],
      plain_command (standalone_codex cfg) [''app-server'', ''daemon'', ''version''],
      plain_command ''/usr/bin/osascript''
        [''-e'', ''tell application '' @ [CHR 0x22] @ ''ChatGPT'' @ [CHR 0x22] @ '' to quit''],
      child_command (standalone_codex cfg) [''app-server'', ''daemon'', ''start''] [],
      child_command ''/usr/bin/open'' [''-a'', application_bundle (gui_executable cfg)]
        [(''CODEX_APP_SERVER_USE_LOCAL_DAEMON'', ''1''), (''CODEX_APP_SERVER_FORCE_CLI'', ''0'')]] c"

lemma run_command_records: "run_command os c s = (r, s') \<Longrightarrow> commands s' = commands s @ [c]"
  by (auto simp: run_command_def split: prod.splits)

lemmas real_op_defs =
  real_ops_def real_exists_def real_ps_environment_def real_socket_users_def real_output_def
  real_spawn_def real_graceful_quit_def

interpretation confined: kept_by_calls "real_ops os" cfg
  "\<lambda>h. list_all (permitted cfg) (commands (world h))" for os :: "'w Os" and cfg
  by unfold_locales
     (auto simp: process_call_defs real_op_defs permitted_def probe_version_def start_daemon_def
        launch_gui_def to_str_def sleep_def Let_def list.pred_set
        split: prod.splits sum.splits option.splits if_splits dest!: run_command_records)

section \<open>A machine\<close>

text \<open>
  A machine to evaluate the supervisor on: whether the daemon and the GUI run, and its clock.
  Its process listing and its socket listing have the shape the supervisor reads.
\<close>

record machine =
  daemon_up :: bool
  gui_up :: bool
  ticks :: nat

definition sample_config :: SupervisorConfig where
  "sample_config =
     \<lparr>standalone_codex = ''/c'', daemon_socket = ''/s'', gui_executable = ''/G.app/x'',
      restart_gui_on_initialize = False, startup_timeout = 1000, graceful_quit_timeout = 300,
      monitor_interval = 10\<rparr>"

definition machine_listing :: "machine \<Rightarrow> string" where
  "machine_listing m =
     (if daemon_up m then ''/c app-server --listen unix://'' @ [CHR 0x0A] else []) @
     (if gui_up m then ''/G.app/x CODEX_APP_SERVER_USE_LOCAL_DAEMON=1'' @ [CHR 0x0A] else [])"

definition machine_users :: "machine \<Rightarrow> string" where
  "machine_users m = ''COMMAND'' @ [CHR 0x0A] @ ''c 1'' @ [CHR 0x0A] @ (if gui_up m then ''c 2'' @ [CHR 0x0A] else [])"

definition machine_os :: "machine Os" where
  "machine_os =
     \<lparr>os_metadata = \<lambda>p m. (True, m),
      os_run = \<lambda>c m.
        (if program c = ''/bin/ps'' then (Inr (True, machine_listing m, []), m)
         else if program c = ''/usr/sbin/lsof'' then (Inr (True, machine_users m, []), m)
         else if program c = ''/c'' then (Inr (daemon_up m, ''1'' @ [CHR 0x0A], ''down''), m)
         else (Inr (True, [], []), m\<lparr>gui_up := False\<rparr>)),
      os_spawn = \<lambda>c m.
        (Inr (), if program c = ''/c'' then m\<lparr>daemon_up := True\<rparr> else m\<lparr>gui_up := True\<rparr>),
      os_now = ticks, os_sleep = \<lambda>d m. m\<lparr>ticks := ticks m + d\<rparr>\<rparr>"

definition machine_host :: "machine \<Rightarrow> machine system host" where
  "machine_host m = \<lparr>world = \<lparr>os_world = m, commands = []\<rparr>, calls = []\<rparr>"

lemma machine_clock: "clock_laws (real_ops machine_os)"
  by (auto simp: clock_laws_def real_op_defs run_command_def machine_os_def)

text \<open>The machine with both processes running: its answers, and a full initialisation on it.\<close>

abbreviation both_up :: machine where "both_up \<equiv> \<lparr>daemon_up = True, gui_up = True, ticks = 0\<rparr>"

abbreviation both_up_system :: "Cmd list \<Rightarrow> machine system" where
  "both_up_system cs \<equiv> \<lparr>os_world = both_up, commands = cs\<rparr>"

lemma machine_lines:
  "lines (machine_listing both_up) = [''/c app-server --listen unix://'', ''/G.app/x CODEX_APP_SERVER_USE_LOCAL_DAEMON=1'']"
  "lines (machine_users both_up) = [''COMMAND'', ''c 1'', ''c 2'']"
  by (simp_all add: machine_listing_def machine_users_def lines_def strip_cr_def)

lemma plain_users: "trim ''COMMAND'' = ''COMMAND''" "trim ''c 1'' = ''c 1''" "trim ''c 2'' = ''c 2''"
  by (rule text_trim; simp add: white_space_def upt_rec char_of_def)+

lemma machine_readings:
  "lossy (machine_listing both_up) = machine_listing both_up"
  "lossy (machine_users both_up) = machine_users both_up"
  "trim (lossy (''1'' @ [CHR 0x0A])) = ''1''"
  "has_managed_daemon (machine_listing both_up) ''/c''"
  "gui_mode_enabled (machine_listing both_up) ''/G.app/x''"
  "has_accepted_socket_connection (machine_users both_up)"
proof -
  show "lossy (machine_listing both_up) = machine_listing both_up" "lossy (machine_users both_up) = machine_users both_up"
    by (rule lossy_valid, rule ascii_valid, simp add: ascii_def machine_listing_def machine_users_def)+
  show "trim (lossy (''1'' @ [CHR 0x0A])) = ''1''" by code_simp
  have "lossy ''/c'' = ''/c''" "lossy ''/G.app/x'' = ''/G.app/x''"
    by (rule lossy_valid, rule ascii_valid, simp add: ascii_def)+
  then show "has_managed_daemon (machine_listing both_up) ''/c''" "gui_mode_enabled (machine_listing both_up) ''/G.app/x''"
    by (simp_all add: has_managed_daemon_def gui_mode_enabled_def machine_lines starts_with_def)
  show "has_accepted_socket_connection (machine_users both_up)"
    by (simp add: has_accepted_socket_connection_def machine_lines plain_users starts_with_def)
qed

lemma machine_answers:
  "op_exists (real_ops machine_os) p (both_up_system cs) = (True, both_up_system cs)"
  "\<exists>cs'. op_ps_environment (real_ops machine_os) (both_up_system cs) = (Inr (machine_listing both_up), both_up_system cs')"
  "\<exists>cs'. op_socket_users (real_ops machine_os) ''/s'' (both_up_system cs) = (Inr (machine_users both_up), both_up_system cs')"
  "\<exists>out cs'. success out \<and> stdout out = ''1'' \<and> op_output (real_ops machine_os) ''/c'' a (both_up_system cs) = (Inr out, both_up_system cs')"
  "op_now (real_ops machine_os) (both_up_system cs) = 0"
  using machine_readings(1-3)
  by (simp_all add: real_op_defs run_command_def machine_os_def plain_command_def)

lemma both_up_initialize:
  "\<exists>h'. initialize (real_ops machine_os) sample_config (machine_host both_up) =
     Some (Inr \<lparr>daemon_ownership = Attached, daemon_version = ''1'', state_gui_attached = True,
                daemon_left_running = True\<rparr>, h')"
proof -
  let ?X = "real_ops machine_os" and ?L = "machine_listing both_up"
  have [simp]: "standalone_codex sample_config = ''/c''" "daemon_socket sample_config = ''/s''"
    "gui_executable sample_config = ''/G.app/x''" "\<not> restart_gui_on_initialize sample_config"
    "startup_timeout sample_config = 1000"
    by (simp_all add: sample_config_def)
  have ex: "exists_path ?X p \<lparr>world = both_up_system cs, calls = k\<rparr> = (True, \<lparr>world = both_up_system cs, calls = k @ [Exists p True]\<rparr>)" for p cs k
    by (simp add: exists_path_def machine_answers)
  have ps: "\<exists>cs'. ps_environment ?X \<lparr>world = both_up_system cs, calls = k\<rparr> =
      (Inr ?L, \<lparr>world = both_up_system cs', calls = k @ [Ps (Inr ?L)]\<rparr>)" for cs k
    using machine_answers(2) [of cs] by (auto simp: ps_environment_def)
  have at: "\<exists>h'. gui_attached ?X sample_config ?L \<lparr>world = both_up_system cs, calls = k\<rparr> = (True, h')" for cs k
    using machine_answers(3) [of cs] by (auto simp: gui_attached_def socket_users_def machine_readings)
  have v: "\<exists>cs' k'. wait_for_daemon_version ?X sample_config \<lparr>world = both_up_system cs, calls = k\<rparr> =
      Some (Inr ''1'', \<lparr>world = both_up_system cs', calls = k'\<rparr>)" for cs k
    using machine_answers(4) [of "[''app-server'', ''daemon'', ''version'']" cs]
    by (auto simp: wait_for_daemon_version_def now_def machine_answers(5) version_loop.simps [of _ _ 1000]
        probe_version_def run_output_def)
  have g: "\<exists>h'. ensure_gui ?X sample_config \<lparr>world = both_up_system cs, calls = k\<rparr> = Some (Inr (), h')" for cs k
  proof -
    obtain cs1 where p1: "ps_environment ?X \<lparr>world = both_up_system cs, calls = k\<rparr> =
      (Inr ?L, \<lparr>world = both_up_system cs1, calls = k @ [Ps (Inr ?L)]\<rparr>)" using ps by blast
    from at [of cs1 "k @ [Ps (Inr ?L)]"] p1 show ?thesis
      by (auto simp: ensure_gui_def and_then_def map_err_def infallible_def needs_launch_def ok_def)
  qed
  obtain cs1 where p1: "ps_environment ?X \<lparr>world = both_up_system [], calls = [Exists ''/c'' True, Exists ''/G.app/x'' True]\<rparr> =
      (Inr ?L, \<lparr>world = both_up_system cs1, calls = [Exists ''/c'' True, Exists ''/G.app/x'' True, Ps (Inr ?L)]\<rparr>)"
    using ps [of "[]" "[Exists ''/c'' True, Exists ''/G.app/x'' True]"] by auto
  obtain cs2 k2 where v1: "wait_for_daemon_version ?X sample_config
     \<lparr>world = both_up_system cs1, calls = [Exists ''/c'' True, Exists ''/G.app/x'' True, Ps (Inr ?L)]\<rparr> =
      Some (Inr ''1'', \<lparr>world = both_up_system cs2, calls = k2\<rparr>)" using v by blast
  obtain h' where g1: "ensure_gui ?X sample_config \<lparr>world = both_up_system cs2, calls = k2\<rparr> = Some (Inr (), h')"
    using g by blast
  show ?thesis
    by (simp add: initialize_def machine_host_def and_then_def require_path_def infallible_def map_err_def ok_def
        ex p1 claim_daemon_def machine_readings v1 g1)
qed

text \<open>
  A process listing is matched by substrings: a command line of the daemon's client (here another
  process that asks for the version) is taken for the daemon, and no daemon is started.
\<close>

lemma daemon_client_is_taken_for_daemon:
  "claim_daemon X sample_config ''99 /c app-server daemon version'' h = Some (Inr Attached, h)"
proof -
  have "has_managed_daemon ''99 /c app-server daemon version'' ''/c''" by code_simp
  then show ?thesis by (simp add: claim_daemon_def sample_config_def ok_def)
qed

section \<open>Properties\<close>

text \<open>Supervision launches only what the last listing showed to be missing: over the
  initialisation and any run of the monitor after it, whatever the operating system answers, the
  daemon is started only after a listing without it, the GUI is opened (through its application
  bundle, with the environment of the daemon mode) only after a listing without it, a quit is
  requested only of a GUI that was listed, and nothing else is ever spawned.
\<close>

theorem launches_only_what_is_missing:
  assumes "calls h = []" and "initialize X cfg h = Some (r, h')"
  shows "justified cfg None (calls (host (foldl (monitor_step X cfg) (start_monitor h') inputs)))"
proof -
  from assms(1) have "log_ok cfg h" by simp
  from tripleD [OF initialize_keeps_log this assms(2)] have "log_ok cfg h'"
    by (simp split: sum.splits)
  then show ?thesis
    by (intro monitored.run_inv) (simp_all add: start_monitor_def)
qed

theorem launches_only_what_is_missing_witness:
  "\<exists>r h'. initialize (real_ops machine_os) sample_config (machine_host both_up) = Some (r, h') \<and>
     justified sample_config None (calls (host (foldl (monitor_step (real_ops machine_os) sample_config)
       (start_monitor h') [MonitorTick, ShutdownChanged (Some True)])))"
proof -
  obtain r h' where run: "initialize (real_ops machine_os) sample_config (machine_host both_up) = Some (r, h')"
    using both_up_initialize by blast
  have "calls (machine_host both_up) = []" by (simp add: machine_host_def)
  from launches_only_what_is_missing [OF this run] run show ?thesis by blast
qed

text \<open>A successful initialisation has been observed to be one: both paths existed, the first listing
  decides the ownership (and the daemon was started exactly when that listing had none), the
  reported version is what a successful version command printed, and the last two calls show a
  GUI in daemon mode and an accepted connection on the daemon's socket.
\<close>

theorem initialize_success_is_observed:
  assumes "initialize X cfg h = Some (Inr s, h')"
  shows "\<exists>first start out between ps users.
    calls h' = calls h @ [Exists (standalone_codex cfg) True, Exists (gui_executable cfg) True, Ps (Inr first)] @
      start @ between @ [Ps (Inr ps), SocketUsers (daemon_socket cfg) (Inr users)] \<and>
    start = (if has_managed_daemon first (standalone_codex cfg) then []
             else [Spawn (standalone_codex cfg) [''app-server'', ''daemon'', ''start''] [] (Inr ())]) \<and>
    version_call cfg out \<in> set between \<and> success out \<and> stdout out \<noteq> [] \<and>
    attachment_shown cfg ps users \<and>
    s = \<lparr>daemon_ownership = (if has_managed_daemon first (standalone_codex cfg) then Attached else Started),
         daemon_version = stdout out, state_gui_attached = True, daemon_left_running = True\<rparr>"
proof -
  from assms obtain h1 h2 first h3 owner h4 v h5 u1 u2 u3
    where e1: "require_path X (standalone_codex cfg) (MissingStandalone (standalone_codex cfg)) h = Some (Inr u1, h1)"
      and e2: "require_path X (gui_executable cfg) (MissingGui (gui_executable cfg)) h1 = Some (Inr u2, h2)"
      and ps: "ps_environment X h2 = (Inr first, h3)"
      and d: "claim_daemon X cfg first h3 = Some (Inr owner, h4)"
      and w: "wait_for_daemon_version X cfg h4 = Some (Inr v, h5)"
      and g: "ensure_gui X cfg h5 = Some (Inr u3, h')"
      and s: "s = \<lparr>daemon_ownership = owner, daemon_version = v, state_gui_attached = True,
                   daemon_left_running = True\<rparr>"
    unfolding initialize_def action_iffs by blast
  note early = require_path_Inr [OF e1] require_path_Inr [OF e2] ps_environment_calls [OF ps]
  from wait_for_daemon_version_Inr [OF w] obtain out xs where
    out: "success out" "stdout out = v" "v \<noteq> []" "calls h5 = calls h4 @ xs @ [version_call cfg out]" by blast
  from ensure_gui_Inr [OF g] obtain l users ys where
    g': "attachment_shown cfg l users"
      "calls h' = calls h5 @ ys @ [Ps (Inr l), SocketUsers (daemon_socket cfg) (Inr users)]" by blast
  define start where "start = (if has_managed_daemon first (standalone_codex cfg) then []
     else [Spawn (standalone_codex cfg) [''app-server'', ''daemon'', ''start''] [] (Inr ())])"
  have "owner = (if has_managed_daemon first (standalone_codex cfg) then Attached else Started) \<and>
      calls h4 = calls h3 @ start"
    using claim_daemon_Inr [OF d] by (cases owner) (auto simp: start_def)
  then show ?thesis
    using early out g' s
    by (intro exI [of _ first] exI [of _ start] exI [of _ out]
        exI [of _ "xs @ [version_call cfg out] @ ys"] exI [of _ l] exI [of _ users])
       (simp add: start_def)
qed

theorem initialize_success_is_observed_witness:
  "\<exists>h' ps users. initialize (real_ops machine_os) sample_config (machine_host both_up) =
     Some (Inr \<lparr>daemon_ownership = Attached, daemon_version = ''1'', state_gui_attached = True,
                daemon_left_running = True\<rparr>, h') \<and>
     attachment_shown sample_config ps users \<and>
     Ps (Inr ps) \<in> set (calls h') \<and> SocketUsers ''/s'' (Inr users) \<in> set (calls h')"
proof -
  obtain h' where run: "initialize (real_ops machine_os) sample_config (machine_host both_up) =
     Some (Inr \<lparr>daemon_ownership = Attached, daemon_version = ''1'', state_gui_attached = True,
                daemon_left_running = True\<rparr>, h')"
    using both_up_initialize by blast
  from initialize_success_is_observed [OF run] obtain ps users xs where
    "attachment_shown sample_config ps users"
    "calls h' = xs @ [Ps (Inr ps), SocketUsers (daemon_socket sample_config) (Inr users)]"
    by (metis append_assoc)
  with run show ?thesis
    by (intro exI [of _ h'] exI [of _ ps] exI [of _ users]) (simp add: sample_config_def)
qed

text \<open>C20. The initialisation always returns: given only that the clock is monotonic and that a sleep
  lasts, whatever the processes answer, it ends with a result after a number of calls that is
  bounded by the two timeouts.
\<close>

theorem initialize_returns:
  assumes "clock_laws X"
  shows "\<exists>r h'. initialize X cfg h = Some (r, h') \<and>
    length (calls h') \<le> length (calls h) + 8 + rounds (graceful_quit_timeout cfg) + 3 * rounds (startup_timeout cfg)"
proof -
  have "within (1 + (1 + (1 + (1 + (rounds (startup_timeout cfg) +
      ((4 + rounds (graceful_quit_timeout cfg) + 2 * rounds (startup_timeout cfg)) + 0))))))
      (initialize X cfg)"
    unfolding initialize_def
    by (intro within_and_then require_path_within listing_within claim_daemon_within
        version_wait_within [OF assms] ensure_gui_within [OF assms] within_ok)
  then show ?thesis unfolding within_def by (elim allE [of _ h] exE conjE) (auto simp: algebra_simps)
qed

theorem initialize_returns_witness:
  "\<exists>r h'. initialize (real_ops machine_os) sample_config (machine_host both_up) = Some (r, h') \<and>
     length (calls h') \<le> 41"
  using initialize_returns [OF machine_clock, of sample_config "machine_host both_up"]
  by (simp add: machine_host_def sample_config_def)

text \<open>The verdict of a check is its observation: \<open>Healthy\<close> exactly when the listing shows the
  daemon, the version command succeeded and the attachment was shown; a restart is reported
  exactly when the spawn for the missing part succeeded; \<open>Incompatible\<close> exactly when the daemon
  runs and its version command failed.
\<close>

theorem check_reports_what_it_saw:
  assumes "check X cfg h = (event, h')"
  shows "\<exists>new. calls h' = calls h @ new \<and> length new \<le> 4 \<and>
    (event = Healthy \<longleftrightarrow> (\<exists>ps out users. has_managed_daemon ps (standalone_codex cfg) \<and> success out \<and>
        attachment_shown cfg ps users \<and>
        new = [Ps (Inr ps), version_call cfg out, SocketUsers (daemon_socket cfg) (Inr users)])) \<and>
    (event = DaemonRestarted \<longleftrightarrow> (\<exists>ps. \<not> has_managed_daemon ps (standalone_codex cfg) \<and>
        new = [Ps (Inr ps), Spawn (standalone_codex cfg) [''app-server'', ''daemon'', ''start''] [] (Inr ())])) \<and>
    (event = GuiRestarted \<longrightarrow> (\<exists>ps out env. has_managed_daemon ps (standalone_codex cfg) \<and> success out \<and>
        \<not> gui_running ps (gui_executable cfg) \<and>
        new = [Ps (Inr ps), version_call cfg out,
               Spawn ''/usr/bin/open'' [''-a'', application_bundle (gui_executable cfg)] env (Inr ())])) \<and>
    ((\<exists>detail. event = Incompatible detail) \<longleftrightarrow> (\<exists>ps out. has_managed_daemon ps (standalone_codex cfg) \<and>
        new = [Ps (Inr ps), Output (standalone_codex cfg) [''app-server'', ''daemon'', ''version''] out] \<and>
        (\<forall>o1. out = Inr o1 \<longrightarrow> \<not> success o1)))"
proof -
  obtain l h1 where ps: "ps_environment X h = (l, h1)" by fastforce
  note c1 = ps_environment_calls [OF ps]
  show ?thesis
  proof (cases "\<exists>processes. l = Inr processes \<and> has_managed_daemon processes (standalone_codex cfg)")
    case False
    then show ?thesis
      using assms ps c1
      by (cases l)
         (auto simp: check_def start_daemon_def split: prod.splits sum.splits dest!: spawn_process_calls)
  next
    case True
    then obtain processes where l: "l = Inr processes" "has_managed_daemon processes (standalone_codex cfg)"
      by blast
    obtain out h2 where out: "probe_version X cfg h1 = (out, h2)" by fastforce
    have c2: "calls h2 = calls h @ [Ps (Inr processes),
        Output (standalone_codex cfg) [''app-server'', ''daemon'', ''version''] out]"
      using out c1 l by (auto simp: probe_version_def dest!: run_output_calls)
    obtain a h3 where a: "gui_attached X cfg processes h2 = (a, h3)" by fastforce
    show ?thesis
    proof (cases "\<exists>o1. out = Inr o1 \<and> success o1")
      case False
      then show ?thesis
        using assms ps l out c2 by (cases out) (auto simp: check_def)
    next
      case True
      then obtain o1 where o1: "out = Inr o1" "success o1" by blast
      show ?thesis
      proof (cases "\<not> a \<and> \<not> gui_running processes (gui_executable cfg)")
        case True
        then have "h3 = h2"
          using gui_attached_cases [OF a] gui_mode_running by blast
        with True show ?thesis
          using assms ps l out o1 a c2
          by (auto simp: check_def launch_gui_def to_str_def split: option.splits if_splits prod.splits sum.splits
              dest!: spawn_process_calls)
      next
        case False
        then show ?thesis
          using assms ps l out o1 a c2 gui_attached_cases [OF a]
          by (auto simp: check_def attachment_shown_def)
      qed
    qed
  qed
qed
theorem check_reports_what_it_saw_witness:
  "\<exists>event h' new. check (real_ops machine_os) sample_config (machine_host both_up) = (event, h') \<and>
     calls h' = new \<and> length new \<le> 4"
proof -
  obtain event h' where run: "check (real_ops machine_os) sample_config (machine_host both_up) = (event, h')"
    by fastforce
  from check_reports_what_it_saw [OF run] run show ?thesis
    by (auto simp: machine_host_def)
qed

text \<open>Over the initialisation and any run of the monitor, whatever the operating system answers,
  the supervision gives it only the permitted commands: it never kills a process, never stops
  the daemon, and what it starts runs detached, in a process group of its own.
\<close>

theorem only_permitted_commands:
  assumes "commands (world h) = []" and "initialize (real_ops os) cfg h = Some (r, h')"
  shows "list_all (permitted cfg)
    (commands (world (host (foldl (monitor_step (real_ops os) cfg) (start_monitor h') inputs))))"
  using assms by (intro confined.supervision_keeps) simp_all

theorem only_permitted_commands_witness:
  "\<exists>r h'. initialize (real_ops machine_os) sample_config (machine_host both_up) = Some (r, h') \<and>
     list_all (permitted sample_config) (commands (world (host
       (foldl (monitor_step (real_ops machine_os) sample_config) (start_monitor h') [MonitorTick]))))"
proof -
  obtain r h' where run: "initialize (real_ops machine_os) sample_config (machine_host both_up) = Some (r, h')"
    using both_up_initialize by blast
  have "commands (world (machine_host both_up)) = []" by (simp add: machine_host_def)
  from only_permitted_commands [OF this run] run show ?thesis by blast
qed

end
