(* ===== verification/Json_Api.thy ===== *)
theory Json_Api
  imports Prelude
begin

text \<open>
  The JSON library (\<open>serde_json\<close>) is not part of the repository: it is a parameter of the
  model. The record \<open>json\<close> lists the operations of \<open>serde_json::Value\<close> the sources call;
  every definition that reads or builds a JSON value takes it as its argument \<open>J\<close>, and the
  type of values is a type variable. What a few results rely on (reading back a value that
  \<open>json!\<close> built) is stated once, as the predicate \<open>json_laws\<close>; the last section gives a
  concrete instance of the parameter for the witnesses.
\<close>

section \<open>The operations used\<close>

record 'v json =
  get :: "'v \<Rightarrow> string \<Rightarrow> 'v option"  \<comment> \<open>\<open>Value::get\<close> with a string key\<close>
  as_str :: "'v \<Rightarrow> string option"
  as_array :: "'v \<Rightarrow> 'v list option"
  as_bool :: "'v \<Rightarrow> bool option"
  as_u64 :: "'v \<Rightarrow> u64 option"
  jnull :: "'v"  \<comment> \<open>\<open>Value::Null\<close>\<close>
  jstr :: "string \<Rightarrow> 'v"  \<comment> \<open>\<open>json!\<close> of a string, a number, a bool, an array, an object\<close>
  jnum :: "u64 \<Rightarrow> 'v"
  jbool :: "bool \<Rightarrow> 'v"
  jarr :: "'v list \<Rightarrow> 'v"
  jobj :: "(string \<times> 'v) list \<Rightarrow> 'v"
  to_text :: "'v \<Rightarrow> string"  \<comment> \<open>\<open>Value::to_string\<close>\<close>

text \<open>
  \<open>v.get(k).and_then(Value::as_str)\<close> and the two-step path \<open>v.get(k).and_then(|v| v.get(l))\<close>
  occur all over the sources; \<open>v[k]\<close> is \<open>Null\<close> where \<open>get\<close> finds nothing, and comparing a
  value with a string compares \<open>as_str\<close>.
\<close>

definition get_str :: "'v json \<Rightarrow> 'v \<Rightarrow> string \<Rightarrow> string option" where
  "get_str J v k = Option.bind (get J v k) (as_str J)"

definition get_path :: "'v json \<Rightarrow> 'v \<Rightarrow> string \<Rightarrow> string \<Rightarrow> 'v option" where
  "get_path J v k l = Option.bind (get J v k) (\<lambda>x. get J x l)"

definition index :: "'v json \<Rightarrow> 'v \<Rightarrow> string \<Rightarrow> 'v" where
  "index J v k = unwrap_or (get J v k) (jnull J)"

definition value_is_str :: "'v json \<Rightarrow> 'v \<Rightarrow> string \<Rightarrow> bool" where
  "value_is_str J v s = (as_str J v = Some s)"

section \<open>Documented laws\<close>

definition json_laws :: "'v json \<Rightarrow> bool" where
  "json_laws J \<longleftrightarrow>
     (\<forall>kvs k. distinct (map fst kvs) \<longrightarrow> get J (jobj J kvs) k = map_of kvs k) \<and>
     (\<forall>s. as_str J (jstr J s) = Some s) \<and>
     (\<forall>s. as_u64 J (jstr J s) = None) \<and>
     (\<forall>n. as_u64 J (jnum J n) = Some n)"

lemma json_get_obj: "json_laws J \<Longrightarrow> distinct (map fst kvs) \<Longrightarrow> get J (jobj J kvs) k = map_of kvs k"
  unfolding json_laws_def by blast

lemma json_str [simp]: "json_laws J \<Longrightarrow> as_str J (jstr J s) = Some s"
  unfolding json_laws_def by blast

lemma json_str_u64 [simp]: "json_laws J \<Longrightarrow> as_u64 J (jstr J s) = None"
  unfolding json_laws_def by blast

lemma json_num [simp]: "json_laws J \<Longrightarrow> as_u64 J (jnum J n) = Some n"
  unfolding json_laws_def by blast

section \<open>An instance\<close>

datatype jv = JNull | JBool bool | JNum u64 | JStr string | JArr "jv list" | JObj "(string \<times> jv) list"

fun jv_get :: "jv \<Rightarrow> string \<Rightarrow> jv option" where
  "jv_get (JObj kvs) k = map_of kvs k"
| "jv_get _ _ = None"

fun jv_as_str :: "jv \<Rightarrow> string option" where
  "jv_as_str (JStr s) = Some s"
| "jv_as_str _ = None"

fun jv_as_array :: "jv \<Rightarrow> jv list option" where
  "jv_as_array (JArr vs) = Some vs"
| "jv_as_array _ = None"

fun jv_as_bool :: "jv \<Rightarrow> bool option" where
  "jv_as_bool (JBool b) = Some b"
| "jv_as_bool _ = None"

fun jv_as_u64 :: "jv \<Rightarrow> u64 option" where
  "jv_as_u64 (JNum n) = Some n"
| "jv_as_u64 _ = None"

fun jv_text :: "jv \<Rightarrow> string" where
  "jv_text (JStr s) = s"
| "jv_text (JArr vs) = concat (map jv_text vs)"
| "jv_text (JObj kvs) = concat (map (\<lambda>(k, v). k @ jv_text v) kvs)"
| "jv_text _ = []"

definition jv_api :: "jv json" where
  "jv_api = \<lparr>get = jv_get, as_str = jv_as_str, as_array = jv_as_array, as_bool = jv_as_bool,
     as_u64 = jv_as_u64, jnull = JNull, jstr = JStr, jnum = JNum, jbool = JBool, jarr = JArr,
     jobj = JObj, to_text = jv_text\<rparr>"

lemma jv_api_simps [simp]:
  "get jv_api = jv_get" "as_str jv_api = jv_as_str" "as_array jv_api = jv_as_array"
  "as_bool jv_api = jv_as_bool" "as_u64 jv_api = jv_as_u64" "jnull jv_api = JNull"
  "jstr jv_api = JStr" "jnum jv_api = JNum" "jbool jv_api = JBool" "jarr jv_api = JArr"
  "jobj jv_api = JObj" "to_text jv_api = jv_text"
  by (simp_all add: jv_api_def)

lemma jv_api_laws [simp]: "json_laws jv_api"
  by (simp add: json_laws_def)

end
