(* ===== verification/Protocol.thy ===== *)
theory Protocol
  imports Json_Api
begin

text \<open>
  The wire envelope (\<open>src/protocol/src/lib.rs\<close>): request ids, the classification of a frame
  as response, notification or server request with its raw value kept, the plane of a
  method, the sequenced event built from a frame, and the reconstructed anchor of a turn
  whose start was missed. Wall-clock and monotonic readings are arguments.
\<close>

section \<open>Frames\<close>

datatype RpcId = Number u64 | String string

datatype Plane = Lifecycle | Delta

datatype KnownMessage =
    ThreadStarted | ThreadStatusChanged | TurnStarted | TurnCompleted | TurnDiffUpdated
  | ItemLifecycle | ReviewerRequest

datatype 'v IncomingFrame =
    Response RpcId "'v option" "'v option" 'v  \<comment> \<open>id, result, error, raw\<close>
  | Notification string 'v "KnownMessage option" 'v  \<comment> \<open>method, params, known, raw\<close>
  | ServerRequest RpcId string 'v "KnownMessage option" 'v  \<comment> \<open>id, method, params, known, raw\<close>

text \<open>The untagged enum deserialises from a \<open>u64\<close> first, then from a string.\<close>

definition rpc_id_from_value :: "'v json \<Rightarrow> 'v \<Rightarrow> RpcId option" where
  "rpc_id_from_value J v =
     or_else (map_option Number (as_u64 J v)) (map_option String (as_str J v))"

definition rpc_id_value :: "'v json \<Rightarrow> RpcId \<Rightarrow> 'v" where
  "rpc_id_value J i = (case i of Number n \<Rightarrow> jnum J n | String s \<Rightarrow> jstr J s)"

definition classify :: "string \<Rightarrow> KnownMessage option" where
  "classify m =
     (if m = ''thread/started'' then Some ThreadStarted
      else if m = ''thread/status/changed'' then Some ThreadStatusChanged
      else if m = ''turn/started'' then Some TurnStarted
      else if m = ''turn/completed'' then Some TurnCompleted
      else if m = ''turn/diff/updated'' then Some TurnDiffUpdated
      else if starts_with m ''item/'' \<and> \<not> str_contains m ''delta'' then Some ItemLifecycle
      else if str_contains m ''approval'' \<or> str_contains m ''requestUserInput''
        then Some ReviewerRequest
      else None)"

definition parse :: "'v json \<Rightarrow> 'v \<Rightarrow> string + 'v IncomingFrame" where
  "parse J raw =
     (let rid = get J raw ''id'';
          meth = get_str J raw ''method''
      in case (rid, meth) of
        (Some i, Some m) \<Rightarrow>
          (case rpc_id_from_value J i of
             Some r \<Rightarrow> Inr (ServerRequest r m (unwrap_or (get J raw ''params'') (jnull J)) (classify m) raw)
           | None \<Rightarrow> Inl ''invalid request id'')
      | (None, Some m) \<Rightarrow>
          Inr (Notification m (unwrap_or (get J raw ''params'') (jnull J)) (classify m) raw)
      | (Some i, None) \<Rightarrow>
          (case rpc_id_from_value J i of
             Some r \<Rightarrow> Inr (Response r (get J raw ''result'') (get J raw ''error'') raw)
           | None \<Rightarrow> Inl ''invalid response id'')
      | (None, None) \<Rightarrow> Inl ''frame has neither method nor id'')"

fun frame_raw :: "'v IncomingFrame \<Rightarrow> 'v" where
  "frame_raw (Response _ _ _ raw) = raw"
| "frame_raw (Notification _ _ _ raw) = raw"
| "frame_raw (ServerRequest _ _ _ _ raw) = raw"

fun frame_method :: "'v IncomingFrame \<Rightarrow> string option" where
  "frame_method (Notification m _ _ _) = Some m"
| "frame_method (ServerRequest _ m _ _ _) = Some m"
| "frame_method (Response _ _ _ _) = None"

fun frame_params :: "'v IncomingFrame \<Rightarrow> 'v option" where
  "frame_params (Notification _ p _ _) = Some p"
| "frame_params (ServerRequest _ _ p _ _) = Some p"
| "frame_params (Response _ _ _ _) = None"

fun is_server_request :: "'v IncomingFrame \<Rightarrow> bool" where
  "is_server_request (ServerRequest _ _ _ _ _) = True"
| "is_server_request _ = False"

definition plane_for_method :: "string \<Rightarrow> Plane" where
  "plane_for_method m =
     (if str_contains m ''delta'' \<or> ends_with m ''/updated'' \<or> str_contains m ''output''
      then Delta else Lifecycle)"

section \<open>Field extraction\<close>

definition extract_thread_id :: "'v json \<Rightarrow> 'v \<Rightarrow> string option" where
  "extract_thread_id J v =
     or_else (or_else (get_str J v ''threadId'')
        (Option.bind (get_path J v ''thread'' ''id'') (as_str J)))
        (Option.bind (get_path J v ''turn'' ''threadId'') (as_str J))"

definition extract_turn_id :: "'v json \<Rightarrow> 'v \<Rightarrow> string option" where
  "extract_turn_id J v =
     or_else (get_str J v ''turnId'') (Option.bind (get_path J v ''turn'' ''id'') (as_str J))"

definition extract_emitted_at_ms :: "'v json \<Rightarrow> 'v \<Rightarrow> u64 option" where
  "extract_emitted_at_ms J v =
     Option.bind (or_else (get J v ''emittedAtMs'') (get J v ''emitted_at_ms'')) (as_u64 J)"

section \<open>Sequenced events\<close>

record 'v SequencedEvent =
  sequence :: u64
  unix_receipt_ms :: u64
  monotonic_ms :: u64
  emitted_at_ms :: "u64 option"
  plane :: Plane
  thread_id :: "string option"
  turn_id :: "string option"
  frame :: "'v IncomingFrame"
  reconstructed :: bool

text \<open>\<open>now\<close> is the wall clock in milliseconds since the epoch, \<open>mt\<close> the monotonic duration.\<close>

definition from_frame :: "'v json \<Rightarrow> nat \<Rightarrow> u64 \<Rightarrow> nat \<Rightarrow> 'v IncomingFrame \<Rightarrow> 'v SequencedEvent" where
  "from_frame J now sq mt f =
     (let params = frame_params f;
          m = unwrap_or (frame_method f) ''''
      in \<lparr>sequence = sq, unix_receipt_ms = millis_u64 now, monotonic_ms = millis_u64 mt,
          emitted_at_ms = Option.bind params (extract_emitted_at_ms J),
          plane = plane_for_method m,
          thread_id = Option.bind params (extract_thread_id J),
          turn_id = Option.bind params (extract_turn_id J),
          frame = f, reconstructed = False\<rparr>)"

text \<open>\<open>None\<close> is the panic of \<open>expect("static reconstructed frame is valid")\<close>.\<close>

definition reconstructed_frame_value :: "'v json \<Rightarrow> string \<Rightarrow> string \<Rightarrow> 'v" where
  "reconstructed_frame_value J t u =
     jobj J [(''jsonrpc'', jstr J ''2.0''), (''method'', jstr J ''turn/started''),
       (''params'', jobj J [(''threadId'', jstr J t), (''turn'', jobj J [(''id'', jstr J u)])])]"

definition reconstructed_active_turn ::
    "'v json \<Rightarrow> nat \<Rightarrow> u64 \<Rightarrow> nat \<Rightarrow> string \<Rightarrow> string \<Rightarrow> 'v SequencedEvent option" where
  "reconstructed_active_turn J now sq mt t u =
     (case parse J (reconstructed_frame_value J t u) of
        Inl _ \<Rightarrow> None
      | Inr f \<Rightarrow> Some \<lparr>sequence = sq, unix_receipt_ms = millis_u64 now,
          monotonic_ms = millis_u64 mt, emitted_at_ms = None, plane = Lifecycle,
          thread_id = Some t, turn_id = Some u, frame = f, reconstructed = True\<rparr>)"

definition event_method :: "'v SequencedEvent \<Rightarrow> string option" where
  "event_method e = frame_method (frame e)"

text \<open>\<open>serialize\<close> is \<open>serde_json::to_vec\<close> on events; an event that does not serialise counts 0 bytes.\<close>

definition encoded_len :: "('v SequencedEvent \<Rightarrow> 8 word list option) \<Rightarrow> 'v SequencedEvent \<Rightarrow> nat" where
  "encoded_len serialize e = (case serialize e of Some bytes \<Rightarrow> length bytes | None \<Rightarrow> 0)"

section \<open>Outbound envelopes\<close>

definition request :: "'v json \<Rightarrow> RpcId \<Rightarrow> string \<Rightarrow> 'v \<Rightarrow> 'v" where
  "request J i m params =
     jobj J [(''jsonrpc'', jstr J ''2.0''), (''id'', rpc_id_value J i), (''method'', jstr J m),
       (''params'', params)]"

definition notification :: "'v json \<Rightarrow> string \<Rightarrow> 'v \<Rightarrow> 'v" where
  "notification J m params =
     jobj J [(''jsonrpc'', jstr J ''2.0''), (''method'', jstr J m), (''params'', params)]"

section \<open>Lemmas\<close>

lemma rpc_id_roundtrip [simp]: "json_laws J \<Longrightarrow> rpc_id_from_value J (rpc_id_value J i) = Some i"
  by (cases i) (simp_all add: rpc_id_from_value_def rpc_id_value_def)

lemma parse_frame_raw: "parse J raw = Inr f \<Longrightarrow> frame_raw f = raw"
  by (auto simp: parse_def Let_def split: option.splits)

lemma parse_frame_method: "parse J raw = Inr f \<Longrightarrow> frame_method f = get_str J raw ''method''"
  by (auto simp: parse_def Let_def split: option.splits)

lemma parse_frame_params:
  "parse J raw = Inr f \<Longrightarrow>
     frame_params f = (if get_str J raw ''method'' = None then None
                       else Some (unwrap_or (get J raw ''params'') (jnull J)))"
  by (auto simp: parse_def Let_def split: option.splits)

lemma parse_server_request_iff:
  "parse J raw = Inr f \<Longrightarrow>
     is_server_request f \<longleftrightarrow> get J raw ''id'' \<noteq> None \<and> get_str J raw ''method'' \<noteq> None"
  by (auto simp: parse_def Let_def split: option.splits)

text \<open>What the envelope cannot be: neither method nor id, or an id of another type.\<close>

definition malformed_envelope :: "'v json \<Rightarrow> 'v \<Rightarrow> bool" where
  "malformed_envelope J raw =
     (case get J raw ''id'' of
        None \<Rightarrow> get_str J raw ''method'' = None
      | Some i \<Rightarrow> rpc_id_from_value J i = None)"

lemma parse_error_iff: "(\<exists>e. parse J raw = Inl e) \<longleftrightarrow> malformed_envelope J raw"
  by (auto simp: parse_def malformed_envelope_def Let_def split: option.splits)

lemma from_frame_simps [simp]:
  "sequence (from_frame J now sq mt f) = sq"
  "unix_receipt_ms (from_frame J now sq mt f) = millis_u64 now"
  "monotonic_ms (from_frame J now sq mt f) = millis_u64 mt"
  "plane (from_frame J now sq mt f) = plane_for_method (unwrap_or (frame_method f) '''')"
  "thread_id (from_frame J now sq mt f) = Option.bind (frame_params f) (extract_thread_id J)"
  "turn_id (from_frame J now sq mt f) = Option.bind (frame_params f) (extract_turn_id J)"
  "emitted_at_ms (from_frame J now sq mt f) = Option.bind (frame_params f) (extract_emitted_at_ms J)"
  "frame (from_frame J now sq mt f) = f"
  "reconstructed (from_frame J now sq mt f) = False"
  by (simp_all add: from_frame_def Let_def)

lemma event_method_from_frame [simp]: "event_method (from_frame J now sq mt f) = frame_method f"
  by (simp add: event_method_def)

lemma parse_reconstructed:
  assumes "json_laws J"
  shows "parse J (reconstructed_frame_value J t u) =
    Inr (Notification ''turn/started''
      (jobj J [(''threadId'', jstr J t), (''turn'', jobj J [(''id'', jstr J u)])])
      (Some TurnStarted) (reconstructed_frame_value J t u))"
  using assms
  by (simp add: parse_def reconstructed_frame_value_def json_get_obj get_str_def classify_def)

lemma reconstructed_ids:
  assumes "json_laws J"
  shows "extract_thread_id J (jobj J [(''threadId'', jstr J t), (''turn'', jobj J [(''id'', jstr J u)])]) = Some t"
    and "extract_turn_id J (jobj J [(''threadId'', jstr J t), (''turn'', jobj J [(''id'', jstr J u)])]) = Some u"
  using assms
  by (simp_all add: extract_thread_id_def extract_turn_id_def get_str_def get_path_def json_get_obj)

lemma reconstructed_active_turn_Some:
  assumes "json_laws J"
  shows "\<exists>e. reconstructed_active_turn J now sq mt t u = Some e \<and> sequence e = sq \<and>
    plane e = Lifecycle \<and> thread_id e = Some t \<and> turn_id e = Some u \<and> reconstructed e \<and>
    event_method e = Some ''turn/started'' \<and> monotonic_ms e = millis_u64 mt \<and>
    unix_receipt_ms e = millis_u64 now \<and> emitted_at_ms e = None"
  using assms by (simp add: reconstructed_active_turn_def parse_reconstructed event_method_def)

text \<open>Concrete notifications for the witnesses: a method on a thread and a turn.\<close>

definition wire_event :: "u64 \<Rightarrow> string \<Rightarrow> string \<Rightarrow> string \<Rightarrow> jv SequencedEvent" where
  "wire_event sq m t u =
     from_frame jv_api 0 sq (unat sq)
       (Notification m (JObj [(''threadId'', JStr t), (''turnId'', JStr u)]) (classify m) JNull)"

lemma wire_event_simps [simp]:
  "sequence (wire_event sq m t u) = sq" "event_method (wire_event sq m t u) = Some m"
  "thread_id (wire_event sq m t u) = Some t" "turn_id (wire_event sq m t u) = Some u"
  "plane (wire_event sq m t u) = plane_for_method m" "monotonic_ms (wire_event sq m t u) = sq"
  "reconstructed (wire_event sq m t u) = False" "emitted_at_ms (wire_event sq m t u) = None"
  "unix_receipt_ms (wire_event sq m t u) = 0"
  by (simp_all add: wire_event_def extract_thread_id_def extract_turn_id_def get_str_def
      extract_emitted_at_ms_def millis_u64_def)

lemma wire_planes [simp]:
  "plane_for_method ''turn/started'' = Lifecycle" "plane_for_method ''turn/completed'' = Lifecycle"
  "plane_for_method ''thread/started'' = Lifecycle" "plane_for_method ''thread/status/changed'' = Lifecycle"
  "plane_for_method ''item/agentMessage/delta'' = Delta"
  by (simp_all add: plane_for_method_def ends_with_def starts_with_def)

section \<open>Properties\<close>

text \<open>Parsing is lossless and total up to two causes of failure: a frame is rejected
  exactly when it has neither method nor id, or an id that is neither a \<open>u64\<close> nor a string;
  whatever its method, known or not, an accepted frame keeps the raw value it was read from
  and reports the method of that value.\<close>

theorem parse_total_and_lossless:
  "case parse J raw of
      Inr f \<Rightarrow> \<not> malformed_envelope J raw \<and> frame_raw f = raw \<and>
        frame_method f = get_str J raw ''method'' \<and>
        is_server_request f = (get J raw ''id'' \<noteq> None \<and> get_str J raw ''method'' \<noteq> None)
    | Inl _ \<Rightarrow> malformed_envelope J raw"
  by (auto simp: parse_error_iff [symmetric] split: sum.splits
      dest: parse_frame_raw parse_frame_method parse_server_request_iff)

text \<open>Outbound envelopes round-trip: a request built for an id, a method and parameters
  parses on the peer's side as a server request with the same id, method and parameters, and a
  notification as a notification.\<close>

theorem outbound_roundtrip:
  assumes "json_laws J"
  shows "parse J (request J i m p) = Inr (ServerRequest i m p (classify m) (request J i m p)) \<and>
    parse J (notification J m p) = Inr (Notification m p (classify m) (notification J m p))"
  using assms by (simp add: parse_def request_def notification_def json_get_obj get_str_def)

theorem outbound_roundtrip_witness:
  "parse jv_api (request jv_api (Number 7) ''turn/steer'' JNull) =
     Inr (ServerRequest (Number 7) ''turn/steer'' JNull None (request jv_api (Number 7) ''turn/steer'' JNull))"
  using outbound_roundtrip [OF jv_api_laws, of "Number 7" "''turn/steer''" JNull]
  by (simp add: classify_def starts_with_def)

text \<open>A reconstructed anchor is never mistaken for a wire event: building it does not
  panic, it is flagged, it lies in the lifecycle plane with the given receipt sequence, and the
  ids it carries are the ids its own frame would yield, as a genuine \<open>turn/started\<close> of the same
  thread and turn would.\<close>

theorem reconstructed_anchor_faithful:
  assumes "json_laws J"
  shows "\<exists>e. reconstructed_active_turn J now sq mt t u = Some e \<and> reconstructed e \<and>
    event_method e = Some ''turn/started'' \<and>
    e\<lparr>reconstructed := False\<rparr> = from_frame J now sq mt (frame e)\<lparr>emitted_at_ms := None\<rparr> \<and>
    thread_id e = Some t \<and> turn_id e = Some u"
  using assms
  by (simp add: reconstructed_active_turn_def parse_reconstructed event_method_def from_frame_def
      reconstructed_ids plane_for_method_def ends_with_def starts_with_def)

theorem reconstructed_anchor_faithful_witness:
  "\<exists>e. reconstructed_active_turn jv_api 5 7 9 ''a'' ''t1'' = Some e \<and> reconstructed e \<and>
    thread_id e = Some ''a''"
  using reconstructed_anchor_faithful [OF jv_api_laws, of 5 7 9 "''a''" "''t1''"] by blast

text \<open>The plane of a method is a case-sensitive substring test: every response, and every
  streamed reasoning delta of the pinned schema (\<open>item/reasoning/textDelta\<close>,
  \<open>item/reasoning/summaryTextDelta\<close>), is a lifecycle event, while the agent-message and
  output deltas are deltas.\<close>

theorem plane_of_wire_events:
  "plane (from_frame J now sq mt (Response i r err raw)) = Lifecycle \<and>
   plane (from_frame J now sq mt (Notification ''item/reasoning/textDelta'' p k raw)) = Lifecycle \<and>
   plane (from_frame J now sq mt (Notification ''item/reasoning/summaryTextDelta'' p k raw)) = Lifecycle \<and>
   plane (from_frame J now sq mt (Notification ''item/agentMessage/delta'' p k raw)) = Delta \<and>
   plane (from_frame J now sq mt (Notification ''item/commandExecution/outputDelta'' p k raw)) = Delta \<and>
   plane (from_frame J now sq mt (Notification ''turn/started'' p k raw)) = Lifecycle \<and>
   plane (from_frame J now sq mt (Notification ''turn/completed'' p k raw)) = Lifecycle"
  by (simp add: plane_for_method_def ends_with_def starts_with_def)

text \<open>The reviewer class is unreachable for the approval and input requests of the pinned
  schema: those under \<open>item/\<close> are classified as item lifecycle before the reviewer test is
  tried, and the two capitalised \<open>Approval\<close> methods match no class.\<close>

theorem reviewer_requests_not_classified:
  "classify ''item/commandExecution/requestApproval'' = Some ItemLifecycle \<and>
   classify ''item/fileChange/requestApproval'' = Some ItemLifecycle \<and>
   classify ''item/permissions/requestApproval'' = Some ItemLifecycle \<and>
   classify ''item/tool/requestUserInput'' = Some ItemLifecycle \<and>
   classify ''applyPatchApproval'' = None \<and> classify ''execCommandApproval'' = None"
  by (simp add: classify_def starts_with_def)

end
