(* ===== verification/Store.thy ===== *)
theory Store
  imports Protocol "HOL-Library.Sublist" "HOL-Library.Char_ord" "HOL-Library.List_Lexorder"
begin

text \<open>
  The bounded in-memory event store (\<open>src/store/src/lib.rs\<close>): recording with age and byte-cap
  pruning, the gap records of what was evicted, the two queries, the reconstructed anchor and
  the eviction of idle content. Parameters: \<open>S\<close> serialises an event (its length is the size
  that is accounted), and \<open>it\<close> is the order in which the hash map of per-thread totals is
  iterated, which the standard library leaves open. Durations are natural numbers of
  milliseconds; \<open>usize\<close> totals and the event counters of a gap are natural numbers.
\<close>

section \<open>State\<close>

record StoreConfig =
  retention :: nat
  per_thread_bytes :: nat
  global_bytes :: nat
  emitted_at_tolerance :: nat

definition default_store_config :: StoreConfig where
  "default_store_config =
     \<lparr>retention = 10 * 60 * 1000, per_thread_bytes = 8 * (1024 * 1024),
      global_bytes = 64 * (1024 * 1024), emitted_at_tolerance = 2 * 1000\<rparr>"

record RetentionGap =
  before_sequence :: "u64 option"
  summarized_delta_events :: nat
  evicted_lifecycle_events :: nat

definition empty_gap :: RetentionGap where
  "empty_gap = \<lparr>before_sequence = None, summarized_delta_events = 0, evicted_lifecycle_events = 0\<rparr>"

record 'v QueryResult =
  q_events :: "'v SequencedEvent list"
  q_gap :: "RetentionGap option"

record 'v Inner =
  events :: "'v SequencedEvent list"
  bytes :: nat
  thread_bytes :: "string \<rightharpoonup> nat"
  gaps :: "string option \<rightharpoonup> RetentionGap"

definition new_store :: "'v Inner" where
  "new_store = \<lparr>events = [], bytes = 0, thread_bytes = Map.empty, gaps = Map.empty\<rparr>"

section \<open>Removal\<close>

definition count_gap :: "'v SequencedEvent \<Rightarrow> RetentionGap \<Rightarrow> RetentionGap" where
  "count_gap e g =
     (let g' = g\<lparr>before_sequence := Some (case before_sequence g of
                    None \<Rightarrow> sequence e | Some s \<Rightarrow> max s (sequence e))\<rparr>
      in if plane e = Delta
         then g'\<lparr>summarized_delta_events := summarized_delta_events g' + 1\<rparr>
         else g'\<lparr>evicted_lifecycle_events := evicted_lifecycle_events g' + 1\<rparr>)"

definition remove_at :: "('v SequencedEvent \<Rightarrow> 8 word list option) \<Rightarrow> 'v Inner \<Rightarrow> nat \<Rightarrow> 'v Inner" where
  "remove_at S inner i =
     (case deque_remove (events inner) i of
        None \<Rightarrow> inner
      | Some (e, es) \<Rightarrow>
          (let size = encoded_len S e
           in \<lparr>events = es,
               bytes = bytes inner - size,
               thread_bytes = (case thread_id e of
                   None \<Rightarrow> thread_bytes inner
                 | Some t \<Rightarrow> (thread_bytes inner)(t \<mapsto> unwrap_or (thread_bytes inner t) 0 - size)),
               gaps = (gaps inner)(thread_id e \<mapsto>
                   count_gap e (unwrap_or (gaps inner (thread_id e)) empty_gap))\<rparr>))"

section \<open>Pruning\<close>

function prune_age :: "('v SequencedEvent \<Rightarrow> 8 word list option) \<Rightarrow> u64 \<Rightarrow> 'v Inner \<Rightarrow> 'v Inner" where
  "prune_age S cutoff inner =
     (case events inner of
        [] \<Rightarrow> inner
      | e # _ \<Rightarrow> if monotonic_ms e < cutoff then prune_age S cutoff (remove_at S inner 0) else inner)"
  by pat_completeness auto
termination
  by (relation "measure (\<lambda>(S, cutoff, inner). length (events inner))")
    (auto simp: remove_at_def deque_remove_def Let_def)

declare prune_age.simps [simp del]

definition over_thread ::
    "StoreConfig \<Rightarrow> ('v Inner \<Rightarrow> (string \<times> nat) list) \<Rightarrow> 'v Inner \<Rightarrow> string option" where
  "over_thread cfg it inner =
     map_option fst (find (\<lambda>(t, b). b > per_thread_bytes cfg) (it inner))"

definition evict_position :: "string option \<Rightarrow> 'v Inner \<Rightarrow> nat" where
  "evict_position over inner =
     unwrap_or (position (\<lambda>e. plane e = Delta \<and> is_none_or over (\<lambda>t. thread_id e = Some t)) (events inner)) 0"

text \<open>The cap loop has no bound of its own: \<open>None\<close> is a run that does not end.\<close>

partial_function (option) prune_caps ::
    "StoreConfig \<Rightarrow> ('v SequencedEvent \<Rightarrow> 8 word list option) \<Rightarrow> ('v Inner \<Rightarrow> (string \<times> nat) list) \<Rightarrow>
     'v Inner \<Rightarrow> 'v Inner option" where
  "prune_caps cfg S it inner =
     (if \<not> bytes inner > global_bytes cfg \<and> over_thread cfg it inner = None then Some inner
      else prune_caps cfg S it (remove_at S inner (evict_position (over_thread cfg it inner) inner)))"

definition prune_locked ::
    "StoreConfig \<Rightarrow> ('v SequencedEvent \<Rightarrow> 8 word list option) \<Rightarrow> ('v Inner \<Rightarrow> (string \<times> nat) list) \<Rightarrow>
     'v Inner \<Rightarrow> 'v Inner option" where
  "prune_locked cfg S it inner =
     (let newest_ms = (if events inner = [] then 0 else monotonic_ms (last (events inner)));
          cutoff = saturating_sub newest_ms (millis_u64 (retention cfg))
      in prune_caps cfg S it (prune_age S cutoff inner))"

section \<open>Recording\<close>

definition push_event :: "('v SequencedEvent \<Rightarrow> 8 word list option) \<Rightarrow> 'v Inner \<Rightarrow> 'v SequencedEvent \<Rightarrow> 'v Inner" where
  "push_event S inner e =
     inner\<lparr>bytes := bytes inner + encoded_len S e,
       thread_bytes := (case thread_id e of
           None \<Rightarrow> thread_bytes inner
         | Some t \<Rightarrow> (thread_bytes inner)(t \<mapsto> unwrap_or (thread_bytes inner t) 0 + encoded_len S e)),
       events := events inner @ [e]\<rparr>"

definition record_locked ::
    "StoreConfig \<Rightarrow> ('v SequencedEvent \<Rightarrow> 8 word list option) \<Rightarrow> ('v Inner \<Rightarrow> (string \<times> nat) list) \<Rightarrow>
     'v Inner \<Rightarrow> 'v SequencedEvent \<Rightarrow> 'v Inner option" where
  "record_locked cfg S it inner e = prune_locked cfg S it (push_event S inner e)"

definition genuine_start :: "string \<Rightarrow> string \<Rightarrow> 'v SequencedEvent \<Rightarrow> bool" where
  "genuine_start t u e =
     (\<not> reconstructed e \<and> event_method e = Some ''turn/started'' \<and>
      thread_id e = Some t \<and> turn_id e = Some u)"

definition record_reconstructed_active_turn ::
    "'v json \<Rightarrow> StoreConfig \<Rightarrow> ('v SequencedEvent \<Rightarrow> 8 word list option) \<Rightarrow>
     ('v Inner \<Rightarrow> (string \<times> nat) list) \<Rightarrow> nat \<Rightarrow> nat \<Rightarrow> u64 \<Rightarrow> string \<Rightarrow> string \<Rightarrow>
     'v Inner \<Rightarrow> (bool \<times> 'v Inner) option" where
  "record_reconstructed_active_turn J cfg S it now elapsed sq t u inner =
     (if list_ex (genuine_start t u) (events inner) then Some (False, inner)
      else Option.bind (reconstructed_active_turn J now sq elapsed t u)
        (\<lambda>e. map_option (Pair True) (record_locked cfg S it inner e)))"

section \<open>Queries\<close>

definition query_sequence ::
    "'v Inner \<Rightarrow> string option \<Rightarrow> u64 \<Rightarrow> u64 option \<Rightarrow> 'v QueryResult" where
  "query_sequence inner t after through =
     \<lparr>q_events = filter (\<lambda>e. sequence e > after \<and> is_none_or through (\<lambda>last. sequence e \<le> last) \<and>
         is_none_or t (\<lambda>t. thread_id e = Some t)) (events inner),
      q_gap = gaps inner t\<rparr>"

definition event_timestamp :: "'v SequencedEvent \<Rightarrow> u64" where
  "event_timestamp e = unwrap_or (emitted_at_ms e) (unix_receipt_ms e)"

definition query_time ::
    "StoreConfig \<Rightarrow> 'v Inner \<Rightarrow> string option \<Rightarrow> u64 \<Rightarrow> u64 \<Rightarrow> 'v QueryResult" where
  "query_time cfg inner t start_ms end_ms =
     (let tolerance = millis_u64 (emitted_at_tolerance cfg)
      in \<lparr>q_events = filter (\<lambda>e.
             saturating_add (event_timestamp e) tolerance \<ge> start_ms \<and>
             event_timestamp e \<le> saturating_add end_ms tolerance \<and>
             is_none_or t (\<lambda>t. thread_id e = Some t)) (events inner),
          q_gap = gaps inner t\<rparr>)"

definition store_len :: "'v Inner \<Rightarrow> nat" where
  "store_len inner = length (events inner)"

definition store_is_empty :: "'v Inner \<Rightarrow> bool" where
  "store_is_empty inner = (events inner = [])"

section \<open>Idle content\<close>

definition idle_delta :: "string list \<Rightarrow> 'v SequencedEvent \<Rightarrow> bool" where
  "idle_delta idle e = (plane e = Delta \<and> is_some_and (thread_id e) (\<lambda>t. t \<in> set idle))"

text \<open>The index runs down from the length; \<open>None\<close> is the panic of an index out of range.\<close>

fun evict_idle_below ::
    "('v SequencedEvent \<Rightarrow> 8 word list option) \<Rightarrow> string list \<Rightarrow> 'v Inner \<Rightarrow> nat \<Rightarrow> 'v Inner option" where
  "evict_idle_below S idle inner 0 = Some inner"
| "evict_idle_below S idle inner (Suc p) =
     (if p < length (events inner)
      then evict_idle_below S idle
        (if idle_delta idle (events inner ! p) then remove_at S inner p else inner) p
      else None)"

definition evict_idle_content ::
    "('v SequencedEvent \<Rightarrow> 8 word list option) \<Rightarrow> string list \<Rightarrow> 'v Inner \<Rightarrow> 'v Inner option" where
  "evict_idle_content S idle inner = evict_idle_below S idle inner (length (events inner))"

section \<open>Runs\<close>

datatype 'v store_op =
    Record "'v SequencedEvent"
  | Anchor nat nat u64 string string  \<comment> \<open>clock readings, sequence, thread, turn\<close>
  | EvictContent "string list"

fun store_step ::
    "'v json \<Rightarrow> StoreConfig \<Rightarrow> ('v SequencedEvent \<Rightarrow> 8 word list option) \<Rightarrow>
     ('v Inner \<Rightarrow> (string \<times> nat) list) \<Rightarrow> 'v store_op \<Rightarrow> 'v Inner \<Rightarrow> 'v Inner option" where
  "store_step J cfg S it (Record e) inner = record_locked cfg S it inner e"
| "store_step J cfg S it (Anchor now el sq t u) inner =
     map_option snd (record_reconstructed_active_turn J cfg S it now el sq t u inner)"
| "store_step J cfg S it (EvictContent idle) inner = evict_idle_content S idle inner"

fun store_run ::
    "'v json \<Rightarrow> StoreConfig \<Rightarrow> ('v SequencedEvent \<Rightarrow> 8 word list option) \<Rightarrow>
     ('v Inner \<Rightarrow> (string \<times> nat) list) \<Rightarrow> 'v Inner \<Rightarrow> 'v store_op list \<Rightarrow> 'v Inner option" where
  "store_run J cfg S it inner [] = Some inner"
| "store_run J cfg S it inner (x # xs) =
     Option.bind (store_step J cfg S it x inner) (\<lambda>inner'. store_run J cfg S it inner' xs)"


section \<open>Accounting\<close>

definition total_bytes :: "('v SequencedEvent \<Rightarrow> 8 word list option) \<Rightarrow> 'v SequencedEvent list \<Rightarrow> nat" where
  "total_bytes S es = sum_list (map (encoded_len S) es)"

definition on_thread :: "string option \<Rightarrow> 'v SequencedEvent list \<Rightarrow> 'v SequencedEvent list" where
  "on_thread k es = filter (\<lambda>e. thread_id e = k) es"

text \<open>The totals the store keeps are the totals of what it retains.\<close>

definition store_inv :: "('v SequencedEvent \<Rightarrow> 8 word list option) \<Rightarrow> 'v Inner \<Rightarrow> bool" where
  "store_inv S inner \<longleftrightarrow>
     bytes inner = total_bytes S (events inner) \<and>
     (\<forall>t. unwrap_or (thread_bytes inner t) 0 = total_bytes S (on_thread (Some t) (events inner))) \<and>
     finite (dom (thread_bytes inner))"

text \<open>The gap record that a list of evicted events, in order of eviction, amounts to.\<close>

definition gap_of :: "string option \<Rightarrow> 'v SequencedEvent list \<Rightarrow> RetentionGap option" where
  "gap_of k ev = (if on_thread k ev = [] then None else Some (fold count_gap (on_thread k ev) empty_gap))"

definition accounts :: "'v SequencedEvent list \<Rightarrow> 'v SequencedEvent list \<Rightarrow> 'v Inner \<Rightarrow> bool" where
  "accounts recs ev inner \<longleftrightarrow>
     mset recs = mset (events inner) + mset ev \<and> subseq (events inner) recs \<and>
     (\<forall>k. gaps inner k = gap_of k ev)"

lemma total_bytes_simps [simp]:
  "total_bytes S [] = 0" "total_bytes S (e # es) = encoded_len S e + total_bytes S es"
  "total_bytes S (xs @ ys) = total_bytes S xs + total_bytes S ys"
  by (simp_all add: total_bytes_def)

lemma on_thread_simps [simp]:
  "on_thread k [] = []" "on_thread k (e # es) = (if thread_id e = k then e # on_thread k es else on_thread k es)"
  "on_thread k (xs @ ys) = on_thread k xs @ on_thread k ys"
  by (simp_all add: on_thread_def)

lemma gap_of_snoc:
  "gap_of k (ev @ [e]) =
     (if thread_id e = k then Some (count_gap e (unwrap_or (gap_of k ev) empty_gap)) else gap_of k ev)"
  by (simp add: gap_of_def)

text \<open>A removal at a position of the deque, and a sequence of removals.\<close>

lemma remove_at_events [simp]:
  "events (remove_at S inner i) = take i (events inner) @ drop (Suc i) (events inner)"
  by (cases "i < length (events inner)") (simp_all add: remove_at_def deque_remove_def Let_def)

lemma remove_at_length: "i < length (events s) \<Longrightarrow> length (events (remove_at S s i)) < length (events s)"
  by simp

lemma remove_at_fields:
  assumes "i < length (events inner)"
  shows "bytes (remove_at S inner i) = bytes inner - encoded_len S (events inner ! i)"
    and "thread_bytes (remove_at S inner i) =
      (case thread_id (events inner ! i) of None \<Rightarrow> thread_bytes inner
       | Some t \<Rightarrow> (thread_bytes inner)(t \<mapsto>
           unwrap_or (thread_bytes inner t) 0 - encoded_len S (events inner ! i)))"
    and "gaps (remove_at S inner i) = (gaps inner)(thread_id (events inner ! i) \<mapsto>
      count_gap (events inner ! i)
        (unwrap_or (gaps inner (thread_id (events inner ! i))) empty_gap))"
  using assms by (simp_all add: remove_at_def deque_remove_def Let_def)

inductive removes ::
    "('v SequencedEvent \<Rightarrow> 8 word list option) \<Rightarrow> 'v Inner \<Rightarrow> 'v SequencedEvent list \<Rightarrow> 'v Inner \<Rightarrow> bool"
  for S where
  removes_none: "removes S s [] s"
| removes_one: "removes S s (events s ! i # ev) s'"
    if "i < length (events s)" "removes S (remove_at S s i) ev s'"

lemma events_split:
  assumes "i < length (events s)"
  shows "events s = take i (events s) @ events s ! i # drop (Suc i) (events s)"
  using assms by (simp add: id_take_nth_drop)

lemma remove_at_inv:
  assumes "store_inv S s" "i < length (events s)"
  shows "store_inv S (remove_at S s i)"
proof -
  let ?e = "events s ! i" and ?pre = "take i (events s)" and ?post = "drop (Suc i) (events s)"
  note split = events_split [OF assms(2)]
  have tot: "total_bytes S (on_thread k (events s)) =
      total_bytes S (on_thread k ?pre) + (if thread_id ?e = k then encoded_len S ?e else 0) +
      total_bytes S (on_thread k ?post)" for k
    by (subst split) simp
  have all: "total_bytes S (events s) = total_bytes S ?pre + encoded_len S ?e + total_bytes S ?post"
    by (subst split) simp
  have "unwrap_or (thread_bytes (remove_at S s i) t) 0 =
      total_bytes S (on_thread (Some t) (events (remove_at S s i)))" for t
    using assms tot [of "Some t"]
    by (auto simp: store_inv_def remove_at_fields split: option.splits)
  moreover have "bytes (remove_at S s i) = total_bytes S (events (remove_at S s i))"
    using assms all by (simp add: store_inv_def remove_at_fields)
  moreover have "finite (dom (thread_bytes (remove_at S s i)))"
    using assms by (simp add: store_inv_def remove_at_fields split: option.splits)
  ultimately show ?thesis by (simp add: store_inv_def)
qed

lemma remove_at_accounts:
  assumes "accounts recs ev s" "i < length (events s)"
  shows "accounts recs (ev @ [events s ! i]) (remove_at S s i)"
proof -
  let ?es = "take i (events s) @ drop (Suc i) (events s)"
  have "mset (events s) = add_mset (events s ! i) (mset ?es)"
    by (subst events_split [OF assms(2)]) simp
  moreover have "subseq ?es (events s)"
    by (subst (3) events_split [OF assms(2)]) (auto intro: list_emb_append_mono list_emb_Cons)
  ultimately show ?thesis
    using assms
    by (auto simp: accounts_def gap_of_snoc remove_at_fields
        intro: subseq_order.order_trans)
qed

lemma removes_trans: "removes S a ev b \<Longrightarrow> removes S b ev' c \<Longrightarrow> removes S a (ev @ ev') c"
  by (induction rule: removes.induct) (auto intro: removes.intros)

lemma removes_inv: "removes S s ev s' \<Longrightarrow> store_inv S s \<Longrightarrow> store_inv S s'"
  by (induction rule: removes.induct) (auto intro: remove_at_inv)

lemma removes_accounts: "removes S s ev s' \<Longrightarrow> accounts recs ev0 s \<Longrightarrow> accounts recs (ev0 @ ev) s'"
proof (induction arbitrary: ev0 rule: removes.induct)
  case (removes_one i s ev s')
  from removes_one.IH [OF remove_at_accounts [OF removes_one.prems removes_one.hyps(1)]]
  show ?case by simp
qed simp

lemma removes_mset: "removes S s ev s' \<Longrightarrow> mset (events s) = mset (events s') + mset ev"
proof (induction rule: removes.induct)
  case (removes_one i s ev s')
  have "mset (events s) = add_mset (events s ! i) (mset (events (remove_at S s i)))"
    by (subst events_split [OF removes_one.hyps(1)]) simp
  with removes_one.IH show ?case by simp
qed simp

lemma removes_zero: "events s \<noteq> [] \<Longrightarrow> removes S (remove_at S s 0) ev s' \<Longrightarrow> removes S s (hd (events s) # ev) s'"
  using removes_one [of 0 s S ev s'] by (simp add: hd_conv_nth)

section \<open>Pruning removes, and the cap loop ends\<close>

text \<open>What the standard library documents of the iteration order: every entry is visited.\<close>

definition iter_ok :: "('v Inner \<Rightarrow> (string \<times> nat) list) \<Rightarrow> bool" where
  "iter_ok it \<longleftrightarrow>
     (\<forall>s. finite (dom (thread_bytes s)) \<longrightarrow> set (it s) = {(t, b). thread_bytes s t = Some b})"

definition alphabetical :: "'v Inner \<Rightarrow> (string \<times> nat) list" where
  "alphabetical s = map (\<lambda>t. (t, unwrap_or (thread_bytes s t) 0)) (sorted_list_of_set (dom (thread_bytes s)))"

lemma alphabetical_ok [simp]: "iter_ok alphabetical"
  by (force simp: iter_ok_def alphabetical_def)

definition within_caps :: "StoreConfig \<Rightarrow> ('v SequencedEvent \<Rightarrow> 8 word list option) \<Rightarrow> 'v Inner \<Rightarrow> bool" where
  "within_caps cfg S s \<longleftrightarrow>
     total_bytes S (events s) \<le> global_bytes cfg \<and>
     (\<forall>t. total_bytes S (on_thread (Some t) (events s)) \<le> per_thread_bytes cfg)"

lemma prune_age_removes: "removes S s (takeWhile (\<lambda>e. monotonic_ms e < c) (events s)) (prune_age S c s)"
proof (induction S c s rule: prune_age.induct)
  case (1 S c s)
  show ?case
  proof (cases "events s")
    case Nil
    then show ?thesis by (simp add: prune_age.simps [of S c s] removes_none)
  next
    case (Cons e es)
    show ?thesis
    proof (cases "monotonic_ms e < c")
      case True
      with "1" [OF Cons True] Cons show ?thesis
        using removes_zero [of s S "takeWhile (\<lambda>e. monotonic_ms e < c) es" "prune_age S c (remove_at S s 0)"]
        by (simp add: prune_age.simps [of S c s])
    next
      case False
      with Cons show ?thesis by (simp add: prune_age.simps [of S c s] removes_none)
    qed
  qed
qed

lemma prune_age_events: "events (prune_age S c s) = dropWhile (\<lambda>e. monotonic_ms e < c) (events s)"
proof (induction S c s rule: prune_age.induct)
  case (1 S c s)
  then show ?case by (cases "events s") (simp_all add: prune_age.simps [of S c s])
qed

lemma over_thread_Some:
  assumes "over_thread cfg it s = Some t" "iter_ok it" "store_inv S s"
  shows "per_thread_bytes cfg < total_bytes S (on_thread (Some t) (events s))"
proof -
  from assms(1) obtain b where "(t, b) \<in> set (it s)" "per_thread_bytes cfg < b"
    by (auto simp: over_thread_def find_Some_iff) (metis nth_mem)
  with assms(2,3) have "thread_bytes s t = Some b" by (auto simp: iter_ok_def store_inv_def)
  with assms(3) \<open>per_thread_bytes cfg < b\<close> show ?thesis
    unfolding store_inv_def by (metis unwrap_or_simps(1))
qed

lemma over_thread_None:
  assumes "over_thread cfg it s = None" "iter_ok it" "store_inv S s"
  shows "total_bytes S (on_thread (Some t) (events s)) \<le> per_thread_bytes cfg"
proof (cases "thread_bytes s t")
  case None
  with assms(3) show ?thesis by (auto simp: store_inv_def dest!: spec [of _ t])
next
  case (Some b)
  with assms(2,3) have "(t, b) \<in> set (it s)" by (auto simp: iter_ok_def store_inv_def)
  with assms(1) have "b \<le> per_thread_bytes cfg" by (fastforce simp: over_thread_def find_None_iff not_less)
  with Some assms(3) show ?thesis by (auto simp: store_inv_def dest!: spec [of _ t])
qed

lemma evict_position_less: "events s \<noteq> [] \<Longrightarrow> evict_position over s < length (events s)"
  unfolding evict_position_def unwrap_or_def by (auto split: option.splits dest: position_SomeD)

lemma over_cap_nonempty:
  assumes "bytes s > global_bytes cfg \<or> over_thread cfg it s \<noteq> None" "iter_ok it" "store_inv S s"
  shows "events s \<noteq> []"
proof
  assume "events s = []"
  moreover from this assms(3) have "bytes s = 0" by (simp add: store_inv_def)
  ultimately show False using assms over_thread_Some [OF _ assms(2,3)] by fastforce
qed

lemma prune_caps_ends:
  assumes "iter_ok it" "store_inv S s"
  shows "\<exists>ev s'. prune_caps cfg S it s = Some s' \<and> removes S s ev s' \<and> within_caps cfg S s'"
  using assms(2)
proof (induction "length (events s)" arbitrary: s rule: less_induct)
  case less
  show ?case
  proof (cases "bytes s > global_bytes cfg \<or> over_thread cfg it s \<noteq> None")
    case False
    then have "prune_caps cfg S it s = Some s" by (subst prune_caps.simps) simp
    moreover from False less.prems have "within_caps cfg S s"
      using over_thread_None [OF _ assms(1) less.prems]
      by (auto simp: within_caps_def store_inv_def)
    ultimately show ?thesis by (blast intro: removes_none)
  next
    case True
    let ?i = "evict_position (over_thread cfg it s) s"
    from over_cap_nonempty [OF True assms(1) less.prems]
    have i: "?i < length (events s)" by (rule evict_position_less)
    from True have step: "prune_caps cfg S it s = prune_caps cfg S it (remove_at S s ?i)"
      by (subst prune_caps.simps) auto
    have "length (events (remove_at S s ?i)) < length (events s)" using i by simp
    from less.hyps [OF this remove_at_inv [OF less.prems i]] i show ?thesis
      unfolding step by (blast intro: removes_one)
  qed
qed

lemma push_event_inv: "store_inv S s \<Longrightarrow> store_inv S (push_event S s e)"
  by (auto simp: store_inv_def push_event_def split: option.splits)

lemma push_event_accounts: "accounts recs ev s \<Longrightarrow> accounts (recs @ [e]) ev (push_event S s e)"
  by (auto simp: accounts_def push_event_def list_emb_append_mono)

lemma push_event_events [simp]: "events (push_event S s e) = events s @ [e]"
  by (simp add: push_event_def)

lemma record_locked_ends:
  assumes "iter_ok it" "store_inv S s"
  shows "\<exists>ev s'. record_locked cfg S it s e = Some s' \<and> removes S (push_event S s e) ev s' \<and>
    within_caps cfg S s' \<and> store_inv S s'"
proof -
  let ?p = "push_event S s e"
  let ?c = "saturating_sub (monotonic_ms e) (millis_u64 (retention cfg))"
  note aged = prune_age_removes [of S ?p ?c]
  note inv = removes_inv [OF aged push_event_inv [OF assms(2)]]
  from prune_caps_ends [OF assms(1) inv, of cfg]
  obtain ev s' where "prune_caps cfg S it (prune_age S ?c ?p) = Some s'"
    "removes S (prune_age S ?c ?p) ev s'" "within_caps cfg S s'" by blast
  with removes_trans [OF aged this(2)] removes_inv [OF this(2) inv] show ?thesis
    by (auto simp: record_locked_def prune_locked_def Let_def)
qed

section \<open>Idle content\<close>

lemma evict_idle_below_ends:
  assumes "p \<le> length (events s)"
  shows "\<exists>ev s'. evict_idle_below S idle s p = Some s' \<and> removes S s ev s' \<and>
    events s' = filter (\<lambda>e. \<not> idle_delta idle e) (take p (events s)) @ drop p (events s)"
  using assms
proof (induction p arbitrary: s)
  case 0
  then show ?case by (auto intro: removes_none)
next
  case (Suc p)
  then have p: "p < length (events s)" by simp
  note split = take_Suc_conv_app_nth [OF p] Cons_nth_drop_Suc [OF p, symmetric]
  show ?case
  proof (cases "idle_delta idle (events s ! p)")
    case True
    let ?s = "remove_at S s p"
    have ev: "events ?s = take p (events s) @ drop (Suc p) (events s)" by simp
    from p have "p \<le> length (events ?s)" by simp
    from Suc.IH [OF this] p obtain ev s' where
      "evict_idle_below S idle ?s p = Some s'" "removes S ?s ev s'"
      "events s' = filter (\<lambda>e. \<not> idle_delta idle e) (take p (events ?s)) @ drop p (events ?s)"
      by (auto simp: min_def)
    with True p show ?thesis
      unfolding split(1) ev by (auto simp: min_def intro!: removes_one)
  next
    case False
    with Suc.IH [of s] p show ?thesis unfolding split(1) by (auto simp: split(2))
  qed
qed

lemma evict_idle_content_ends:
  "\<exists>ev s'. evict_idle_content S idle s = Some s' \<and> removes S s ev s' \<and>
    events s' = filter (\<lambda>e. \<not> idle_delta idle e) (events s)"
  using evict_idle_below_ends [of "length (events s)" s S idle] by (simp add: evict_idle_content_def)

section \<open>Runs keep the books\<close>

text \<open>The events a run records: those given, and the anchors that were not redundant.\<close>

fun step_recorded :: "'v json \<Rightarrow> 'v store_op \<Rightarrow> 'v Inner \<Rightarrow> 'v SequencedEvent list" where
  "step_recorded J (Record e) s = [e]"
| "step_recorded J (Anchor now el sq t u) s =
     (if list_ex (genuine_start t u) (events s) then []
      else case reconstructed_active_turn J now sq el t u of None \<Rightarrow> [] | Some e \<Rightarrow> [e])"
| "step_recorded J (EvictContent idle) s = []"

fun run_recorded ::
    "'v json \<Rightarrow> StoreConfig \<Rightarrow> ('v SequencedEvent \<Rightarrow> 8 word list option) \<Rightarrow>
     ('v Inner \<Rightarrow> (string \<times> nat) list) \<Rightarrow> 'v Inner \<Rightarrow> 'v store_op list \<Rightarrow> 'v SequencedEvent list" where
  "run_recorded J cfg S it s [] = []"
| "run_recorded J cfg S it s (x # xs) =
     step_recorded J x s @
     (case store_step J cfg S it x s of None \<Rightarrow> [] | Some s' \<Rightarrow> run_recorded J cfg S it s' xs)"

lemma remove_at_total_le:
  "total_bytes S (on_thread k (events (remove_at S s i))) \<le> total_bytes S (on_thread k (events s))"
  "total_bytes S (events (remove_at S s i)) \<le> total_bytes S (events s)"
proof -
  show "total_bytes S (on_thread k (events (remove_at S s i))) \<le> total_bytes S (on_thread k (events s))"
    by (cases "i < length (events s)") (simp, subst (3) events_split, auto)
  show "total_bytes S (events (remove_at S s i)) \<le> total_bytes S (events s)"
    by (cases "i < length (events s)") (simp, subst (3) events_split, auto)
qed

lemma removes_caps: "removes S s ev s' \<Longrightarrow> within_caps cfg S s \<Longrightarrow> within_caps cfg S s'"
proof (induction rule: removes.induct)
  case (removes_one i s ev s')
  have "within_caps cfg S (remove_at S s i)"
    using removes_one.prems remove_at_total_le(1) [where S = S and s = s and i = i]
      remove_at_total_le(2) [where S = S and s = s and i = i]
    unfolding within_caps_def by (meson order_trans)
  then show ?case by (rule removes_one.IH)
qed simp

lemma record_locked_step:
  assumes "iter_ok it" "store_inv S s" "accounts recs ev s"
  shows "\<exists>ev' s'. record_locked cfg S it s e = Some s' \<and> store_inv S s' \<and> within_caps cfg S s' \<and>
    accounts (recs @ [e]) (ev @ ev') s'"
  using record_locked_ends [OF assms(1,2), of cfg e]
    removes_accounts [OF _ push_event_accounts [OF assms(3), where S = S and e = e]]
  by blast

lemma store_step_ends:
  assumes "json_laws J" "iter_ok it" "store_inv S s" "within_caps cfg S s" "accounts recs ev s"
  shows "\<exists>ev' s'. store_step J cfg S it x s = Some s' \<and> store_inv S s' \<and> within_caps cfg S s' \<and>
    accounts (recs @ step_recorded J x s) (ev @ ev') s'"
proof (cases x)
  case (Record e)
  with record_locked_step [OF assms(2,3,5), of cfg e] show ?thesis by simp
next
  case (Anchor now el sq t u)
  show ?thesis
  proof (cases "list_ex (genuine_start t u) (events s)")
    case True
    then have "store_step J cfg S it x s = Some s \<and> step_recorded J x s = []"
      by (simp add: Anchor record_reconstructed_active_turn_def)
    with assms show ?thesis by (intro exI [of _ "[]"] exI [of _ s]) simp
  next
    case False
    obtain e where "reconstructed_active_turn J now sq el t u = Some e"
      using reconstructed_active_turn_Some [OF assms(1)] by blast
    with False record_locked_step [OF assms(2,3,5), of cfg e] show ?thesis
      by (auto simp: Anchor record_reconstructed_active_turn_def)
  qed
next
  case (EvictContent idle)
  obtain ev' s' where "evict_idle_content S idle s = Some s'" and rem: "removes S s ev' s'"
    using evict_idle_content_ends by blast
  with EvictContent removes_inv [OF rem] removes_caps [OF rem, of cfg] removes_accounts [OF rem]
  show ?thesis using assms by auto
qed

lemma store_run_ends:
  assumes "json_laws J" "iter_ok it" "store_inv S s" "within_caps cfg S s" "accounts recs ev s"
  shows "\<exists>ev' s'. store_run J cfg S it s ops = Some s' \<and> store_inv S s' \<and> within_caps cfg S s' \<and>
    accounts (recs @ run_recorded J cfg S it s ops) (ev @ ev') s'"
  using assms(3-5)
proof (induction ops arbitrary: s recs ev)
  case Nil
  then show ?case by (auto intro: exI [of _ "[]"])
next
  case (Cons x ops)
  obtain ev1 s1 where one: "store_step J cfg S it x s = Some s1" "store_inv S s1" "within_caps cfg S s1"
    "accounts (recs @ step_recorded J x s) (ev @ ev1) s1"
    using store_step_ends [OF assms(1,2) Cons.prems] by blast
  from Cons.IH [OF one(2-4)] one(1) show ?case
    by (metis append.assoc bind.bind_lunit option.simps(5) run_recorded.simps(2) store_run.simps(2))
qed

lemma new_store_ok [simp]:
  "store_inv S new_store" "within_caps cfg S new_store" "accounts [] [] new_store"
  by (simp_all add: new_store_def store_inv_def within_caps_def accounts_def gap_of_def)

lemma new_store_events [simp]: "events new_store = []"
  by (simp add: new_store_def)

lemmas store_run_new_ends = store_run_ends [OF _ _ new_store_ok]

text \<open>What a gap record says of the events it stands for.\<close>

definition deltas :: "'v SequencedEvent list \<Rightarrow> nat" where
  "deltas es = length (filter (\<lambda>e. plane e = Delta) es)"

lemma deltas_simps [simp]:
  "deltas [] = 0" "deltas (e # es) = (if plane e = Delta then Suc (deltas es) else deltas es)"
  "deltas (xs @ ys) = deltas xs + deltas ys"
  by (simp_all add: deltas_def)

lemma fold_count_gap_counts:
  "summarized_delta_events (fold count_gap es g) = summarized_delta_events g + deltas es"
  "summarized_delta_events (fold count_gap es g) + evicted_lifecycle_events (fold count_gap es g) =
     summarized_delta_events g + evicted_lifecycle_events g + length es"
  by (induction es arbitrary: g) (simp_all add: count_gap_def Let_def)

lemma fold_count_gap_before:
  assumes "before_sequence (fold count_gap es g) = b" "before_sequence g \<noteq> None \<or> es \<noteq> []"
  shows "\<exists>m. b = Some m \<and> (\<forall>e \<in> set es. sequence e \<le> m) \<and>
    (\<forall>s. before_sequence g = Some s \<longrightarrow> s \<le> m)"
  using assms
proof (induction es arbitrary: g)
  case Nil
  then show ?case by auto
next
  case (Cons e es)
  have "before_sequence (count_gap e g) = Some (case before_sequence g of None \<Rightarrow> sequence e | Some s \<Rightarrow> max s (sequence e))"
    by (simp add: count_gap_def Let_def)
  with Cons.IH [of "count_gap e g"] Cons.prems show ?case
    by (auto split: option.splits)
qed

lemma gap_of_before:
  assumes "e \<in> set ev" "thread_id e = k"
  shows "\<exists>g b. gap_of k ev = Some g \<and> before_sequence g = Some b \<and> sequence e \<le> b"
proof -
  from assms have "e \<in> set (on_thread k ev)" by (simp add: on_thread_def)
  then show ?thesis
    using fold_count_gap_before [of "on_thread k ev" empty_gap, OF refl]
    by (auto simp: gap_of_def)
qed

lemma gap_of_counts:
  "deltas (on_thread k ev) = (case gap_of k ev of None \<Rightarrow> 0 | Some g \<Rightarrow> summarized_delta_events g)"
  "length (on_thread k ev) = (case gap_of k ev of None \<Rightarrow> 0
     | Some g \<Rightarrow> summarized_delta_events g + evicted_lifecycle_events g)"
  using fold_count_gap_counts [of "on_thread k ev" empty_gap]
  by (auto simp: gap_of_def empty_gap_def)

lemma length_filter_mset_cong:
  "mset xs = mset ys + mset zs \<Longrightarrow>
     length (filter P xs) = length (filter P ys) + length (filter P zs)"
  by (metis filter_union_mset mset_filter size_mset size_union)

lemma mset_on_thread:
  "mset xs = mset ys + mset zs \<Longrightarrow>
     length (on_thread k xs) = length (on_thread k ys) + length (on_thread k zs) \<and>
     deltas (on_thread k xs) = deltas (on_thread k ys) + deltas (on_thread k zs)"
  unfolding on_thread_def deltas_def filter_filter
  by (intro conjI length_filter_mset_cong)

lemma run_accounts:
  assumes "json_laws J" "iter_ok it" "store_run J cfg S it new_store ops = Some s"
  shows "\<exists>ev. accounts (run_recorded J cfg S it new_store ops) ev s"
  using store_run_ends [OF assms(1,2), of S new_store cfg "[]" "[]" ops] assms(3) by auto

section \<open>Who pays for the caps\<close>

definition lifecycle_only :: "'v SequencedEvent list \<Rightarrow> 'v SequencedEvent list" where
  "lifecycle_only es = filter (\<lambda>e. plane e \<noteq> Delta) es"

text \<open>The lifecycle events alone fit the caps.\<close>

definition lifecycle_fits :: "StoreConfig \<Rightarrow> ('v SequencedEvent \<Rightarrow> 8 word list option) \<Rightarrow> 'v SequencedEvent list \<Rightarrow> bool" where
  "lifecycle_fits cfg S es \<longleftrightarrow>
     total_bytes S (lifecycle_only es) \<le> global_bytes cfg \<and>
     (\<forall>t. total_bytes S (on_thread (Some t) (lifecycle_only es)) \<le> per_thread_bytes cfg)"

lemma lifecycle_only_all: "\<forall>e \<in> set es. P e \<longrightarrow> plane e \<noteq> Delta \<Longrightarrow> filter P (lifecycle_only es) = filter P es"
  by (induction es) (auto simp: lifecycle_only_def)

lemma over_cap_finds_delta:
  assumes "bytes s > global_bytes cfg \<or> over_thread cfg it s \<noteq> None" "iter_ok it" "store_inv S s"
    "lifecycle_fits cfg S (events s)"
  shows "plane (events s ! evict_position (over_thread cfg it s) s) = Delta"
proof -
  let ?P = "\<lambda>e. plane e = Delta \<and> is_none_or (over_thread cfg it s) (\<lambda>t. thread_id e = Some t)"
  have "\<exists>e \<in> set (events s). ?P e"
  proof (cases "over_thread cfg it s")
    case None
    show ?thesis
    proof (rule ccontr)
      assume "\<not> ?thesis"
      then have "lifecycle_only (events s) = events s"
        using None by (simp add: lifecycle_only_def filter_id_conv)
      with None assms(1,3,4) show False unfolding lifecycle_fits_def store_inv_def by simp
    qed
  next
    case (Some t)
    show ?thesis
    proof (rule ccontr)
      assume "\<not> ?thesis"
      then have "on_thread (Some t) (lifecycle_only (events s)) = on_thread (Some t) (events s)"
        using Some unfolding on_thread_def by (intro lifecycle_only_all) auto
      with over_thread_Some [OF Some assms(2,3)] assms(4) show False
        by (metis lifecycle_fits_def not_le)
    qed
  qed
  then obtain i where "position ?P (events s) = Some i"
    by (cases "position ?P (events s)") (simp_all only: position_None_iff, blast)
  then show ?thesis by (auto simp: evict_position_def dest!: position_SomeD)
qed

lemma remove_at_lifecycle_only:
  assumes "i < length (events s)" "plane (events s ! i) = Delta"
  shows "lifecycle_only (events (remove_at S s i)) = lifecycle_only (events s)"
proof -
  have "lifecycle_only (events s) =
      lifecycle_only (take i (events s) @ events s ! i # drop (Suc i) (events s))"
    using events_split [OF assms(1)] by simp
  with assms(2) show ?thesis by (simp add: lifecycle_only_def)
qed

lemma prune_caps_lifecycle:
  assumes "iter_ok it" "store_inv S s" "lifecycle_fits cfg S (events s)"
  shows "\<exists>s'. prune_caps cfg S it s = Some s' \<and> lifecycle_only (events s') = lifecycle_only (events s)"
  using assms(2,3)
proof (induction "length (events s)" arbitrary: s rule: less_induct)
  case less
  show ?case
  proof (cases "bytes s > global_bytes cfg \<or> over_thread cfg it s \<noteq> None")
    case False
    then show ?thesis by (subst prune_caps.simps) simp
  next
    case True
    let ?i = "evict_position (over_thread cfg it s) s"
    have i: "?i < length (events s)"
      using over_cap_nonempty [OF True assms(1) less.prems(1)] by (rule evict_position_less)
    note same = remove_at_lifecycle_only [OF i over_cap_finds_delta [OF True assms(1) less.prems], of S]
    have "lifecycle_fits cfg S (events (remove_at S s ?i))"
      using less.prems(2) same by (simp add: lifecycle_fits_def del: remove_at_events)
    with less.hyps [OF _ remove_at_inv [OF less.prems(1) i]] i same True show ?thesis
      by (subst prune_caps.simps) (auto simp del: remove_at_events simp: remove_at_length)
  qed
qed

section \<open>The age window\<close>

lemma dropWhile_sorted_filter:
  "sorted (map f es) \<Longrightarrow> dropWhile (\<lambda>e. f e < (c :: 'b :: linorder)) es = filter (\<lambda>e. c \<le> f e) es"
  by (induction es) (auto simp: filter_id_conv not_less intro: order_trans filter_True [symmetric])

lemma prune_caps_idle:
  assumes "iter_ok it" "store_inv S s" "within_caps cfg S s"
  shows "prune_caps cfg S it s = Some s"
proof -
  have "\<not> bytes s > global_bytes cfg" using assms by (simp add: store_inv_def within_caps_def)
  moreover have "over_thread cfg it s = None"
    using over_thread_Some [OF _ assms(1,2)] assms(3)
    by (cases "over_thread cfg it s") (auto simp: within_caps_def not_less [symmetric])
  ultimately show ?thesis by (subst prune_caps.simps) simp
qed

section \<open>Properties\<close>

definition requested :: "string \<Rightarrow> u64 \<Rightarrow> u64 option \<Rightarrow> 'v SequencedEvent \<Rightarrow> bool" where
  "requested t after through e \<longleftrightarrow>
     thread_id e = Some t \<and> after < sequence e \<and> is_none_or through (\<lambda>hi. sequence e \<le> hi)"

definition in_retention :: "StoreConfig \<Rightarrow> 'v SequencedEvent \<Rightarrow> 'v SequencedEvent \<Rightarrow> bool" where
  "in_retention cfg newest e \<longleftrightarrow>
     saturating_sub (monotonic_ms newest) (millis_u64 (retention cfg)) \<le> monotonic_ms e"

definition counted :: "(RetentionGap \<Rightarrow> nat) \<Rightarrow> 'v Inner \<Rightarrow> string option \<Rightarrow> nat" where
  "counted f s k = (case gaps s k of None \<Rightarrow> 0 | Some g \<Rightarrow> f g)"

text \<open>A fixed size for the events of the witnesses.\<close>

abbreviation bytes_of :: "nat \<Rightarrow> jv SequencedEvent \<Rightarrow> 8 word list option" where
  "bytes_of n \<equiv> (\<lambda>_. Some (replicate n 0))"

text \<open>C30. The store is bounded and its pruning loop ends: after any sequence of records,
  anchors and idle evictions the store has a state (no loop runs forever, no index panics),
  the bytes it accounts are the bytes it retains, for the whole and for every thread, and
  neither exceeds its cap.\<close>

theorem store_runs_stay_bounded:
  assumes "json_laws J" "iter_ok it"
  shows "\<exists>s. store_run J cfg S it new_store ops = Some s \<and>
    bytes s = total_bytes S (events s) \<and> bytes s \<le> global_bytes cfg \<and>
    (\<forall>t. unwrap_or (thread_bytes s t) 0 = total_bytes S (on_thread (Some t) (events s)) \<and>
         unwrap_or (thread_bytes s t) 0 \<le> per_thread_bytes cfg)"
proof -
  obtain s where "store_run J cfg S it new_store ops = Some s" "store_inv S s" "within_caps cfg S s"
    using store_run_new_ends [OF assms] by blast
  then show ?thesis by (intro exI [of _ s]) (simp add: store_inv_def within_caps_def)
qed

theorem store_runs_stay_bounded_witness:
  "\<exists>s. store_run jv_api (default_store_config\<lparr>global_bytes := 10\<rparr>) (bytes_of 4) alphabetical new_store
      [Record (wire_event 1 ''turn/started'' ''t'' ''u''), Anchor 0 0 2 ''a'' ''b'',
       Record (wire_event 3 ''item/agentMessage/delta'' ''t'' ''u''), EvictContent [''t'']] = Some s \<and>
    bytes s \<le> 10"
  using store_runs_stay_bounded [OF jv_api_laws alphabetical_ok,
      of "default_store_config\<lparr>global_bytes := 10\<rparr>" "bytes_of 4"
        "[Record (wire_event 1 ''turn/started'' ''t'' ''u''), Anchor 0 0 2 ''a'' ''b'',
          Record (wire_event 3 ''item/agentMessage/delta'' ''t'' ''u''), EvictContent [''t'']]"]
  by auto

text \<open>C29. Retention loses nothing silently: for every key (a thread, or no thread) the
  recorded events of that key are the retained ones plus those its gap record counts, delta
  and lifecycle events separately; the retained events are recorded ones in recording order.\<close>

theorem gaps_account_for_every_event:
  assumes "json_laws J" "iter_ok it" "store_run J cfg S it new_store ops = Some s"
  shows "subseq (events s) (run_recorded J cfg S it new_store ops) \<and>
    deltas (on_thread k (run_recorded J cfg S it new_store ops)) =
      deltas (on_thread k (events s)) + counted summarized_delta_events s k \<and>
    length (on_thread k (run_recorded J cfg S it new_store ops)) = length (on_thread k (events s)) +
      (counted summarized_delta_events s k + counted evicted_lifecycle_events s k)"
proof -
  obtain ev where ac: "accounts (run_recorded J cfg S it new_store ops) ev s"
    using run_accounts [OF assms(1-3)] by blast
  then have "mset (run_recorded J cfg S it new_store ops) = mset (events s) + mset ev" "gaps s k = gap_of k ev"
    by (simp_all add: accounts_def)
  with ac mset_on_thread [OF this(1), of k] show ?thesis
    by (auto simp: accounts_def counted_def gap_of_counts split: option.splits)
qed

theorem gaps_account_for_every_event_witness:
  "let ops = [Record (wire_event 1 ''item/agentMessage/delta'' ''t'' ''u''), Record (wire_event 2 ''turn/started'' ''t'' ''u'')];
       cfg = default_store_config\<lparr>global_bytes := 5\<rparr>
   in \<exists>s. store_run jv_api cfg (bytes_of 4) alphabetical new_store ops = Some s \<and>
        2 = length (on_thread (Some ''t'') (events s)) +
          (counted summarized_delta_events s (Some ''t'') + counted evicted_lifecycle_events s (Some ''t''))"
proof -
  let ?ops = "[Record (wire_event 1 ''item/agentMessage/delta'' ''t'' ''u''), Record (wire_event 2 ''turn/started'' ''t'' ''u'')]"
  let ?cfg = "default_store_config\<lparr>global_bytes := 5\<rparr>"
  obtain s where s: "store_run jv_api ?cfg (bytes_of 4) alphabetical new_store ?ops = Some s"
    using store_run_new_ends [OF jv_api_laws alphabetical_ok] by blast
  then have "length (on_thread (Some ''t'') (run_recorded jv_api ?cfg (bytes_of 4) alphabetical new_store ?ops)) = 2"
    by (auto split: option.splits simp: bind_eq_Some_conv)
  with gaps_account_for_every_event [OF jv_api_laws alphabetical_ok s, of "Some ''t''"] s
  show ?thesis by (simp add: Let_def)
qed

text \<open>A thread's query is honest: every event recorded for the thread in the requested
  range is returned, or the answer carries a gap whose bound lies at or after it; and only
  events of the thread, in the range, that were recorded are returned.\<close>

theorem query_sequence_honest:
  assumes "json_laws J" "iter_ok it" "store_run J cfg S it new_store ops = Some s"
  shows "(\<forall>e \<in> set (filter (requested t after through) (run_recorded J cfg S it new_store ops)).
        e \<in> set (q_events (query_sequence s (Some t) after through)) \<or>
        (\<exists>g b. q_gap (query_sequence s (Some t) after through) = Some g \<and>
               before_sequence g = Some b \<and> sequence e \<le> b)) \<and>
    subseq (q_events (query_sequence s (Some t) after through))
      (filter (requested t after through) (run_recorded J cfg S it new_store ops))"
proof -
  let ?recs = "run_recorded J cfg S it new_store ops"
  obtain ev where ac: "accounts ?recs ev s" using run_accounts [OF assms(1-3)] by blast
  then have "mset ?recs = mset (events s) + mset ev" and gap: "gaps s (Some t) = gap_of (Some t) ev"
    by (simp_all add: accounts_def)
  then have parts: "set ?recs = set (events s) \<union> set ev" by (metis set_mset_mset set_mset_union)
  have answer: "q_events (query_sequence s (Some t) after through) = filter (requested t after through) (events s)"
    by (auto simp: query_sequence_def requested_def intro!: filter_cong)
  have "\<exists>g b. q_gap (query_sequence s (Some t) after through) = Some g \<and>
      before_sequence g = Some b \<and> sequence e \<le> b"
    if "e \<in> set ev" "requested t after through e" for e
    using gap_of_before [OF that(1), of "Some t"] that(2) gap
    by (simp add: query_sequence_def requested_def)
  moreover have "subseq (filter (requested t after through) (events s)) (filter (requested t after through) ?recs)"
    using ac by (simp add: accounts_def)
  ultimately show ?thesis unfolding answer by (auto simp: parts)
qed

theorem query_sequence_honest_witness:
  "let ops = [Record (wire_event 1 ''item/agentMessage/delta'' ''t'' ''u''), Record (wire_event 2 ''turn/started'' ''t'' ''u'')];
       cfg = default_store_config\<lparr>global_bytes := 5\<rparr>
   in \<exists>s. store_run jv_api cfg (bytes_of 4) alphabetical new_store ops = Some s \<and>
        subseq (q_events (query_sequence s (Some ''t'') 0 None))
          [wire_event 1 ''item/agentMessage/delta'' ''t'' ''u'', wire_event 2 ''turn/started'' ''t'' ''u'']"
proof -
  let ?ops = "[Record (wire_event 1 ''item/agentMessage/delta'' ''t'' ''u''), Record (wire_event 2 ''turn/started'' ''t'' ''u'')]"
  let ?cfg = "default_store_config\<lparr>global_bytes := 5\<rparr>"
  obtain s where s: "store_run jv_api ?cfg (bytes_of 4) alphabetical new_store ?ops = Some s"
    using store_run_new_ends [OF jv_api_laws alphabetical_ok] by blast
  then have "run_recorded jv_api ?cfg (bytes_of 4) alphabetical new_store ?ops =
      [wire_event 1 ''item/agentMessage/delta'' ''t'' ''u'', wire_event 2 ''turn/started'' ''t'' ''u'']"
    by (auto split: option.splits simp: bind_eq_Some_conv)
  with query_sequence_honest [OF jv_api_laws alphabetical_ok s, of "''t''" 0 None] s
  show ?thesis by (simp add: Let_def requested_def)
qed

text \<open>Lifecycle events survive delta floods: when the lifecycle events retained, with the
  new one, fit the caps by themselves and none is past the retention, recording an event
  evicts delta events only.\<close>

theorem delta_floods_spare_lifecycle:
  assumes "iter_ok it" "store_inv S s" "lifecycle_fits cfg S (events s @ [e])"
    and "list_all (in_retention cfg e) (events s)"
  shows "\<exists>s'. record_locked cfg S it s e = Some s' \<and>
    lifecycle_only (events s') = lifecycle_only (events s @ [e])"
proof -
  let ?c = "saturating_sub (monotonic_ms e) (millis_u64 (retention cfg))"
  have "prune_age S ?c (push_event S s e) = push_event S s e"
    using assms(4)
    by (cases "events s") (simp_all add: prune_age.simps [of S ?c "push_event S s e"] leD in_retention_def)
  with prune_caps_lifecycle [OF assms(1) push_event_inv [OF assms(2)], of cfg e] assms(3) show ?thesis
    by (simp add: record_locked_def prune_locked_def Let_def)
qed

theorem delta_floods_spare_lifecycle_witness:
  "let start = wire_event 1 ''turn/started'' ''t'' ''u'';
       s = push_event (bytes_of 4) new_store start;
       e = wire_event 2 ''item/agentMessage/delta'' ''t'' ''u''
   in \<exists>s'. record_locked (default_store_config\<lparr>global_bytes := 5\<rparr>) (bytes_of 4) alphabetical s e = Some s' \<and>
        lifecycle_only (events s') = [start]"
proof -
  let ?start = "wire_event 1 ''turn/started'' ''t'' ''u''"
  let ?s = "push_event (bytes_of 4) new_store ?start"
  let ?e = "wire_event 2 ''item/agentMessage/delta'' ''t'' ''u''"
  have ev: "events ?s = [?start]" by (simp add: new_store_def)
  have life: "lifecycle_only (events ?s @ [?e]) = [?start]" by (simp add: ev lifecycle_only_def)
  have "lifecycle_fits (default_store_config\<lparr>global_bytes := 5\<rparr>) (bytes_of 4) (events ?s @ [?e])"
    unfolding lifecycle_fits_def life by (simp add: encoded_len_def default_store_config_def)
  moreover have "list_all (in_retention (default_store_config\<lparr>global_bytes := 5\<rparr>) ?e) (events ?s)"
    by (simp add: ev in_retention_def saturating_sub_def default_store_config_def millis_u64_def)
  ultimately show ?thesis
    using delta_floods_spare_lifecycle [OF alphabetical_ok push_event_inv [OF new_store_ok(1)],
        of "default_store_config\<lparr>global_bytes := 5\<rparr>" "bytes_of 4" ?start ?e]
    unfolding Let_def life by blast
qed

text \<open>The time window is exact: when the receipt times of the retained events and the new
  one are in order and what the retention keeps fits the caps, recording an event leaves
  exactly the events not older than the retention.\<close>

theorem retention_window_exact:
  assumes "iter_ok it" "store_inv S s" "sorted (map monotonic_ms (events s @ [e]))"
    and "total_bytes S (filter (in_retention cfg e) (events s @ [e])) \<le> global_bytes cfg"
    and "\<And>t. total_bytes S (on_thread (Some t) (filter (in_retention cfg e) (events s @ [e]))) \<le> per_thread_bytes cfg"
  shows "\<exists>s'. record_locked cfg S it s e = Some s' \<and>
    events s' = filter (in_retention cfg e) (events s @ [e])"
proof -
  let ?c = "saturating_sub (monotonic_ms e) (millis_u64 (retention cfg))"
  let ?a = "prune_age S ?c (push_event S s e)"
  have ev: "events ?a = filter (in_retention cfg e) (events s @ [e])"
    using dropWhile_sorted_filter [OF assms(3), of ?c] by (simp add: prune_age_events in_retention_def [abs_def])
  then have "within_caps cfg S ?a" using assms(4,5) by (simp add: within_caps_def)
  from prune_caps_idle [OF assms(1) removes_inv [OF prune_age_removes push_event_inv [OF assms(2)]] this] ev
  show ?thesis by (simp add: record_locked_def prune_locked_def Let_def)
qed

theorem retention_window_exact_witness:
  "let old = wire_event 1 ''turn/started'' ''t'' ''u'';
       new = wire_event 700002 ''turn/completed'' ''t'' ''u''
   in \<exists>s'. record_locked default_store_config (bytes_of 4) alphabetical (push_event (bytes_of 4) new_store old) new = Some s' \<and>
        events s' = [new]"
proof -
  let ?old = "wire_event 1 ''turn/started'' ''t'' ''u''"
  let ?new = "wire_event 700002 ''turn/completed'' ''t'' ''u''"
  let ?s = "push_event (bytes_of 4) new_store ?old"
  have ev: "events ?s = [?old]" by (simp add: new_store_def)
  have "in_retention default_store_config ?new ?new" "\<not> in_retention default_store_config ?new ?old"
    by (simp_all add: in_retention_def saturating_sub_def default_store_config_def millis_u64_def word_le_nat_alt)
  then have kept: "filter (in_retention default_store_config ?new) (events ?s @ [?new]) = [?new]"
    by (simp add: ev)
  have "\<exists>s'. record_locked default_store_config (bytes_of 4) alphabetical ?s ?new = Some s' \<and>
      events s' = filter (in_retention default_store_config ?new) (events ?s @ [?new])"
  proof (rule retention_window_exact [OF alphabetical_ok push_event_inv [OF new_store_ok(1)]])
    show "sorted (map monotonic_ms (events ?s @ [?new]))" by (simp add: ev word_le_nat_alt)
    show "total_bytes (bytes_of 4) (filter (in_retention default_store_config ?new) (events ?s @ [?new])) \<le> global_bytes default_store_config"
      unfolding kept by (simp add: encoded_len_def default_store_config_def)
    show "total_bytes (bytes_of 4) (on_thread (Some t) (filter (in_retention default_store_config ?new) (events ?s @ [?new]))) \<le> per_thread_bytes default_store_config" for t
      unfolding kept by (simp add: encoded_len_def default_store_config_def)
  qed
  then show ?thesis unfolding Let_def kept .
qed

text \<open>A reconstructed anchor is recorded exactly when no genuine start of the turn is
  retained: with one retained, the store is left untouched and the answer is \<open>False\<close>; without
  one the answer is \<open>True\<close> and what is recorded, as any event is, is a flagged
  \<open>turn/started\<close> of that thread and turn.\<close>

theorem anchor_only_without_genuine_start:
  assumes "json_laws J" "iter_ok it" "store_inv S s"
  shows "if list_ex (genuine_start t u) (events s)
    then record_reconstructed_active_turn J cfg S it now el sq t u s = Some (False, s)
    else \<exists>e s'. record_reconstructed_active_turn J cfg S it now el sq t u s = Some (True, s') \<and>
           record_locked cfg S it s e = Some s' \<and> reconstructed e \<and> sequence e = sq \<and>
           event_method e = Some ''turn/started'' \<and> thread_id e = Some t \<and> turn_id e = Some u \<and>
           \<not> genuine_start t u e"
proof -
  obtain e where "reconstructed_active_turn J now sq el t u = Some e \<and> sequence e = sq \<and>
      thread_id e = Some t \<and> turn_id e = Some u \<and> reconstructed e \<and> event_method e = Some ''turn/started''"
    using reconstructed_active_turn_Some [OF assms(1)] by blast
  with record_locked_ends [OF assms(2,3), of cfg e] show ?thesis
    by (auto simp: record_reconstructed_active_turn_def genuine_start_def)
qed

theorem anchor_only_without_genuine_start_witness:
  "let s = push_event (bytes_of 4) new_store (wire_event 1 ''turn/started'' ''t'' ''u'')
   in record_reconstructed_active_turn jv_api default_store_config (bytes_of 4) alphabetical 0 0 2 ''t'' ''u'' s =
        Some (False, s)"
  using anchor_only_without_genuine_start
    [OF jv_api_laws alphabetical_ok push_event_inv [OF new_store_ok(1)],
      of "''t''" "''u''" "bytes_of 4" "wire_event 1 ''turn/started'' ''t'' ''u''" default_store_config 0 0 2]
  by (simp add: new_store_def genuine_start_def Let_def)

text \<open>The time query is exact over unbounded arithmetic: a retained event is returned
  exactly when the interval of its timestamp widened by the tolerance meets the requested
  one; neither saturating addition changes an answer, even at the ends of the \<open>u64\<close> range.\<close>

theorem query_time_exact:
  assumes "emitted_at_tolerance cfg < 2 ^ 64"
  shows "q_events (query_time cfg s t a b) =
    filter (\<lambda>e. unat a \<le> unat (event_timestamp e) + emitted_at_tolerance cfg \<and>
        unat (event_timestamp e) \<le> unat b + emitted_at_tolerance cfg \<and>
        is_none_or t (\<lambda>t. thread_id e = Some t)) (events s)"
proof -
  have tol: "unat (millis_u64 (emitted_at_tolerance cfg)) = emitted_at_tolerance cfg"
    using assms by (simp add: millis_u64_def unsigned_of_nat take_bit_nat_eq_self)
  have "a \<le> saturating_add x (millis_u64 (emitted_at_tolerance cfg)) \<longleftrightarrow>
      unat a \<le> unat x + emitted_at_tolerance cfg" for a x
    using unat_u64_less [of a] by (auto simp: word_le_nat_alt unat_saturating_add tol)
  then show ?thesis by (simp add: query_time_def Let_def)
qed

theorem query_time_exact_witness:
  "q_events (query_time default_store_config
      (push_event (bytes_of 4) new_store (wire_event 1 ''turn/started'' ''t'' ''u'')) None 2000 3000) =
    [wire_event 1 ''turn/started'' ''t'' ''u'']"
  by (subst query_time_exact)
    (simp_all add: default_store_config_def new_store_def event_timestamp_def)

text \<open>Evicting idle content never panics, whatever the store and the list of idle threads:
  the downward index loop removes exactly the delta events of the listed threads, and keeps
  the other events in order.\<close>

theorem evict_idle_content_exact:
  "\<exists>s'. evict_idle_content S idle s = Some s' \<and>
    events s' = filter (\<lambda>e. \<not> (plane e = Delta \<and> is_some_and (thread_id e) (\<lambda>t. t \<in> set idle))) (events s)"
  using evict_idle_content_ends [of S idle s] by (auto simp: idle_delta_def [abs_def])

text \<open>A query over all threads reports the gap of events without a thread, not of all
  threads: when every recorded event has a thread, it never carries a gap, whatever was
  evicted.\<close>

theorem unfiltered_query_hides_gaps:
  assumes "json_laws J" "iter_ok it" "store_run J cfg S it new_store ops = Some s"
    and "list_all (\<lambda>e. thread_id e \<noteq> None) (run_recorded J cfg S it new_store ops)"
  shows "q_gap (query_sequence s None after through) = None \<and> q_gap (query_time cfg s None a b) = None"
proof -
  let ?recs = "run_recorded J cfg S it new_store ops"
  obtain ev where ac: "accounts ?recs ev s" using run_accounts [OF assms(1-3)] by blast
  then have "set ?recs = set (events s) \<union> set ev" by (metis accounts_def set_mset_mset set_mset_union)
  with assms(4) have "on_thread None ev = []" by (auto simp: on_thread_def list_all_iff filter_empty_conv)
  with ac have "gaps s None = None" by (simp add: accounts_def gap_of_def)
  then show ?thesis by (simp add: query_sequence_def query_time_def Let_def)
qed

theorem unfiltered_query_hides_gaps_witness:
  "\<exists>s. store_run jv_api (default_store_config\<lparr>global_bytes := 0\<rparr>) (bytes_of 4) alphabetical new_store
      [Record (wire_event 1 ''turn/started'' ''t'' ''u'')] = Some s \<and>
    events s = [] \<and> query_sequence s None 0 None = \<lparr>q_events = [], q_gap = None\<rparr>"
proof -
  let ?ops = "[Record (wire_event 1 ''turn/started'' ''t'' ''u'')]"
  let ?cfg = "default_store_config\<lparr>global_bytes := 0\<rparr>"
  obtain s where s: "store_run jv_api ?cfg (bytes_of 4) alphabetical new_store ?ops = Some s"
    and caps: "within_caps ?cfg (bytes_of 4) s"
    using store_run_new_ends [OF jv_api_laws alphabetical_ok] by blast
  from caps have "events s = []" by (cases "events s") (simp_all add: within_caps_def encoded_len_def)
  moreover have "q_gap (query_sequence s None 0 None) = None"
    using unfiltered_query_hides_gaps [OF jv_api_laws alphabetical_ok s] s
    by (auto split: option.splits)
  ultimately show ?thesis using s by (simp add: query_sequence_def)
qed

text \<open>The thread that is over its cap is not always the one that pays: when it has no delta
  event, the first event of the deque is evicted, whatever its thread and plane.\<close>

theorem over_cap_thread_evicts_the_oldest_event:
  assumes "iter_ok it" "store_inv S s" "over_thread cfg it s = Some t"
    and "list_all (\<lambda>e. thread_id e = Some t \<longrightarrow> plane e \<noteq> Delta) (events s)"
  shows "\<exists>ev s'. prune_caps cfg S it s = Some s' \<and>
    mset (events s) = add_mset (hd (events s)) (mset ev) + mset (events s')"
proof -
  from assms(4) have i: "evict_position (Some t) s = 0"
    by (cases "position (\<lambda>e. plane e = Delta \<and> thread_id e = Some t) (events s)")
      (auto simp: evict_position_def list_all_iff dest!: position_SomeD)
  have ne: "events s \<noteq> []" using over_cap_nonempty [OF _ assms(1,2)] assms(3) by blast
  then have pos: "0 < length (events s)" by simp
  from assms(3) i have step: "prune_caps cfg S it s = prune_caps cfg S it (remove_at S s 0)"
    by (subst prune_caps.simps) simp
  from prune_caps_ends [OF assms(1) remove_at_inv [OF assms(2) pos], of cfg]
  obtain ev s' where "prune_caps cfg S it (remove_at S s 0) = Some s'" and "removes S (remove_at S s 0) ev s'"
    by blast
  with step removes_mset [OF removes_zero [OF ne this(2)]] show ?thesis by auto
qed

text \<open>The store of the witness: a completed turn of a thread within its cap, then two lifecycle
  events of a thread that is over its own.\<close>

definition crowded :: "jv Inner" where
  "crowded = foldl (push_event (bytes_of 4)) new_store
     [wire_event 1 ''turn/completed'' ''quiet'' ''u'', wire_event 2 ''turn/started'' ''busy'' ''v'',
      wire_event 3 ''turn/completed'' ''busy'' ''v'']"

lemma crowded_simps:
  "events crowded = [wire_event 1 ''turn/completed'' ''quiet'' ''u'', wire_event 2 ''turn/started'' ''busy'' ''v'',
     wire_event 3 ''turn/completed'' ''busy'' ''v'']"
  "thread_bytes crowded = [''quiet'' \<mapsto> 4, ''busy'' \<mapsto> 8]"
  by (simp_all add: crowded_def push_event_def new_store_def encoded_len_def)

theorem over_cap_thread_evicts_the_oldest_event_witness:
  "\<exists>s'. prune_caps (default_store_config\<lparr>per_thread_bytes := 5\<rparr>) (bytes_of 4) alphabetical crowded = Some s' \<and>
    wire_event 1 ''turn/completed'' ''quiet'' ''u'' \<notin> set (events s')"
proof -
  let ?cfg = "default_store_config\<lparr>per_thread_bytes := 5\<rparr>"
  have inv: "store_inv (bytes_of 4) crowded"
    unfolding crowded_def by (simp add: push_event_inv)
  have "over_thread ?cfg alphabetical crowded = Some ''busy''"
    by (simp add: over_thread_def alphabetical_def crowded_simps)
  from over_cap_thread_evicts_the_oldest_event [OF alphabetical_ok inv this]
  obtain ev s' where s': "prune_caps ?cfg (bytes_of 4) alphabetical crowded = Some s'"
    and "mset (events crowded) = add_mset (hd (events crowded)) (mset ev) + mset (events s')"
    by (auto simp: crowded_simps)
  then have "mset (tl (events crowded)) = mset ev + mset (events s')"
    by (simp add: crowded_simps)
  then have "set (events s') \<subseteq> set (tl (events crowded))"
    by (metis set_mset_mset set_mset_union sup_ge2)
  then have "e \<in> set (events s') \<Longrightarrow> sequence e \<noteq> 1" for e
    by (auto simp: crowded_simps)
  with s' show ?thesis by fastforce
qed

end
