(* ===== verification/Reducer.thy ===== *)
theory Reducer
  imports Protocol
begin

text \<open>
  The authoritative lifecycle reducer (\<open>src/reducer/src/lib.rs\<close>): current thread state with
  inline pruning, the bounded lifecycle log with its replay query, the waiters that action
  confirmation registers, and the subscription marks that protect a thread from pruning.
  Each operation takes the reducer and returns it updated; the locks of the source delimit
  the same updates.
\<close>

section \<open>State\<close>

record 'v ThreadState =
  ts_thread_id :: string
  status :: string
  active_turn_id :: "string option"
  subscribed :: bool
  ephemeral :: bool
  last_sequence :: u64
  raw_thread :: "'v option"

record 'v Snapshot =
  at_sequence :: u64
  threads :: "string \<rightharpoonup> 'v ThreadState"

datatype 'v ReplayResult =
    Events "'v SequencedEvent list"
  | GapTooOld u64 "u64 option" "'v Snapshot"  \<comment> \<open>requested after, oldest available, snapshot\<close>

text \<open>A waiter owns the sending half of a one-shot channel, here the number of the channel.\<close>

record 'v Waiter =
  predicate :: "'v SequencedEvent \<Rightarrow> bool"
  sender :: nat

text \<open>
  \<open>next_channel\<close> numbers the one-shot channels and \<open>mailbox\<close> holds what was sent on them; both
  stand for the channels the source creates in \<open>register_waiter\<close>.
\<close>

record 'v Reducer =
  snapshot :: "'v Snapshot"
  subscribing :: "string set"
  lifecycle :: "'v SequencedEvent list"
  lifecycle_capacity :: nat
  waiters :: "'v Waiter list"
  next_channel :: nat
  mailbox :: "nat \<rightharpoonup> 'v SequencedEvent"

text \<open>\<open>new\<close> panics (\<open>None\<close>) on capacity 0.\<close>

definition empty_reducer :: "nat \<Rightarrow> 'v Reducer" where
  "empty_reducer c =
     \<lparr>snapshot = \<lparr>at_sequence = 0, threads = Map.empty\<rparr>, subscribing = {}, lifecycle = [],
      lifecycle_capacity = c, waiters = [], next_channel = 0, mailbox = Map.empty\<rparr>"

definition new_reducer :: "nat \<Rightarrow> 'v Reducer option" where
  "new_reducer c = (if c > 0 then Some (empty_reducer c) else None)"

definition default_reducer :: "'v Reducer option" where
  "default_reducer = new_reducer 4096"

definition unknown_thread :: "string \<Rightarrow> 'v ThreadState" where
  "unknown_thread t =
     \<lparr>ts_thread_id = t, status = ''unknown'', active_turn_id = None, subscribed = False,
      ephemeral = False, last_sequence = 0, raw_thread = None\<rparr>"

text \<open>\<open>threads.entry(t).or_insert_with(..)\<close>.\<close>

definition thread_entry :: "'v Snapshot \<Rightarrow> string \<Rightarrow> 'v ThreadState" where
  "thread_entry sn t = unwrap_or (threads sn t) (unknown_thread t)"

definition is_prunable :: "'v ThreadState \<Rightarrow> bool" where
  "is_prunable th = (\<not> subscribed th \<and> active_turn_id th = None)"

section \<open>Applying an event\<close>

text \<open>The status of a thread object or of status-change parameters: \<open>status.type\<close> or \<open>status\<close>.\<close>

definition status_text :: "'v json \<Rightarrow> 'v \<Rightarrow> string option" where
  "status_text J v =
     Option.bind (get J v ''status'') (\<lambda>s. or_else (get_str J s ''type'') (as_str J s))"

definition update_thread :: "'v json \<Rightarrow> 'v SequencedEvent \<Rightarrow> 'v ThreadState \<Rightarrow> 'v ThreadState" where
  "update_thread J e th0 =
     (let th = th0\<lparr>last_sequence := sequence e\<rparr>;
          m = unwrap_or (event_method e) '''';
          params = frame_params (frame e)
      in if m = ''thread/started'' then
           (let raw = Option.bind params (\<lambda>p. get J p ''thread'')
            in th\<lparr>status := ''idle'', raw_thread := raw,
                 ephemeral := unwrap_or
                   (Option.bind (Option.bind raw (\<lambda>v. get J v ''ephemeral'')) (as_bool J)) False\<rparr>)
         else if m = ''thread/status/changed'' then
           th\<lparr>status := unwrap_or (Option.bind params (status_text J)) ''unknown''\<rparr>
         else if m = ''turn/started'' then
           th\<lparr>status := ''active'', active_turn_id := turn_id e\<rparr>
         else if m = ''turn/completed'' then
           th\<lparr>active_turn_id :=
                (if active_turn_id th = turn_id e \<or> turn_id e = None then None
                 else active_turn_id th),
              status := ''idle''\<rparr>
         else th)"

definition apply_state :: "'v json \<Rightarrow> 'v SequencedEvent \<Rightarrow> 'v Reducer \<Rightarrow> 'v Reducer" where
  "apply_state J e r =
     (let sn = (snapshot r)\<lparr>at_sequence := max (at_sequence (snapshot r)) (sequence e)\<rparr>
      in case thread_id e of
           None \<Rightarrow> r\<lparr>snapshot := sn\<rparr>
         | Some t \<Rightarrow>
             (let th = update_thread J e (thread_entry sn t);
                  prune = (t \<notin> subscribing r \<and> is_prunable th)
              in r\<lparr>snapshot := sn\<lparr>threads :=
                     (threads sn)(t := (if prune then None else Some th))\<rparr>\<rparr>))"

definition apply_log :: "'v SequencedEvent \<Rightarrow> 'v Reducer \<Rightarrow> 'v Reducer" where
  "apply_log e r =
     (if plane e = Lifecycle
      then r\<lparr>lifecycle := pop_to_capacity (lifecycle_capacity r) (lifecycle r @ [e])\<rparr>
      else r)"

function drain_waiters ::
    "'v SequencedEvent \<Rightarrow> 'v Waiter list \<Rightarrow> nat \<Rightarrow> 'v Waiter list \<Rightarrow> 'v Waiter list \<times> 'v Waiter list"
where
  "drain_waiters e ws i ready =
     (if i < length ws then
        (if predicate (ws ! i) e
         then drain_waiters e (snd (swap_remove ws i)) i (ready @ [fst (swap_remove ws i)])
         else drain_waiters e ws (Suc i) ready)
      else (ready, ws))"
  by pat_completeness auto
termination
  by (relation "measure (\<lambda>(e, ws, i, ready). length ws - i)") auto

declare drain_waiters.simps [simp del]

text \<open>\<open>sender.send(event)\<close> for every ready waiter.\<close>

fun deliver :: "'v SequencedEvent \<Rightarrow> 'v Waiter list \<Rightarrow> (nat \<rightharpoonup> 'v SequencedEvent) \<Rightarrow> (nat \<rightharpoonup> 'v SequencedEvent)" where
  "deliver e [] mb = mb"
| "deliver e (w # ws) mb = deliver e ws (mb(sender w \<mapsto> e))"

definition apply_waiters :: "'v SequencedEvent \<Rightarrow> 'v Reducer \<Rightarrow> 'v Reducer" where
  "apply_waiters e r =
     (let (ready, rest) = drain_waiters e (waiters r) 0 []
      in r\<lparr>waiters := rest, mailbox := deliver e ready (mailbox r)\<rparr>)"

definition apply_event :: "'v json \<Rightarrow> 'v SequencedEvent \<Rightarrow> 'v Reducer \<Rightarrow> 'v Reducer" where
  "apply_event J e r = apply_waiters e (apply_log e (apply_state J e r))"

section \<open>Waiters, snapshot and replay\<close>

definition register_waiter :: "('v SequencedEvent \<Rightarrow> bool) \<Rightarrow> 'v Reducer \<Rightarrow> nat \<times> 'v Reducer" where
  "register_waiter p r =
     (next_channel r,
      r\<lparr>waiters := waiters r @ [\<lparr>predicate = p, sender = next_channel r\<rparr>],
        next_channel := Suc (next_channel r)\<rparr>)"

definition current_sequence :: "'v Reducer \<Rightarrow> u64" where
  "current_sequence r = at_sequence (snapshot r)"

definition oldest_available :: "'v Reducer \<Rightarrow> u64 option" where
  "oldest_available r = (case lifecycle r of [] \<Rightarrow> None | e # _ \<Rightarrow> Some (sequence e))"

definition events_since :: "'v Reducer \<Rightarrow> u64 \<Rightarrow> 'v ReplayResult" where
  "events_since r s =
     (if is_some_and (oldest_available r) (\<lambda>oldest. saturating_add s 1 < oldest)
      then GapTooOld s (oldest_available r) (snapshot r)
      else Events (filter (\<lambda>e. sequence e > s) (lifecycle r)))"

section \<open>Subscription marks\<close>

definition begin_subscription :: "string \<Rightarrow> 'v Reducer \<Rightarrow> 'v Reducer" where
  "begin_subscription t r =
     r\<lparr>subscribing := insert t (subscribing r),
       snapshot := (snapshot r)\<lparr>threads :=
         (threads (snapshot r))(t \<mapsto> thread_entry (snapshot r) t)\<rparr>\<rparr>"

definition finish_subscription :: "string \<Rightarrow> 'v Reducer \<Rightarrow> 'v Reducer" where
  "finish_subscription t r =
     r\<lparr>subscribing := subscribing r - {t},
       snapshot := (snapshot r)\<lparr>threads :=
         (threads (snapshot r))(t \<mapsto> (thread_entry (snapshot r) t)\<lparr>subscribed := True\<rparr>)\<rparr>\<rparr>"

definition cancel_subscription :: "string \<Rightarrow> 'v Reducer \<Rightarrow> 'v Reducer" where
  "cancel_subscription t r =
     r\<lparr>subscribing := subscribing r - {t},
       snapshot := (snapshot r)\<lparr>threads :=
         (if is_some_and (threads (snapshot r) t) is_prunable
          then (threads (snapshot r))(t := None) else threads (snapshot r))\<rparr>\<rparr>"

definition set_subscribed :: "string \<Rightarrow> bool \<Rightarrow> 'v Reducer \<Rightarrow> 'v Reducer" where
  "set_subscribed t b r =
     (if b then finish_subscription t r
      else r\<lparr>subscribing := subscribing r - {t},
             snapshot := (snapshot r)\<lparr>threads :=
               (case threads (snapshot r) t of
                  None \<Rightarrow> threads (snapshot r)
                | Some th \<Rightarrow>
                    (let th' = th\<lparr>subscribed := False\<rparr>
                     in (threads (snapshot r))(t := (if is_prunable th' then None else Some th'))))\<rparr>\<rparr>)"

text \<open>\<open>retain\<close> on the map, and the number of entries it dropped.\<close>

definition evict_idle :: "'v Reducer \<Rightarrow> nat \<times> 'v Reducer" where
  "evict_idle r =
     (let before = threads (snapshot r);
          after = (\<lambda>t. case before t of
                     None \<Rightarrow> None
                   | Some th \<Rightarrow> if t \<in> subscribing r \<or> \<not> is_prunable th then Some th else None)
      in (card (dom before) - card (dom after),
          r\<lparr>snapshot := (snapshot r)\<lparr>threads := after\<rparr>\<rparr>))"

section \<open>Reconciliation\<close>

definition turn_is_terminal :: "'v json \<Rightarrow> 'v \<Rightarrow> bool" where
  "turn_is_terminal J turn =
     (get_str J turn ''status'' \<in> {Some ''completed'', Some ''failed'', Some ''interrupted''})"

definition reconciled_active_turn :: "'v json \<Rightarrow> 'v \<Rightarrow> string option" where
  "reconciled_active_turn J raw =
     Option.bind (Option.bind (get J raw ''turns'') (as_array J))
       (\<lambda>turns. Option.bind (find (\<lambda>turn. \<not> turn_is_terminal J turn) (rev turns))
          (\<lambda>turn. get_str J turn ''id''))"

definition reconcile_thread :: "'v json \<Rightarrow> 'v \<Rightarrow> 'v Reducer \<Rightarrow> 'v Reducer" where
  "reconcile_thread J raw r =
     (case get_str J raw ''id'' of
        None \<Rightarrow> r
      | Some t \<Rightarrow>
          (let st = unwrap_or (status_text J raw) ''unknown'';
               active = reconciled_active_turn J raw;
               sn = snapshot r;
               previous_subscribed = is_some_and (threads sn t) subscribed
           in r\<lparr>snapshot := sn\<lparr>threads := (threads sn)(t \<mapsto>
                \<lparr>ts_thread_id = t, status = (if active \<noteq> None then ''active'' else st),
                 active_turn_id = active, subscribed = previous_subscribed,
                 ephemeral = unwrap_or (Option.bind (get J raw ''ephemeral'') (as_bool J)) False,
                 last_sequence = at_sequence sn, raw_thread = Some raw\<rparr>)\<rparr>\<rparr>))"

section \<open>Operations as one step function\<close>

datatype 'v reducer_op =
    Apply "'v SequencedEvent"
  | Register "'v SequencedEvent \<Rightarrow> bool"
  | Begin string | Finish string | Cancel string
  | SetSubscribed string bool
  | Evict
  | Reconcile 'v

fun reducer_step :: "'v json \<Rightarrow> 'v Reducer \<Rightarrow> 'v reducer_op \<Rightarrow> 'v Reducer" where
  "reducer_step J r (Apply e) = apply_event J e r"
| "reducer_step J r (Register p) = snd (register_waiter p r)"
| "reducer_step J r (Begin t) = begin_subscription t r"
| "reducer_step J r (Finish t) = finish_subscription t r"
| "reducer_step J r (Cancel t) = cancel_subscription t r"
| "reducer_step J r (SetSubscribed t b) = set_subscribed t b r"
| "reducer_step J r Evict = snd (evict_idle r)"
| "reducer_step J r (Reconcile v) = reconcile_thread J v r"

text \<open>The events a run applied, in order.\<close>

fun applied :: "'v reducer_op list \<Rightarrow> 'v SequencedEvent list" where
  "applied [] = []"
| "applied (Apply e # ops) = e # applied ops"
| "applied (_ # ops) = applied ops"


lemmas subscription_defs =
  begin_subscription_def finish_subscription_def cancel_subscription_def set_subscribed_def
  evict_idle_def reconcile_thread_def

declare apply_event_def [handler_defs] apply_state_def [handler_defs] apply_log_def [handler_defs]
  apply_waiters_def [handler_defs] register_waiter_def [handler_defs] subscription_defs [handler_defs]

section \<open>What each phase leaves alone\<close>

lemma apply_waiters_frame [simp]:
  "snapshot (apply_waiters e r) = snapshot r" "subscribing (apply_waiters e r) = subscribing r"
  "lifecycle (apply_waiters e r) = lifecycle r"
  "lifecycle_capacity (apply_waiters e r) = lifecycle_capacity r"
  "next_channel (apply_waiters e r) = next_channel r"
  by (simp_all add: apply_waiters_def split: prod.splits)

lemma apply_log_frame [simp]:
  "snapshot (apply_log e r) = snapshot r" "subscribing (apply_log e r) = subscribing r"
  "lifecycle_capacity (apply_log e r) = lifecycle_capacity r" "waiters (apply_log e r) = waiters r"
  "next_channel (apply_log e r) = next_channel r" "mailbox (apply_log e r) = mailbox r"
  by (simp_all add: apply_log_def)

lemma apply_state_frame [simp]:
  "subscribing (apply_state J e r) = subscribing r" "lifecycle (apply_state J e r) = lifecycle r"
  "lifecycle_capacity (apply_state J e r) = lifecycle_capacity r"
  "waiters (apply_state J e r) = waiters r" "next_channel (apply_state J e r) = next_channel r"
  "mailbox (apply_state J e r) = mailbox r"
  "at_sequence (snapshot (apply_state J e r)) = max (at_sequence (snapshot r)) (sequence e)"
  by (simp_all add: apply_state_def Let_def split: option.splits)

lemma apply_event_frame [simp]:
  "snapshot (apply_event J e r) = snapshot (apply_state J e r)"
  "subscribing (apply_event J e r) = subscribing r"
  "lifecycle_capacity (apply_event J e r) = lifecycle_capacity r"
  "next_channel (apply_event J e r) = next_channel r"
  by (simp_all add: apply_event_def)

lemma apply_event_lifecycle:
  "lifecycle (apply_event J e r) = lifecycle (apply_log e r)"
  by (simp add: apply_event_def apply_log_def)

lemma subscription_frame [simp]:
  "lifecycle (begin_subscription t r) = lifecycle r" "lifecycle (finish_subscription t r) = lifecycle r"
  "lifecycle (cancel_subscription t r) = lifecycle r" "lifecycle (set_subscribed t b r) = lifecycle r"
  "lifecycle (snd (evict_idle r)) = lifecycle r" "lifecycle (reconcile_thread J v r) = lifecycle r"
  "lifecycle (snd (register_waiter p r)) = lifecycle r"
  "lifecycle_capacity (begin_subscription t r) = lifecycle_capacity r"
  "lifecycle_capacity (finish_subscription t r) = lifecycle_capacity r"
  "lifecycle_capacity (cancel_subscription t r) = lifecycle_capacity r"
  "lifecycle_capacity (set_subscribed t b r) = lifecycle_capacity r"
  "lifecycle_capacity (snd (evict_idle r)) = lifecycle_capacity r"
  "lifecycle_capacity (reconcile_thread J v r) = lifecycle_capacity r"
  "lifecycle_capacity (snd (register_waiter p r)) = lifecycle_capacity r"
  by (simp_all add: subscription_defs register_waiter_def Let_def split: option.splits)

lemma reducer_step_capacity [simp]:
  "lifecycle_capacity (reducer_step J r x) = lifecycle_capacity r"
  by (cases x) simp_all

lemma at_sequence_step: "at_sequence (snapshot r) \<le> at_sequence (snapshot (reducer_step J r x))"
  by (cases x) (auto simp: subscription_defs register_waiter_def Let_def split: option.splits)

lemma ts_thread_id_unknown [simp]: "ts_thread_id (unknown_thread t) = t"
  "\<not> subscribed (unknown_thread t)" "active_turn_id (unknown_thread t) = None"
  by (simp_all add: unknown_thread_def)

lemma update_thread_frame [simp]:
  "ts_thread_id (update_thread J e th) = ts_thread_id th"
  "subscribed (update_thread J e th) = subscribed th"
  "last_sequence (update_thread J e th) = sequence e"
  by (simp_all add: update_thread_def Let_def)

section \<open>The waiter loop\<close>

lemma drain_waiters_spec:
  assumes "drain_waiters e ws i ready = (fired, rest)"
    and "\<forall>w \<in> set (take i ws). \<not> predicate w e" and "\<forall>w \<in> set ready. predicate w e"
  shows "mset fired + mset rest = mset ready + mset ws \<and>
    (\<forall>w \<in> set fired. predicate w e) \<and> (\<forall>w \<in> set rest. \<not> predicate w e)"
  using assms
proof (induction e ws i ready rule: drain_waiters.induct)
  case (1 e ws i ready)
  show ?case
  proof (cases "i < length ws")
    case False
    with "1.prems" show ?thesis by (simp add: drain_waiters.simps [of e ws])
  next
    case in_range: True
    show ?thesis
    proof (cases "predicate (ws ! i) e")
      case True
      let ?rest = "snd (swap_remove ws i)"
      have fst: "fst (swap_remove ws i) = ws ! i" by (simp add: swap_remove_def)
      have "take i ?rest = take i ws"
        using in_range by (simp add: swap_remove_def take_butlast)
      moreover have "mset ws = add_mset (ws ! i) (mset ?rest)"
        using mset_swap_remove [OF in_range] by (simp add: fst)
      ultimately show ?thesis
        using "1.IH"(1) [OF in_range True] "1.prems" in_range True
        by (simp add: drain_waiters.simps [of e ws] fst)
    next
      case False
      have "set (take (Suc i) ws) = insert (ws ! i) (set (take i ws))"
        using in_range by (simp add: take_Suc_conv_app_nth)
      with "1.IH"(2) [OF in_range False] "1.prems" in_range False show ?thesis
        by (simp add: drain_waiters.simps [of e ws])
    qed
  qed
qed

lemma filter_partition_mset:
  assumes "mset xs + mset ys = mset zs" "\<forall>x \<in> set xs. p x" "\<forall>y \<in> set ys. \<not> p y"
  shows "mset xs = filter_mset p (mset zs) \<and> mset ys = filter_mset (\<lambda>x. \<not> p x) (mset zs)"
proof -
  have "filter_mset p (mset xs) = mset xs" "filter_mset p (mset ys) = {#}"
    "filter_mset (\<lambda>x. \<not> p x) (mset xs) = {#}" "filter_mset (\<lambda>x. \<not> p x) (mset ys) = mset ys"
    using assms(2,3) by (auto simp: filter_mset_eq_conv)
  then show ?thesis by (simp flip: assms(1))
qed

lemma drain_waiters_partition:
  assumes "drain_waiters e ws 0 [] = (fired, rest)"
  shows "mset fired = filter_mset (\<lambda>w. predicate w e) (mset ws) \<and>
    mset rest = filter_mset (\<lambda>w. \<not> predicate w e) (mset ws)"
  using drain_waiters_spec [OF assms] by (intro filter_partition_mset) auto

lemma deliver_eq: "deliver e ws mb c = (if c \<in> sender ` set ws then Some e else mb c)"
  by (induction ws arbitrary: mb) auto

lemma apply_waiters_spec:
  "mset (waiters (apply_waiters e r)) = filter_mset (\<lambda>w. \<not> predicate w e) (mset (waiters r))"
  "mailbox (apply_waiters e r) c =
     (if \<exists>w \<in> set (waiters r). predicate w e \<and> sender w = c then Some e else mailbox r c)"
proof -
  obtain fired rest where d: "drain_waiters e (waiters r) 0 [] = (fired, rest)" by fastforce
  note part = drain_waiters_partition [OF d]
  from part d show "mset (waiters (apply_waiters e r)) =
      filter_mset (\<lambda>w. \<not> predicate w e) (mset (waiters r))"
    by (simp add: apply_waiters_def)
  from part have "set fired = {w \<in> set (waiters r). predicate w e}"
    by (metis set_mset_filter set_mset_mset)
  with d show "mailbox (apply_waiters e r) c =
     (if \<exists>w \<in> set (waiters r). predicate w e \<and> sender w = c then Some e else mailbox r c)"
    by (auto simp: apply_waiters_def deliver_eq image_iff)
qed

lemma apply_event_waiters:
  "mset (waiters (apply_event J e r)) = filter_mset (\<lambda>w. \<not> predicate w e) (mset (waiters r))"
  "mailbox (apply_event J e r) c =
     (if \<exists>w \<in> set (waiters r). predicate w e \<and> sender w = c then Some e else mailbox r c)"
  by (auto simp: apply_event_def apply_waiters_spec)

section \<open>Bounded state: only relevant threads are kept\<close>

definition bounded_state :: "'v Reducer \<Rightarrow> bool" where
  "bounded_state r \<longleftrightarrow>
     (\<forall>t th. threads (snapshot r) t = Some th \<longrightarrow> t \<in> subscribing r \<or> \<not> is_prunable th)"

text \<open>
  \<open>reconcile_thread\<close> does not prune: it keeps the bound when the thread it inserts has an
  active turn, is subscribed, or is being subscribed.
\<close>

fun reducer_admits :: "'v json \<Rightarrow> 'v Reducer \<Rightarrow> 'v reducer_op \<Rightarrow> bool" where
  "reducer_admits J r (Reconcile v) =
     (case get_str J v ''id'' of
        None \<Rightarrow> True
      | Some t \<Rightarrow> t \<in> subscribing r \<or> reconciled_active_turn J v \<noteq> None \<or>
          is_some_and (threads (snapshot r) t) subscribed)"
| "reducer_admits J r _ = True"

lemma bounded_apply_state: "bounded_state r \<Longrightarrow> bounded_state (apply_state J e r)"
  by (auto simp: bounded_state_def apply_state_def Let_def split: option.splits if_splits)

lemma bounded_step:
  "bounded_state r \<Longrightarrow> reducer_admits J r x \<Longrightarrow> bounded_state (reducer_step J r x)"
proof (cases x)
  case (Apply e)
  then show "bounded_state r \<Longrightarrow> ?thesis"
    using bounded_apply_state [of r J e] by (simp add: bounded_state_def)
qed (auto simp: bounded_state_def handler_defs Let_def is_prunable_def
      split: option.splits if_splits)

interpretation bounded: preserved_by "reducer_step J" bounded_state "reducer_admits J" for J
  by unfold_locales (rule bounded_step)

lemma bounded_empty [simp]: "bounded_state (empty_reducer c)"
  by (simp add: bounded_state_def empty_reducer_def)

lemma evict_idle_bounded:
  assumes "bounded_state r"
  shows "evict_idle r = (0, r)"
proof -
  have "(\<lambda>t. case threads (snapshot r) t of None \<Rightarrow> None
           | Some th \<Rightarrow> if t \<in> subscribing r \<or> \<not> is_prunable th then Some th else None)
        = threads (snapshot r)"
    using assms by (auto simp: bounded_state_def fun_eq_iff split: option.splits)
  then show ?thesis by (simp add: evict_idle_def)
qed

section \<open>The active-turn view\<close>

definition active_view :: "'v Reducer \<Rightarrow> string \<rightharpoonup> string" where
  "active_view r t = Option.bind (threads (snapshot r) t) active_turn_id"

text \<open>
  The contract of the reducer: which turn is active on which thread, as a function of the
  events and reconciliations alone. Subscriptions, pruning and eviction do not appear.
\<close>

fun active_spec :: "'v json \<Rightarrow> (string \<rightharpoonup> string) \<Rightarrow> 'v reducer_op \<Rightarrow> (string \<rightharpoonup> string)" where
  "active_spec J m (Apply e) =
     (case thread_id e of
        None \<Rightarrow> m
      | Some t \<Rightarrow>
          if event_method e = Some ''turn/started'' then m(t := turn_id e)
          else if event_method e = Some ''turn/completed'' \<and> (turn_id e = m t \<or> turn_id e = None)
          then m(t := None) else m)"
| "active_spec J m (Reconcile v) =
     (case get_str J v ''id'' of None \<Rightarrow> m | Some t \<Rightarrow> m(t := reconciled_active_turn J v))"
| "active_spec J m _ = m"

lemma active_thread_entry: "active_turn_id (thread_entry sn t) = Option.bind (threads sn t) active_turn_id"
  by (simp add: thread_entry_def unwrap_or_def split: option.splits)

lemma active_update_thread:
  "active_turn_id (update_thread J e th) =
     (if event_method e = Some ''turn/started'' then turn_id e
      else if event_method e = Some ''turn/completed'' \<and> (turn_id e = active_turn_id th \<or> turn_id e = None)
      then None else active_turn_id th)"
  by (auto simp: update_thread_def Let_def unwrap_or_def split: option.splits)

lemma thread_entry_at_sequence [simp]: "thread_entry (sn\<lparr>at_sequence := x\<rparr>) t = thread_entry sn t"
  by (simp add: thread_entry_def)

lemma apply_state_no_thread:
  "thread_id e = None \<Longrightarrow> threads (snapshot (apply_state J e r)) = threads (snapshot r)"
  by (simp add: apply_state_def)

lemma apply_state_threads:
  assumes "thread_id e = Some t"
  shows "threads (snapshot (apply_state J e r)) =
    (threads (snapshot r))(t :=
      (let th = update_thread J e (thread_entry (snapshot r) t)
       in if t \<notin> subscribing r \<and> is_prunable th then None else Some th))"
  using assms by (simp add: apply_state_def Let_def)

lemma active_view_apply_state:
  "active_view (apply_state J e r) = active_spec J (active_view r) (Apply e)"
proof (cases "thread_id e")
  case None
  then show ?thesis by (simp add: apply_state_def active_view_def fun_eq_iff)
next
  case (Some t)
  let ?th = "update_thread J e (thread_entry (snapshot r) t)"
  have old: "active_turn_id (thread_entry (snapshot r) t) = active_view r t"
    by (simp add: active_thread_entry active_view_def)
  have "active_view (apply_state J e r) = (active_view r)(t := active_turn_id ?th)"
    using Some
    by (simp add: active_view_def fun_eq_iff apply_state_threads Let_def is_prunable_def)
  then show ?thesis using Some by (auto simp: active_update_thread old fun_upd_idem)
qed

lemma active_view_step: "active_view (reducer_step J r x) = active_spec J (active_view r) x"
proof (cases x)
  case (Apply e)
  then show ?thesis using active_view_apply_state [of J e r]
    by (simp add: active_view_def fun_eq_iff)
qed (auto simp: active_view_def handler_defs Let_def fun_eq_iff active_thread_entry is_prunable_def
      is_some_and_def
      split: option.splits if_splits)

section \<open>The lifecycle log\<close>

lemma applied_append [simp]: "applied (xs @ ys) = applied xs @ applied ys"
  by (induction xs rule: applied.induct) auto

definition lifecycle_events :: "'v reducer_op list \<Rightarrow> 'v SequencedEvent list" where
  "lifecycle_events ops = filter (\<lambda>e. plane e = Lifecycle) (applied ops)"

lemma lifecycle_step:
  "lifecycle (reducer_step J r x) =
     pop_to_capacity (lifecycle_capacity r) (lifecycle r @ lifecycle_events [x])"
  if "length (lifecycle r) \<le> lifecycle_capacity r"
  using that
  by (cases x) (auto simp: lifecycle_events_def apply_event_lifecycle apply_log_def pop_to_capacity_eq)

text \<open>The log is exactly the last \<open>lifecycle_capacity\<close> lifecycle events of the run.\<close>

lemma run_capacity [simp]: "lifecycle_capacity (foldl (reducer_step J) r ops) = lifecycle_capacity r"
  by (induction ops arbitrary: r) auto

lemma drop_to_last_append:
  "drop (length (drop (length xs - c) xs @ ys) - c) (drop (length xs - c) xs @ ys) =
     drop (length (xs @ ys) - c) (xs @ ys)"
  by (cases "c \<le> length xs") (simp_all add: add.commute)

lemma lifecycle_run:
  "lifecycle (foldl (reducer_step J) (empty_reducer c) ops) =
     drop (length (lifecycle_events ops) - c) (lifecycle_events ops)"
proof (induction ops rule: rev_induct)
  case Nil
  then show ?case by (simp add: empty_reducer_def lifecycle_events_def)
next
  case (snoc x ops)
  let ?r = "foldl (reducer_step J) (empty_reducer c) ops"
  have cap: "lifecycle_capacity ?r = c" by (simp add: empty_reducer_def)
  have le: "length (lifecycle ?r) \<le> lifecycle_capacity ?r" unfolding cap snoc.IH by simp
  have "lifecycle_events (ops @ [x]) = lifecycle_events ops @ lifecycle_events [x]"
    by (simp add: lifecycle_events_def)
  with lifecycle_step [OF le, of J x] show ?case
    unfolding cap pop_to_capacity_eq snoc.IH
    by (simp only: foldl_append foldl.simps drop_to_last_append)
qed

section \<open>Confirmation waiters along a run\<close>

definition waiter_wf :: "'v Reducer \<Rightarrow> bool" where
  "waiter_wf r \<longleftrightarrow>
     distinct (map sender (waiters r)) \<and>
     (\<forall>w \<in> set (waiters r). sender w < next_channel r \<and> mailbox r (sender w) = None) \<and>
     (\<forall>c \<ge> next_channel r. mailbox r c = None)"

lemma step_waiters_other:
  assumes "\<forall>e. x \<noteq> Apply e" "\<forall>p. x \<noteq> Register p"
  shows "waiters (reducer_step J r x) = waiters r" "mailbox (reducer_step J r x) = mailbox r"
    "next_channel (reducer_step J r x) = next_channel r"
  using assms by (cases x; auto simp: subscription_defs Let_def split: option.splits)+

lemma distinct_senders_apply:
  assumes "distinct (map sender (waiters r))"
  shows "distinct (map sender (waiters (apply_event J e r)))"
proof -
  have "mset (waiters (apply_event J e r)) = mset (filter (\<lambda>w. \<not> predicate w e) (waiters r))"
    by (simp add: apply_event_waiters)
  then have "mset (map sender (waiters (apply_event J e r))) =
      mset (map sender (filter (\<lambda>w. \<not> predicate w e) (waiters r)))"
    by simp
  then show ?thesis
    using assms by (metis distinct_map_filter mset_eq_imp_distinct_iff)
qed

lemma set_waiters_apply:
  "set (waiters (apply_event J e r)) = {w \<in> set (waiters r). \<not> predicate w e}"
  using arg_cong [OF apply_event_waiters(1), of set_mset J e r] by simp

lemma waiter_wf_step: "waiter_wf r \<Longrightarrow> waiter_wf (reducer_step J r x)"
proof (cases x)
  case (Apply e)
  assume wf: "waiter_wf r"
  then have "\<exists>!w. w \<in> set (waiters r) \<and> sender w = sender v" if "v \<in> set (waiters r)" for v
    using that by (auto simp: waiter_wf_def distinct_map inj_on_def)
  with wf show ?thesis
    unfolding Apply waiter_wf_def
    by (auto simp: set_waiters_apply distinct_senders_apply apply_event_waiters(2))
next
  case (Register p)
  then show "waiter_wf r \<Longrightarrow> ?thesis"
    by (auto simp: waiter_wf_def register_waiter_def less_Suc_eq)
qed (simp_all add: waiter_wf_def step_waiters_other del: reducer_step.simps)

lemma waiter_wf_empty [simp]: "waiter_wf (empty_reducer c)"
  by (simp add: waiter_wf_def empty_reducer_def)

interpretation waiters_ok: preserved_by "reducer_step J" waiter_wf "\<lambda>_ _. True" for J
  by unfold_locales (rule waiter_wf_step)

lemma waiter_wf_run: "waiter_wf r \<Longrightarrow> waiter_wf (foldl (reducer_step J) r ops)"
  by (rule waiters_ok.run_inv) simp_all

text \<open>A filled channel keeps its event: no waiter with its number is left.\<close>

lemma mailbox_stable_step:
  assumes "waiter_wf r" "mailbox r c = Some e"
  shows "mailbox (reducer_step J r x) c = Some e"
proof (cases x)
  case (Apply d)
  with assms show ?thesis
    by (auto simp: apply_event_waiters waiter_wf_def)
next
  case (Register p)
  with assms show ?thesis by (simp add: register_waiter_def)
qed (use assms in \<open>simp_all add: step_waiters_other del: reducer_step.simps\<close>)

lemma mailbox_stable_run:
  "waiter_wf r \<Longrightarrow> mailbox r c = Some e \<Longrightarrow> mailbox (foldl (reducer_step J) r ops) c = Some e"
  by (induction ops arbitrary: r) (auto simp: waiter_wf_step mailbox_stable_step)

lemma waiting_step:
  assumes wf: "waiter_wf r" and w: "w \<in> set (waiters r)"
  shows "if \<exists>e. x = Apply e \<and> predicate w e
         then mailbox (reducer_step J r x) (sender w) = Some (hd (applied [x]))
         else w \<in> set (waiters (reducer_step J r x))"
proof (cases x)
  case (Apply e)
  with w show ?thesis by (auto simp: set_waiters_apply apply_event_waiters)
next
  case (Register p)
  with w show ?thesis by (simp add: register_waiter_def)
qed (use w in \<open>simp_all add: step_waiters_other del: reducer_step.simps\<close>)

lemma waiting_run:
  assumes "waiter_wf r" "w \<in> set (waiters r)"
  shows "mailbox (foldl (reducer_step J) r ops) (sender w) = find (predicate w) (applied ops)"
  using assms
proof (induction ops arbitrary: r)
  case Nil
  then show ?case by (auto simp: waiter_wf_def)
next
  case (Cons x ops)
  note step = waiting_step [OF Cons.prems, of x J]
  note wf = waiter_wf_step [OF Cons.prems(1), of J x]
  show ?case
  proof (cases "\<exists>e. x = Apply e \<and> predicate w e")
    case True
    with step have "mailbox (reducer_step J r x) (sender w) = Some (hd (applied [x]))" by simp
    from mailbox_stable_run [OF wf this, of J ops] True show ?thesis by auto
  next
    case False
    with step have "w \<in> set (waiters (reducer_step J r x))" by simp
    from Cons.IH [OF wf this] False show ?thesis by (cases x) auto
  qed
qed

section \<open>Interfaces other components rely on\<close>

text \<open>
  What the lifecycle stream relies on: a replay query that either returns every lifecycle
  event after the cursor, or says that it cannot and hands out the current snapshot.
\<close>

locale replay_log =
  fixes since :: "'s \<Rightarrow> u64 \<Rightarrow> 'v ReplayResult"
    and history :: "'s \<Rightarrow> 'v SequencedEvent list"
    and current :: "'s \<Rightarrow> 'v Snapshot"
    and ordered :: "'s \<Rightarrow> bool"
  assumes since_exact:
      "ordered s \<Longrightarrow> since s c = Events es \<Longrightarrow> es = filter (\<lambda>e. c < sequence e) (history s)"
    and since_gap: "since s c = GapTooOld rq old sn \<Longrightarrow> rq = c \<and> sn = current s \<and> old \<noteq> None"
begin

lemma since_no_older: "ordered s \<Longrightarrow> since s c = Events es \<Longrightarrow> e \<in> set es \<Longrightarrow> c < sequence e"
  by (auto dest: since_exact)

lemma since_nothing_missed:
  "ordered s \<Longrightarrow> since s c = Events es \<Longrightarrow> e \<in> set (history s) \<Longrightarrow> c < sequence e \<Longrightarrow> e \<in> set es"
  by (auto dest: since_exact)

end

text \<open>
  What action confirmation relies on: the channel of a registered waiter holds the first
  event, after the registration, that satisfies its predicate.
\<close>

locale confirmation_source =
  fixes step :: "'s \<Rightarrow> 'o \<Rightarrow> 's"
    and register :: "('e \<Rightarrow> bool) \<Rightarrow> 's \<Rightarrow> nat \<times> 's"
    and mail :: "'s \<Rightarrow> nat \<rightharpoonup> 'e"
    and events_of :: "'o list \<Rightarrow> 'e list"
    and ok :: "'s \<Rightarrow> bool"
  assumes first_match:
      "ok s \<Longrightarrow> mail (foldl step (snd (register p s)) ops) (fst (register p s)) = find p (events_of ops)"
begin

lemma confirmed_satisfies:
  assumes "ok s" "mail (foldl step (snd (register p s)) ops) (fst (register p s)) = Some e"
  shows "p e \<and> e \<in> set (events_of ops)"
  using assms by (auto simp: first_match find_Some_iff)

lemma unconfirmed_iff:
  assumes "ok s"
  shows "mail (foldl step (snd (register p s)) ops) (fst (register p s)) = None \<longleftrightarrow>
    (\<forall>e \<in> set (events_of ops). \<not> p e)"
  using assms by (auto simp: first_match find_None_iff)

end

text \<open>
  What discovery relies on: a thread marked as subscribing stays in the state until its
  mark is released, and a finished subscription stays until it is taken back.
\<close>

locale subscription_marks =
  fixes step :: "'s \<Rightarrow> 'o \<Rightarrow> 's"
    and pending :: "'s \<Rightarrow> string \<Rightarrow> bool"
    and retained :: "'s \<Rightarrow> string \<Rightarrow> bool"
    and releases :: "'o \<Rightarrow> string \<Rightarrow> bool"
    and withdraws :: "'o \<Rightarrow> string \<Rightarrow> bool"
    and mark :: "string \<Rightarrow> 'o" and finish :: "string \<Rightarrow> 'o"
  assumes mark_pending: "pending (step s (mark t)) t"
    and pending_step: "pending s t \<Longrightarrow> \<not> releases x t \<Longrightarrow> pending (step s x) t"
    and finish_retained: "retained (step s (finish t)) t"
    and retained_step: "retained s t \<Longrightarrow> \<not> withdraws x t \<Longrightarrow> retained (step s x) t"
begin

lemma pending_run: "pending s t \<Longrightarrow> \<forall>x \<in> set ops. \<not> releases x t \<Longrightarrow> pending (foldl step s ops) t"
  by (induction ops arbitrary: s) (auto intro: pending_step)

lemma retained_run: "retained s t \<Longrightarrow> \<forall>x \<in> set ops. \<not> withdraws x t \<Longrightarrow> retained (foldl step s ops) t"
  by (induction ops arbitrary: s) (auto intro: retained_step)

lemma subscription_survives:
  assumes "\<forall>x \<in> set during. \<not> releases x t" "\<forall>x \<in> set later. \<not> withdraws x t"
  shows "pending (foldl step (step s (mark t)) during) t \<and>
    retained (foldl step (step (foldl step (step s (mark t)) during) (finish t)) later) t"
  using assms by (auto intro!: pending_run retained_run mark_pending finish_retained)

end

section \<open>The reducer provides them\<close>

definition increasing :: "'v SequencedEvent list \<Rightarrow> bool" where
  "increasing es = sorted_wrt (\<lambda>a b. sequence a < sequence b) es"

lemma increasing_lifecycle: "increasing (applied ops) \<Longrightarrow> increasing (lifecycle_events ops)"
  by (simp add: increasing_def lifecycle_events_def sorted_wrt_filter)

lemma replay_suffix:
  assumes inc: "increasing es" and front: "drop k es = d # ds" and near: "\<not> saturating_add s 1 < sequence d"
  shows "filter (\<lambda>e. s < sequence e) (drop k es) = filter (\<lambda>e. s < sequence e) es"
proof -
  have "sequence a \<le> s" if "a \<in> set (take k es)" for a
  proof -
    from inc front that have "sequence a < sequence d"
      unfolding increasing_def by (metis append_take_drop_id list.set_intros(1) sorted_wrt_append)
    with near [unfolded saturating_succ_less] show ?thesis
      by (simp add: word_less_nat_alt word_le_nat_alt)
  qed
  then have "filter (\<lambda>e. s < sequence e) (take k es) = []"
    by (auto simp: filter_empty_conv not_less)
  then show ?thesis
    by (metis append_Nil append_take_drop_id filter_append)
qed

abbreviation reducer_run :: "'v json \<Rightarrow> nat \<Rightarrow> 'v reducer_op list \<Rightarrow> 'v Reducer" where
  "reducer_run J c ops \<equiv> foldl (reducer_step J) (empty_reducer c) ops"

lemma events_since_exact:
  assumes "0 < c" "increasing (applied ops)" "events_since (reducer_run J c ops) s = Events es"
  shows "es = filter (\<lambda>e. s < sequence e) (lifecycle_events ops)"
proof -
  let ?ls = "lifecycle_events ops"
  let ?log = "drop (length ?ls - c) ?ls"
  have es: "es = filter (\<lambda>e. s < sequence e) ?log"
    and near: "\<not> is_some_and (oldest_available (reducer_run J c ops)) (\<lambda>o'. saturating_add s 1 < o')"
    using assms(3) by (auto simp: events_since_def lifecycle_run split: if_splits)
  show ?thesis
  proof (cases ?log)
    case Nil
    then have "length ?ls \<le> length ?ls - c" by simp
    with assms(1) have "length ?ls = 0" by linarith
    with es show ?thesis by simp
  next
    case (Cons d ds)
    with near have "\<not> saturating_add s 1 < sequence d"
      by (simp add: oldest_available_def lifecycle_run)
    from replay_suffix [OF increasing_lifecycle [OF assms(2)] Cons this] es show ?thesis by simp
  qed
qed

lemma events_since_gap:
  "events_since r s = GapTooOld rq old sn \<Longrightarrow> rq = s \<and> sn = snapshot r \<and> old \<noteq> None"
  by (auto simp: events_since_def is_some_and_def split: if_splits option.splits)

lemma registered_first_match:
  assumes "waiter_wf r"
  shows "mailbox (foldl (reducer_step J) (snd (register_waiter p r)) ops) (fst (register_waiter p r))
    = find p (applied ops)"
proof -
  let ?w = "\<lparr>predicate = p, sender = next_channel r\<rparr>"
  have "waiter_wf (snd (register_waiter p r))"
    using waiter_wf_step [OF assms, of J "Register p"] by simp
  from waiting_run [OF this, of ?w J ops] show ?thesis by (simp add: register_waiter_def)
qed

interpretation replay: replay_log
  "\<lambda>ops. events_since (reducer_run J c ops)" lifecycle_events
  "\<lambda>ops. snapshot (reducer_run J c ops)" "\<lambda>ops. 0 < c \<and> increasing (applied ops)" for J c
  by unfold_locales (auto dest: events_since_gap intro: events_since_exact)

interpretation confirmations: confirmation_source
  "reducer_step J" register_waiter mailbox applied waiter_wf for J
  by unfold_locales (rule registered_first_match)

definition thread_pending :: "'v Reducer \<Rightarrow> string \<Rightarrow> bool" where
  "thread_pending r t \<longleftrightarrow> t \<in> subscribing r \<and> threads (snapshot r) t \<noteq> None"

definition thread_subscribed :: "'v Reducer \<Rightarrow> string \<Rightarrow> bool" where
  "thread_subscribed r t = is_some_and (threads (snapshot r) t) subscribed"

fun releases_mark :: "'v reducer_op \<Rightarrow> string \<Rightarrow> bool" where
  "releases_mark (Finish u) t = (u = t)"
| "releases_mark (Cancel u) t = (u = t)"
| "releases_mark (SetSubscribed u b) t = (u = t)"
| "releases_mark _ t = False"

fun withdraws_subscription :: "'v reducer_op \<Rightarrow> string \<Rightarrow> bool" where
  "withdraws_subscription (SetSubscribed u b) t = (u = t \<and> \<not> b)"
| "withdraws_subscription _ t = False"

lemma apply_state_subscribed:
  assumes "is_some_and (threads (snapshot r) t) subscribed"
  shows "is_some_and (threads (snapshot (apply_state J e r)) t) subscribed"
  using assms
  by (cases "thread_id e")
    (auto simp: apply_state_no_thread apply_state_threads Let_def is_prunable_def thread_entry_def
      is_some_and_def unwrap_or_def split: option.splits)

lemma thread_pending_step: "thread_pending r t \<Longrightarrow> \<not> releases_mark x t \<Longrightarrow> thread_pending (reducer_step J r x) t"
proof (cases x)
  case (Apply e)
  then show "thread_pending r t \<Longrightarrow> ?thesis"
    by (cases "thread_id e")
      (auto simp: thread_pending_def apply_state_no_thread apply_state_threads Let_def)
qed (auto simp: thread_pending_def handler_defs Let_def split: option.splits)

lemma thread_subscribed_step:
  "thread_subscribed r t \<Longrightarrow> \<not> withdraws_subscription x t \<Longrightarrow> thread_subscribed (reducer_step J r x) t"
proof (cases x)
  case (Apply e)
  then show "thread_subscribed r t \<Longrightarrow> ?thesis"
    by (simp add: thread_subscribed_def apply_state_subscribed)
qed (auto simp: thread_subscribed_def handler_defs Let_def is_prunable_def thread_entry_def
      is_some_and_def unwrap_or_def split: option.splits if_splits)

interpretation marks: subscription_marks
  "reducer_step J" thread_pending thread_subscribed releases_mark withdraws_subscription Begin Finish for J
  by unfold_locales
    (auto simp: thread_pending_step thread_subscribed_step, auto simp: thread_pending_def
      thread_subscribed_def begin_subscription_def finish_subscription_def)

text \<open>The two answers of a replay query.\<close>

lemma events_since_honest:
  assumes "0 < c" "increasing (applied ops)"
  shows "case events_since (reducer_run J c ops) s of
      Events es \<Rightarrow> es = filter (\<lambda>e. s < sequence e) (lifecycle_events ops)
    | GapTooOld rq old sn \<Rightarrow> rq = s \<and> sn = snapshot (reducer_run J c ops) \<and>
        (\<exists>d \<in> set (lifecycle_events ops). old = Some (sequence d) \<and> unat s + 1 < unat (sequence d))"
proof (cases "events_since (reducer_run J c ops) s")
  case (Events es)
  with replay.since_exact [of c ops J s es] assms show ?thesis by simp
next
  case (GapTooOld rq old sn)
  let ?ls = "lifecycle_events ops"
  have gap: "is_some_and (oldest_available (reducer_run J c ops)) (\<lambda>x. saturating_add s 1 < x)"
    and old: "old = oldest_available (reducer_run J c ops)"
    using GapTooOld by (auto simp: events_since_def split: if_splits)
  then obtain d ds where log: "drop (length ?ls - c) ?ls = d # ds"
    by (auto simp: oldest_available_def lifecycle_run split: list.splits)
  then have "d \<in> set ?ls" by (metis in_set_dropD list.set_intros(1))
  with gap old log show ?thesis
    using GapTooOld replay.since_gap [of J c ops s rq old sn]
    by (auto simp: oldest_available_def lifecycle_run saturating_succ_less)
qed

section \<open>Properties\<close>

text \<open>Replay is honest. For any interleaving of reducer operations whose applied events
  carry increasing receipt sequences, \<open>events_since\<close> either returns exactly the lifecycle events
  after the cursor, none missing and in order, although the log is bounded; or it answers
  \<open>GapTooOld\<close> with the current snapshot and the sequence of the oldest retained event, which then
  does lie beyond the cursor.\<close>

theorem replay_is_honest:
  assumes "0 < c" "increasing (applied ops)"
  shows "case events_since (reducer_run J c ops) s of
      Events es \<Rightarrow> es = filter (\<lambda>e. s < sequence e) (lifecycle_events ops)
    | GapTooOld rq old sn \<Rightarrow> rq = s \<and> sn = snapshot (reducer_run J c ops) \<and>
        (\<exists>d \<in> set (lifecycle_events ops). old = Some (sequence d) \<and> unat s + 1 < unat (sequence d))"
  using assms by (rule events_since_honest)

theorem replay_is_honest_witness:
  "let ops = [Apply (wire_event 1 ''turn/started'' ''t'' ''u''), Apply (wire_event 2 ''turn/completed'' ''t'' ''u''),
              Apply (wire_event 3 ''turn/started'' ''t'' ''v'')]
   in case events_since (reducer_run jv_api 2 ops) 1 of
        Events es \<Rightarrow> es = filter (\<lambda>e. 1 < sequence e) (lifecycle_events ops)
      | GapTooOld rq old sn \<Rightarrow> rq = 1 \<and> sn = snapshot (reducer_run jv_api 2 ops) \<and>
          (\<exists>d \<in> set (lifecycle_events ops). old = Some (sequence d) \<and> unat (1 :: u64) + 1 < unat (sequence d))"
  unfolding Let_def
  by (rule replay_is_honest) (simp_all add: increasing_def)

text \<open>The authoritative state is bounded. Starting empty, after any sequence of operations
  (where a reconciled thread is one with an active turn, or one that is subscribed or being
  subscribed) every retained thread is subscribed, has an active turn, or is in setup; so the
  periodic eviction finds nothing to remove.\<close>

theorem only_relevant_threads_retained:
  assumes "admissible (reducer_step J) (reducer_admits J) (empty_reducer c) ops"
  shows "bounded_state (reducer_run J c ops) \<and>
    evict_idle (reducer_run J c ops) = (0, reducer_run J c ops)"
proof -
  from bounded.run_inv [OF bounded_empty assms] have "bounded_state (reducer_run J c ops)" .
  then show ?thesis by (simp add: evict_idle_bounded)
qed

theorem only_relevant_threads_retained_witness:
  "let ops = [Begin ''s'', Apply (wire_event 1 ''thread/status/changed'' ''s'' ''u''),
              Apply (wire_event 2 ''thread/status/changed'' ''idle'' ''u''), Finish ''s'',
              Reconcile (JObj [(''id'', JStr ''s'')])]
   in evict_idle (reducer_run jv_api 4 ops) = (0, reducer_run jv_api 4 ops)"
  unfolding Let_def
  by (rule only_relevant_threads_retained [THEN conjunct2])
    (simp add: get_str_def finish_subscription_def begin_subscription_def empty_reducer_def
      reconciled_active_turn_def)

text \<open>C32. Refinement: the active turn of every thread, as the snapshot shows it, is the one the
  abstract contract computes from the applied events and reconciliations alone. Pruning,
  subscription marks, eviction, the log and the waiters never change it.\<close>

theorem active_turns_refine_contract:
  "active_view (foldl (reducer_step J) r ops) = foldl (active_spec J) (active_view r) ops"
  by (induction ops arbitrary: r) (simp_all add: active_view_step)

text \<open>A confirmation is never missed nor invented: whatever happened before and happens after,
  the channel of a waiter registered now holds exactly the first event applied later that
  satisfies its predicate, and nothing when there is none.\<close>

theorem waiter_gets_first_match:
  "mailbox (foldl (reducer_step J) (snd (register_waiter p (reducer_run J c before))) later)
      (fst (register_waiter p (reducer_run J c before)))
    = find p (applied later)"
  by (rule confirmations.first_match) (simp add: waiter_wf_run)

text \<open>The index loop over the waiters, which removes by swapping with the last element while
  it advances, fires every matching waiter exactly once and keeps every other one: it is a
  partition of the vector by the predicate.\<close>

theorem waiter_loop_is_partition:
  "mset (fst (drain_waiters e ws 0 [])) = filter_mset (\<lambda>w. predicate w e) (mset ws) \<and>
   mset (snd (drain_waiters e ws 0 [])) = filter_mset (\<lambda>w. \<not> predicate w e) (mset ws)"
  using drain_waiters_partition [of e ws "fst (drain_waiters e ws 0 [])" "snd (drain_waiters e ws 0 [])"]
  by simp

text \<open>Subscription setup is protected from pruning: between \<open>begin_subscription\<close> and the
  operation that releases the mark, no event, eviction or work on other threads drops the thread;
  and once \<open>finish_subscription\<close> has run, the thread stays subscribed until it is explicitly
  unsubscribed, even through cancellations, evictions and reconciliations.\<close>

theorem subscription_setup_protected:
  assumes "\<forall>x \<in> set during. \<not> releases_mark x t" "\<forall>x \<in> set later. \<not> withdraws_subscription x t"
  shows "thread_pending (foldl (reducer_step J) (begin_subscription t r) during) t \<and>
    thread_subscribed (foldl (reducer_step J)
      (finish_subscription t (foldl (reducer_step J) (begin_subscription t r) during)) later) t"
  using marks.subscription_survives [OF assms, of J r] by simp

theorem subscription_setup_protected_witness:
  "thread_subscribed (foldl (reducer_step jv_api)
     (finish_subscription ''t'' (foldl (reducer_step jv_api) (begin_subscription ''t'' (empty_reducer 1))
        [Apply (wire_event 1 ''turn/completed'' ''t'' ''u''), Evict])) [Cancel ''t'', Evict]) ''t''"
  using subscription_setup_protected
    [where J = jv_api and t = "''t''" and r = "empty_reducer 1"
      and during = "[Apply (wire_event 1 ''turn/completed'' ''t'' ''u''), Evict]"
      and later = "[Cancel ''t'', Evict]"]
  by simp

text \<open>A completion of another turn leaves the active turn in place but still marks the thread
  idle: the two fields of the snapshot then disagree (an active turn on an \<open>idle\<close> thread).\<close>

theorem stale_completion_marks_active_thread_idle:
  assumes "threads (snapshot r) t = Some th" "active_turn_id th = Some u"
    and "event_method e = Some ''turn/completed''" "thread_id e = Some t" "turn_id e = Some v" "v \<noteq> u"
  shows "\<exists>th'. threads (snapshot (apply_event J e r)) t = Some th' \<and>
    status th' = ''idle'' \<and> active_turn_id th' = Some u"
  using assms
  by (simp add: apply_state_threads thread_entry_def update_thread_def is_prunable_def Let_def)

theorem stale_completion_marks_active_thread_idle_witness:
  "\<exists>th'. threads (snapshot (apply_event jv_api (wire_event 2 ''turn/completed'' ''t'' ''old'')
       (reducer_run jv_api 1 [Apply (wire_event 1 ''turn/started'' ''t'' ''new'')]))) ''t'' = Some th' \<and>
     status th' = ''idle'' \<and> active_turn_id th' = Some ''new''"
proof -
  let ?r = "reducer_run jv_api 1 [Apply (wire_event 1 ''turn/started'' ''t'' ''new'')]"
  obtain th where "threads (snapshot ?r) ''t'' = Some th" "active_turn_id th = Some ''new''"
    by (simp add: apply_state_threads empty_reducer_def update_thread_def thread_entry_def
        is_prunable_def Let_def)
  then show ?thesis
    by (rule stale_completion_marks_active_thread_idle [where v = "''old''"]) simp_all
qed

end
