(* ===== verification/Streaming.thy ===== *)
theory Streaming
  imports Reducer
begin

text \<open>
  Event fan-out (\<open>src/streaming/src/lib.rs\<close>): the hub with its lifecycle and delta topics, the
  lifecycle stream that recovers from lag through the reducer's replay log, and the delta
  stream that counts what it dropped. The broadcast channels are those of the runtime library:
  a topic is the log of what was sent on it, and what a receiver gets from its channel
  (a value, a lag, the end) is an input of the step; what the library documents of these
  outcomes is the predicate \<open>receives\<close>.
\<close>

section \<open>The hub\<close>

record 'v EventHub =
  lifecycle_topic :: "'v SequencedEvent list"
  delta_topic :: "'v SequencedEvent list"

definition new_hub :: "'v EventHub" where
  "new_hub = \<lparr>lifecycle_topic = [], delta_topic = []\<rparr>"

definition publish :: "'v SequencedEvent \<Rightarrow> 'v EventHub \<Rightarrow> 'v EventHub" where
  "publish e hub =
     (case plane e of
        Lifecycle \<Rightarrow> hub\<lparr>lifecycle_topic := lifecycle_topic hub @ [e]\<rparr>
      | Delta \<Rightarrow> hub\<lparr>delta_topic := delta_topic hub @ [e]\<rparr>)"

section \<open>The streams\<close>

text \<open>What \<open>broadcast::Receiver::recv\<close> yields.\<close>

datatype 'a recv_outcome = Ok 'a | Lagged u64 | Closed

datatype 'v LifecycleItem =
    Event "'v SequencedEvent"
  | Replay "'v SequencedEvent list"
  | Gap "'v Snapshot" "u64 option"  \<comment> \<open>\<open>GapTooOld\<close>: snapshot, oldest available\<close>
  | StreamClosed

text \<open>
  The receiver half of the channel is the source of the outcomes; the reducer the stream holds
  is used through \<open>events_since\<close> only, which is the first argument of \<open>lifecycle_recv\<close>.
\<close>

record LifecycleStream =
  cursor :: u64

record DeltaStream =
  dropped :: u64

definition lifecycle_stream :: "u64 \<Rightarrow> LifecycleStream" where
  "lifecycle_stream after = \<lparr>cursor = after\<rparr>"

definition delta_stream :: DeltaStream where
  "delta_stream = \<lparr>dropped = 0\<rparr>"

definition lifecycle_recv ::
    "(u64 \<Rightarrow> 'v ReplayResult) \<Rightarrow> 'v SequencedEvent recv_outcome \<Rightarrow> LifecycleStream \<Rightarrow>
     'v LifecycleItem \<times> LifecycleStream" where
  "lifecycle_recv since outcome st =
     (case outcome of
        Ok e \<Rightarrow> (Event e, st\<lparr>cursor := sequence e\<rparr>)
      | Lagged _ \<Rightarrow>
          (case since (cursor st) of
             Events es \<Rightarrow>
               (Replay es, if es \<noteq> [] then st\<lparr>cursor := sequence (last es)\<rparr> else st)
           | GapTooOld _ oldest sn \<Rightarrow> (Gap sn oldest, st\<lparr>cursor := at_sequence sn\<rparr>))
      | Closed \<Rightarrow> (StreamClosed, st))"

text \<open>
  The delta stream takes outcomes until one ends the call; the result is what it returns with
  the outcomes left, or \<open>None\<close> in the first component when it still waits for another.
\<close>

fun delta_recv ::
    "'v SequencedEvent recv_outcome list \<Rightarrow> DeltaStream \<Rightarrow>
     ('v SequencedEvent option \<times> 'v SequencedEvent recv_outcome list) option \<times> DeltaStream" where
  "delta_recv [] st = (None, st)"
| "delta_recv (Ok e # os) st = (Some (Some e, os), st)"
| "delta_recv (Lagged n # os) st = delta_recv os (st\<lparr>dropped := dropped st + n\<rparr>)"
| "delta_recv (Closed # os) st = (Some (None, os), st)"

section \<open>What the channel documents\<close>

text \<open>
  A receiver with the values \<open>q\<close> sent and not yet seen yields the next of them, or a lag of
  \<open>n\<close> and then continues behind the \<open>n\<close> it lost; it closes only when nothing is left.
\<close>

fun receives :: "'a list \<Rightarrow> 'a recv_outcome \<Rightarrow> bool" where
  "receives q (Ok e) = (q \<noteq> [] \<and> hd q = e)"
| "receives q (Lagged n) = (0 < n \<and> unat n \<le> length q)"
| "receives q Closed = (q = [])"

fun consumed :: "'a recv_outcome \<Rightarrow> nat" where
  "consumed (Ok e) = 1"
| "consumed (Lagged n) = unat n"
| "consumed Closed = 0"

fun script_ok :: "'a list \<Rightarrow> 'a recv_outcome list \<Rightarrow> bool" where
  "script_ok q [] = True"
| "script_ok q (x # xs) = (receives q x \<and> script_ok (drop (consumed x) q) xs)"

section \<open>Recovery from lag, over the replay interface\<close>

text \<open>What an item tells its consumer of an event.\<close>

fun covers :: "'v LifecycleItem \<Rightarrow> 'v SequencedEvent \<Rightarrow> bool" where
  "covers (Event x) e = (x = e)"
| "covers (Replay es) e = (e \<in> set es)"
| "covers (Gap sn oldest) e = (sequence e \<le> at_sequence sn)"
| "covers StreamClosed e = False"

text \<open>A replay log whose snapshot is not older than its history.\<close>

locale replay_recovery = replay_log +
  assumes current_covers: "e \<in> set (history s) \<Longrightarrow> sequence e \<le> at_sequence (current s)"
    and history_increasing: "ordered s \<Longrightarrow> increasing (history s)"
begin

lemma lag_covers:
  assumes "ordered s" "e \<in> set (history s)" "cursor st < sequence e"
  shows "covers (fst (lifecycle_recv (since s) (Lagged n) st)) e"
proof (cases "since s (cursor st)")
  case (Events es)
  with assms since_nothing_missed show ?thesis by (simp add: lifecycle_recv_def)
next
  case (GapTooOld rq old sn)
  with assms since_gap current_covers show ?thesis by (fastforce simp: lifecycle_recv_def)
qed

lemma lag_cursor:
  assumes "ordered s"
  shows "cursor (snd (lifecycle_recv (since s) (Lagged n) st)) \<le> max (cursor st) (at_sequence (current s))"
proof (cases "since s (cursor st)")
  case (Events es)
  then have "es = [] \<or> last es \<in> set (history s)"
    using since_exact [OF assms Events] by (metis filter_is_subset last_in_set subsetD)
  with Events current_covers show ?thesis by (auto simp: lifecycle_recv_def le_max_iff_disj)
next
  case (GapTooOld rq old sn)
  with since_gap show ?thesis by (auto simp: lifecycle_recv_def)
qed

text \<open>The replay repeats what the channel still holds.\<close>

lemma replay_repeats_unread:
  assumes "ordered s" "set q \<subseteq> set (history s)"
    and "fst (lifecycle_recv (since s) (Lagged n) st) = Replay es"
    and "e \<in> set q" "cursor st < sequence e"
  shows "e \<in> set es"
  using assms lag_covers [of s e st n] by auto

end

section \<open>A consumer beside the ingress\<close>

text \<open>
  The ingress applies an event to the reducer before it publishes it, so the work done on the
  reducer determines the topics; a subscriber reads its channel at its own pace. \<open>seen\<close> is
  the position of its receiver in the lifecycle topic.
\<close>

record 'v subscriber =
  work :: "'v reducer_op list"
  hub :: "'v EventHub"
  seen :: nat
  stream :: LifecycleStream
  handed :: "'v LifecycleItem list"

datatype 'v traffic = Work "'v reducer_op" | Receive "'v SequencedEvent recv_outcome"

definition unread :: "'v subscriber \<Rightarrow> 'v SequencedEvent list" where
  "unread s = drop (seen s) (lifecycle_topic (hub s))"

definition subscribe :: "'v reducer_op list \<Rightarrow> u64 \<Rightarrow> 'v subscriber" where
  "subscribe before after =
     (let h = fold publish (applied before) new_hub
      in \<lparr>work = before, hub = h, seen = length (lifecycle_topic h),
          stream = lifecycle_stream after, handed = []\<rparr>)"

fun traffic_step :: "'v json \<Rightarrow> nat \<Rightarrow> 'v subscriber \<Rightarrow> 'v traffic \<Rightarrow> 'v subscriber" where
  "traffic_step J c s (Work x) =
     s\<lparr>work := work s @ [x], hub := fold publish (applied [x]) (hub s)\<rparr>"
| "traffic_step J c s (Receive outcome) =
     (let (item, st) = lifecycle_recv (events_since (reducer_run J c (work s))) outcome (stream s)
      in s\<lparr>seen := seen s + consumed outcome, stream := st, handed := handed s @ [item]\<rparr>)"

text \<open>Receipt sequences increase, and the channel behaves as documented.\<close>

fun traffic_admits :: "'v json \<Rightarrow> nat \<Rightarrow> 'v subscriber \<Rightarrow> 'v traffic \<Rightarrow> bool" where
  "traffic_admits J c s (Work (Apply e)) = (at_sequence (snapshot (reducer_run J c (work s))) < sequence e)"
| "traffic_admits J c s (Work x) = True"
| "traffic_admits J c s (Receive outcome) = receives (unread s) outcome"

lemma publish_topics [simp]:
  "lifecycle_topic (publish e h) = lifecycle_topic h @ (if plane e = Lifecycle then [e] else [])"
  "delta_topic (publish e h) = delta_topic h @ (if plane e = Delta then [e] else [])"
  by (cases "plane e"; simp add: publish_def)+

lemma fold_publish_topic:
  "lifecycle_topic (fold publish es h) = lifecycle_topic h @ filter (\<lambda>e. plane e = Lifecycle) es"
  by (induction es arbitrary: h) auto

lemma at_sequence_run_le:
  "at_sequence (snapshot r) \<le> at_sequence (snapshot (foldl (reducer_step J) r ops))"
proof (induction ops arbitrary: r)
  case (Cons x ops)
  from order_trans [OF at_sequence_step [of r J x] Cons.IH] show ?case by simp
qed simp

lemma at_sequence_apply: "at_sequence (snapshot (apply_event J e r)) = max (at_sequence (snapshot r)) (sequence e)"
  by simp

lemma applied_covered:
  "e \<in> set (applied ops) \<Longrightarrow> sequence e \<le> at_sequence (snapshot (foldl (reducer_step J) r ops))"
proof (induction ops arbitrary: r)
  case (Cons x ops)
  show ?case
  proof (cases "e \<in> set (applied ops)")
    case True
    with Cons.IH show ?thesis by simp
  next
    case False
    with Cons.prems have "x = Apply e" by (cases x) auto
    then show ?thesis
      using at_sequence_run_le [of "apply_event J e r" J ops]
      by simp
  qed
qed simp

interpretation recovery: replay_recovery
  "\<lambda>ops. events_since (reducer_run J c ops)" lifecycle_events
  "\<lambda>ops. snapshot (reducer_run J c ops)" "\<lambda>ops. 0 < c \<and> increasing (applied ops)" for J c
proof unfold_locales
  show "sequence e \<le> at_sequence (snapshot (reducer_run J c ops))"
    if "e \<in> set (lifecycle_events ops)" for e ops
    using that by (intro applied_covered) (simp add: lifecycle_events_def)
  show "increasing (lifecycle_events ops)" if "0 < c \<and> increasing (applied ops)" for ops
    using that by (simp add: increasing_lifecycle)
qed

section \<open>Nothing the consumer has passed is lost\<close>

definition covered :: "'v subscriber \<Rightarrow> 'v SequencedEvent \<Rightarrow> bool" where
  "covered s e = list_ex (\<lambda>item. covers item e) (handed s)"

text \<open>\<open>k\<close> is the position of the receiver when it subscribed.\<close>

definition keeps_up :: "'v json \<Rightarrow> nat \<Rightarrow> u64 \<Rightarrow> nat \<Rightarrow> 'v subscriber \<Rightarrow> bool" where
  "keeps_up J c after k s \<longleftrightarrow>
     0 < c \<and> increasing (applied (work s)) \<and> lifecycle_topic (hub s) = lifecycle_events (work s) \<and>
     seen s \<le> length (lifecycle_events (work s)) \<and>
     (\<forall>i < seen s. k \<le> i \<longrightarrow> after < sequence (lifecycle_events (work s) ! i) \<longrightarrow>
        covered s (lifecycle_events (work s) ! i)) \<and>
     (\<forall>i < length (lifecycle_events (work s)). k \<le> i \<longrightarrow>
        after < sequence (lifecycle_events (work s) ! i) \<longrightarrow>
        sequence (lifecycle_events (work s) ! i) \<le> cursor (stream s) \<longrightarrow>
        covered s (lifecycle_events (work s) ! i)) \<and>
     cursor (stream s) \<le> max after (at_sequence (snapshot (reducer_run J c (work s))))"

lemma increasing_snoc:
  "increasing (applied ops) \<Longrightarrow> at_sequence (snapshot (reducer_run J c ops)) < sequence e \<Longrightarrow>
     increasing (applied ops @ [e])"
  using applied_covered [of _ ops J "empty_reducer c"]
  by (fastforce simp: increasing_def sorted_wrt_append intro: le_less_trans)

lemma lifecycle_events_snoc:
  "lifecycle_events (ops @ [x]) = lifecycle_events ops @ filter (\<lambda>e. plane e = Lifecycle) (applied [x])"
  by (simp add: lifecycle_events_def)

lemma keeps_up_quiet_work:
  assumes "keeps_up J c after k s" "lifecycle_events [x] = []" "increasing (applied (work s @ [x]))"
  shows "keeps_up J c after k (traffic_step J c s (Work x))"
proof -
  have "filter (\<lambda>e. plane e = Lifecycle) (applied [x]) = []"
    using assms(2) by (simp add: lifecycle_events_def)
  moreover have "cursor (stream s) \<le> max after (at_sequence (snapshot (reducer_step J (reducer_run J c (work s)) x)))"
    using assms(1) at_sequence_step [of "reducer_run J c (work s)" J x]
    unfolding keeps_up_def by (meson le_max_iff_disj order_trans)
  ultimately show ?thesis
    using assms(1,3) unfolding keeps_up_def covered_def
    by (simp add: fold_publish_topic lifecycle_events_snoc)
qed

lemma keeps_up_apply:
  assumes "keeps_up J c after k s" "plane e = Lifecycle"
    and "at_sequence (snapshot (reducer_run J c (work s))) < sequence e"
  shows "keeps_up J c after k (traffic_step J c s (Work (Apply e)))"
proof -
  let ?h = "lifecycle_events (work s)" and ?r = "reducer_run J c (work s)"
  have ks: "0 < c" "increasing (applied (work s))" "lifecycle_topic (hub s) = ?h" "seen s \<le> length ?h"
    "\<And>i. i < seen s \<Longrightarrow> k \<le> i \<Longrightarrow> after < sequence (?h ! i) \<Longrightarrow> covered s (?h ! i)"
    "\<And>i. i < length ?h \<Longrightarrow> k \<le> i \<Longrightarrow> after < sequence (?h ! i) \<Longrightarrow>
       sequence (?h ! i) \<le> cursor (stream s) \<Longrightarrow> covered s (?h ! i)"
    and cur: "cursor (stream s) \<le> max after (at_sequence (snapshot ?r))"
    using assms(1) by (auto simp: keeps_up_def)
  have "\<not> sequence e \<le> cursor (stream s)" if "after < sequence e"
    using cur assms(3) that by (meson leD le_max_iff_disj order_trans)
  then have "covered s ((?h @ [e]) ! i)"
    if "i < length (?h @ [e])" "k \<le> i" "after < sequence ((?h @ [e]) ! i)"
      "sequence ((?h @ [e]) ! i) \<le> cursor (stream s)" for i
    using ks(6) [of i] that by (cases "i < length ?h") (simp_all add: nth_append)
  moreover have "covered s ((?h @ [e]) ! i)"
    if "i < seen s" "k \<le> i" "after < sequence ((?h @ [e]) ! i)" for i
    using ks(4) ks(5) [of i] that by (simp add: nth_append)
  moreover have "cursor (stream s) \<le> max after (max (at_sequence (snapshot ?r)) (sequence e))"
    using cur by (meson le_max_iff_disj)
  ultimately show ?thesis
    using assms(2,3) ks(1-4) increasing_snoc [of "work s" J c e] unfolding keeps_up_def covered_def
    by (simp add: lifecycle_events_snoc)
qed

lemma keeps_up_work:
  assumes "keeps_up J c after k s" "traffic_admits J c s (Work x)"
  shows "keeps_up J c after k (traffic_step J c s (Work x))"
proof (cases "lifecycle_events [x] = []")
  case True
  have "increasing (applied (work s @ [x]))"
    using assms increasing_snoc [of "work s" J c] by (cases x) (simp_all add: keeps_up_def)
  with keeps_up_quiet_work [OF assms(1) True] show ?thesis .
next
  case False
  then obtain e where "x = Apply e" "plane e = Lifecycle"
    by (cases x) (simp_all add: lifecycle_events_def split: if_splits)
  with keeps_up_apply [OF assms(1)] assms(2) show ?thesis by simp
qed

lemma increasing_nth_le:
  "increasing es \<Longrightarrow> i < length es \<Longrightarrow> j < length es \<Longrightarrow> sequence (es ! i) \<le> sequence (es ! j) \<Longrightarrow> i \<le> j"
  unfolding increasing_def by (metis leD leI sorted_wrt_nth_less)

lemma keeps_up_receive:
  assumes "keeps_up J c after k s" "receives (unread s) outcome"
  shows "keeps_up J c after k (traffic_step J c s (Receive outcome))"
proof -
  let ?h = "lifecycle_events (work s)" and ?r = "reducer_run J c (work s)"
  let ?item = "fst (lifecycle_recv (events_since ?r) outcome (stream s))"
  let ?st = "snd (lifecycle_recv (events_since ?r) outcome (stream s))"
  let ?s = "traffic_step J c s (Receive outcome)"
  have ks: "0 < c" "increasing (applied (work s))" "lifecycle_topic (hub s) = ?h" "seen s \<le> length ?h"
    "\<And>i. i < seen s \<Longrightarrow> k \<le> i \<Longrightarrow> after < sequence (?h ! i) \<Longrightarrow> covered s (?h ! i)"
    "\<And>i. i < length ?h \<Longrightarrow> k \<le> i \<Longrightarrow> after < sequence (?h ! i) \<Longrightarrow>
       sequence (?h ! i) \<le> cursor (stream s) \<Longrightarrow> covered s (?h ! i)"
    and cur: "cursor (stream s) \<le> max after (at_sequence (snapshot ?r))"
    using assms(1) by (auto simp: keeps_up_def)
  have s': "work ?s = work s" "hub ?s = hub s" "seen ?s = seen s + consumed outcome" "stream ?s = ?st"
    by (simp_all add: case_prod_unfold Let_def)
  have cov: "covered ?s e \<longleftrightarrow> covered s e \<or> covers ?item e" for e
    by (simp add: covered_def case_prod_unfold Let_def)
  have inc: "increasing ?h" using ks(2) by (rule increasing_lifecycle)
  have "seen s + consumed outcome \<le> length ?h \<and>
    (\<forall>i < seen s + consumed outcome. k \<le> i \<longrightarrow> after < sequence (?h ! i) \<longrightarrow> covered s (?h ! i) \<or> covers ?item (?h ! i)) \<and>
    (\<forall>i < length ?h. k \<le> i \<longrightarrow> after < sequence (?h ! i) \<longrightarrow> sequence (?h ! i) \<le> cursor ?st \<longrightarrow>
       covered s (?h ! i) \<or> covers ?item (?h ! i)) \<and>
    cursor ?st \<le> max after (at_sequence (snapshot ?r))"
  proof (cases outcome)
    case (Ok e)
    with assms(2) ks(3) have pos: "seen s < length ?h" and e: "e = ?h ! seen s"
      by (auto simp: unread_def hd_drop_conv_nth)
    have "e \<in> set ?h" unfolding e using pos by (rule nth_mem)
    then have "sequence e \<le> max after (at_sequence (snapshot ?r))"
      by (simp add: recovery.current_covers le_max_iff_disj)
    moreover have "i < seen s \<or> i = seen s" if "i < length ?h" "sequence (?h ! i) \<le> sequence e" for i
      using increasing_nth_le [OF inc that(1) pos] that(2) e by (auto simp: le_less)
    ultimately show ?thesis
      using Ok pos ks(5) by (auto simp: lifecycle_recv_def e less_Suc_eq)
  next
    case (Lagged n)
    have ord: "0 < c \<and> increasing (applied (work s))" using ks by simp
    have lag: "covers ?item (?h ! i)" if "i < length ?h" "cursor (stream s) < sequence (?h ! i)" for i
      using recovery.lag_covers [OF ord nth_mem [OF that(1)] that(2)] Lagged by simp
    have "cursor ?st \<le> max (cursor (stream s)) (at_sequence (snapshot ?r))"
      using recovery.lag_cursor [OF ord] Lagged by simp
    with cur have "cursor ?st \<le> max after (at_sequence (snapshot ?r))"
      by (meson le_max_iff_disj order_trans)
    moreover have "seen s + unat n \<le> length ?h" using assms(2) Lagged ks(3,4) by (auto simp: unread_def)
    moreover have "covered s (?h ! i) \<or> covers ?item (?h ! i)"
      if "i < length ?h" "k \<le> i" "after < sequence (?h ! i)" for i
      using lag [OF that(1)] ks(6) [OF that] by (cases "sequence (?h ! i) \<le> cursor (stream s)") (simp_all add: not_le)
    ultimately show ?thesis using Lagged by simp
  next
    case Closed
    with ks cur show ?thesis by (auto simp: lifecycle_recv_def)
  qed
  with ks(1-3) show ?thesis unfolding keeps_up_def s' cov by blast
qed

lemma keeps_up_step: "keeps_up J c after k s \<Longrightarrow> traffic_admits J c s x \<Longrightarrow> keeps_up J c after k (traffic_step J c s x)"
proof (cases x)
  case (Work w)
  then show "keeps_up J c after k s \<Longrightarrow> traffic_admits J c s x \<Longrightarrow> ?thesis" using keeps_up_work by blast
next
  case (Receive outcome)
  then show "keeps_up J c after k s \<Longrightarrow> traffic_admits J c s x \<Longrightarrow> ?thesis" using keeps_up_receive by simp
qed

interpretation kept_up: preserved_by "traffic_step J c" "keeps_up J c after k" "traffic_admits J c" for J c after k
  by unfold_locales (rule keeps_up_step)

lemma keeps_up_subscribe:
  assumes "0 < c" "increasing (applied before)"
  shows "keeps_up J c after (seen (subscribe before after)) (subscribe before after)"
  using assms
  by (simp add: keeps_up_def subscribe_def Let_def fold_publish_topic new_hub_def lifecycle_events_def
      lifecycle_stream_def)

section \<open>Properties\<close>

text \<open>C15. A consumer of the lifecycle stream loses nothing: for any interleaving of ingress work
  and receives, with the broadcast channel dropping whatever it likes, every lifecycle event
  published after the subscription that the receiver has passed was handed over, as an event or in a
  replay, or is at most the sequence of a snapshot handed over with a gap.\<close>

theorem lag_loses_no_lifecycle_event:
  assumes "0 < c" "increasing (applied before)"
    and "admissible (traffic_step J c) (traffic_admits J c) (subscribe before after) ts"
  shows "let s = foldl (traffic_step J c) (subscribe before after) ts
    in list_all (\<lambda>e. sequence e \<le> after \<or> covered s e)
         (drop (seen (subscribe before after)) (take (seen s) (lifecycle_topic (hub s))))"
proof -
  let ?k = "seen (subscribe before after)"
  let ?s = "foldl (traffic_step J c) (subscribe before after) ts"
  have inv: "keeps_up J c after ?k ?s"
    using kept_up.run_inv [OF keeps_up_subscribe [OF assms(1,2)] assms(3)] .
  then have le: "seen ?s \<le> length (lifecycle_topic (hub ?s))" by (simp add: keeps_up_def)
  have "sequence e \<le> after \<or> covered ?s e"
    if e: "e \<in> set (drop ?k (take (seen ?s) (lifecycle_topic (hub ?s))))" for e
  proof -
    from e obtain i where "i < seen ?s - ?k" "e = lifecycle_topic (hub ?s) ! (?k + i)"
      using le by (auto simp: in_set_conv_nth)
    with inv show ?thesis by (auto simp: keeps_up_def not_less [symmetric])
  qed
  then show ?thesis by (simp add: Let_def list_all_iff)
qed

theorem lag_loses_no_lifecycle_event_witness:
  "let e = (\<lambda>n. wire_event n ''turn/started'' ''t'' ''u'');
       s = foldl (traffic_step jv_api 8) (subscribe [] 0)
             [Work (Apply (e 1)), Work (Apply (e 2)), Work (Apply (e 3)), Receive (Lagged 2), Receive (Ok (e 3))]
   in list_all (covered s) [e 1, e 2, e 3]"
proof -
  let ?e = "\<lambda>n. wire_event n ''turn/started'' ''t'' ''u''"
  let ?ts = "[Work (Apply (?e 1)), Work (Apply (?e 2)), Work (Apply (?e 3)), Receive (Lagged 2), Receive (Ok (?e 3))]"
  have "admissible (traffic_step jv_api 8) (traffic_admits jv_api 8) (subscribe [] 0) ?ts"
    by (simp add: subscribe_def new_hub_def unread_def empty_reducer_def case_prod_unfold Let_def
        word_less_nat_alt)
  from lag_loses_no_lifecycle_event [OF _ _ this] show ?thesis
    by (simp add: Let_def subscribe_def new_hub_def increasing_def case_prod_unfold)
qed

text \<open>Recovery repeats what the channel still holds: when a lag is answered with a replay,
  every event left unread behind the lag and after the cursor is in the replay, and the next
  receive hands it over a second time and moves the cursor back to it.\<close>

theorem replay_is_followed_by_duplicates:
  assumes "0 < c" "increasing (applied ops)"
    and "lifecycle_recv (events_since (reducer_run J c ops)) (Lagged n) st = (Replay es, st')"
    and "e \<in> set (lifecycle_events ops)" "cursor st < sequence e"
  shows "e \<in> set es \<and> sequence e \<le> cursor st' \<and>
    lifecycle_recv since (Ok e) st' = (Event e, st'\<lparr>cursor := sequence e\<rparr>)"
proof -
  have ord: "0 < c \<and> increasing (applied ops)" using assms by simp
  have mem: "e \<in> set es"
    using recovery.replay_repeats_unread [OF ord, of "[e]" J n st es] assms by simp
  have es: "events_since (reducer_run J c ops) (cursor st) = Events es"
    and st': "st' = (if es \<noteq> [] then st\<lparr>cursor := sequence (last es)\<rparr> else st)"
    using assms(3) by (auto simp: lifecycle_recv_def split: ReplayResult.splits)
  have "increasing es"
    using replay.since_exact [OF ord es] increasing_lifecycle [OF assms(2)]
    by (simp add: increasing_def sorted_wrt_filter)
  moreover obtain i where "i < length es" "e = es ! i" using mem by (metis in_set_conv_nth)
  moreover from mem have "es \<noteq> []" by auto
  ultimately have "sequence e \<le> sequence (last es)"
    by (cases "i = length es - 1")
      (auto simp: last_conv_nth increasing_def sorted_wrt_iff_nth_less intro!: less_imp_le)
  with mem st' show ?thesis by (auto simp: lifecycle_recv_def)
qed

theorem replay_is_followed_by_duplicates_witness:
  "let e = (\<lambda>n. wire_event n ''turn/started'' ''t'' ''u'');
       ops = [Apply (e 1), Apply (e 2), Apply (e 3)];
       (item, st') = lifecycle_recv (events_since (reducer_run jv_api 8 ops)) (Lagged 1) (lifecycle_stream 0)
   in item = Replay [e 1, e 2, e 3] \<and> cursor st' = 3 \<and>
      cursor (snd (lifecycle_recv (events_since (reducer_run jv_api 8 ops)) (Ok (e 2)) st')) = 2"
proof -
  let ?e = "\<lambda>n. wire_event n ''turn/started'' ''t'' ''u''"
  let ?ops = "[Apply (?e 1), Apply (?e 2), Apply (?e 3)]"
  let ?since = "events_since (reducer_run jv_api 8 ?ops)"
  have life: "lifecycle_events ?ops = [?e 1, ?e 2, ?e 3]" by (simp add: lifecycle_events_def)
  have "?since 0 = Events [?e 1, ?e 2, ?e 3]"
    unfolding events_since_def oldest_available_def lifecycle_run life
    by (simp add: saturating_add_def)
  then have item: "lifecycle_recv ?since (Lagged 1) (lifecycle_stream 0) =
      (Replay [?e 1, ?e 2, ?e 3], \<lparr>cursor = 3\<rparr>)"
    by (simp add: lifecycle_recv_def lifecycle_stream_def)
  from replay_is_followed_by_duplicates [OF _ _ item, of "?e 2" ?since]
  have "lifecycle_recv ?since (Ok (?e 2)) \<lparr>cursor = 3\<rparr> = (Event (?e 2), \<lparr>cursor = 2\<rparr>)"
    by (simp add: increasing_def life lifecycle_stream_def)
  with item show ?thesis by (simp add: Let_def)
qed

text \<open>Delta delivery accounts for its losses: a call of the delta stream, whatever lags
  come first, returns the next event the topic has after those lost, or the end of the
  closed and exhausted topic, and adds to its counter exactly the number of events skipped.\<close>

theorem delta_recv_counts_losses:
  assumes "script_ok q os" "delta_recv os st = (Some (result, rest), st')"
  shows "\<exists>k. dropped st' = dropped st + of_nat k \<and>
    (case result of
       Some e \<Rightarrow> k < length q \<and> e = q ! k \<and> script_ok (drop (Suc k) q) rest
     | None \<Rightarrow> k = length q)"
  using assms
proof (induction os st arbitrary: q rule: delta_recv.induct)
  case (2 e os st)
  then show ?case by (intro exI [of _ 0]) (auto simp: hd_conv_nth drop_Suc)
next
  case (3 n os st)
  then obtain k where k: "dropped st' = dropped st + n + of_nat k"
    "case result of Some e \<Rightarrow> k < length (drop (unat n) q) \<and> e = drop (unat n) q ! k \<and>
        script_ok (drop (Suc k) (drop (unat n) q)) rest
      | None \<Rightarrow> k = length (drop (unat n) q)" by fastforce
  from "3.prems" have "unat n \<le> length q" by simp
  with k show ?case
    by (intro exI [of _ "unat n + k"]) (auto simp: add.commute split: option.splits)
next
  case (4 os st)
  then show ?case by (intro exI [of _ 0]) auto
qed simp

theorem delta_recv_counts_losses_witness:
  "let e = (\<lambda>n. wire_event n ''item/agentMessage/delta'' ''t'' ''u'')
   in \<exists>k. (2 :: u64) = of_nat k \<and> k < 3 \<and> e 3 = [e 1, e 2, e 3] ! k"
proof -
  let ?e = "\<lambda>n. wire_event n ''item/agentMessage/delta'' ''t'' ''u''"
  have "script_ok [?e 1, ?e 2, ?e 3] [Lagged 2, Ok (?e 3)]" by simp
  moreover have "delta_recv [Lagged 2, Ok (?e 3)] delta_stream = (Some (Some (?e 3), []), \<lparr>dropped = 2\<rparr>)"
    by (simp add: delta_stream_def)
  ultimately show ?thesis
    using delta_recv_counts_losses [of "[?e 1, ?e 2, ?e 3]" "[Lagged 2, Ok (?e 3)]" delta_stream "Some (?e 3)" "[]" "\<lparr>dropped = 2\<rparr>"]
    by (auto simp: delta_stream_def Let_def)
qed

end
