(* ===== verification/Rpc.thy ===== *)
theory Rpc
  imports Protocol
begin

text \<open>
  The request interface the components share (\<open>RequestError\<close> and the \<open>RpcClient\<close> trait of
  \<open>src/transport/src/lib.rs\<close>): how a request can fail, what the failure says about the
  frame having been written, and the answer a caller awaits (\<open>Inl\<close> an error, \<open>Inr\<close> the
  result). A component that calls a client records the calls it makes, and takes the answers as
  inputs.
\<close>

datatype PendingWriteState = PW_NotWritten | PW_WrittenOutcomeUnknown | PW_Answered

datatype 'v RequestError =
    NotWritten string
  | WrittenOutcomeUnknown RpcId string string  \<comment> \<open>id, method, detail\<close>
  | Rejected string 'v  \<comment> \<open>method, error\<close>
  | TimedOut string
  | TransportClosed

type_synonym 'v answer = "'v RequestError + 'v"

text \<open>The \<open>Display\<close> text of an error; \<open>D\<close> is the derived \<open>Debug\<close> text of a request id.\<close>

definition error_text :: "'v json \<Rightarrow> (RpcId \<Rightarrow> string) \<Rightarrow> 'v RequestError \<Rightarrow> string" where
  "error_text J D e =
     (case e of
        NotWritten d \<Rightarrow> ''request was not written: '' @ d
      | WrittenOutcomeUnknown i m d \<Rightarrow>
          ''request '' @ m @ '' ('' @ D i @ '') was written but its outcome is unknown: '' @ d
      | Rejected m err \<Rightarrow> ''request '' @ m @ '' was rejected: '' @ to_text J err
      | TimedOut m \<Rightarrow> ''request timed out after it may have been written: '' @ m
      | TransportClosed \<Rightarrow> ''transport is shut down'')"

text \<open>The failures after which the daemon cannot have seen the request.\<close>

fun surely_not_written :: "'v RequestError \<Rightarrow> bool" where
  "surely_not_written (NotWritten _) = True"
| "surely_not_written _ = False"

end
