(* ===== verification/Ingest.thy ===== *)
theory Ingest
  imports Store Streaming Rpc
begin

text \<open>
  Ingestion (\<open>src/ingest/src/lib.rs\<close>): the authoritative ingress, which applies an event to the
  reducer and the store before it publishes it, and the thread ingestor, which discovers
  threads, resumes them with bounded retries, reconciles after reconnecting and releases idle
  subscriptions. \<open>discover\<close> is split at its await points and lock scopes: one step of a task is
  one critical section, so that runs can interleave tasks with the ingress. Answers of the
  client and clock readings are inputs of the steps; the requests made are recorded.
\<close>

section \<open>The authoritative ingress\<close>

text \<open>The parts the ingestor is connected to, as parameters of their operations.\<close>

record 'v parts =
  api :: "'v json"
  store_config :: StoreConfig
  serialise :: "'v SequencedEvent \<Rightarrow> 8 word list option"
  iteration :: "'v Inner \<Rightarrow> (string \<times> nat) list"
  id_debug :: "RpcId \<Rightarrow> string"

record 'v AuthoritativeIngress =
  in_reducer :: "'v Reducer"
  in_store :: "'v Inner"
  in_hub :: "'v EventHub"

text \<open>\<open>None\<close> is a store that does not come back.\<close>

definition process :: "'v parts \<Rightarrow> 'v SequencedEvent \<Rightarrow> 'v AuthoritativeIngress \<Rightarrow> 'v AuthoritativeIngress option" where
  "process P e g =
     (let g1 = g\<lparr>in_reducer := apply_event (api P) e (in_reducer g)\<rparr>
      in map_option (\<lambda>st. g1\<lparr>in_store := st, in_hub := publish e (in_hub g1)\<rparr>)
           (record_locked (store_config P) (serialise P) (iteration P) (in_store g1) e))"

fun ingress_run :: "'v parts \<Rightarrow> 'v SequencedEvent list \<Rightarrow> 'v AuthoritativeIngress \<Rightarrow> 'v AuthoritativeIngress option" where
  "ingress_run P [] g = Some g"
| "ingress_run P (e # es) g = Option.bind (process P e g) (ingress_run P es)"

section \<open>Thread ingestion: data\<close>

record IngestConfig =
  reconcile_page_size :: nat
  reconcile_page_bound :: nat
  reconcile_candidate_limit :: nat
  subscription_cap :: nat
  resume_retry_limit :: nat
  retry_delay :: nat
  release_idle_subscriptions :: bool
  cfg_reactivation_verified :: bool

definition default_ingest_config :: IngestConfig where
  "default_ingest_config =
     \<lparr>reconcile_page_size = 50, reconcile_page_bound = 4, reconcile_candidate_limit = 200,
      subscription_cap = 512, resume_retry_limit = 8, retry_delay = 250,
      release_idle_subscriptions = False, cfg_reactivation_verified = False\<rparr>"

datatype DiscoverySource = FromThreadStarted | ActivationStatus | Reconciliation

datatype SubscriptionState =
    Unseen
  | Subscribing DiscoverySource nat
  | Subscribed
  | RetryWait nat
  | Ephemeral
  | CapacityDegraded
  | Released
  | Failed string

datatype DiscoveryOutcome =
    O_Subscribed | AlreadyManaged | O_Ephemeral | O_CapacityDegraded | O_Failed string

datatype 'v IngestError = Request "'v RequestError" | MalformedList

text \<open>\<open>requests\<close> is what the client was asked, in order: the method and the parameters.\<close>

record 'v ThreadIngestor =
  ti_reducer :: "'v Reducer"
  states :: "string \<rightharpoonup> SubscriptionState"
  watermark :: u64
  reactivation_verified :: bool
  ti_store :: "'v Inner option"
  requests :: "(string \<times> 'v) list"

definition new_ingestor :: "IngestConfig \<Rightarrow> 'v Reducer \<Rightarrow> 'v ThreadIngestor" where
  "new_ingestor cfg r =
     \<lparr>ti_reducer = r, states = Map.empty, watermark = 0,
      reactivation_verified = cfg_reactivation_verified cfg, ti_store = None, requests = []\<rparr>"

definition with_store :: "'v Inner \<Rightarrow> 'v ThreadIngestor \<Rightarrow> 'v ThreadIngestor" where
  "with_store st g = g\<lparr>ti_store := Some st\<rparr>"

definition subscription_state :: "'v ThreadIngestor \<Rightarrow> string \<Rightarrow> SubscriptionState" where
  "subscription_state g t = unwrap_or (states g t) Unseen"

definition set_reactivation_verified :: "bool \<Rightarrow> 'v ThreadIngestor \<Rightarrow> 'v ThreadIngestor" where
  "set_reactivation_verified b g = g\<lparr>reactivation_verified := b\<rparr>"

definition set_state :: "string \<Rightarrow> SubscriptionState \<Rightarrow> 'v ThreadIngestor \<Rightarrow> 'v ThreadIngestor" where
  "set_state t st g = g\<lparr>states := (states g)(t \<mapsto> st)\<rparr>"

definition call :: "string \<Rightarrow> 'v \<Rightarrow> 'v ThreadIngestor \<Rightarrow> 'v ThreadIngestor" where
  "call m params g = g\<lparr>requests := requests g @ [(m, params)]\<rparr>"

section \<open>Reading the daemon's values\<close>

definition turn_is_finished :: "'v json \<Rightarrow> 'v \<Rightarrow> bool" where
  "turn_is_finished J turn =
     (get_str J turn ''status'' = Some ''completed'' \<or> get_str J turn ''status'' = Some ''failed'' \<or>
      get_str J turn ''status'' = Some ''interrupted'')"

definition status_type :: "'v json \<Rightarrow> 'v option \<Rightarrow> string option" where
  "status_type J params =
     Option.bind params (\<lambda>p. Option.bind (get J p ''status'')
       (\<lambda>s. or_else (Option.bind (get J s ''type'') (as_str J)) (as_str J s)))"

definition in_flight_turn_id :: "'v json \<Rightarrow> 'v \<Rightarrow> string option" where
  "in_flight_turn_id J thread =
     Option.bind (Option.bind (get J thread ''turns'') (as_array J))
       (\<lambda>turns. Option.bind (Option.bind (find (\<lambda>turn. \<not> turn_is_finished J turn) (rev turns))
          (\<lambda>turn. get J turn ''id'')) (as_str J))"

definition thread_is_active :: "'v json \<Rightarrow> 'v \<Rightarrow> bool" where
  "thread_is_active J thread =
     (Option.bind (get_path J thread ''status'' ''type'') (as_str J) = Some ''active'' \<or>
      is_some_and (Option.bind (get J thread ''turns'') (as_array J))
        (list_ex (\<lambda>turn. \<not> turn_is_finished J turn)))"

text \<open>\<open>str::parse::<u64>\<close>: an optional plus sign, then decimal digits, \<open>None\<close> on overflow.\<close>

definition digit :: "char \<Rightarrow> nat option" where
  "digit c = (if 48 \<le> (of_char c :: nat) \<and> (of_char c :: nat) \<le> 57 then Some (of_char c - 48) else None)"

fun digits :: "string \<Rightarrow> nat \<Rightarrow> nat option" where
  "digits [] n = Some n"
| "digits (c # s) n = Option.bind (digit c) (\<lambda>d. digits s (10 * n + d))"

definition parse_u64 :: "string \<Rightarrow> u64 option" where
  "parse_u64 s =
     (let ds = (case s of c # r \<Rightarrow> if c = CHR ''+'' then r else s | [] \<Rightarrow> [])
      in if ds = [] then None
         else Option.bind (digits ds 0) (\<lambda>n. if n < 2 ^ 64 then Some (word_of_nat n) else None))"

definition numeric_timestamp :: "'v json \<Rightarrow> 'v option \<Rightarrow> u64 option" where
  "numeric_timestamp J v =
     Option.bind v (\<lambda>v. or_else (as_u64 J v) (Option.bind (as_str J v) parse_u64))"

definition ascii_lower :: "char \<Rightarrow> char" where
  "ascii_lower c = (if 65 \<le> (of_char c :: nat) \<and> (of_char c :: nat) \<le> 90 then char_of (of_char c + 32 :: nat) else c)"

definition is_ephemeral_error :: "'v json \<Rightarrow> 'v \<Rightarrow> bool" where
  "is_ephemeral_error J err =
     (let text = map ascii_lower (to_text J err)
      in str_contains text ''ephemeral'' \<or> str_contains text ''rollout'' \<or> str_contains text ''not found'')"

section \<open>Discovery\<close>

text \<open>Where a call of \<open>discover\<close> stands; the number is the attempt.\<close>

datatype 'v discover_pc =
    Claim
  | BeginSubscription
  | Resuming nat
  | Retrying nat
  | Sleeping nat
  | GivingUp SubscriptionState DiscoveryOutcome
  | Cancelling DiscoveryOutcome
  | FinishSubscription
  | MarkSubscribed
  | Reading
  | Reconciling 'v
  | ReadingSequence string
  | Anchoring u64 string
  | Done DiscoveryOutcome

fun managed :: "SubscriptionState \<Rightarrow> bool" where
  "managed Subscribed = True"
| "managed (Subscribing _ _) = True"
| "managed (RetryWait _) = True"
| "managed _ = False"

definition retained_count :: "'v ThreadIngestor \<Rightarrow> nat" where
  "retained_count g = card {t. is_some_and (states g t) managed}"

definition claim :: "IngestConfig \<Rightarrow> string \<Rightarrow> DiscoverySource \<Rightarrow> 'v ThreadIngestor \<Rightarrow> 'v discover_pc \<times> 'v ThreadIngestor" where
  "claim cfg t source g =
     (if is_some_and (states g t) managed then (Done AlreadyManaged, g)
      else if retained_count g \<ge> subscription_cap cfg
        then (Done O_CapacityDegraded, set_state t CapacityDegraded g)
      else (BeginSubscription, set_state t (Subscribing source 1) g))"

definition resume_answered :: "'v parts \<Rightarrow> IngestConfig \<Rightarrow> nat \<Rightarrow> 'v answer \<Rightarrow> 'v discover_pc" where
  "resume_answered P cfg attempt ans =
     (case ans of
        Inr _ \<Rightarrow> FinishSubscription
      | Inl (NotWritten d) \<Rightarrow>
          if attempt < resume_retry_limit cfg then Retrying (attempt + 1)
          else (let detail = error_text (api P) (id_debug P) (NotWritten d)
                in GivingUp (Failed detail) (O_Failed detail))
      | Inl (Rejected m err) \<Rightarrow>
          if is_ephemeral_error (api P) err \<and> attempt < resume_retry_limit cfg then Retrying (attempt + 1)
          else if is_ephemeral_error (api P) err then GivingUp Ephemeral O_Ephemeral
          else (let detail = error_text (api P) (id_debug P) (Rejected m err)
                in GivingUp (Failed detail) (O_Failed detail))
      | Inl error \<Rightarrow>
          (let detail = error_text (api P) (id_debug P) error
           in GivingUp (Failed detail) (O_Failed detail)))"

definition resume_params :: "'v json \<Rightarrow> string \<Rightarrow> 'v" where
  "resume_params J t = jobj J [(''threadId'', jstr J t)]"

definition read_params :: "'v json \<Rightarrow> string \<Rightarrow> 'v" where
  "read_params J t = jobj J [(''threadId'', jstr J t), (''includeTurns'', jbool J True)]"

text \<open>
  One critical section. \<open>ans\<close> is the answer of the request awaited there, if any has come;
  \<open>now\<close> and \<open>elapsed\<close> are the clocks the store reads. \<open>None\<close> is a step that cannot be taken: the
  answer is still awaited, the call is over, or the store does not come back.
\<close>

fun discover_step ::
    "'v parts \<Rightarrow> IngestConfig \<Rightarrow> string \<Rightarrow> DiscoverySource \<Rightarrow> 'v answer option \<Rightarrow> nat \<Rightarrow> nat \<Rightarrow>
     'v discover_pc \<Rightarrow> 'v ThreadIngestor \<Rightarrow> ('v discover_pc \<times> 'v ThreadIngestor) option" where
  "discover_step P cfg t source ans now elapsed Claim g = Some (claim cfg t source g)"
| "discover_step P cfg t source ans now elapsed BeginSubscription g =
     Some (Resuming 1, call ''thread/resume'' (resume_params (api P) t)
       (g\<lparr>ti_reducer := begin_subscription t (ti_reducer g)\<rparr>))"
| "discover_step P cfg t source ans now elapsed (Resuming attempt) g =
     map_option (\<lambda>a. (resume_answered P cfg attempt a, g)) ans"
| "discover_step P cfg t source ans now elapsed (Retrying attempt) g =
     Some (Sleeping attempt, set_state t (RetryWait attempt) g)"
| "discover_step P cfg t source ans now elapsed (Sleeping attempt) g =
     Some (Resuming attempt, call ''thread/resume'' (resume_params (api P) t)
       (set_state t (Subscribing source attempt) g))"
| "discover_step P cfg t source ans now elapsed (GivingUp st outcome) g =
     Some (Cancelling outcome, set_state t st g)"
| "discover_step P cfg t source ans now elapsed (Cancelling outcome) g =
     Some (Done outcome, g\<lparr>ti_reducer := cancel_subscription t (ti_reducer g)\<rparr>)"
| "discover_step P cfg t source ans now elapsed FinishSubscription g =
     Some (MarkSubscribed, g\<lparr>ti_reducer := finish_subscription t (ti_reducer g)\<rparr>)"
| "discover_step P cfg t source ans now elapsed MarkSubscribed g =
     Some (Reading, call ''thread/read'' (read_params (api P) t) (set_state t Subscribed g))"
| "discover_step P cfg t source ans now elapsed Reading g =
     map_option (\<lambda>a. (case a of
         Inl _ \<Rightarrow> Done O_Subscribed
       | Inr response \<Rightarrow> (case get (api P) response ''thread'' of
             None \<Rightarrow> Done O_Subscribed
           | Some thread \<Rightarrow> Reconciling thread), g)) ans"
| "discover_step P cfg t source ans now elapsed (Reconciling thread) g =
     Some (case (ti_store g, in_flight_turn_id (api P) thread) of
         (Some _, Some turn) \<Rightarrow> ReadingSequence turn
       | _ \<Rightarrow> Done O_Subscribed,
       g\<lparr>ti_reducer := reconcile_thread (api P) thread (ti_reducer g)\<rparr>)"
| "discover_step P cfg t source ans now elapsed (ReadingSequence turn) g =
     Some (Anchoring (current_sequence (ti_reducer g)) turn, g)"
| "discover_step P cfg t source ans now elapsed (Anchoring sq turn) g =
     (case ti_store g of
        None \<Rightarrow> Some (Done O_Subscribed, g)
      | Some st \<Rightarrow>
          map_option (\<lambda>(_, st'). (Done O_Subscribed, g\<lparr>ti_store := Some st'\<rparr>))
            (record_reconstructed_active_turn (api P) (store_config P) (serialise P) (iteration P)
               now elapsed sq t turn st))"
| "discover_step P cfg t source ans now elapsed (Done outcome) g = None"

fun awaits_answer :: "'v discover_pc \<Rightarrow> bool" where
  "awaits_answer (Resuming _) = True"
| "awaits_answer Reading = True"
| "awaits_answer _ = False"

text \<open>
  A call by itself, with the answers it will get: the outcome, the answers it did not need and
  the state. \<open>None\<close> is a call that still waits, or the fuel exhausted.
\<close>

fun discover_run ::
    "nat \<Rightarrow> 'v parts \<Rightarrow> IngestConfig \<Rightarrow> string \<Rightarrow> DiscoverySource \<Rightarrow> nat \<Rightarrow> nat \<Rightarrow> 'v discover_pc \<Rightarrow>
     'v answer list \<Rightarrow> 'v ThreadIngestor \<Rightarrow> (DiscoveryOutcome \<times> 'v answer list \<times> 'v ThreadIngestor) option" where
  "discover_run 0 P cfg t source now elapsed pc answers g = None"
| "discover_run (Suc fuel) P cfg t source now elapsed pc answers g =
     (case pc of
        Done outcome \<Rightarrow> Some (outcome, answers, g)
      | _ \<Rightarrow>
          (let (ans, rest) = (if awaits_answer pc
              then (case answers of [] \<Rightarrow> (None, []) | a # as \<Rightarrow> (Some a, as)) else (None, answers))
           in Option.bind (discover_step P cfg t source ans now elapsed pc g)
                (\<lambda>(pc', g'). discover_run fuel P cfg t source now elapsed pc' rest g')))"

text \<open>A call takes at most three steps per attempt and eight more.\<close>

definition discover_fuel :: "IngestConfig \<Rightarrow> nat" where
  "discover_fuel cfg = 3 * resume_retry_limit cfg + 12"

definition discover ::
    "'v parts \<Rightarrow> IngestConfig \<Rightarrow> string \<Rightarrow> DiscoverySource \<Rightarrow> nat \<Rightarrow> nat \<Rightarrow> 'v answer list \<Rightarrow>
     'v ThreadIngestor \<Rightarrow> (DiscoveryOutcome \<times> 'v answer list \<times> 'v ThreadIngestor) option" where
  "discover P cfg t source now elapsed answers g =
     discover_run (discover_fuel cfg) P cfg t source now elapsed Claim answers g"

section \<open>Signals\<close>

definition signal_source :: "'v json \<Rightarrow> 'v SequencedEvent \<Rightarrow> (string \<times> DiscoverySource) option" where
  "signal_source J e =
     Option.bind (thread_id e) (\<lambda>t. Option.bind (event_method e) (\<lambda>m.
       if m = ''thread/started'' then Some (t, FromThreadStarted)
       else if m = ''thread/status/changed'' \<and> status_type J (frame_params (frame e)) = Some ''active''
         then Some (t, ActivationStatus)
       else None))"

text \<open>The first component is \<open>None\<close> when the signal starts no discovery.\<close>

definition handle_signal ::
    "'v parts \<Rightarrow> IngestConfig \<Rightarrow> nat \<Rightarrow> nat \<Rightarrow> 'v SequencedEvent \<Rightarrow> 'v answer list \<Rightarrow> 'v ThreadIngestor \<Rightarrow>
     (DiscoveryOutcome option \<times> 'v answer list \<times> 'v ThreadIngestor) option" where
  "handle_signal P cfg now elapsed e answers g =
     (case signal_source (api P) e of
        None \<Rightarrow> Some (None, answers, g)
      | Some (t, source) \<Rightarrow>
          map_option (\<lambda>(outcome, rest, g'). (Some outcome, rest, g'))
            (discover P cfg t source now elapsed answers g))"

section \<open>Reconciliation\<close>

definition list_params :: "'v json \<Rightarrow> IngestConfig \<Rightarrow> string option \<Rightarrow> 'v" where
  "list_params J cfg cur =
     jobj J [(''cursor'', case cur of None \<Rightarrow> jnull J | Some c \<Rightarrow> jstr J c),
       (''limit'', jnum J (word_of_nat (reconcile_page_size cfg))),
       (''sortKey'', jstr J ''updated_at''), (''sortDirection'', jstr J ''desc'')]"

text \<open>The entries of a page: the watermark seen, whether the previous one was reached, and the candidates.\<close>

fun scan_page ::
    "'v json \<Rightarrow> IngestConfig \<Rightarrow> u64 \<Rightarrow> 'v list \<Rightarrow> u64 \<Rightarrow> string list \<Rightarrow> u64 \<times> bool \<times> string list" where
  "scan_page J cfg previous [] newest candidates = (newest, False, candidates)"
| "scan_page J cfg previous (thread # data) newest candidates =
     (case get_str J thread ''id'' of
        None \<Rightarrow> scan_page J cfg previous data newest candidates
      | Some i \<Rightarrow>
          (let updated = unwrap_or (numeric_timestamp J (get J thread ''updatedAt'')) 0;
               newest' = max newest updated
           in if previous > 0 \<and> updated \<le> previous then (newest', True, candidates)
              else (let candidates' = candidates @ [i]
                    in if length candidates' \<ge> reconcile_candidate_limit cfg then (newest', False, candidates')
                       else scan_page J cfg previous data newest' candidates')))"

text \<open>
  The loop over pages, with the number of pages left: an error ends it; \<open>None\<close> waits for an
  answer.
\<close>

fun list_pages ::
    "'v parts \<Rightarrow> IngestConfig \<Rightarrow> u64 \<Rightarrow> nat \<Rightarrow> string option \<Rightarrow> u64 \<Rightarrow> string list \<Rightarrow> 'v answer list \<Rightarrow>
     'v ThreadIngestor \<Rightarrow>
     (('v IngestError + u64 \<times> string list) \<times> 'v answer list \<times> 'v ThreadIngestor) option" where
  "list_pages P cfg previous 0 cur newest candidates answers g = Some (Inr (newest, candidates), answers, g)"
| "list_pages P cfg previous (Suc pages) cur newest candidates answers g =
     (if length candidates \<ge> reconcile_candidate_limit cfg then Some (Inr (newest, candidates), answers, g)
      else
        (let g' = call ''thread/list'' (list_params (api P) cfg cur) g
         in case answers of
              [] \<Rightarrow> None
            | Inl err # rest \<Rightarrow> Some (Inl (Request err), rest, g')
            | Inr result # rest \<Rightarrow>
                (case Option.bind (get (api P) result ''data'') (as_array (api P)) of
                   None \<Rightarrow> Some (Inl MalformedList, rest, g')
                 | Some data \<Rightarrow>
                     (let (newest', reached, candidates') =
                            scan_page (api P) cfg previous data newest candidates;
                          cur' = get_str (api P) result ''nextCursor''
                      in if reached \<or> cur' = None then Some (Inr (newest', candidates'), rest, g')
                         else list_pages P cfg previous pages cur' newest' candidates' rest g'))))"

fun read_candidates ::
    "'v parts \<Rightarrow> IngestConfig \<Rightarrow> nat \<Rightarrow> nat \<Rightarrow> string list \<Rightarrow> (string \<times> DiscoveryOutcome) list \<Rightarrow>
     'v answer list \<Rightarrow> 'v ThreadIngestor \<Rightarrow>
     ((string \<times> DiscoveryOutcome) list \<times> 'v answer list \<times> 'v ThreadIngestor) option" where
  "read_candidates P cfg now elapsed [] outcomes answers g = Some (outcomes, answers, g)"
| "read_candidates P cfg now elapsed (t # ts) outcomes answers g =
     (let g1 = call ''thread/read'' (read_params (api P) t) g
      in case answers of
           [] \<Rightarrow> None
         | ans # rest \<Rightarrow>
             (let thread = (case ans of Inl _ \<Rightarrow> None | Inr v \<Rightarrow> get (api P) v ''thread'')
              in if is_some_and thread (thread_is_active (api P)) then
                   (let g2 = (case thread of None \<Rightarrow> g1
                        | Some v \<Rightarrow> g1\<lparr>ti_reducer := reconcile_thread (api P) v (ti_reducer g1)\<rparr>)
                    in Option.bind (discover P cfg t Reconciliation now elapsed rest g2)
                         (\<lambda>(outcome, rest', g3).
                            read_candidates P cfg now elapsed ts (outcomes @ [(t, outcome)]) rest' g3))
                 else read_candidates P cfg now elapsed ts outcomes rest g1))"

definition reconcile ::
    "'v parts \<Rightarrow> IngestConfig \<Rightarrow> nat \<Rightarrow> nat \<Rightarrow> 'v answer list \<Rightarrow> 'v ThreadIngestor \<Rightarrow>
     (('v IngestError + (string \<times> DiscoveryOutcome) list) \<times> 'v answer list \<times> 'v ThreadIngestor) option" where
  "reconcile P cfg now elapsed answers g =
     (let previous = watermark g
      in case list_pages P cfg previous (reconcile_page_bound cfg) None previous [] answers g of
           None \<Rightarrow> None
         | Some (Inl err, rest, g') \<Rightarrow> Some (Inl err, rest, g')
         | Some (Inr (newest, candidates), rest, g') \<Rightarrow>
             map_option (\<lambda>(outcomes, rest', g''). (Inr outcomes, rest', g''))
               (read_candidates P cfg now elapsed candidates [] rest (g'\<lparr>watermark := newest\<rparr>)))"

section \<open>Release\<close>

definition release_allowed :: "IngestConfig \<Rightarrow> string \<Rightarrow> 'v ThreadIngestor \<Rightarrow> bool" where
  "release_allowed cfg t g =
     (\<not> (\<not> release_idle_subscriptions cfg \<or> \<not> reactivation_verified g) \<and>
      \<not> is_some_and (threads (snapshot (ti_reducer g)) t) (\<lambda>th. status th \<noteq> ''idle''))"

definition release_commit :: "string \<Rightarrow> 'v ThreadIngestor \<Rightarrow> 'v ThreadIngestor" where
  "release_commit t g =
     (let g' = set_state t Released g in g'\<lparr>ti_reducer := set_subscribed t False (ti_reducer g')\<rparr>)"

definition release_if_idle ::
    "'v parts \<Rightarrow> IngestConfig \<Rightarrow> string \<Rightarrow> 'v answer \<Rightarrow> 'v ThreadIngestor \<Rightarrow> bool \<times> 'v ThreadIngestor" where
  "release_if_idle P cfg t ans g =
     (if \<not> release_allowed cfg t g then (False, g)
      else (let g' = call ''thread/unsubscribe'' (resume_params (api P) t) g
            in case ans of Inr _ \<Rightarrow> (True, release_commit t g') | Inl _ \<Rightarrow> (False, g')))"

text \<open>\<open>order\<close> is the iteration order of the map of states; the answers are ignored.\<close>

definition unsubscribe_all_best_effort ::
    "'v parts \<Rightarrow> (string \<times> SubscriptionState) list \<Rightarrow> 'v ThreadIngestor \<Rightarrow> 'v ThreadIngestor" where
  "unsubscribe_all_best_effort P order g =
     foldl (\<lambda>g t. call ''thread/unsubscribe'' (resume_params (api P) t) g) g
       (map fst (filter (\<lambda>(_, st). st = Subscribed) order))"

section \<open>A discovery by itself\<close>

lemma set_state_simps [simp]:
  "states (set_state t st g) = (states g)(t \<mapsto> st)" "ti_reducer (set_state t st g) = ti_reducer g"
  "ti_store (set_state t st g) = ti_store g" "requests (set_state t st g) = requests g"
  "watermark (set_state t st g) = watermark g"
  "reactivation_verified (set_state t st g) = reactivation_verified g"
  by (simp_all add: set_state_def)

lemma call_simps [simp]:
  "states (call m p g) = states g" "ti_reducer (call m p g) = ti_reducer g"
  "ti_store (call m p g) = ti_store g" "requests (call m p g) = requests g @ [(m, p)]"
  "watermark (call m p g) = watermark g" "reactivation_verified (call m p g) = reactivation_verified g"
  by (simp_all add: call_def)

text \<open>The answers after which a resume is tried again, attempts permitting.\<close>

fun retryable :: "'v json \<Rightarrow> 'v answer \<Rightarrow> bool" where
  "retryable J (Inl (NotWritten _)) = True"
| "retryable J (Inl (Rejected _ err)) = is_ephemeral_error J err"
| "retryable J _ = False"

text \<open>How many answers are retried: the retryable ones, up to the limit of attempts.\<close>

definition retries :: "'v json \<Rightarrow> IngestConfig \<Rightarrow> 'v answer list \<Rightarrow> nat" where
  "retries J cfg answers = length (takeWhile (retryable J) (take (resume_retry_limit cfg - 1) answers))"

text \<open>What the deciding answer means.\<close>

fun verdict :: "'v parts \<Rightarrow> 'v answer \<Rightarrow> DiscoveryOutcome \<times> SubscriptionState" where
  "verdict P (Inr _) = (O_Subscribed, Subscribed)"
| "verdict P (Inl (Rejected m err)) =
     (if is_ephemeral_error (api P) err then (O_Ephemeral, Ephemeral)
      else (O_Failed (error_text (api P) (id_debug P) (Rejected m err)),
            Failed (error_text (api P) (id_debug P) (Rejected m err))))"
| "verdict P (Inl err) =
     (O_Failed (error_text (api P) (id_debug P) err), Failed (error_text (api P) (id_debug P) err))"

lemma resume_retry:
  "retryable (api P) a \<Longrightarrow> n < resume_retry_limit cfg \<Longrightarrow> resume_answered P cfg n a = Retrying (Suc n)"
  by (cases a; cases "projl a") (auto simp: resume_answered_def)

definition decided :: "'v parts \<Rightarrow> 'v answer \<Rightarrow> 'v discover_pc" where
  "decided P a = (case a of Inr _ \<Rightarrow> FinishSubscription
     | Inl _ \<Rightarrow> GivingUp (snd (verdict P a)) (fst (verdict P a)))"

lemma resume_decided:
  "\<not> (retryable (api P) a \<and> n < resume_retry_limit cfg) \<Longrightarrow> resume_answered P cfg n a = decided P a"
  by (cases a; cases "projl a") (auto simp: resume_answered_def decided_def Let_def)

definition after_retries :: "'v parts \<Rightarrow> string \<Rightarrow> DiscoverySource \<Rightarrow> nat \<Rightarrow> nat \<Rightarrow> 'v ThreadIngestor \<Rightarrow> 'v ThreadIngestor" where
  "after_retries P t source a k g =
     (if k = 0 then g
      else g\<lparr>states := (states g)(t \<mapsto> Subscribing source (a + k)),
             requests := requests g @ replicate k (''thread/resume'', resume_params (api P) t)\<rparr>)"

lemma run_resuming:
  assumes "k = length (takeWhile (retryable (api P)) (take (resume_retry_limit cfg - a) answers))"
    and "k < length answers"
  shows "discover_run (3 * k + Suc fuel) P cfg t source now el (Resuming a) answers g =
    discover_run fuel P cfg t source now el (decided P (answers ! k))
      (drop (Suc k) answers) (after_retries P t source a k g)"
  using assms
proof (induction k arbitrary: a answers g)
  case 0
  then obtain x xs where answers: "answers = x # xs" by (cases answers) auto
  with "0.prems"(1) have "\<not> (retryable (api P) x \<and> a < resume_retry_limit cfg)"
    by (cases "resume_retry_limit cfg - a") auto
  from resume_decided [OF this] show ?case by (simp add: answers after_retries_def)
next
  case (Suc k)
  then obtain x xs where answers: "answers = x # xs" by (cases answers) auto
  from Suc.prems(1) have "resume_retry_limit cfg - a \<noteq> 0" by (intro notI) simp
  then have lim: "a < resume_retry_limit cfg"
    and "resume_retry_limit cfg - a = Suc (resume_retry_limit cfg - Suc a)" by simp_all
  with Suc.prems(1) have x: "retryable (api P) x" "a < resume_retry_limit cfg"
    and k: "k = length (takeWhile (retryable (api P)) (take (resume_retry_limit cfg - Suc a) xs))"
    by (simp_all add: answers split: if_splits)
  have fuel: "3 * Suc k + Suc fuel = Suc (Suc (Suc (3 * k + Suc fuel)))" by simp
  let ?g = "call ''thread/resume'' (resume_params (api P) t)
    (set_state t (Subscribing source (Suc a)) (set_state t (RetryWait (Suc a)) g))"
  have "discover_run (3 * Suc k + Suc fuel) P cfg t source now el (Resuming a) answers g =
      discover_run (3 * k + Suc fuel) P cfg t source now el (Resuming (Suc a)) xs ?g"
    unfolding fuel answers by (simp add: resume_retry [OF x])
  also have "\<dots> = discover_run fuel P cfg t source now el (decided P (xs ! k))
      (drop (Suc k) xs) (after_retries P t source (Suc a) k ?g)"
    using Suc.prems(2) by (intro Suc.IH [OF k]) (simp add: answers)
  also have "after_retries P t source (Suc a) k ?g = after_retries P t source a (Suc k) g"
    by (simp add: after_retries_def set_state_def call_def)
  finally show ?case by (simp add: answers)
qed

lemma run_claimed:
  assumes "\<not> is_some_and (states g t) managed" "retained_count g < subscription_cap cfg"
  shows "discover_run (Suc (Suc n)) P cfg t source now el Claim answers g =
    discover_run n P cfg t source now el (Resuming 1) answers
      (call ''thread/resume'' (resume_params (api P) t)
        ((set_state t (Subscribing source 1) g)\<lparr>ti_reducer := begin_subscription t (ti_reducer g)\<rparr>))"
  using assms by (simp add: claim_def not_le)

lemma run_giving_up:
  "discover_run (Suc (Suc (Suc fuel))) P cfg t source now el (GivingUp st o') answers g =
     Some (o', answers, (set_state t st g)\<lparr>ti_reducer := cancel_subscription t (ti_reducer g)\<rparr>)"
  by simp

text \<open>What the store needs for the anchor to be recorded.\<close>

definition store_ready :: "'v parts \<Rightarrow> 'v ThreadIngestor \<Rightarrow> bool" where
  "store_ready P g \<longleftrightarrow> json_laws (api P) \<and> iter_ok (iteration P) \<and>
     (case ti_store g of None \<Rightarrow> True | Some st \<Rightarrow> store_inv (serialise P) st)"

lemma anchor_comes_back:
  assumes "store_ready P g" "ti_store g = Some st"
  shows "\<exists>b st'. record_reconstructed_active_turn (api P) (store_config P) (serialise P) (iteration P) now el sq t u st
    = Some (b, st')"
proof -
  from assms have "json_laws (api P)" "iter_ok (iteration P)" "store_inv (serialise P) st"
    by (auto simp: store_ready_def)
  with record_locked_ends [OF this(2,3)] reconstructed_active_turn_Some [OF this(1), of now sq el t u]
  show ?thesis by (fastforce simp: record_reconstructed_active_turn_def)
qed

lemma subscribed_after_reconcile:
  "thread_subscribed r t \<Longrightarrow> thread_subscribed (reconcile_thread J v r) t"
  using marks.retained_run [of r t "[Reconcile v]" J] by simp

lemma thread_subscribed_finish: "thread_subscribed (finish_subscription t r) t"
  by (simp add: thread_subscribed_def finish_subscription_def)

lemma subscribing_finish [simp]: "subscribing (finish_subscription t r) = subscribing r - {t}"
  by (simp add: finish_subscription_def)

lemma subscribing_reconcile [simp]: "subscribing (reconcile_thread J v r) = subscribing r"
  by (simp add: reconcile_thread_def Let_def split: option.splits)

lemma run_finishing:
  assumes "store_ready P g"
  shows "\<exists>g'. discover_run (9 + fuel) P cfg t source now el FinishSubscription (a # rest) g = Some (O_Subscribed, rest, g') \<and>
    states g' = (states g)(t \<mapsto> Subscribed) \<and>
    requests g' = requests g @ [(''thread/read'', read_params (api P) t)] \<and>
    thread_subscribed (ti_reducer g') t \<and> t \<notin> subscribing (ti_reducer g')"
proof -
  have nine: "9 + fuel = Suc (Suc (Suc (Suc (Suc (Suc (Suc (Suc (Suc fuel))))))))" by simp
  show ?thesis
  proof (cases "case a of Inl _ \<Rightarrow> None | Inr response \<Rightarrow> get (api P) response ''thread''")
    case None
    then show ?thesis
      unfolding nine by (auto simp: thread_subscribed_finish split: sum.splits)
  next
    case (Some v)
    then obtain response where a: "a = Inr response" and get: "get (api P) response ''thread'' = Some v"
      by (auto split: sum.splits)
    show ?thesis
    proof (cases "ti_store g \<noteq> None \<and> in_flight_turn_id (api P) v \<noteq> None")
      case False
      then show ?thesis
        unfolding nine by (auto simp: a get subscribed_after_reconcile thread_subscribed_finish split: option.splits)
    next
      case True
      then obtain st u where st: "ti_store g = Some st" and u: "in_flight_turn_id (api P) v = Some u" by auto
      let ?r = "reconcile_thread (api P) v (finish_subscription t (ti_reducer g))"
      from anchor_comes_back [OF assms st] obtain b st' where
        "record_reconstructed_active_turn (api P) (store_config P) (serialise P) (iteration P) now el
           (current_sequence ?r) t u st = Some (b, st')" by blast
      then show ?thesis
        unfolding nine by (simp add: a get st u subscribed_after_reconcile thread_subscribed_finish)
    qed
  qed
qed

section \<open>Discoveries side by side\<close>

text \<open>
  The ingestor is shared by every task that discovers or releases; \<open>releasing\<close> holds the
  threads for which a release has passed its check and awaits the daemon's answer. Between two
  critical sections of a task anything may happen: other tasks run, the ingress applies events,
  the store records.
\<close>

record 'v ingest_system =
  shared :: "'v ThreadIngestor"
  tasks :: "(string \<times> DiscoverySource \<times> 'v discover_pc) list"
  releasing :: "string list"

inductive ingest_step :: "'v parts \<Rightarrow> IngestConfig \<Rightarrow> 'v ingest_system \<Rightarrow> 'v ingest_system \<Rightarrow> bool"
  for P cfg where
  starts: "ingest_step P cfg s (s\<lparr>tasks := tasks s @ [(t, source, Claim)]\<rparr>)"
| runs: "ingest_step P cfg s (s\<lparr>shared := g, tasks := (tasks s)[i := (t, source, pc')]\<rparr>)"
    if "i < length (tasks s)" "tasks s ! i = (t, source, pc)"
      "discover_step P cfg t source ans now el pc (shared s) = Some (pc', g)"
| reduces: "ingest_step P cfg s (s\<lparr>shared := (shared s)\<lparr>ti_reducer := reducer_step (api P) (ti_reducer (shared s)) x\<rparr>\<rparr>)"
| records: "ingest_step P cfg s (s\<lparr>shared := (shared s)\<lparr>ti_store := st\<rparr>\<rparr>)"
| verifies: "ingest_step P cfg s (s\<lparr>shared := set_reactivation_verified b (shared s)\<rparr>)"
| asks_release: "ingest_step P cfg s (s\<lparr>shared := call ''thread/unsubscribe'' (resume_params (api P) t) (shared s),
      releasing := t # releasing s\<rparr>)"
    if "release_allowed cfg t (shared s)"
| releases: "ingest_step P cfg s (s\<lparr>shared := release_commit t (shared s), releasing := remove1 t (releasing s)\<rparr>)"
    if "t \<in> set (releasing s)"
| release_fails: "ingest_step P cfg s (s\<lparr>releasing := remove1 t (releasing s)\<rparr>)"
    if "t \<in> set (releasing s)"

definition start_system :: "'v ThreadIngestor \<Rightarrow> 'v ingest_system" where
  "start_system g = \<lparr>shared = g, tasks = [], releasing = []\<rparr>"

fun driving :: "'v discover_pc \<Rightarrow> bool" where
  "driving BeginSubscription = True" | "driving (Resuming _) = True" | "driving (Retrying _) = True"
| "driving (Sleeping _) = True" | "driving (GivingUp _ _) = True" | "driving FinishSubscription = True"
| "driving MarkSubscribed = True" | "driving _ = False"

fun in_setup :: "SubscriptionState \<Rightarrow> bool" where
  "in_setup (Subscribing _ _) = True" | "in_setup (RetryWait _) = True" | "in_setup _ = False"

definition drivers :: "string \<Rightarrow> (string \<times> DiscoverySource \<times> 'v discover_pc) list \<Rightarrow> nat" where
  "drivers t ts = length (filter (\<lambda>(u, _, pc). u = t \<and> driving pc) ts)"

text \<open>Attempts stay within the limit, and a call gives up into a state that is not managed.\<close>

fun pc_ok :: "IngestConfig \<Rightarrow> 'v discover_pc \<Rightarrow> bool" where
  "pc_ok cfg (Resuming n) = (1 \<le> n \<and> n \<le> max 1 (resume_retry_limit cfg))"
| "pc_ok cfg (Retrying n) = (1 \<le> n \<and> n \<le> max 1 (resume_retry_limit cfg))"
| "pc_ok cfg (Sleeping n) = (1 \<le> n \<and> n \<le> max 1 (resume_retry_limit cfg))"
| "pc_ok cfg (GivingUp st _) = (\<not> managed st)"
| "pc_ok cfg pc = True"

definition managed_threads :: "'v ThreadIngestor \<Rightarrow> string set" where
  "managed_threads g = {t. is_some_and (states g t) managed}"

definition one_driver :: "IngestConfig \<Rightarrow> 'v ingest_system \<Rightarrow> bool" where
  "one_driver cfg s \<longleftrightarrow>
     releasing s = [] \<and> finite (managed_threads (shared s)) \<and>
     card (managed_threads (shared s)) \<le> subscription_cap cfg \<and>
     (\<forall>(t, source, pc) \<in> set (tasks s). pc_ok cfg pc) \<and>
     (\<forall>t. drivers t (tasks s) = (if is_some_and (states (shared s) t) in_setup then 1 else 0))"

lemma drivers_update:
  assumes "i < length ts" "ts ! i = (t, source, pc)"
  shows "drivers u (ts[i := (t, source, pc')]) + (if u = t \<and> driving pc then 1 else 0) =
    drivers u ts + (if u = t \<and> driving pc' then 1 else 0)"
proof -
  obtain xs ys where "ts = xs @ (t, source, pc) # ys" "length xs = i"
    using assms by (metis id_take_nth_drop length_take min.absorb4)
  then show ?thesis by (auto simp: drivers_def list_update_append)
qed

lemma drivers_snoc_claim [simp]: "drivers u (ts @ [(t, source, Claim)]) = drivers u ts"
  by (simp add: drivers_def)

lemma managed_threads_update:
  "managed_threads (set_state t st g) = (if managed st then insert t (managed_threads g) else managed_threads g - {t})"
  by (auto simp: managed_threads_def)

lemma in_setup_managed: "in_setup st \<Longrightarrow> managed st"
  by (cases st) auto

text \<open>What a step does to the state of its thread, by where the call stands.\<close>

lemma resume_answered_ok:
  "pc_ok cfg (Resuming n) \<Longrightarrow> pc_ok cfg (resume_answered P cfg n a) \<and> driving (resume_answered P cfg n a)"
  by (cases a; cases "projl a") (auto simp: resume_answered_def Let_def)

lemma claim_step:
  assumes "claim cfg t source g = (pc', g')"
  shows "(g' = g \<and> pc' = Done AlreadyManaged) \<or>
    (t \<notin> managed_threads g \<and> g' = set_state t CapacityDegraded g \<and> pc' = Done O_CapacityDegraded) \<or>
    (t \<notin> managed_threads g \<and> card (managed_threads g) < subscription_cap cfg \<and>
     g' = set_state t (Subscribing source 1) g \<and> pc' = BeginSubscription)"
  using assms by (auto simp: claim_def retained_count_def managed_threads_def split: if_splits)

lemma driver_step:
  assumes "discover_step P cfg t source ans now el pc g = Some (pc', g')" "pc_ok cfg pc" "pc \<noteq> Claim"
  shows "pc_ok cfg pc' \<and>
    ((driving pc' = driving pc \<and> states g' = states g) \<or>
     (driving pc \<and> driving pc' \<and> (\<exists>st. in_setup st \<and> states g' = (states g)(t \<mapsto> st))) \<or>
     (driving pc \<and> \<not> driving pc' \<and> (\<exists>st. \<not> in_setup st \<and> states g' = (states g)(t \<mapsto> st))))"
proof (cases pc)
  case (Resuming n)
  with assms resume_answered_ok [of cfg n P] show ?thesis by (auto simp del: pc_ok.simps(1))
next
  case (Retrying n)
  with assms show ?thesis by (auto intro!: exI [of _ "RetryWait n"])
next
  case (Sleeping n)
  with assms show ?thesis by (auto intro!: exI [of _ "Subscribing source n"])
next
  case (GivingUp st o')
  with assms in_setup_managed show ?thesis by (auto intro!: exI [of _ st])
next
  case MarkSubscribed
  with assms show ?thesis by (auto intro!: exI [of _ Subscribed])
next
  case (Anchoring sq turn)
  with assms show ?thesis by (auto split: option.splits)
next
  case Reading
  with assms obtain a where "ans = Some a" by auto
  with Reading assms show ?thesis
    by (cases a; cases "get (api P) (projr a) ''thread''") auto
qed (use assms in \<open>auto split: option.splits sum.splits\<close>)

lemma one_driver_other:
  assumes "one_driver cfg s" "states g = states (shared s)" "releasing s' = []" "shared s' = g" "tasks s' = tasks s"
  shows "one_driver cfg s'"
  using assms by (simp add: one_driver_def managed_threads_def)

lemma one_driver_shrinks:
  assumes "one_driver cfg s" "managed_threads g \<subseteq> managed_threads (shared s)"
  shows "finite (managed_threads g) \<and> card (managed_threads g) \<le> subscription_cap cfg"
  using assms unfolding one_driver_def by (meson card_mono finite_subset le_trans)

lemma driver_is_managed:
  assumes "one_driver cfg s" "i < length (tasks s)" "tasks s ! i = (t, source, pc)" "driving pc"
  shows "t \<in> managed_threads (shared s) \<and> is_some_and (states (shared s) t) in_setup"
proof -
  have "(t, source, pc) \<in> set (tasks s)" using assms(2,3) by (metis nth_mem)
  with assms(4) have "drivers t (tasks s) \<noteq> 0" by (auto simp: drivers_def filter_empty_conv)
  with assms(1) have "is_some_and (states (shared s) t) in_setup"
    unfolding one_driver_def by (metis (full_types))
  then show ?thesis
    using in_setup_managed by (cases "states (shared s) t") (auto simp: managed_threads_def)
qed

lemma tasks_ok_update:
  "\<forall>(t, source, pc) \<in> set ts. pc_ok cfg pc \<Longrightarrow> pc_ok cfg pc' \<Longrightarrow>
     \<forall>(t, source, pc) \<in> set (ts[i := (t, source, pc')]). pc_ok cfg pc"
  using set_update_subset_insert [of ts i "(t, source, pc')"] by fastforce

text \<open>A step of a task, from the facts about its thread alone.\<close>

lemma one_driver_run:
  assumes inv: "one_driver cfg s" and i: "i < length (tasks s)" "tasks s ! i = (t, source, pc)"
    and ok: "pc_ok cfg pc'" and upd: "states g = (states (shared s))(t := st)"
    and caps: "finite (managed_threads g)" "card (managed_threads g) \<le> subscription_cap cfg"
    and setup': "is_some_and st in_setup = driving pc'"
    and before: "is_some_and (states (shared s) t) in_setup = driving pc"
  shows "one_driver cfg (s\<lparr>shared := g, tasks := (tasks s)[i := (t, source, pc')]\<rparr>)"
proof -
  have "drivers u ((tasks s)[i := (t, source, pc')]) = (if is_some_and (states g u) in_setup then 1 else 0)" for u
    using drivers_update [OF i, of u pc'] inv upd setup' before
    by (auto simp: one_driver_def split: if_splits)
  moreover have "\<forall>(t, source, pc) \<in> set ((tasks s)[i := (t, source, pc')]). pc_ok cfg pc"
    using inv ok by (intro tasks_ok_update) (simp_all add: one_driver_def)
  ultimately show ?thesis using inv caps by (simp add: one_driver_def)
qed

lemma one_driver_quiet_run:
  assumes inv: "one_driver cfg s" and i: "i < length (tasks s)" "tasks s ! i = (t, source, pc)"
    and ok: "pc_ok cfg pc'" and upd: "states g = states (shared s)" and same: "driving pc' = driving pc"
  shows "one_driver cfg (s\<lparr>shared := g, tasks := (tasks s)[i := (t, source, pc')]\<rparr>)"
proof -
  have "drivers u ((tasks s)[i := (t, source, pc')]) = drivers u (tasks s)" for u
    using drivers_update [OF i, of u pc'] same by simp
  moreover have "\<forall>(t, source, pc) \<in> set ((tasks s)[i := (t, source, pc')]). pc_ok cfg pc"
    using inv ok by (intro tasks_ok_update) (simp_all add: one_driver_def)
  ultimately show ?thesis using inv upd by (simp add: one_driver_def managed_threads_def)
qed

lemma managed_threads_upd:
  "states g' = (states g)(t \<mapsto> st) \<Longrightarrow>
     managed_threads g' = (if managed st then insert t (managed_threads g) else managed_threads g - {t})"
  by (auto simp: managed_threads_def)

lemma one_driver_claim:
  assumes inv: "one_driver cfg s" and i: "i < length (tasks s)" "tasks s ! i = (t, source, Claim)"
    and step: "claim cfg t source (shared s) = (pc', g)"
  shows "one_driver cfg (s\<lparr>shared := g, tasks := (tasks s)[i := (t, source, pc')]\<rparr>)"
proof -
  have fin: "finite (managed_threads (shared s))" "card (managed_threads (shared s)) \<le> subscription_cap cfg"
    using inv by (simp_all add: one_driver_def)
  have unmanaged: "\<not> is_some_and (states (shared s) t) in_setup" if "t \<notin> managed_threads (shared s)"
    using that in_setup_managed by (cases "states (shared s) t") (auto simp: managed_threads_def)
  from claim_step [OF step] consider "g = shared s \<and> pc' = Done AlreadyManaged"
    | st where "t \<notin> managed_threads (shared s)" "g = set_state t st (shared s)" "in_setup st = driving pc'"
        "pc_ok cfg pc'" "managed st \<Longrightarrow> card (managed_threads (shared s)) < subscription_cap cfg"
    by (elim disjE) (fastforce+)
  then show ?thesis
  proof cases
    case 1
    then show ?thesis by (intro one_driver_quiet_run [OF inv i]) simp_all
  next
    case (2 st)
    have "finite (managed_threads g)" "card (managed_threads g) \<le> subscription_cap cfg"
      using fin 2 by (auto simp: managed_threads_update)
    moreover have "is_some_and (Some st) in_setup = driving pc'" using 2 by (simp only: is_some_and_simps)
    moreover have "is_some_and (states (shared s) t) in_setup = driving Claim" using 2 unmanaged by simp
    moreover have "states g = (states (shared s))(t \<mapsto> st)" using 2 by simp
    ultimately show ?thesis using 2(4) one_driver_run [OF inv i] by blast
  qed
qed

lemma one_driver_task:
  assumes inv: "one_driver cfg s" and i: "i < length (tasks s)" "tasks s ! i = (t, source, pc)"
    and step: "discover_step P cfg t source ans now el pc (shared s) = Some (pc', g)"
  shows "one_driver cfg (s\<lparr>shared := g, tasks := (tasks s)[i := (t, source, pc')]\<rparr>)"
proof (cases "pc = Claim")
  case True
  with one_driver_claim [OF inv, of i t source pc' g] i step show ?thesis by simp
next
  case False
  have "pc_ok cfg pc" using inv i by (auto simp: one_driver_def dest!: nth_mem)
  note facts = driver_step [OF step this False]
  then consider "driving pc' = driving pc" "states g = states (shared s)"
    | st where "driving pc" "in_setup st = driving pc'" "states g = (states (shared s))(t \<mapsto> st)" by blast
  then show ?thesis
  proof cases
    case 1
    with facts show ?thesis by (intro one_driver_quiet_run [OF inv i]) simp_all
  next
    case (2 st)
    note mine = driver_is_managed [OF inv i 2(1)]
    have "managed_threads g \<subseteq> managed_threads (shared s)"
      using mine by (auto simp: managed_threads_upd [OF 2(3)])
    note caps = one_driver_shrinks [OF inv this]
    have "is_some_and (Some st) in_setup = driving pc'" using 2 by (simp only: is_some_and_simps)
    moreover have "is_some_and (states (shared s) t) in_setup = driving pc" using 2 mine by blast
    ultimately show ?thesis using facts caps 2(3) one_driver_run [OF inv i] by blast
  qed
qed

lemma one_driver_step:
  assumes "ingest_step P cfg s s'" "\<not> release_idle_subscriptions cfg" "one_driver cfg s"
  shows "one_driver cfg s'"
  using assms(1)
proof cases
  case (runs i t source pc ans now el pc' g)
  with one_driver_task [OF assms(3)] show ?thesis by blast
next
  case (asks_release t)
  with assms(2) show ?thesis by (simp add: release_allowed_def)
next
  case (starts t source)
  with assms(3) show ?thesis by (simp add: one_driver_def)
qed (use assms(3) in \<open>simp_all add: one_driver_def managed_threads_def set_reactivation_verified_def\<close>)

lemma one_driver_start: "states g = Map.empty \<Longrightarrow> one_driver cfg (start_system g)"
  by (simp add: one_driver_def start_system_def managed_threads_def drivers_def)

lemma one_driver_reachable:
  assumes "(ingest_step P cfg)\<^sup>*\<^sup>* s s'" "\<not> release_idle_subscriptions cfg" "one_driver cfg s"
  shows "one_driver cfg s'"
  using assms(1) by (induction rule: rtranclp_induct) (use assms(2,3) one_driver_step in blast)+

section \<open>Pages\<close>

lemma scan_page_newest:
  "scan_page J cfg previous data newest cands = (newest', reached, cands') \<Longrightarrow> newest \<le> newest'"
proof (induction J cfg previous data newest cands rule: scan_page.induct)
  case (2 J cfg previous thread data newest cands)
  then show ?case
    by (auto simp: Let_def split: option.splits if_splits intro: order_trans [OF max.cobounded1])
qed simp

text \<open>Scanned again with the new watermark as the previous one, a page has no candidate.\<close>

lemma scan_page_again:
  "scan_page J cfg previous data newest cands = (newest', reached, cands') \<Longrightarrow> 0 < newest' \<Longrightarrow>
     snd (snd (scan_page J cfg newest' data n0 cs)) = cs"
proof (induction data)
  case (Cons thread data)
  show ?case
  proof (cases "get_str J thread ''id''")
    case None
    with Cons show ?thesis by simp
  next
    case (Some i)
    let ?u = "unwrap_or (numeric_timestamp J (get J thread ''updatedAt'')) 0"
    have "max newest ?u \<le> newest'"
      using Cons.prems(1) Some by (auto simp: Let_def split: if_splits dest: scan_page_newest)
    then have "?u \<le> newest'" by simp
    with Some Cons.prems(2) show ?thesis by (simp add: Let_def)
  qed
qed simp

lemma read_candidates_failing:
  assumes "length errs = length ts"
  shows "\<exists>g'. read_candidates P cfg now el ts outcomes (map Inl errs @ rest) g = Some (outcomes, rest, g') \<and>
    watermark g' = watermark g \<and> states g' = states g"
  using assms
proof (induction ts arbitrary: errs g)
  case (Cons t ts)
  then obtain err errs' where "errs = err # errs'" "length errs' = length ts" by (cases errs) auto
  with Cons.IH [of errs' "call ''thread/read'' (read_params (api P) t) g"] show ?case
    by (auto simp: Let_def)
qed simp

lemma list_pages_bounds:
  assumes "list_pages P cfg previous pages cur newest cands answers g = Some (r, rest, g')"
  shows "length (requests g') \<le> length (requests g) + pages \<and> watermark g' = watermark g \<and>
    (case r of Inr (newest', _) \<Rightarrow> newest \<le> newest' | Inl _ \<Rightarrow> True)"
  using assms
proof (induction P cfg previous pages cur newest cands answers g rule: list_pages.induct)
  case (2 P cfg previous pages cur newest cands answers g)
  show ?case
  proof (cases "length cands \<ge> reconcile_candidate_limit cfg")
    case True
    with "2.prems" show ?thesis by auto
  next
    case False
    note more = False
    show ?thesis
    proof (cases answers)
      case Nil
      with more "2.prems" show ?thesis by (simp add: Let_def)
    next
      case (Cons a as)
      show ?thesis
      proof (cases "case a of Inl _ \<Rightarrow> None | Inr result \<Rightarrow> Option.bind (get (api P) result ''data'') (as_array (api P))")
        case None
        with more Cons "2.prems" show ?thesis by (auto simp: Let_def split: sum.splits)
      next
        case (Some data)
        then obtain result where a: "a = Inr result"
          and data: "Option.bind (get (api P) result ''data'') (as_array (api P)) = Some data"
          by (auto split: sum.splits)
        obtain n reached cs where scan: "scan_page (api P) cfg previous data newest cands = (n, reached, cs)"
          by (cases "scan_page (api P) cfg previous data newest cands")
        let ?cur = "get_str (api P) result ''nextCursor''"
        let ?g = "call ''thread/list'' (list_params (api P) cfg cur) g"
        show ?thesis
        proof (cases "reached \<or> ?cur = None")
          case True
          with more Cons a data scan scan_page_newest [OF scan] "2.prems" show ?thesis by (auto simp: Let_def)
        next
          case False
          with more Cons a data scan "2.prems"
          have "list_pages P cfg previous pages ?cur n cs as ?g = Some (r, rest, g')"
            by (simp add: Let_def)
          from "2.IH" [OF more refl Cons a data scan [symmetric] refl refl refl _ this] False
            scan_page_newest [OF scan]
          show ?thesis by (fastforce split: sum.splits intro: order_trans)
        qed
      qed
    qed
  qed
qed auto

section \<open>Properties\<close>

text \<open>The parts of the witnesses, and a thread object with one running turn.\<close>

definition test_parts :: "jv parts" where
  "test_parts = \<lparr>api = jv_api, store_config = default_store_config, serialise = bytes_of 4,
     iteration = alphabetical, id_debug = (\<lambda>_. [])\<rparr>"

lemma test_parts_simps [simp]:
  "api test_parts = jv_api" "store_config test_parts = default_store_config"
  "serialise test_parts = bytes_of 4" "iteration test_parts = alphabetical"
  by (simp_all add: test_parts_def)

text \<open>C17. Discovery is decided by its answers alone: for a thread that is not managed, below the
  cap, the call ends within its fuel; it resumes once per answer up to and including the first
  that is not retryable, at most the limit of attempts (and at least once), and that answer fixes the
  outcome and the state of the thread, no other state changes, and the setup mark is gone. On
  success, and only then, the thread is subscribed in the reducer and read.\<close>

theorem discover_decided_by_answers:
  assumes "\<not> is_some_and (states g t) managed" "retained_count g < subscription_cap cfg"
    and "store_ready P g" "k = retries (api P) cfg answers" "Suc k < length answers"
  shows "\<exists>rest g'. discover P cfg t source now el answers g = Some (fst (verdict P (answers ! k)), rest, g') \<and>
    states g' = (states g)(t \<mapsto> snd (verdict P (answers ! k))) \<and>
    requests g' = requests g @ replicate (Suc k) (''thread/resume'', resume_params (api P) t) @
      (if isl (answers ! k) then [] else [(''thread/read'', read_params (api P) t)]) \<and>
    Suc k \<le> max 1 (resume_retry_limit cfg) \<and> t \<notin> subscribing (ti_reducer g') \<and>
    (\<not> isl (answers ! k) \<longrightarrow> thread_subscribed (ti_reducer g') t)"
proof -
  let ?claimed = "set_state t (Subscribing source 1) g"
  let ?g1 = "call ''thread/resume'' (resume_params (api P) t)
    (?claimed\<lparr>ti_reducer := begin_subscription t (ti_reducer g)\<rparr>)"
  let ?g2 = "after_retries P t source 1 k ?g1"
  have k: "k = length (takeWhile (retryable (api P)) (take (resume_retry_limit cfg - 1) answers))"
    using assms(4) by (simp add: retries_def)
  then have le: "k \<le> resume_retry_limit cfg - 1"
    by (metis length_take length_takeWhile_le min.boundedE)
  let ?fuel = "3 * resume_retry_limit cfg - 3 * k"
  have fuel: "discover_fuel cfg = Suc (Suc (3 * k + Suc (9 + ?fuel)))"
    using le by (simp add: discover_fuel_def)
  have "discover P cfg t source now el answers g =
      discover_run (3 * k + Suc (9 + ?fuel)) P cfg t source now el (Resuming 1) answers ?g1"
    unfolding discover_def fuel by (rule run_claimed [OF assms(1,2)])
  also have "\<dots> = discover_run (9 + ?fuel) P cfg t source now el (decided P (answers ! k)) (drop (Suc k) answers) ?g2"
    using assms(5) by (intro run_resuming [OF k]) simp
  finally have run: "discover P cfg t source now el answers g = \<dots>" .
  have g2: "requests ?g2 = requests g @ replicate (Suc k) (''thread/resume'', resume_params (api P) t)"
    "(states ?g2)(t \<mapsto> x) = (states g)(t \<mapsto> x)" "ti_store ?g2 = ti_store g" for x
    by (simp_all add: after_retries_def replicate_append_same [symmetric])
  show ?thesis
  proof (cases "answers ! k")
    case (Inl err)
    have nine: "9 + ?fuel = Suc (Suc (Suc (6 + ?fuel)))" by simp
    from run [unfolded Inl decided_def nine sum.case run_giving_up] g2 le show ?thesis
      unfolding Inl by (auto simp: cancel_subscription_def)
  next
    case (Inr v)
    from assms(5) obtain a rest where rest: "drop (Suc k) answers = a # rest"
      by (metis Cons_nth_drop_Suc)
    have "store_ready P ?g2" using assms(3) unfolding store_ready_def g2(3) .
    from run_finishing [OF this, of ?fuel cfg t source now el a rest] g2 le run show ?thesis
      by (auto simp: Inr decided_def rest)
  qed
qed

theorem discover_decided_by_answers_witness:
  "\<exists>rest g'. discover test_parts default_ingest_config ''t'' ActivationStatus 0 0
      [Inl (NotWritten []), Inr JNull, Inl (NotWritten [])] (new_ingestor default_ingest_config (empty_reducer 8)) =
        Some (O_Subscribed, rest, g') \<and> thread_subscribed (ti_reducer g') ''t''"
  using discover_decided_by_answers
    [of "new_ingestor default_ingest_config (empty_reducer 8)" "''t''" default_ingest_config test_parts 1
      "[Inl (NotWritten []), Inr JNull, Inl (NotWritten [])]" ActivationStatus 0 0]
  by (auto simp: new_ingestor_def retained_count_def default_ingest_config_def store_ready_def retries_def)

text \<open>C16. One resume at a time: however calls of \<open>discover\<close> interleave with each other, the ingress and
  the store, while idle subscriptions are not released, no thread ever has two calls working on
  its subscription; there is one exactly while its state says so, its attempt is within the limit,
  and the number of subscribed or pending threads never exceeds the cap.\<close>

theorem one_resume_per_thread_within_cap:
  assumes "\<not> release_idle_subscriptions cfg" "states g = Map.empty"
    and "(ingest_step P cfg)\<^sup>*\<^sup>* (start_system g) s"
  shows "(\<forall>t. drivers t (tasks s) = (if is_some_and (states (shared s) t) in_setup then 1 else 0)) \<and>
    list_all (\<lambda>(t, source, pc). pc_ok cfg pc) (tasks s) \<and>
    retained_count (shared s) \<le> subscription_cap cfg"
  using one_driver_reachable [OF assms(3,1) one_driver_start [OF assms(2)]]
  by (simp add: one_driver_def list_all_iff retained_count_def managed_threads_def)

lemma claimed_reachable:
  fixes g :: "'v ThreadIngestor"
  assumes "states g t = None" "retained_count g < subscription_cap cfg"
  shows "(ingest_step P cfg)\<^sup>*\<^sup>* (start_system g)
    \<lparr>shared = set_state t (Subscribing source 1) g, tasks = [(t, source, BeginSubscription)], releasing = []\<rparr>"
proof -
  have "ingest_step P cfg (start_system g) \<lparr>shared = g, tasks = [(t, source, Claim)], releasing = []\<rparr>"
    using starts [of P cfg "start_system g" t source] by (simp add: start_system_def)
  moreover have "ingest_step P cfg \<lparr>shared = g, tasks = [(t, source, Claim)], releasing = []\<rparr>
      \<lparr>shared = set_state t (Subscribing source 1) g, tasks = [(t, source, BeginSubscription)], releasing = []\<rparr>"
    using runs [of 0 "\<lparr>shared = g, tasks = [(t, source, Claim)], releasing = []\<rparr>" t source Claim P cfg None 0 0
        BeginSubscription "set_state t (Subscribing source 1) g"] assms
    by (simp add: claim_def not_le)
  ultimately show ?thesis by (meson converse_rtranclp_into_rtranclp r_into_rtranclp)
qed

theorem one_resume_per_thread_within_cap_witness:
  "\<exists>s. (ingest_step test_parts default_ingest_config)\<^sup>*\<^sup>*
        (start_system (new_ingestor default_ingest_config (empty_reducer 8))) s \<and>
      drivers ''t'' (tasks s) = 1 \<and> retained_count (shared s) \<le> 512"
proof -
  let ?g = "new_ingestor default_ingest_config (empty_reducer 8) :: jv ThreadIngestor"
  let ?s = "\<lparr>shared = set_state ''t'' (Subscribing Reconciliation 1) ?g,
     tasks = [(''t'', Reconciliation, BeginSubscription)], releasing = []\<rparr>"
  have empty: "states ?g = Map.empty" and off: "\<not> release_idle_subscriptions default_ingest_config"
    and cap: "subscription_cap default_ingest_config = 512"
    by (simp_all add: new_ingestor_def default_ingest_config_def)
  have reach: "(ingest_step test_parts default_ingest_config)\<^sup>*\<^sup>* (start_system ?g) ?s"
    by (rule claimed_reachable) (simp_all add: empty retained_count_def cap)
  from one_resume_per_thread_within_cap [OF off empty reach] have "retained_count (shared ?s) \<le> 512"
    by (simp add: cap)
  with reach show ?thesis by (intro exI [of _ ?s]) (simp add: drivers_def)
qed

text \<open>Releasing does not look at the subscription's state: from any state with one driver per
  thread, when the release of a thread that is still being set up is allowed (its status is idle, or the
  reducer does not know it yet), a reachable state has a second call driving the same thread.\<close>

theorem release_admits_second_driver:
  assumes "one_driver cfg s" "is_some_and (states (shared s) t) in_setup" "release_allowed cfg t (shared s)"
  shows "\<exists>s'. (ingest_step P cfg)\<^sup>*\<^sup>* s s' \<and> drivers t (tasks s') = 2"
proof -
  let ?s1 = "s\<lparr>shared := call ''thread/unsubscribe'' (resume_params (api P) t) (shared s), releasing := t # releasing s\<rparr>"
  let ?g2 = "release_commit t (shared ?s1)"
  let ?s2 = "?s1\<lparr>shared := ?g2, releasing := remove1 t (releasing ?s1)\<rparr>"
  let ?s3 = "?s2\<lparr>tasks := tasks ?s2 @ [(t, Reconciliation, Claim)]\<rparr>"
  let ?g4 = "set_state t (Subscribing Reconciliation 1) ?g2"
  let ?s4 = "?s3\<lparr>shared := ?g4, tasks := (tasks ?s3)[length (tasks s) := (t, Reconciliation, BeginSubscription)]\<rparr>"
  have "t \<in> managed_threads (shared s)"
    using assms(2) in_setup_managed by (cases "states (shared s) t") (auto simp: managed_threads_def)
  moreover have "managed_threads ?g2 = managed_threads (shared s) - {t}"
    by (auto simp: managed_threads_def release_commit_def Let_def)
  moreover have "finite (managed_threads (shared s))" "card (managed_threads (shared s)) \<le> subscription_cap cfg"
    using assms(1) by (simp_all add: one_driver_def)
  ultimately have "retained_count ?g2 < subscription_cap cfg"
    using card_Diff1_less [of "managed_threads (shared s)" t] by (simp add: retained_count_def managed_threads_def)
  then have claim: "claim cfg t Reconciliation ?g2 = (BeginSubscription, ?g4)"
    by (simp add: claim_def release_commit_def Let_def)
  have "ingest_step P cfg s ?s1" using assms(3) by (rule asks_release)
  moreover have "ingest_step P cfg ?s1 ?s2" by (rule releases) simp
  moreover have "ingest_step P cfg ?s2 ?s3" by (rule starts)
  moreover have "ingest_step P cfg ?s3 ?s4"
    using claim by (intro runs [where pc = Claim and ans = None and now = 0 and el = 0]) simp_all
  ultimately have "(ingest_step P cfg)\<^sup>*\<^sup>* s ?s4" by (meson converse_rtranclp_into_rtranclp r_into_rtranclp)
  moreover have "drivers t (tasks s) = 1" using assms(1,2) by (simp add: one_driver_def)
  then have "drivers t (tasks ?s4) = 2" by (simp add: drivers_def list_update_append)
  ultimately show ?thesis by blast
qed

theorem release_admits_second_driver_witness:
  "\<exists>s. (ingest_step test_parts (default_ingest_config\<lparr>release_idle_subscriptions := True\<rparr>))\<^sup>*\<^sup>*
      (start_system (set_reactivation_verified True (new_ingestor default_ingest_config (empty_reducer 8)))) s \<and>
    drivers ''t'' (tasks s) = 2"
proof -
  let ?cfg = "default_ingest_config\<lparr>release_idle_subscriptions := True\<rparr>"
  let ?g = "set_reactivation_verified True (new_ingestor default_ingest_config (empty_reducer 8)) :: jv ThreadIngestor"
  let ?s = "\<lparr>shared = set_state ''t'' (Subscribing Reconciliation 1) ?g,
     tasks = [(''t'', Reconciliation, BeginSubscription)], releasing = []\<rparr>"
  have g: "states ?g = Map.empty" "reactivation_verified ?g" "threads (snapshot (ti_reducer ?g)) = Map.empty"
    by (simp_all add: set_reactivation_verified_def new_ingestor_def empty_reducer_def)
  have cap: "subscription_cap ?cfg = 512" "release_idle_subscriptions ?cfg"
    by (simp_all add: default_ingest_config_def)
  have reach: "(ingest_step test_parts ?cfg)\<^sup>*\<^sup>* (start_system ?g) ?s"
    by (rule claimed_reachable) (simp_all add: g cap retained_count_def)
  have threads: "managed_threads (shared ?s) = {''t''}" by (auto simp: managed_threads_def g split: if_splits)
  have "one_driver ?cfg ?s" unfolding one_driver_def threads by (auto simp: g cap drivers_def)
  moreover have "is_some_and (states (shared ?s) ''t'') in_setup" by simp
  moreover have "release_allowed ?cfg ''t'' (shared ?s)" by (simp add: release_allowed_def g cap)
  ultimately obtain s' where "(ingest_step test_parts ?cfg)\<^sup>*\<^sup>* ?s s'" "drivers ''t'' (tasks s') = 2"
    using release_admits_second_driver by blast
  with reach show ?thesis by (meson rtranclp_trans)
qed

text \<open>The two readers of a thread's turns agree: the turn the ingestor anchors is the turn the
  reducer makes active on reconciling the same thread, and a thread with such a turn counts as
  active in reconciliation.\<close>

theorem in_flight_turn_is_reconciled_turn:
  "in_flight_turn_id J v = reconciled_active_turn J v \<and>
   (in_flight_turn_id J v = None \<or> thread_is_active J v)"
proof -
  have "turn_is_terminal J = turn_is_finished J"
    by (auto simp: turn_is_terminal_def turn_is_finished_def)
  then have "in_flight_turn_id J v = reconciled_active_turn J v"
    by (simp add: in_flight_turn_id_def reconciled_active_turn_def get_str_def bind_assoc)
  moreover have "thread_is_active J v" if "in_flight_turn_id J v = Some u" for u
    using that by (auto simp: in_flight_turn_id_def thread_is_active_def bind_eq_Some_conv find_Some_iff
        list_ex_iff) (metis in_set_conv_nth length_rev nth_mem set_rev)
  ultimately show ?thesis by (cases "in_flight_turn_id J v") blast+
qed

text \<open>Reconciliation is bounded and its watermark only rises: whatever the daemon answers,
  the listing phase makes at most the configured number of page requests and ends with a
  watermark at least the previous one, or with an error that leaves the watermark alone.\<close>

theorem listing_bounded_watermark_rises:
  "case list_pages P cfg (watermark g) (reconcile_page_bound cfg) None (watermark g) [] answers g of
     None \<Rightarrow> length answers < reconcile_page_bound cfg
   | Some (r, rest, g') \<Rightarrow>
       length (requests g') \<le> length (requests g) + reconcile_page_bound cfg \<and> watermark g' = watermark g \<and>
       (case r of Inl _ \<Rightarrow> True | Inr (newest, _) \<Rightarrow> watermark g \<le> newest)"
proof -
  have "list_pages P cfg previous pages cur newest cands answers g \<noteq> None" if "pages \<le> length answers"
    for pages cur newest cands answers g previous
    using that
  proof (induction pages arbitrary: cur newest cands answers g)
    case (Suc pages)
    then obtain a as where "answers = a # as" by (cases answers) auto
    with Suc show ?case by (cases a) (simp_all add: Let_def split: option.split prod.split)
  qed simp
  then have waits: "length answers < reconcile_page_bound cfg"
    if "list_pages P cfg (watermark g) (reconcile_page_bound cfg) None (watermark g) [] answers g = None"
    using that by (meson not_le)
  show ?thesis
  proof (cases "list_pages P cfg (watermark g) (reconcile_page_bound cfg) None (watermark g) [] answers g")
    case None
    with waits show ?thesis by simp
  next
    case (Some x)
    obtain r rest g' where x: "x = (r, rest, g')" by (cases x)
    from list_pages_bounds [OF Some [unfolded x]] show ?thesis
      by (cases r) (simp_all add: Some x case_prod_unfold)
  qed
qed

text \<open>A failed read is not tried again: when every read after a one-page listing fails, the
  reconciliation succeeds with no outcome and no thread discovered, but with the watermark
  advanced; the same listing then yields no candidate for the next reconciliation.\<close>

theorem failed_reads_are_not_retried:
  assumes "0 < reconcile_page_bound cfg" "0 < reconcile_candidate_limit cfg"
    and "Option.bind (get (api P) result ''data'') (as_array (api P)) = Some data"
    and "scan_page (api P) cfg (watermark g) data (watermark g) [] = (newest, reached, cands)"
    and "get_str (api P) result ''nextCursor'' = None" "length errs = length cands" "0 < newest"
  shows "\<exists>g'. reconcile P cfg now el (Inr result # map Inl errs) g = Some (Inr [], [], g') \<and>
    states g' = states g \<and>
    snd (snd (scan_page (api P) cfg (watermark g') data (watermark g') [])) = []"
proof -
  let ?g1 = "call ''thread/list'' (list_params (api P) cfg None) g"
  obtain n where n: "reconcile_page_bound cfg = Suc n" using assms(1) by (cases "reconcile_page_bound cfg") auto
  have "list_pages P cfg (watermark g) (reconcile_page_bound cfg) None (watermark g) [] (Inr result # map Inl errs) g =
      Some (Inr (newest, cands), map Inl errs, ?g1)"
    unfolding n using assms(2-5) by (simp add: Let_def)
  moreover obtain g' where "read_candidates P cfg now el cands [] (map Inl errs) (?g1\<lparr>watermark := newest\<rparr>) = Some ([], [], g')"
    "watermark g' = newest" "states g' = states g"
    using read_candidates_failing [OF assms(6), of P cfg now el "[]" "[]" "?g1\<lparr>watermark := newest\<rparr>"] by auto
  moreover note scan_page_again [OF assms(4,7), of newest "[]"]
  ultimately show ?thesis by (simp add: reconcile_def Let_def)
qed

theorem failed_reads_are_not_retried_witness:
  "let thread = JObj [(''id'', JStr ''t''), (''updatedAt'', JNum 5), (''status'', JObj [(''type'', JStr ''active'')])];
       page = JObj [(''data'', JArr [thread])]
   in \<exists>g'. reconcile test_parts default_ingest_config 0 0 [Inr page, Inl (TimedOut ''thread/read'')]
          (new_ingestor default_ingest_config (empty_reducer 8)) = Some (Inr [], [], g') \<and>
        states g' = Map.empty"
  unfolding Let_def
  using failed_reads_are_not_retried
    [of default_ingest_config test_parts
      "JObj [(''data'', JArr [JObj [(''id'', JStr ''t''), (''updatedAt'', JNum 5), (''status'', JObj [(''type'', JStr ''active'')])]])]"
      "[JObj [(''id'', JStr ''t''), (''updatedAt'', JNum 5), (''status'', JObj [(''type'', JStr ''active'')])]]"
      "new_ingestor default_ingest_config (empty_reducer 8)" 5 False "[''t'']" "[TimedOut ''thread/read'']" 0 0]
  by (auto simp: new_ingestor_def default_ingest_config_def numeric_timestamp_def get_str_def)

text \<open>The ingress feeds all three consumers the same events: from a consistent store, processing
  a sequence of events ends, and leaves the reducer, the store and the topics of the hub each as if
  it alone had been fed that sequence, in that order.\<close>

theorem ingress_feeds_all_consumers:
  assumes "iter_ok (iteration P)" "store_inv (serialise P) (in_store g)"
  shows "\<exists>g'. ingress_run P es g = Some g' \<and>
    in_reducer g' = foldl (reducer_step (api P)) (in_reducer g) (map Apply es) \<and>
    store_run (api P) (store_config P) (serialise P) (iteration P) (in_store g) (map Record es) = Some (in_store g') \<and>
    lifecycle_topic (in_hub g') = lifecycle_topic (in_hub g) @ filter (\<lambda>e. plane e = Lifecycle) es \<and>
    delta_topic (in_hub g') = delta_topic (in_hub g) @ filter (\<lambda>e. plane e = Delta) es"
  using assms(2)
proof (induction es arbitrary: g)
  case (Cons e es)
  obtain st where st: "record_locked (store_config P) (serialise P) (iteration P) (in_store g) e = Some st"
    and inv: "store_inv (serialise P) st"
    using record_locked_ends [OF assms(1) Cons.prems] by blast
  let ?g = "g\<lparr>in_reducer := apply_event (api P) e (in_reducer g), in_store := st, in_hub := publish e (in_hub g)\<rparr>"
  have "store_inv (serialise P) (in_store ?g)" using inv by simp
  from Cons.IH [OF this] st show ?case by (auto simp: process_def Let_def)
qed simp

theorem ingress_feeds_all_consumers_witness:
  "\<exists>g'. ingress_run test_parts [wire_event 1 ''turn/started'' ''t'' ''u'', wire_event 2 ''item/agentMessage/delta'' ''t'' ''u'']
      \<lparr>in_reducer = empty_reducer 8, in_store = new_store, in_hub = new_hub\<rparr> = Some g' \<and>
    delta_topic (in_hub g') = [wire_event 2 ''item/agentMessage/delta'' ''t'' ''u'']"
  using ingress_feeds_all_consumers
    [of test_parts "\<lparr>in_reducer = empty_reducer 8, in_store = new_store, in_hub = new_hub\<rparr>"
      "[wire_event 1 ''turn/started'' ''t'' ''u'', wire_event 2 ''item/agentMessage/delta'' ''t'' ''u'']"]
  by (auto simp: new_hub_def)

end
