(* ===== verification/Reconcile.thy ===== *)
theory Reconcile
  imports Ingest
begin

text \<open>
  Reconciliation (\<open>ThreadIngestor::reconcile\<close> of \<open>src/ingest/src/lib.rs\<close>) split at its await
  points, so that it can run beside the ingress, the discoveries of signals and the transport:
  one step is what happens between two awaits. The machine run by itself is \<open>reconcile\<close>.
\<close>

section \<open>The machine\<close>

text \<open>
  Listing: before a page is requested, and awaiting it; the pages left, the cursor, the previous
  watermark, the newest seen and the candidates. Reading: before a candidate is read, awaiting
  it, reconciling it, and inside its discovery; the candidates left and the outcomes.
\<close>

datatype 'v reconcile_pc =
    R_Listing nat "string option" u64 u64 "string list"
  | R_AwaitingPage nat u64 u64 "string list"
  | R_Reading "string list" "(string \<times> DiscoveryOutcome) list"
  | R_AwaitingThread string "string list" "(string \<times> DiscoveryOutcome) list"
  | R_Applying 'v string "string list" "(string \<times> DiscoveryOutcome) list"
  | R_Discovering "'v discover_pc" string "string list" "(string \<times> DiscoveryOutcome) list"
  | R_Done "'v IngestError + (string \<times> DiscoveryOutcome) list"

definition start_reconcile :: "IngestConfig \<Rightarrow> 'v ThreadIngestor \<Rightarrow> 'v reconcile_pc" where
  "start_reconcile cfg g = R_Listing (reconcile_page_bound cfg) None (watermark g) (watermark g) []"

text \<open>The end of the listing: the new watermark is stored.\<close>

definition end_listing :: "u64 \<Rightarrow> string list \<Rightarrow> 'v ThreadIngestor \<Rightarrow> 'v reconcile_pc \<times> 'v ThreadIngestor" where
  "end_listing newest candidates g = (R_Reading candidates [], g\<lparr>watermark := newest\<rparr>)"

definition page_answered ::
    "'v parts \<Rightarrow> IngestConfig \<Rightarrow> nat \<Rightarrow> u64 \<Rightarrow> u64 \<Rightarrow> string list \<Rightarrow> 'v answer \<Rightarrow> 'v ThreadIngestor \<Rightarrow>
     'v reconcile_pc \<times> 'v ThreadIngestor" where
  "page_answered P cfg pages previous newest candidates a g =
     (case a of
        Inl e \<Rightarrow> (R_Done (Inl (Request e)), g)
      | Inr result \<Rightarrow>
          (case Option.bind (get (api P) result ''data'') (as_array (api P)) of
             None \<Rightarrow> (R_Done (Inl MalformedList), g)
           | Some data \<Rightarrow>
               (let (newest', reached, candidates') = scan_page (api P) cfg previous data newest candidates;
                    cur' = get_str (api P) result ''nextCursor''
                in if reached \<or> cur' = None then end_listing newest' candidates' g
                   else (R_Listing pages cur' previous newest' candidates', g))))"

definition thread_answered ::
    "'v parts \<Rightarrow> string \<Rightarrow> string list \<Rightarrow> (string \<times> DiscoveryOutcome) list \<Rightarrow> 'v answer \<Rightarrow> 'v reconcile_pc" where
  "thread_answered P t ts outcomes a =
     (case (case a of Inl _ \<Rightarrow> None | Inr v \<Rightarrow> get (api P) v ''thread'') of
        None \<Rightarrow> R_Reading ts outcomes
      | Some thread \<Rightarrow>
          if thread_is_active (api P) thread then R_Applying thread t ts outcomes
          else R_Reading ts outcomes)"

text \<open>As for a discovery: \<open>ans\<close> is the awaited answer if it has come, \<open>None\<close> a step that cannot be taken.\<close>

fun reconcile_step ::
    "'v parts \<Rightarrow> IngestConfig \<Rightarrow> 'v answer option \<Rightarrow> nat \<Rightarrow> nat \<Rightarrow> 'v reconcile_pc \<Rightarrow> 'v ThreadIngestor \<Rightarrow>
     ('v reconcile_pc \<times> 'v ThreadIngestor) option" where
  "reconcile_step P cfg ans now elapsed (R_Listing pages cur previous newest candidates) g =
     (case pages of
        0 \<Rightarrow> Some (end_listing newest candidates g)
      | Suc pages' \<Rightarrow>
          if length candidates \<ge> reconcile_candidate_limit cfg then Some (end_listing newest candidates g)
          else Some (R_AwaitingPage pages' previous newest candidates,
                 call ''thread/list'' (list_params (api P) cfg cur) g))"
| "reconcile_step P cfg ans now elapsed (R_AwaitingPage pages previous newest candidates) g =
     map_option (\<lambda>a. page_answered P cfg pages previous newest candidates a g) ans"
| "reconcile_step P cfg ans now elapsed (R_Reading candidates outcomes) g =
     Some (case candidates of
        [] \<Rightarrow> (R_Done (Inr outcomes), g)
      | t # ts \<Rightarrow> (R_AwaitingThread t ts outcomes, call ''thread/read'' (read_params (api P) t) g))"
| "reconcile_step P cfg ans now elapsed (R_AwaitingThread t ts outcomes) g =
     map_option (\<lambda>a. (thread_answered P t ts outcomes a, g)) ans"
| "reconcile_step P cfg ans now elapsed (R_Applying thread t ts outcomes) g =
     Some (R_Discovering Claim t ts outcomes,
       g\<lparr>ti_reducer := reconcile_thread (api P) thread (ti_reducer g)\<rparr>)"
| "reconcile_step P cfg ans now elapsed (R_Discovering pc t ts outcomes) g =
     (case pc of
        Done outcome \<Rightarrow> Some (R_Reading ts (outcomes @ [(t, outcome)]), g)
      | _ \<Rightarrow> map_option (\<lambda>(pc', g'). (R_Discovering pc' t ts outcomes, g'))
               (discover_step P cfg t Reconciliation ans now elapsed pc g))"
| "reconcile_step P cfg ans now elapsed (R_Done result) g = None"

fun reconcile_awaits :: "'v reconcile_pc \<Rightarrow> bool" where
  "reconcile_awaits (R_AwaitingPage _ _ _ _) = True"
| "reconcile_awaits (R_AwaitingThread _ _ _) = True"
| "reconcile_awaits (R_Discovering pc _ _ _) = awaits_answer pc"
| "reconcile_awaits _ = False"

section \<open>The machine by itself\<close>

fun reconcile_run ::
    "nat \<Rightarrow> 'v parts \<Rightarrow> IngestConfig \<Rightarrow> nat \<Rightarrow> nat \<Rightarrow> 'v reconcile_pc \<Rightarrow> 'v answer list \<Rightarrow> 'v ThreadIngestor \<Rightarrow>
     (('v IngestError + (string \<times> DiscoveryOutcome) list) \<times> 'v answer list \<times> 'v ThreadIngestor) option" where
  "reconcile_run 0 P cfg now elapsed pc answers g = None"
| "reconcile_run (Suc fuel) P cfg now elapsed pc answers g =
     (case pc of
        R_Done result \<Rightarrow> Some (result, answers, g)
      | _ \<Rightarrow>
          (let (ans, rest) = (if reconcile_awaits pc
              then (case answers of [] \<Rightarrow> (None, []) | a # as \<Rightarrow> (Some a, as)) else (None, answers))
           in Option.bind (reconcile_step P cfg ans now elapsed pc g)
                (\<lambda>(pc', g'). reconcile_run fuel P cfg now elapsed pc' rest g')))"

text \<open>\<open>reaches\<close>: some number of steps, consuming some answers, leads there.\<close>

definition reaches ::
    "'v parts \<Rightarrow> IngestConfig \<Rightarrow> nat \<Rightarrow> nat \<Rightarrow> 'v reconcile_pc \<times> 'v answer list \<times> 'v ThreadIngestor \<Rightarrow>
     'v reconcile_pc \<times> 'v answer list \<times> 'v ThreadIngestor \<Rightarrow> bool" where
  "reaches P cfg now elapsed a b \<longleftrightarrow>
     (\<exists>n. \<forall>fuel. reconcile_run (n + fuel) P cfg now elapsed (fst a) (fst (snd a)) (snd (snd a)) =
        reconcile_run fuel P cfg now elapsed (fst b) (fst (snd b)) (snd (snd b)))"

lemma reaches_refl [simp]: "reaches P cfg now el a a"
  unfolding reaches_def by (intro exI [of _ 0]) simp

lemma reaches_trans:
  assumes "reaches P cfg now el a b" "reaches P cfg now el b c"
  shows "reaches P cfg now el a c"
proof -
  from assms obtain m n where m: "\<And>fuel. reconcile_run (m + fuel) P cfg now el (fst a) (fst (snd a)) (snd (snd a)) =
        reconcile_run fuel P cfg now el (fst b) (fst (snd b)) (snd (snd b))"
    and n: "\<And>fuel. reconcile_run (n + fuel) P cfg now el (fst b) (fst (snd b)) (snd (snd b)) =
        reconcile_run fuel P cfg now el (fst c) (fst (snd c)) (snd (snd c))"
    unfolding reaches_def by blast
  show ?thesis
    unfolding reaches_def by (intro exI [of _ "m + n"]) (simp add: add.assoc m n)
qed

lemma reaches_step:
  assumes "\<not> reconcile_awaits pc" "reconcile_step P cfg None now el pc g = Some (pc', g')"
  shows "reaches P cfg now el (pc, answers, g) (pc', answers, g')"
  unfolding reaches_def
  using assms by (intro exI [of _ 1]) (auto split: reconcile_pc.splits)

lemma reaches_answer:
  assumes "reconcile_awaits pc" "reconcile_step P cfg (Some a) now el pc g = Some (pc', g')"
  shows "reaches P cfg now el (pc, a # answers, g) (pc', answers, g')"
  unfolding reaches_def
  using assms by (intro exI [of _ 1]) (auto split: reconcile_pc.splits)

lemma discovering_step:
  "(\<nexists>o1. pc = Done o1) \<Longrightarrow> discover_step P cfg t Reconciliation ans now el pc g = Some (pc', g') \<Longrightarrow>
     reconcile_step P cfg ans now el (R_Discovering pc t ts outcomes) g = Some (R_Discovering pc' t ts outcomes, g')"
  by (cases pc) (simp_all del: discover_step.simps)

lemma reaches_discovery:
  assumes "discover_run fuel P cfg t Reconciliation now el pc answers g = Some (outcome, rest, g')"
  shows "reaches P cfg now el (R_Discovering pc t ts outcomes, answers, g)
    (R_Reading ts (outcomes @ [(t, outcome)]), rest, g')"
  using assms
proof (induction fuel arbitrary: pc answers g)
  case (Suc fuel)
  show ?case
  proof (cases "\<exists>o1. pc = Done o1")
    case True
    with Suc.prems show ?thesis by (auto intro!: reaches_step)
  next
    case False
    show ?thesis
    proof (cases "awaits_answer pc")
      case aw: True
      with Suc.prems False obtain a as where answers: "answers = a # as"
        by (cases answers; cases pc) auto
      with Suc.prems aw False obtain pc1 g1 where
        "discover_step P cfg t Reconciliation (Some a) now el pc g = Some (pc1, g1)"
        "discover_run fuel P cfg t Reconciliation now el pc1 as g1 = Some (outcome, rest, g')"
        by (cases pc) (auto simp: Option.bind_eq_Some_conv)
      then have "reaches P cfg now el (R_Discovering pc t ts outcomes, a # as, g) (R_Discovering pc1 t ts outcomes, as, g1)"
        using aw by (intro reaches_answer discovering_step [OF False]) simp_all
      with Suc.IH [OF \<open>discover_run fuel P cfg t Reconciliation now el pc1 as g1 = _\<close>] show ?thesis
        unfolding answers by (blast intro: reaches_trans)
    next
      case aw: False
      with Suc.prems False obtain pc1 g1 where
        "discover_step P cfg t Reconciliation None now el pc g = Some (pc1, g1)"
        "discover_run fuel P cfg t Reconciliation now el pc1 answers g1 = Some (outcome, rest, g')"
        by (cases pc) (auto simp: Option.bind_eq_Some_conv simp del: discover_step.simps)
      then have "reaches P cfg now el (R_Discovering pc t ts outcomes, answers, g) (R_Discovering pc1 t ts outcomes, answers, g1)"
        using aw by (intro reaches_step discovering_step [OF False]) simp_all
      with Suc.IH [OF \<open>discover_run fuel P cfg t Reconciliation now el pc1 answers g1 = _\<close>] show ?thesis
        by (blast intro: reaches_trans)
    qed
  qed
qed simp

lemma reaches_reads:
  assumes "read_candidates P cfg now el ts outcomes answers g = Some (outcomes', rest, g')"
  shows "reaches P cfg now el (R_Reading ts outcomes, answers, g) (R_Done (Inr outcomes'), rest, g')"
  using assms
proof (induction ts arbitrary: outcomes answers g)
  case Nil
  then show ?case by (auto intro!: reaches_step)
next
  case (Cons t ts)
  let ?g1 = "call ''thread/read'' (read_params (api P) t) g"
  from Cons.prems obtain a as where answers: "answers = a # as"
    by (cases answers) (auto simp: Let_def)
  have sent: "reaches P cfg now el (R_Reading (t # ts) outcomes, answers, g) (R_AwaitingThread t ts outcomes, answers, ?g1)"
    by (rule reaches_step) simp_all
  have got: "reaches P cfg now el (R_AwaitingThread t ts outcomes, answers, ?g1) (thread_answered P t ts outcomes a, as, ?g1)"
    unfolding answers by (rule reaches_answer) simp_all
  define thread where "thread = (case a of Inl _ \<Rightarrow> None | Inr v \<Rightarrow> get (api P) v ''thread'')"
  show ?case
  proof (cases "is_some_and thread (thread_is_active (api P))")
    case False
    with Cons.prems have "read_candidates P cfg now el ts outcomes as ?g1 = Some (outcomes', rest, g')"
      by (simp add: answers thread_def Let_def)
    from Cons.IH [OF this] have "reaches P cfg now el (R_Reading ts outcomes, as, ?g1) (R_Done (Inr outcomes'), rest, g')" .
    moreover have "thread_answered P t ts outcomes a = R_Reading ts outcomes"
      using False by (auto simp: thread_answered_def thread_def split: option.splits)
    ultimately show ?thesis using reaches_trans [OF sent reaches_trans [OF got]] by simp
  next
    case True
    then obtain v where v: "thread = Some v" "thread_is_active (api P) v" by (cases thread) auto
    let ?g2 = "?g1\<lparr>ti_reducer := reconcile_thread (api P) v (ti_reducer ?g1)\<rparr>"
    from Cons.prems v have "Option.bind (discover P cfg t Reconciliation now el as ?g2)
        (\<lambda>(outcome, rest', g3). read_candidates P cfg now el ts (outcomes @ [(t, outcome)]) rest' g3) =
        Some (outcomes', rest, g')"
      by (simp add: answers thread_def Let_def)
    then obtain outcome rest1 g3 where
      d: "discover P cfg t Reconciliation now el as ?g2 = Some (outcome, rest1, g3)"
      and r: "read_candidates P cfg now el ts (outcomes @ [(t, outcome)]) rest1 g3 = Some (outcomes', rest, g')"
      by (auto simp: Option.bind_eq_Some_conv)
    have "thread_answered P t ts outcomes a = R_Applying v t ts outcomes"
      using v by (simp add: thread_answered_def flip: thread_def)
    with got have "reaches P cfg now el (R_AwaitingThread t ts outcomes, answers, ?g1) (R_Applying v t ts outcomes, as, ?g1)"
      by simp
    moreover have "reaches P cfg now el (R_Applying v t ts outcomes, as, ?g1) (R_Discovering Claim t ts outcomes, as, ?g2)"
      by (rule reaches_step) simp_all
    moreover from d have "reaches P cfg now el (R_Discovering Claim t ts outcomes, as, ?g2)
        (R_Reading ts (outcomes @ [(t, outcome)]), rest1, g3)"
      unfolding discover_def by (rule reaches_discovery)
    ultimately show ?thesis using sent Cons.IH [OF r] by (blast intro: reaches_trans)
  qed
qed

lemma reaches_listing:
  assumes "list_pages P cfg previous pages cur newest candidates answers g = Some (r, rest, g')"
  shows "reaches P cfg now el (R_Listing pages cur previous newest candidates, answers, g)
    (case r of Inl e \<Rightarrow> (R_Done (Inl e), rest, g')
     | Inr (newest', candidates') \<Rightarrow> (R_Reading candidates' [], rest, g'\<lparr>watermark := newest'\<rparr>))"
  using assms
proof (induction pages arbitrary: cur newest candidates answers g)
  case 0
  then show ?case by (auto intro!: reaches_step simp: end_listing_def)
next
  case (Suc pages)
  show ?case
  proof (cases "length candidates \<ge> reconcile_candidate_limit cfg")
    case True
    with Suc.prems show ?thesis by (auto intro!: reaches_step simp: end_listing_def)
  next
    case False
    let ?g1 = "call ''thread/list'' (list_params (api P) cfg cur) g"
    from Suc.prems False obtain a as where answers: "answers = a # as"
      by (cases answers) (auto simp: Let_def)
    let ?pg = "page_answered P cfg pages previous newest candidates a ?g1"
    have "reaches P cfg now el (R_Listing (Suc pages) cur previous newest candidates, answers, g)
        (R_AwaitingPage pages previous newest candidates, answers, ?g1)"
      using False by (intro reaches_step) simp_all
    moreover have "reaches P cfg now el (R_AwaitingPage pages previous newest candidates, answers, ?g1) (fst ?pg, as, snd ?pg)"
      unfolding answers by (rule reaches_answer) simp_all
    moreover have "reaches P cfg now el (fst ?pg, as, snd ?pg)
        (case r of Inl e \<Rightarrow> (R_Done (Inl e), rest, g')
         | Inr (newest', candidates') \<Rightarrow> (R_Reading candidates' [], rest, g'\<lparr>watermark := newest'\<rparr>))"
    proof (cases "case a of Inl e \<Rightarrow> None | Inr result \<Rightarrow> Option.bind (get (api P) result ''data'') (as_array (api P))")
      case None
      with Suc.prems False show ?thesis
        by (auto simp: answers page_answered_def Let_def split: sum.splits)
    next
      case (Some data)
      then obtain result where a: "a = Inr result"
        and data: "Option.bind (get (api P) result ''data'') (as_array (api P)) = Some data"
        by (auto split: sum.splits)
      obtain newest' reached candidates' where
        scan: "scan_page (api P) cfg previous data newest candidates = (newest', reached, candidates')"
        by (metis prod_cases3)
      let ?cur = "get_str (api P) result ''nextCursor''"
      show ?thesis
      proof (cases "reached \<or> ?cur = None")
        case True
        with Suc.prems False show ?thesis
          by (auto simp: answers a data scan page_answered_def end_listing_def Let_def)
      next
        case False
        with Suc.prems \<open>\<not> reconcile_candidate_limit cfg \<le> length candidates\<close>
        have "list_pages P cfg previous pages ?cur newest' candidates' as ?g1 = Some (r, rest, g')"
          by (simp add: answers a data scan Let_def)
        from Suc.IH [OF this] False show ?thesis
          by (auto simp: a data scan page_answered_def Let_def)
      qed
    qed
    ultimately show ?thesis by (blast intro: reaches_trans)
  qed
qed

lemma reconcile_reaches_end:
  assumes "reconcile P cfg now el answers g = Some (result, rest, g')"
  shows "reaches P cfg now el (start_reconcile cfg g, answers, g) (R_Done result, rest, g')"
proof -
  from assms obtain r rest1 g1 where
    l: "list_pages P cfg (watermark g) (reconcile_page_bound cfg) None (watermark g) [] answers g = Some (r, rest1, g1)"
    by (auto simp: reconcile_def Let_def split: option.splits)
  note listing = reaches_listing [OF l, of now el, folded start_reconcile_def]
  show ?thesis
  proof (cases r)
    case (Inl e)
    with assms l listing show ?thesis by (auto simp: reconcile_def Let_def)
  next
    case (Inr nc)
    then obtain newest candidates where nc: "r = Inr (newest, candidates)" by (cases nc) auto
    with assms l obtain outcomes where result: "result = Inr outcomes"
      and "read_candidates P cfg now el candidates [] rest1 (g1\<lparr>watermark := newest\<rparr>) = Some (outcomes, rest, g')"
      by (auto simp: reconcile_def Let_def)
    from reaches_reads [OF this(2)] listing nc result show ?thesis by (auto intro: reaches_trans)
  qed
qed

section \<open>What a reconciliation touches\<close>

text \<open>Reconciliations and discoveries reach the reducer through its subscription operations only.\<close>

definition subscription_op :: "'v reducer_op \<Rightarrow> bool" where
  "subscription_op x = (case x of Apply _ \<Rightarrow> False | _ \<Rightarrow> True)"

lemma discover_step_reducer:
  assumes "discover_step P cfg t source ans now el pc g = Some (pc', g')"
  shows "\<exists>ops. list_all subscription_op ops \<and> ti_reducer g' = foldl (reducer_step (api P)) (ti_reducer g) ops"
proof -
  have none: "ti_reducer g' = ti_reducer g \<Longrightarrow> ?thesis" by (intro exI [of _ "[]"]) simp
  have one: "subscription_op x \<Longrightarrow> ti_reducer g' = reducer_step (api P) (ti_reducer g) x \<Longrightarrow> ?thesis" for x
    by (intro exI [of _ "[x]"]) simp
  show ?thesis
  proof (cases pc)
    case BeginSubscription
    with assms show ?thesis by (intro one [of "Begin t"]) (auto simp: subscription_op_def)
  next
    case (Cancelling o')
    with assms show ?thesis by (intro one [of "Cancel t"]) (auto simp: subscription_op_def)
  next
    case FinishSubscription
    with assms show ?thesis by (intro one [of "Finish t"]) (auto simp: subscription_op_def)
  next
    case (Reconciling v)
    with assms show ?thesis by (intro one [of "Reconcile v"]) (auto simp: subscription_op_def)
  qed (rule none; use assms in \<open>force simp: claim_def Let_def split: if_splits option.splits\<close>)+
qed

lemma page_answered_frame [simp]:
  "ti_reducer (snd (page_answered P cfg pages previous newest candidates a g)) = ti_reducer g"
  "ti_store (snd (page_answered P cfg pages previous newest candidates a g)) = ti_store g"
  by (simp_all add: page_answered_def end_listing_def Let_def split: sum.splits option.splits prod.splits)

lemma reconcile_step_reducer:
  assumes "reconcile_step P cfg ans now el pc g = Some (pc', g')"
  shows "\<exists>ops. list_all subscription_op ops \<and> ti_reducer g' = foldl (reducer_step (api P)) (ti_reducer g) ops"
proof -
  have none: "ti_reducer g' = ti_reducer g \<Longrightarrow> ?thesis" by (intro exI [of _ "[]"]) simp
  show ?thesis
  proof (cases pc)
    case (R_Listing pages cur previous newest candidates)
    with assms show ?thesis by (intro none) (auto simp: end_listing_def split: nat.splits if_splits)
  next
    case (R_AwaitingPage pages previous newest candidates)
    with assms obtain a where "page_answered P cfg pages previous newest candidates a g = (pc', g')" by auto
    with page_answered_frame(1) [of P cfg pages previous newest candidates a g] show ?thesis
      by (intro none) simp
  next
    case (R_Reading candidates outcomes)
    with assms show ?thesis by (intro none) (auto split: list.splits)
  next
    case (R_AwaitingThread t ts outcomes)
    with assms show ?thesis by (intro none) auto
  next
    case (R_Applying v t ts outcomes)
    with assms show ?thesis by (intro exI [of _ "[Reconcile v]"]) (auto simp: subscription_op_def)
  next
    case (R_Discovering d t ts outcomes)
    show ?thesis
    proof (cases "\<exists>o'. d = Done o'")
      case True
      with R_Discovering assms show ?thesis by (intro none) auto
    next
      case False
      with R_Discovering assms obtain d' where
        "discover_step P cfg t Reconciliation ans now el d g = Some (d', g')"
        by (auto simp del: discover_step.simps split: discover_pc.splits)
      then show ?thesis by (rule discover_step_reducer)
    qed
  qed (use assms in simp)
qed

text \<open>The split machine implements the reconciliation: whenever \<open>reconcile\<close> returns, the machine,
  run by itself on the same answers with enough fuel, ends with the same result, the same answers
  left, and the same state; and it then does so for every larger fuel.
\<close>

theorem reconcile_machine_is_reconcile:
  assumes "reconcile P cfg now elapsed answers g = Some (result, rest, g')"
  shows "\<exists>n. \<forall>fuel \<ge> n. reconcile_run fuel P cfg now elapsed (start_reconcile cfg g) answers g = Some (result, rest, g')"
proof -
  from reconcile_reaches_end [OF assms] obtain n where
    n: "\<And>fuel. reconcile_run (n + fuel) P cfg now elapsed (start_reconcile cfg g) answers g =
        reconcile_run fuel P cfg now elapsed (R_Done result) rest g'"
    unfolding reaches_def by auto
  have "reconcile_run fuel P cfg now elapsed (start_reconcile cfg g) answers g = Some (result, rest, g')"
    if "Suc n \<le> fuel" for fuel
  proof -
    from that obtain k where "fuel = n + Suc k" by (metis add_Suc_right add_Suc le_Suc_ex)
    with n [of "Suc k"] show ?thesis by simp
  qed
  then show ?thesis by blast
qed

theorem reconcile_machine_is_reconcile_witness:
  "\<exists>n. \<forall>fuel \<ge> n. reconcile_run fuel test_parts default_ingest_config 0 0
     (start_reconcile default_ingest_config (new_ingestor default_ingest_config (empty_reducer 1)))
     [Inl TransportClosed] (new_ingestor default_ingest_config (empty_reducer 1)) =
     Some (Inl (Request TransportClosed), [],
       call ''thread/list'' (list_params (api test_parts) default_ingest_config None)
         (new_ingestor default_ingest_config (empty_reducer 1)))"
  by (rule reconcile_machine_is_reconcile)
     (simp add: reconcile_def default_ingest_config_def new_ingestor_def Let_def numeral_eq_Suc)

end
