(* ===== verification/Control.thy ===== *)
theory Control
  imports Reducer Rpc
begin

text \<open>
  Control actions (\<open>src/control/src/lib.rs\<close>): interrupting, steering and starting turns, with
  retries for requests that were surely not written, a confirmation waiter registered before
  the request, and an outcome that says no more than was observed. Inputs of an action are the
  answers its requests get and the reducer operations of the ingress that take place between
  the registration of the waiter and the end of its window.
\<close>

section \<open>Data\<close>

record ControlConfig =
  correlation_window :: nat
  not_written_retries :: nat
  control_retry_delay :: nat

definition default_control_config :: ControlConfig where
  "default_control_config = \<lparr>correlation_window = 3000, not_written_retries = 2, control_retry_delay = 100\<rparr>"

datatype ActionTarget = Turn string string | Thread string

fun target_thread :: "ActionTarget \<Rightarrow> string" where
  "target_thread (Turn t _) = t"
| "target_thread (Thread t) = t"

record Evidence =
  action_correlation :: u64
  rpc_accepted :: bool
  observed_sequence :: "u64 option"
  observed_method :: "string option"
  ev_note :: string

datatype 'v ActionOutcome =
    Confirmed ActionTarget Evidence
  | ActionRejected ActionTarget string "'v option"
  | OutcomeUnknown ActionTarget Evidence

text \<open>
  \<open>thread_locks\<close> maps a thread to the number of its mutex, \<open>next_lock\<close> numbers them;
  \<open>asked\<close> is what the client was asked: whether by \<open>request_action\<close>, the method and the parameters.
\<close>

record 'v Controller =
  ct_reducer :: "'v Reducer"
  thread_locks :: "string \<rightharpoonup> nat"
  next_lock :: nat
  next_correlation :: u64
  asked :: "(bool \<times> string \<times> 'v) list"

definition new_controller :: "'v Reducer \<Rightarrow> 'v Controller" where
  "new_controller r =
     \<lparr>ct_reducer = r, thread_locks = Map.empty, next_lock = 0, next_correlation = 1, asked = []\<rparr>"

definition lock_for :: "string \<Rightarrow> 'v Controller \<Rightarrow> nat \<times> 'v Controller" where
  "lock_for t c =
     (case thread_locks c t of
        Some l \<Rightarrow> (l, c)
      | None \<Rightarrow> (next_lock c,
          c\<lparr>thread_locks := (thread_locks c)(t \<mapsto> next_lock c), next_lock := Suc (next_lock c)\<rparr>))"

text \<open>\<open>fetch_add\<close> on the correlation counter.\<close>

definition take_correlation :: "'v Controller \<Rightarrow> u64 \<times> 'v Controller" where
  "take_correlation c = (next_correlation c, c\<lparr>next_correlation := next_correlation c + 1\<rparr>)"

definition ask :: "bool \<Rightarrow> string \<Rightarrow> 'v \<Rightarrow> 'v Controller \<Rightarrow> 'v Controller" where
  "ask action m p c = c\<lparr>asked := asked c @ [(action, m, p)]\<rparr>"

definition await :: "'v json \<Rightarrow> 'v reducer_op list \<Rightarrow> 'v Controller \<Rightarrow> 'v Controller" where
  "await J during c = c\<lparr>ct_reducer := foldl (reducer_step J) (ct_reducer c) during\<rparr>"

definition register :: "('v SequencedEvent \<Rightarrow> bool) \<Rightarrow> 'v Controller \<Rightarrow> nat \<times> 'v Controller" where
  "register p c =
     (let (ch, r) = register_waiter p (ct_reducer c) in (ch, c\<lparr>ct_reducer := r\<rparr>))"

definition observed :: "u64 \<Rightarrow> bool \<Rightarrow> 'v SequencedEvent \<Rightarrow> string \<Rightarrow> Evidence" where
  "observed correlation accepted e text =
     \<lparr>action_correlation = correlation, rpc_accepted = accepted, observed_sequence = Some (sequence e),
      observed_method = event_method e, ev_note = text\<rparr>"

definition unknown :: "u64 \<Rightarrow> bool \<Rightarrow> string \<Rightarrow> Evidence" where
  "unknown correlation accepted text =
     \<lparr>action_correlation = correlation, rpc_accepted = accepted, observed_sequence = None,
      observed_method = None, ev_note = text\<rparr>"

section \<open>Sending\<close>

text \<open>\<open>None\<close>: the answer of the last request is still awaited.\<close>

fun send_not_written_safe ::
    "ControlConfig \<Rightarrow> nat \<Rightarrow> string \<Rightarrow> 'v \<Rightarrow> 'v answer list \<Rightarrow> 'v Controller \<Rightarrow>
     ('v answer \<times> 'v answer list \<times> 'v Controller) option" where
  "send_not_written_safe cfg retries m p [] c = None"
| "send_not_written_safe cfg retries m p (a # answers) c =
     (case a of
        Inl (NotWritten d) \<Rightarrow>
          if retries < not_written_retries cfg
          then send_not_written_safe cfg (retries + 1) m p answers (ask True m p c)
          else Some (a, answers, ask True m p c)
      | _ \<Rightarrow> Some (a, answers, ask True m p c))"

section \<open>Interrupt\<close>

text \<open>\<open>turn["id"] == turn_id\<close>.\<close>

definition turn_status_terminal :: "'v json \<Rightarrow> 'v \<Rightarrow> string \<Rightarrow> bool" where
  "turn_status_terminal J response turn =
     is_some_and
       (Option.bind (Option.bind (Option.bind (Option.bind (get J response ''thread'')
          (\<lambda>thread. get J thread ''turns'')) (as_array J))
          (find (\<lambda>v. value_is_str J (index J v ''id'') turn)))
          (\<lambda>v. get_str J v ''status''))
       (\<lambda>status. status = ''completed'' \<or> status = ''failed'' \<or> status = ''interrupted'')"

definition reconcile_interrupt ::
    "'v json \<Rightarrow> string \<Rightarrow> string \<Rightarrow> u64 \<Rightarrow> bool \<Rightarrow> 'v answer list \<Rightarrow> 'v Controller \<Rightarrow>
     ('v ActionOutcome \<times> 'v answer list \<times> 'v Controller) option" where
  "reconcile_interrupt J t u correlation accepted answers c =
     (let c' = ask False ''thread/read''
             (jobj J [(''threadId'', jstr J t), (''includeTurns'', jbool J True)]) c
      in case answers of
           [] \<Rightarrow> None
         | a # rest \<Rightarrow>
             (let terminal = (case a of Inl _ \<Rightarrow> False | Inr v \<Rightarrow> turn_status_terminal J v u);
                  evidence = unknown correlation accepted
                    (if terminal then ''target turn is terminal on reconciliation; correlation is not causation''
                     else ''no unique terminal evidence for target turn'')
              in Some (if terminal then Confirmed (Turn t u) evidence else OutcomeUnknown (Turn t u) evidence,
                   rest, c')))"

definition completes :: "string \<Rightarrow> string \<Rightarrow> 'v SequencedEvent \<Rightarrow> bool" where
  "completes t u e =
     (event_method e = Some ''turn/completed'' \<and> thread_id e = Some t \<and> turn_id e = Some u)"

definition interrupt ::
    "'v json \<Rightarrow> (RpcId \<Rightarrow> string) \<Rightarrow> ControlConfig \<Rightarrow> string \<Rightarrow> string \<Rightarrow> 'v answer list \<Rightarrow>
     'v reducer_op list \<Rightarrow> 'v Controller \<Rightarrow> ('v ActionOutcome \<times> 'v answer list \<times> 'v Controller) option" where
  "interrupt J D cfg t u answers during c0 =
     (let (lock, c1) = lock_for t c0;
          (correlation, c2) = take_correlation c1;
          (completion, c3) = register (completes t u) c2;
          params = jobj J [(''threadId'', jstr J t), (''turnId'', jstr J u)]
      in case send_not_written_safe cfg 0 ''turn/interrupt'' params answers c3 of
           None \<Rightarrow> None
         | Some (result, rest, c4) \<Rightarrow>
             (let c5 = await J during c4
              in case result of
                   Inr _ \<Rightarrow>
                     (case mailbox (ct_reducer c5) completion of
                        Some e \<Rightarrow> Some (Confirmed (Turn t u) (observed correlation True e
                          ''matching completion observed after interrupt; correlation is not proof of causation''), rest, c5)
                      | None \<Rightarrow> reconcile_interrupt J t u correlation True rest c5)
                 | Inl (Rejected m err) \<Rightarrow>
                     Some (ActionRejected (Turn t u) ''daemon rejected interrupt'' (Some err), rest, c5)
                 | Inl (WrittenOutcomeUnknown i m detail) \<Rightarrow> reconcile_interrupt J t u correlation False rest c5
                 | Inl (TimedOut m) \<Rightarrow> reconcile_interrupt J t u correlation False rest c5
                 | Inl error \<Rightarrow> Some (ActionRejected (Turn t u) (error_text J D error) None, rest, c5)))"

section \<open>Steer\<close>

definition response_outcome ::
    "'v json \<Rightarrow> (RpcId \<Rightarrow> string) \<Rightarrow> string \<Rightarrow> string \<Rightarrow> string \<Rightarrow> u64 \<Rightarrow> 'v answer \<Rightarrow> 'v ActionOutcome" where
  "response_outcome J D m t u correlation result =
     (case result of
        Inr _ \<Rightarrow> Confirmed (Turn t u) (unknown correlation True
          ''daemon accepted the explicitly targeted request'')
      | Inl (Rejected m' err) \<Rightarrow> ActionRejected (Turn t u) (''daemon rejected '' @ m) (Some err)
      | Inl (WrittenOutcomeUnknown i m' detail) \<Rightarrow> OutcomeUnknown (Turn t u) (unknown correlation False
          ''ambiguous steer cannot be uniquely confirmed and was not resent'')
      | Inl (TimedOut m') \<Rightarrow> OutcomeUnknown (Turn t u) (unknown correlation False
          ''ambiguous steer cannot be uniquely confirmed and was not resent'')
      | Inl error \<Rightarrow> ActionRejected (Turn t u) (error_text J D error) None)"

definition rpc_response_action ::
    "'v json \<Rightarrow> (RpcId \<Rightarrow> string) \<Rightarrow> ControlConfig \<Rightarrow> string \<Rightarrow> string \<Rightarrow> string \<Rightarrow> 'v list \<Rightarrow> 'v answer list \<Rightarrow>
     'v Controller \<Rightarrow> ('v ActionOutcome \<times> 'v answer list \<times> 'v Controller) option" where
  "rpc_response_action J D cfg m t u input answers c0 =
     (let (lock, c1) = lock_for t c0;
          (correlation, c2) = take_correlation c1;
          params = jobj J [(''threadId'', jstr J t), (''expectedTurnId'', jstr J u), (''input'', jarr J input)]
      in map_option (\<lambda>(result, rest, c3). (response_outcome J D m t u correlation result, rest, c3))
           (send_not_written_safe cfg 0 m params answers c2))"

definition steer ::
    "'v json \<Rightarrow> (RpcId \<Rightarrow> string) \<Rightarrow> ControlConfig \<Rightarrow> string \<Rightarrow> string \<Rightarrow> 'v list \<Rightarrow> 'v answer list \<Rightarrow>
     'v Controller \<Rightarrow> ('v ActionOutcome \<times> 'v answer list \<times> 'v Controller) option" where
  "steer J D cfg t u input answers c = rpc_response_action J D cfg ''turn/steer'' t u input answers c"

section \<open>Start\<close>

definition starts_on :: "string \<Rightarrow> 'v SequencedEvent \<Rightarrow> bool" where
  "starts_on t e = (event_method e = Some ''turn/started'' \<and> thread_id e = Some t)"

definition response_turn_id :: "'v json \<Rightarrow> 'v \<Rightarrow> string option" where
  "response_turn_id J response =
     Option.bind (or_else (get_path J response ''turn'' ''id'') (get J response ''turnId'')) (as_str J)"

definition start_outcome ::
    "'v json \<Rightarrow> (RpcId \<Rightarrow> string) \<Rightarrow> string \<Rightarrow> u64 \<Rightarrow> 'v answer \<Rightarrow> 'v SequencedEvent option \<Rightarrow> 'v ActionOutcome" where
  "start_outcome J D t correlation result seen_event =
     (case result of
        Inr response \<Rightarrow>
          (let response_turn = response_turn_id J response
           in if response_turn \<noteq> None \<and> is_some_and seen_event (\<lambda>e. turn_id e = response_turn)
              then Confirmed (Thread t) (observed correlation True (the seen_event)
                     ''turn/started id matches the id returned by turn/start'')
              else if response_turn \<noteq> None then Confirmed (Thread t) (unknown correlation True
                     ''daemon returned a unique created turn id; concurrent GUI starts are not attributed'')
              else OutcomeUnknown (Thread t) (unknown correlation True ''response lacked a unique turn id''))
      | Inl (Rejected m err) \<Rightarrow> ActionRejected (Thread t) ''daemon rejected turn/start'' (Some err)
      | Inl (WrittenOutcomeUnknown i m detail) \<Rightarrow> OutcomeUnknown (Thread t) (unknown correlation False
          ''write may have succeeded; reconciliation cannot distinguish a concurrent GUI start'')
      | Inl (TimedOut m) \<Rightarrow> OutcomeUnknown (Thread t) (unknown correlation False
          ''write may have succeeded; reconciliation cannot distinguish a concurrent GUI start'')
      | Inl error \<Rightarrow> ActionRejected (Thread t) (error_text J D error) None)"

definition start ::
    "'v json \<Rightarrow> (RpcId \<Rightarrow> string) \<Rightarrow> ControlConfig \<Rightarrow> string \<Rightarrow> 'v list \<Rightarrow> 'v answer list \<Rightarrow>
     'v reducer_op list \<Rightarrow> 'v Controller \<Rightarrow> ('v ActionOutcome \<times> 'v answer list \<times> 'v Controller) option" where
  "start J D cfg t input answers during c0 =
     (let (lock, c1) = lock_for t c0;
          (correlation, c2) = take_correlation c1;
          (started, c3) = register (starts_on t) c2;
          params = jobj J [(''threadId'', jstr J t), (''input'', jarr J input)]
      in map_option (\<lambda>(result, rest, c4).
           (let c5 = await J during c4
            in (start_outcome J D t correlation result (mailbox (ct_reducer c5) started), rest, c5)))
           (send_not_written_safe cfg 0 ''turn/start'' params answers c3))"

section \<open>Lemmas\<close>

lemma frame_controller [simp]:
  "ct_reducer (snd (lock_for t c)) = ct_reducer c" "asked (snd (lock_for t c)) = asked c"
  "next_correlation (snd (lock_for t c)) = next_correlation c"
  "ct_reducer (snd (take_correlation c)) = ct_reducer c" "asked (snd (take_correlation c)) = asked c"
  "fst (take_correlation c) = next_correlation c"
  "asked (snd (register p c)) = asked c" "asked (await J during c) = asked c"
  "ct_reducer (ask b m v c) = ct_reducer c" "asked (ask b m v c) = asked c @ [(b, m, v)]"
  "ct_reducer (await J during c) = foldl (reducer_step J) (ct_reducer c) during"
  by (simp_all add: lock_for_def take_correlation_def register_def await_def ask_def split: option.splits prod.splits)

lemma register_parts [simp]:
  "fst (register p c) = fst (register_waiter p (ct_reducer c))"
  "ct_reducer (snd (register p c)) = snd (register_waiter p (ct_reducer c))"
  by (simp_all add: register_def split: prod.splits)

text \<open>The answer of a request that surely did not reach the daemon.\<close>

fun unsent :: "'v answer \<Rightarrow> bool" where
  "unsent (Inl err) = surely_not_written err"
| "unsent (Inr _) = False"

lemma unsent_iff: "unsent a \<longleftrightarrow> (\<exists>d. a = Inl (NotWritten d))"
  by (cases a; cases "projl a") auto

lemma send_spec:
  assumes "send_not_written_safe cfg k m p answers c = Some (a, rest, c')"
  shows "\<exists>sent. answers = sent @ a # rest \<and> list_all unsent sent \<and>
    length sent \<le> not_written_retries cfg - k \<and>
    asked c' = asked c @ replicate (Suc (length sent)) (True, m, p) \<and> ct_reducer c' = ct_reducer c \<and>
    (unsent a \<longrightarrow> not_written_retries cfg \<le> k + length sent)"
  using assms
proof (induction cfg k m p answers c rule: send_not_written_safe.induct)
  case (2 cfg k m p x answers c)
  show ?case
  proof (cases "unsent x \<and> k < not_written_retries cfg")
    case True
    then obtain d where x: "x = Inl (NotWritten d)" by (auto simp: unsent_iff)
    with True "2.prems" have "send_not_written_safe cfg (k + 1) m p answers (ask True m p c) = Some (a, rest, c')"
      by simp
    from "2.IH" [OF x refl _ this] True obtain sent where sent: "answers = sent @ a # rest" "list_all unsent sent"
      "length sent \<le> not_written_retries cfg - (k + 1)"
      "asked c' = asked (ask True m p c) @ replicate (Suc (length sent)) (True, m, p)"
      "ct_reducer c' = ct_reducer (ask True m p c)"
      "unsent a \<longrightarrow> not_written_retries cfg \<le> k + 1 + length sent" by auto
    with True x show ?thesis by (intro exI [of _ "x # sent"]) auto
  next
    case False
    with "2.prems" have "a = x \<and> rest = answers \<and> c' = ask True m p c"
      by (auto simp: unsent_iff split: sum.splits RequestError.splits if_splits)
    with False show ?thesis by (intro exI [of _ "[]"]) auto
  qed
qed simp

text \<open>
  What a request's history may look like: it is repeated only after answers that say it was
  not written, and not more often than configured; \<open>others\<close> is what was asked besides, none
  of it an action.
\<close>

definition sent_at_most_once ::
    "ControlConfig \<Rightarrow> string \<Rightarrow> 'v \<Rightarrow> 'v answer list \<Rightarrow> (bool \<times> string \<times> 'v) list \<Rightarrow> bool" where
  "sent_at_most_once cfg m p answers history \<longleftrightarrow>
     (\<exists>sent a rest others. answers = sent @ a # rest \<and> list_all unsent sent \<and>
        length sent \<le> not_written_retries cfg \<and>
        history = replicate (Suc (length sent)) (True, m, p) @ others \<and>
        list_all (\<lambda>(action, _). \<not> action) others)"

lemma send_at_most_once:
  assumes "send_not_written_safe cfg 0 m p answers c = Some (a, rest, c')"
    and "history = drop (length (asked c)) (asked c') @ others" "list_all (\<lambda>(action, _). \<not> action) others"
  shows "sent_at_most_once cfg m p answers history"
proof -
  from send_spec [OF assms(1)] obtain sent where
    "answers = sent @ a # rest" "list_all unsent sent" "length sent \<le> not_written_retries cfg"
    "drop (length (asked c)) (asked c') = replicate (Suc (length sent)) (True, m, p)"
    by auto
  with assms(2,3) show ?thesis unfolding sent_at_most_once_def by blast
qed

lemma reconcile_interrupt_spec:
  assumes "reconcile_interrupt J t u n b answers c = Some (out, rest, c')"
  shows "\<exists>a p. answers = a # rest \<and> asked c' = asked c @ [(False, ''thread/read'', p)] \<and>
    (if case a of Inl _ \<Rightarrow> False | Inr v \<Rightarrow> turn_status_terminal J v u
     then out = Confirmed (Turn t u) (unknown n b ''target turn is terminal on reconciliation; correlation is not causation'')
     else out = OutcomeUnknown (Turn t u) (unknown n b ''no unique terminal evidence for target turn''))"
  using assms by (auto simp: reconcile_interrupt_def Let_def split: list.splits)

definition interrupt_params :: "'v json \<Rightarrow> string \<Rightarrow> string \<Rightarrow> 'v" where
  "interrupt_params J t u = jobj J [(''threadId'', jstr J t), (''turnId'', jstr J u)]"

definition steer_params :: "'v json \<Rightarrow> string \<Rightarrow> string \<Rightarrow> 'v list \<Rightarrow> 'v" where
  "steer_params J t u input =
     jobj J [(''threadId'', jstr J t), (''expectedTurnId'', jstr J u), (''input'', jarr J input)]"

definition start_params :: "'v json \<Rightarrow> string \<Rightarrow> 'v list \<Rightarrow> 'v" where
  "start_params J t input = jobj J [(''threadId'', jstr J t), (''input'', jarr J input)]"

text \<open>What was asked since \<open>c\<close>.\<close>

definition asked_since :: "'v Controller \<Rightarrow> 'v Controller \<Rightarrow> (bool \<times> string \<times> 'v) list" where
  "asked_since c c' = drop (length (asked c)) (asked c')"

definition prepared :: "string \<Rightarrow> ('v SequencedEvent \<Rightarrow> bool) \<Rightarrow> 'v Controller \<Rightarrow> 'v Controller" where
  "prepared t p c = snd (register p (snd (take_correlation (snd (lock_for t c)))))"

lemma prepared_simps [simp]:
  "asked (prepared t p c) = asked c" "ct_reducer (prepared t p c) = snd (register_waiter p (ct_reducer c))"
  by (simp_all add: prepared_def)

text \<open>Interrupt by its phases: the decisive answer, then the waiter's mailbox.\<close>

definition interrupt_conclusion ::
    "'v json \<Rightarrow> (RpcId \<Rightarrow> string) \<Rightarrow> string \<Rightarrow> string \<Rightarrow> u64 \<Rightarrow> 'v SequencedEvent option \<Rightarrow> 'v answer \<Rightarrow>
     'v answer list \<Rightarrow> 'v Controller \<Rightarrow> ('v ActionOutcome \<times> 'v answer list \<times> 'v Controller) option" where
  "interrupt_conclusion J D t u n mail result rest c =
     (case result of
        Inr _ \<Rightarrow>
          (case mail of
             Some e \<Rightarrow> Some (Confirmed (Turn t u) (observed n True e
               ''matching completion observed after interrupt; correlation is not proof of causation''), rest, c)
           | None \<Rightarrow> reconcile_interrupt J t u n True rest c)
      | Inl (Rejected m err) \<Rightarrow> Some (ActionRejected (Turn t u) ''daemon rejected interrupt'' (Some err), rest, c)
      | Inl (WrittenOutcomeUnknown i m detail) \<Rightarrow> reconcile_interrupt J t u n False rest c
      | Inl (TimedOut m) \<Rightarrow> reconcile_interrupt J t u n False rest c
      | Inl error \<Rightarrow> Some (ActionRejected (Turn t u) (error_text J D error) None, rest, c))"

lemma interrupt_phases:
  "interrupt J D cfg t u answers during c =
     Option.bind (send_not_written_safe cfg 0 ''turn/interrupt'' (interrupt_params J t u) answers (prepared t (completes t u) c))
       (\<lambda>(result, rest, c').
          interrupt_conclusion J D t u (next_correlation c)
            (mailbox (foldl (reducer_step J) (ct_reducer c') during) (fst (register_waiter (completes t u) (ct_reducer c))))
            result rest (await J during c'))"
  unfolding interrupt_def Let_def case_prod_unfold frame_controller register_parts interrupt_params_def
    prepared_def interrupt_conclusion_def
  by (simp split: option.split)

lemma interrupt_conclusion_asked:
  assumes "interrupt_conclusion J D t u n mail result rest c = Some (out, rest', c')"
  shows "\<exists>others. asked c' = asked c @ others \<and> list_all (\<lambda>(action, _). \<not> action) others"
proof -
  consider "asked c' = asked c" | b where "reconcile_interrupt J t u n b rest c = Some (out, rest', c')"
    using assms unfolding interrupt_conclusion_def
    by (auto split: sum.splits RequestError.splits option.splits)
  then show ?thesis
  proof cases
    case (2 b)
    from reconcile_interrupt_spec [OF this] show ?thesis by auto
  qed auto
qed

section \<open>Properties\<close>

text \<open>C14. An action that may have reached the daemon is never sent again: whatever the answers, each of the
  three actions repeats its request only after answers that say it was not written, at most
  the configured number of times, and asks nothing else but reads.\<close>

theorem ambiguous_writes_never_resent:
  "(case interrupt J D cfg t u answers during c of None \<Rightarrow> True | Some (out, rest, c') \<Rightarrow>
      sent_at_most_once cfg ''turn/interrupt'' (interrupt_params J t u) answers (asked_since c c')) \<and>
   (case steer J D cfg t u input answers c of None \<Rightarrow> True | Some (out, rest, c') \<Rightarrow>
      sent_at_most_once cfg ''turn/steer'' (steer_params J t u input) answers (asked_since c c')) \<and>
   (case start J D cfg t input answers during c of None \<Rightarrow> True | Some (out, rest, c') \<Rightarrow>
      sent_at_most_once cfg ''turn/start'' (start_params J t input) answers (asked_since c c'))"
proof (intro conjI)
  have "sent_at_most_once cfg ''turn/interrupt'' (interrupt_params J t u) answers (asked_since c c')"
    if out: "interrupt J D cfg t u answers during c = Some (out, rest, c')" for out rest c'
  proof -
    from out obtain result rest1 c1 where send: "send_not_written_safe cfg 0 ''turn/interrupt'' (interrupt_params J t u) answers
        (prepared t (completes t u) c) = Some (result, rest1, c1)"
      and concl: "\<exists>mail. interrupt_conclusion J D t u (next_correlation c) mail result rest1 (await J during c1) = Some (out, rest, c')"
      by (auto simp: interrupt_phases bind_eq_Some_conv)
    from concl obtain others where "asked c' = asked c1 @ others" "list_all (\<lambda>(action, _). \<not> action) others"
      using interrupt_conclusion_asked by fastforce
    moreover from send_spec [OF send] have "length (asked c) \<le> length (asked c1)" by auto
    ultimately show ?thesis
      by (intro send_at_most_once [OF send]) (simp_all add: asked_since_def)
  qed
  then show "case interrupt J D cfg t u answers during c of None \<Rightarrow> True | Some (out, rest, c') \<Rightarrow>
      sent_at_most_once cfg ''turn/interrupt'' (interrupt_params J t u) answers (asked_since c c')"
    by (simp split: option.split)
  show "case steer J D cfg t u input answers c of None \<Rightarrow> True | Some (out, rest, c') \<Rightarrow>
      sent_at_most_once cfg ''turn/steer'' (steer_params J t u input) answers (asked_since c c')"
    by (auto simp: steer_def rpc_response_action_def Let_def case_prod_unfold steer_params_def asked_since_def
        split: option.split intro!: send_at_most_once [where others = "[]"])
  show "case start J D cfg t input answers during c of None \<Rightarrow> True | Some (out, rest, c') \<Rightarrow>
      sent_at_most_once cfg ''turn/start'' (start_params J t input) answers (asked_since c c')"
    by (auto simp: start_def Let_def case_prod_unfold start_params_def asked_since_def
        split: option.split intro!: send_at_most_once [where others = "[]"])
qed

text \<open>An accepted interrupt is confirmed by evidence, and evidence is not missed: the answer is the
  first completion of the targeted turn applied between the registration of the waiter and the
  end of the window, even if it came before the response; without one it is a turn found
  terminal on a read of the thread; without either it is unknown. The status with which the turn
  completed plays no part.\<close>

theorem accepted_interrupt_outcome:
  assumes "waiter_wf (ct_reducer c)"
  shows "map_option fst (interrupt J D cfg t u (Inr v # answers) during c) =
    (case find (completes t u) (applied during) of
       Some e \<Rightarrow> Some (Confirmed (Turn t u) (observed (next_correlation c) True e
         ''matching completion observed after interrupt; correlation is not proof of causation''))
     | None \<Rightarrow>
       (case answers of
          [] \<Rightarrow> None
        | a # _ \<Rightarrow> Some
            (if case a of Inl _ \<Rightarrow> False | Inr r \<Rightarrow> turn_status_terminal J r u
             then Confirmed (Turn t u) (unknown (next_correlation c) True
               ''target turn is terminal on reconciliation; correlation is not causation'')
             else OutcomeUnknown (Turn t u) (unknown (next_correlation c) True
               ''no unique terminal evidence for target turn''))))"
  using confirmations.first_match [OF assms, of J "completes t u" during]
  by (simp add: interrupt_phases interrupt_conclusion_def reconcile_interrupt_def Let_def
      split: option.split list.split)

theorem accepted_interrupt_outcome_witness:
  "let done = wire_event 2 ''turn/completed'' ''t'' ''u''
   in map_option fst (interrupt jv_api (\<lambda>_. []) default_control_config ''t'' ''u'' [Inr JNull]
        [Apply (wire_event 1 ''turn/completed'' ''t'' ''v''), Apply done] (new_controller (empty_reducer 4))) =
      Some (Confirmed (Turn ''t'' ''u'') (observed 1 True done
        ''matching completion observed after interrupt; correlation is not proof of causation''))"
  by (subst accepted_interrupt_outcome)
    (simp_all add: new_controller_def completes_def Let_def)

text \<open>An ambiguous interrupt is confirmed only by the thread's own record: when the outcome of a
  written request is unknown, events seen meanwhile are not used; the outcome is confirmed exactly when
  the read that follows shows the targeted turn terminal, and unknown otherwise.\<close>

theorem ambiguous_interrupt_outcome:
  "map_option fst (interrupt J D cfg t u [Inl (WrittenOutcomeUnknown i m detail), a] during c) =
     Some (if case a of Inl _ \<Rightarrow> False | Inr r \<Rightarrow> turn_status_terminal J r u
           then Confirmed (Turn t u) (unknown (next_correlation c) False
             ''target turn is terminal on reconciliation; correlation is not causation'')
           else OutcomeUnknown (Turn t u) (unknown (next_correlation c) False
             ''no unique terminal evidence for target turn''))"
  by (simp add: interrupt_phases interrupt_conclusion_def reconcile_interrupt_def Let_def)

text \<open>A start is confirmed by the daemon's answer, never inferred from the stream: the decisive answer
  alone chooses between confirmed, rejected and unknown. It is confirmed exactly when an accepted
  response names the created turn; the evidence cites an event only if it is a start of that
  thread and of that very turn, applied in the window; a lost response is unknown, whatever
  turn was seen starting.\<close>

theorem start_outcome_by_answer:
  assumes "waiter_wf (ct_reducer c)" "start J D cfg t input answers during c = Some (out, rest, c')"
  shows "\<exists>sent a. answers = sent @ a # rest \<and> list_all unsent sent \<and>
    (case a of
       Inr r \<Rightarrow> (case response_turn_id J r of
           None \<Rightarrow> \<exists>ev. out = OutcomeUnknown (Thread t) ev
         | Some turn \<Rightarrow> \<exists>ev. out = Confirmed (Thread t) ev \<and>
             (observed_sequence ev = None \<or>
              (\<exists>e \<in> set (applied during). starts_on t e \<and> turn_id e = Some turn \<and>
                 observed_sequence ev = Some (sequence e))))
     | Inl (Rejected m err) \<Rightarrow> out = ActionRejected (Thread t) ''daemon rejected turn/start'' (Some err)
     | Inl (WrittenOutcomeUnknown i m d) \<Rightarrow> \<exists>ev. out = OutcomeUnknown (Thread t) ev
     | Inl (TimedOut m) \<Rightarrow> \<exists>ev. out = OutcomeUnknown (Thread t) ev
     | Inl err \<Rightarrow> out = ActionRejected (Thread t) (error_text J D err) None)"
proof -
  let ?mail = "\<lambda>r. mailbox (foldl (reducer_step J) r during) (fst (register_waiter (starts_on t) (ct_reducer c)))"
  from assms(2) obtain result c1 where
    send: "send_not_written_safe cfg 0 ''turn/start'' (start_params J t input) answers (prepared t (starts_on t) c) =
      Some (result, rest, c1)"
    and out: "out = start_outcome J D t (next_correlation c) result (?mail (ct_reducer c1))"
    unfolding start_def Let_def case_prod_unfold frame_controller register_parts start_params_def prepared_def
    by auto
  from send_spec [OF send] obtain sent where sent: "answers = sent @ result # rest" "list_all unsent sent"
    and red: "ct_reducer c1 = snd (register_waiter (starts_on t) (ct_reducer c))" by auto
  have mail: "starts_on t e \<and> e \<in> set (applied during)" if "?mail (ct_reducer c1) = Some e" for e
    using confirmations.confirmed_satisfies [OF assms(1), of J "starts_on t" during e] that unfolding red .
  have "case result of
       Inr r \<Rightarrow> (case response_turn_id J r of
           None \<Rightarrow> \<exists>ev. out = OutcomeUnknown (Thread t) ev
         | Some turn \<Rightarrow> \<exists>ev. out = Confirmed (Thread t) ev \<and>
             (observed_sequence ev = None \<or>
              (\<exists>e \<in> set (applied during). starts_on t e \<and> turn_id e = Some turn \<and>
                 observed_sequence ev = Some (sequence e))))
     | Inl (Rejected m err) \<Rightarrow> out = ActionRejected (Thread t) ''daemon rejected turn/start'' (Some err)
     | Inl (WrittenOutcomeUnknown i m d) \<Rightarrow> \<exists>ev. out = OutcomeUnknown (Thread t) ev
     | Inl (TimedOut m) \<Rightarrow> \<exists>ev. out = OutcomeUnknown (Thread t) ev
     | Inl err \<Rightarrow> out = ActionRejected (Thread t) (error_text J D err) None"
    using mail unfolding out start_outcome_def Let_def
    by (cases "?mail (ct_reducer c1)")
      (auto simp: observed_def unknown_def split: sum.split RequestError.split option.split)
  with sent show ?thesis by blast
qed

theorem start_outcome_by_answer_witness:
  "\<exists>ev rest c'. start jv_api (\<lambda>_. []) default_control_config ''t'' [] [Inr (JObj [(''turnId'', JStr ''u'')])]
      [Apply (wire_event 3 ''turn/started'' ''t'' ''other'')] (new_controller (empty_reducer 4)) =
        Some (Confirmed (Thread ''t'') ev, rest, c') \<and> observed_sequence ev = None"
proof -
  let ?c = "new_controller (empty_reducer 4) :: jv Controller"
  let ?during = "[Apply (wire_event 3 ''turn/started'' ''t'' ''other'')]"
  let ?answers = "[Inr (JObj [(''turnId'', JStr ''u'')])] :: jv answer list"
  have wf: "waiter_wf (ct_reducer ?c)" by (simp add: new_controller_def)
  obtain out rest c' where run: "start jv_api (\<lambda>_. []) default_control_config ''t'' [] ?answers ?during ?c = Some (out, rest, c')"
    by (simp add: start_def Let_def case_prod_unfold)
  from start_outcome_by_answer [OF wf run] show ?thesis
    by (auto simp: response_turn_id_def get_path_def run append_eq_Cons_conv Cons_eq_append_conv)
qed

section \<open>Locks\<close>

definition locks_ok :: "'v Controller \<Rightarrow> bool" where
  "locks_ok c \<longleftrightarrow> (\<forall>t l. thread_locks c t = Some l \<longrightarrow> l < next_lock c) \<and>
     (\<forall>t u l. thread_locks c t = Some l \<longrightarrow> thread_locks c u = Some l \<longrightarrow> t = u)"

lemma locks_ok_step: "locks_ok c \<Longrightarrow> locks_ok (snd (lock_for t c))"
  by (fastforce simp: locks_ok_def lock_for_def split: option.splits if_splits)

lemma lock_for_registered: "thread_locks (snd (lock_for t c)) t = Some (fst (lock_for t c))"
  by (simp add: lock_for_def split: option.splits)

lemma lock_for_keeps: "thread_locks c t = Some l \<Longrightarrow> thread_locks (snd (lock_for u c)) t = Some l"
  by (auto simp: lock_for_def split: option.splits)

lemma locks_kept:
  "thread_locks c t = Some l \<Longrightarrow> thread_locks (foldl (\<lambda>c u. snd (lock_for u c)) c us) t = Some l"
  by (induction us arbitrary: c) (simp_all add: lock_for_keeps)

lemma locks_ok_run: "locks_ok c \<Longrightarrow> locks_ok (foldl (\<lambda>c u. snd (lock_for u c)) c us)"
  by (induction us arbitrary: c) (simp_all add: locks_ok_step)

text \<open>Actions on one thread share one mutex and actions on different threads never do, whatever
  locks are taken in between.\<close>

theorem one_lock_per_thread:
  "let c = foldl (\<lambda>c x. snd (lock_for x c)) (new_controller r) before;
       (l, c1) = lock_for t c;
       (l', c2) = lock_for u (foldl (\<lambda>c x. snd (lock_for x c)) c1 between)
   in l = l' \<longleftrightarrow> t = u"
proof -
  let ?run = "foldl (\<lambda>c x. snd (lock_for x c))"
  let ?c = "?run (new_controller r) before"
  let ?c1 = "snd (lock_for t ?c)"
  let ?c2 = "?run ?c1 between"
  have ok: "locks_ok ?c2"
    by (intro locks_ok_run locks_ok_step) (simp add: locks_ok_def new_controller_def)
  have t: "thread_locks ?c2 t = Some (fst (lock_for t ?c))"
    by (intro locks_kept lock_for_registered)
  then have "thread_locks (snd (lock_for u ?c2)) t = Some (fst (lock_for t ?c))" by (rule lock_for_keeps)
  with lock_for_registered [of u ?c2] locks_ok_step [OF ok, of u]
  have "fst (lock_for t ?c) = fst (lock_for u ?c2) \<longleftrightarrow> t = u"
    unfolding locks_ok_def by (metis option.inject)
  then show ?thesis by (simp add: Let_def case_prod_unfold)
qed

end
