(* ===== verification/Transport.thy ===== *)
theory Transport
  imports Rpc Os_Text
begin

text \<open>
  The reconnecting JSON-RPC transport (\<open>src/transport/src/lib.rs\<close>): the handle that submits
  requests behind the reconciliation gate, and the connection loop that owns the socket. The
  loop is a machine whose inputs are what its \<open>select!\<close> arms and its awaits yield: the result
  of connecting, of a write, a message, a tick, a command taken from the queue. The socket is what was
  written on it; a one-shot reply channel is a number, and \<open>replies\<close> is the log of what was sent on
  such channels.
\<close>

section \<open>State\<close>

record TransportConfig =
  socket_path :: string
  connect_timeout :: nat
  read_idle_timeout :: nat
  request_timeout :: nat
  retry_initial :: nat
  retry_max :: nat
  client_name :: string
  client_version :: string

text \<open>\<open>home\<close> is the value of \<open>HOME\<close>, \<open>version\<close> the version of the crate.\<close>

definition default_transport_config :: "string option \<Rightarrow> string \<Rightarrow> TransportConfig" where
  "default_transport_config home version =
     \<lparr>socket_path = path_join (unwrap_or home ''/var/empty'') ''.codex/app-server-control/app-server-control.sock'',
      connect_timeout = 3 * 1000, read_idle_timeout = 30 * 1000, request_timeout = 15 * 1000,
      retry_initial = 100, retry_max = 5 * 1000, client_name = ''codex-control'', client_version = version\<rparr>"

datatype ConnectionPhase =
    P_Connecting | P_Handshaking | P_Reconciling | P_Connected | P_Degraded | P_Stopped

record Health =
  phase :: ConnectionPhase
  reconnect_attempts :: u64
  last_frame_sequence :: u64
  detail :: "string option"

definition default_health :: Health where
  "default_health = \<lparr>phase = P_Connecting, reconnect_attempts = 0, last_frame_sequence = 0, detail = None\<rparr>"

datatype 'v Command =
    C_Request RpcId string 'v nat
  | C_Notify string 'v
  | C_Reconciled nat
  | C_Shutdown nat

record Pending =
  p_method :: string
  p_response :: nat

text \<open>Where the loop stands.\<close>

datatype loop_pc =
    Connecting | SendingInitialize | AwaitingInitialize | SendingInitialized
  | Driving | BackingOff string | Stopped

text \<open>
  The state the handle and the loop share, and the loop's own. \<open>pending\<close> is a map kept as a
  list, in the order its entries are visited.
\<close>

record 'v Link =
  pc :: loop_pc
  health :: Health
  attempts :: u64
  backoff :: nat
  seq :: u64
  reconcile_ready :: bool
  queue :: "'v Command list"
  next_id :: u64
  next_channel :: nat
  pending :: "(RpcId \<times> Pending) list"
  replies :: "(nat \<times> 'v answer) list"
  acknowledged :: "nat list"
  written :: "'v list"
  ingress :: "'v SequencedEvent list"
  inbound :: "'v SequencedEvent list"
  ingress_available :: bool

definition spawn :: "TransportConfig \<Rightarrow> 'v Link" where
  "spawn cfg =
     \<lparr>pc = Connecting, health = default_health, attempts = 0, backoff = retry_initial cfg, seq = 0,
      reconcile_ready = False, queue = [], next_id = 1, next_channel = 0, pending = [], replies = [],
      acknowledged = [], written = [], ingress = [], inbound = [], ingress_available = True\<rparr>"

section \<open>The handle\<close>

text \<open>
  The channel of the commands is bounded: while it holds as many as it can, a sender waits, outside
  the time-out of its request; once the loop has ended, it need not.
\<close>

definition command_capacity :: nat where
  "command_capacity = 256"

definition full :: "'v Link \<Rightarrow> bool" where
  "full s \<longleftrightarrow> pc s \<noteq> Stopped \<and> command_capacity \<le> length (queue s)"

text \<open>The receiver of the ingress is handed out once.\<close>

definition take_ingress :: "'v Link \<Rightarrow> bool \<times> 'v Link" where
  "take_ingress s = (ingress_available s, s\<lparr>ingress_available := False\<rparr>)"

definition is_reconciled :: "'v Link \<Rightarrow> bool" where
  "is_reconciled s = reconcile_ready s"

text \<open>
  The first half of \<open>request_inner\<close>: refused at the gate, or queued under a fresh id, where the
  channel of the commands has room; the reply is then awaited.
\<close>

definition submit :: "bool \<Rightarrow> string \<Rightarrow> 'v \<Rightarrow> 'v Link \<Rightarrow> ('v RequestError + nat) \<times> 'v Link" where
  "submit action m params s =
     (if action \<and> \<not> is_reconciled s then (Inl (NotWritten ''reconciliation gate is closed''), s)
      else (Inr (next_channel s),
        s\<lparr>next_id := next_id s + 1, next_channel := Suc (next_channel s),
          queue := queue s @ [C_Request (Number (next_id s)) m params (next_channel s)]\<rparr>))"

text \<open>The second half: what the wait on the channel yields.\<close>

datatype 'v waited = Replied "'v answer" | Dropped | Elapsed

fun request_result :: "string \<Rightarrow> 'v waited \<Rightarrow> 'v answer" where
  "request_result m (Replied a) = a"
| "request_result m Dropped = Inl TransportClosed"
| "request_result m Elapsed = Inl (TimedOut m)"

definition notify :: "string \<Rightarrow> 'v \<Rightarrow> 'v Link \<Rightarrow> 'v Link" where
  "notify m params s = s\<lparr>queue := queue s @ [C_Notify m params]\<rparr>"

text \<open>\<open>mark_reconciled\<close> raises the flag first and queues the command then; \<open>is_open\<close> is whether the
  loop still receives. Between the two it may wait for room.\<close>

definition raise_flag :: "'v Link \<Rightarrow> 'v Link" where
  "raise_flag s = s\<lparr>reconcile_ready := True\<rparr>"

definition offer_reconciled :: "bool \<Rightarrow> 'v Link \<Rightarrow> ('v RequestError + nat) \<times> 'v Link" where
  "offer_reconciled is_open s =
     (if is_open
      then (Inr (next_channel s), s\<lparr>next_channel := Suc (next_channel s),
              queue := queue s @ [C_Reconciled (next_channel s)]\<rparr>)
      else (Inl TransportClosed, s\<lparr>reconcile_ready := False\<rparr>))"

definition mark_reconciled :: "bool \<Rightarrow> 'v Link \<Rightarrow> ('v RequestError + nat) \<times> 'v Link" where
  "mark_reconciled is_open s = offer_reconciled is_open (raise_flag s)"

definition shutdown :: "'v Link \<Rightarrow> 'v Link" where
  "shutdown s =
     s\<lparr>next_channel := Suc (next_channel s), queue := queue s @ [C_Shutdown (next_channel s)]\<rparr>"

section \<open>Replies and pending requests\<close>

definition reply :: "nat \<Rightarrow> 'v answer \<Rightarrow> 'v Link \<Rightarrow> 'v Link" where
  "reply ch a s = s\<lparr>replies := replies s @ [(ch, a)]\<rparr>"

definition pending_insert :: "RpcId \<Rightarrow> Pending \<Rightarrow> (RpcId \<times> Pending) list \<Rightarrow> (RpcId \<times> Pending) list" where
  "pending_insert i p ps = (i, p) # filter (\<lambda>(j, _). j \<noteq> i) ps"

definition pending_remove :: "RpcId \<Rightarrow> (RpcId \<times> Pending) list \<Rightarrow> Pending option \<times> (RpcId \<times> Pending) list" where
  "pending_remove i ps = (map_of ps i, filter (\<lambda>(j, _). j \<noteq> i) ps)"

definition response_answer :: "'v json \<Rightarrow> string \<Rightarrow> 'v option \<Rightarrow> 'v option \<Rightarrow> 'v answer" where
  "response_answer J m result error =
     (case error of Some e \<Rightarrow> Inl (Rejected m e) | None \<Rightarrow> Inr (unwrap_or result (jnull J)))"

definition answer_pending :: "'v json \<Rightarrow> 'v IncomingFrame \<Rightarrow> 'v Link \<Rightarrow> 'v Link" where
  "answer_pending J f s =
     (case f of
        Response i result error raw \<Rightarrow>
          (case pending_remove i (pending s) of
             (None, _) \<Rightarrow> s
           | (Some p, rest) \<Rightarrow>
               reply (p_response p) (response_answer J (p_method p) result error) (s\<lparr>pending := rest\<rparr>))
      | _ \<Rightarrow> s)"

text \<open>What leaving \<open>drive\<close> does to the requests still pending, whatever the exit.\<close>

definition fail_pending :: "string \<Rightarrow> 'v Link \<Rightarrow> 'v Link" where
  "fail_pending d s =
     s\<lparr>replies := replies s @
         map (\<lambda>(i, p). (p_response p, Inl (WrittenOutcomeUnknown i (p_method p) d))) (pending s),
       pending := []\<rparr>"

definition set_health :: "ConnectionPhase \<Rightarrow> string option \<Rightarrow> 'v Link \<Rightarrow> 'v Link" where
  "set_health ph d s =
     s\<lparr>health := \<lparr>phase = ph, reconnect_attempts = attempts s, last_frame_sequence = seq s, detail = d\<rparr>\<rparr>"

text \<open>The top of the loop.\<close>

definition reconnecting :: "'v Link \<Rightarrow> 'v Link" where
  "reconnecting s = (set_health P_Connecting None s)\<lparr>pc := Connecting\<rparr>"

text \<open>A failed attempt: counted, reported, and then the wait for a command or the back-off.\<close>

definition degrade :: "string \<Rightarrow> 'v Link \<Rightarrow> 'v Link" where
  "degrade d s =
     (let s1 = s\<lparr>attempts := attempts s + 1\<rparr>
      in (set_health P_Degraded (Some d) s1)\<lparr>pc := BackingOff d\<rparr>)"

definition after_backoff :: "TransportConfig \<Rightarrow> 'v Link \<Rightarrow> 'v Link" where
  "after_backoff cfg s = reconnecting (s\<lparr>backoff := min (backoff s * 2) (retry_max cfg)\<rparr>)"

text \<open>\<open>reject_while_disconnected\<close>: true ends the loop. \<open>None\<close> is a queue with no sender left.\<close>

definition reject_while_disconnected :: "string \<Rightarrow> 'v Command option \<Rightarrow> 'v Link \<Rightarrow> bool \<times> 'v Link" where
  "reject_while_disconnected d command s =
     (case command of
        Some (C_Request i m p ch) \<Rightarrow> (False, reply ch (Inl (NotWritten d)) s)
      | Some (C_Shutdown ch) \<Rightarrow> (True, s\<lparr>acknowledged := acknowledged s @ [ch]\<rparr>)
      | Some (C_Notify m p) \<Rightarrow> (False, s)
      | Some (C_Reconciled ch) \<Rightarrow> (False, s\<lparr>acknowledged := acknowledged s @ [ch]\<rparr>)
      | None \<Rightarrow> (True, s))"

datatype DriveExit = ExitShutdown nat | Disconnected string | CommandsClosed

text \<open>Leaving \<open>drive\<close>, and what the loop does with the exit.\<close>

definition drive_exit :: "DriveExit \<Rightarrow> 'v Link \<Rightarrow> 'v Link" where
  "drive_exit x s =
     (let s1 = fail_pending (case x of Disconnected d \<Rightarrow> d | _ \<Rightarrow> ''connection closed'') s
      in case x of
           ExitShutdown ch \<Rightarrow>
             (set_health P_Stopped None s1)\<lparr>acknowledged := acknowledged s1 @ [ch], pc := Stopped\<rparr>
         | Disconnected d \<Rightarrow>
             (let s2 = s1\<lparr>reconcile_ready := False, attempts := attempts s1 + 1\<rparr>
              in reconnecting (set_health P_Degraded (Some d) s2))
         | CommandsClosed \<Rightarrow> s1\<lparr>pc := Stopped\<rparr>)"

section \<open>Frames\<close>

text \<open>WebSocket messages, and the JSON readers of the library as a parameter.\<close>

datatype ws_message = TextMessage string | BinaryMessage "8 word list" | Ping | CloseMessage | OtherMessage

record 'v codec =
  text_json :: "string \<Rightarrow> string + 'v"
  bytes_json :: "8 word list \<Rightarrow> string + 'v"

definition message_json :: "'v codec \<Rightarrow> ws_message \<Rightarrow> string + 'v option" where
  "message_json C m =
     (case m of
        TextMessage t \<Rightarrow> map_sum id Some (text_json C t)
      | BinaryMessage b \<Rightarrow> map_sum id Some (bytes_json C b)
      | CloseMessage \<Rightarrow> Inl ''peer closed websocket''
      | _ \<Rightarrow> Inr None)"

text \<open>What \<open>socket.next()\<close> yields; the time-out is the one of the handshake.\<close>

datatype socket_read = ReadTimedOut | StreamEnded | ReadFailed string | Message ws_message

text \<open>The receipt of a frame: the next sequence, and the event handed to the ingress and to the fan-out.\<close>

definition next_seq :: "'v Link \<Rightarrow> 'v Link" where
  "next_seq s = s\<lparr>seq := seq s + 1\<rparr>"

definition hand_over :: "'v SequencedEvent \<Rightarrow> 'v Link \<Rightarrow> 'v Link" where
  "hand_over e s = s\<lparr>ingress := ingress s @ [e], inbound := inbound s @ [e]\<rparr>"

section \<open>Connecting\<close>

text \<open>
  The error of a connection attempt, if there is one: the outcomes of the socket and of the
  upgrade (\<open>None\<close> is the time-out), and the \<open>Display\<close> text of a status.
\<close>

definition connect_result ::
    "(nat \<Rightarrow> string) \<Rightarrow> (string + unit) option \<Rightarrow> (string + nat) option \<Rightarrow> string option" where
  "connect_result show_status stream upgrade =
     (case stream of
        None \<Rightarrow> Some ''unix socket connect timed out''
      | Some (Inl e) \<Rightarrow> Some (''unix socket connect: '' @ e)
      | Some (Inr _) \<Rightarrow>
          (case upgrade of
             None \<Rightarrow> Some ''websocket handshake timed out''
           | Some (Inl e) \<Rightarrow> Some (''websocket handshake: '' @ e)
           | Some (Inr code) \<Rightarrow>
               if code \<noteq> 101 then Some (''unexpected websocket status '' @ show_status code) else None))"

section \<open>The handshake\<close>

definition initialize_request :: "'v json \<Rightarrow> TransportConfig \<Rightarrow> 'v" where
  "initialize_request J cfg =
     request J (Number 0) ''initialize''
       (jobj J [(''clientInfo'', jobj J [(''name'', jstr J (client_name cfg)),
          (''title'', jstr J ''Codex Control''), (''version'', jstr J (client_version cfg))]),
        (''capabilities'', jobj J [(''serverRequests'', jbool J False)])])"

fun initialize_verdict :: "'v IncomingFrame \<Rightarrow> bool option" where
  "initialize_verdict (Response (Number n) _ None _) = (if n = 0 then Some True else None)"
| "initialize_verdict (Response (Number n) _ (Some _) _) = (if n = 0 then Some False else None)"
| "initialize_verdict _ = None"

definition initialize_frame :: "'v json \<Rightarrow> nat \<Rightarrow> nat \<Rightarrow> bool \<Rightarrow> 'v IncomingFrame \<Rightarrow> 'v Link \<Rightarrow> 'v Link" where
  "initialize_frame J now el ingress_open f s =
     (let s1 = next_seq s; e = from_frame J now (seq s1) el f
      in if \<not> ingress_open then degrade ''authoritative ingress closed'' s1
         else (let s2 = set_health P_Handshaking None (hand_over e s1)
               in case initialize_verdict f of
                    Some True \<Rightarrow> s2\<lparr>pc := SendingInitialized\<rparr>
                  | Some False \<Rightarrow> degrade ''initialize rejected'' s2
                  | None \<Rightarrow> s2))"

definition initialize_read :: "'v json \<Rightarrow> 'v codec \<Rightarrow> nat \<Rightarrow> nat \<Rightarrow> bool \<Rightarrow> socket_read \<Rightarrow> 'v Link \<Rightarrow> 'v Link" where
  "initialize_read J C now el ingress_open r s =
     (case r of
        ReadTimedOut \<Rightarrow> degrade ''initialize response timed out'' s
      | StreamEnded \<Rightarrow> degrade ''socket closed during initialize'' s
      | ReadFailed e \<Rightarrow> degrade e s
      | Message m \<Rightarrow>
          (case message_json C m of
             Inl e \<Rightarrow> degrade e s
           | Inr None \<Rightarrow> s
           | Inr (Some v) \<Rightarrow>
               (case parse J v of
                  Inl e \<Rightarrow> degrade e s
                | Inr f \<Rightarrow> initialize_frame J now el ingress_open f s)))"

definition start_driving :: "TransportConfig \<Rightarrow> 'v Link \<Rightarrow> 'v Link" where
  "start_driving cfg s =
     (set_health P_Reconciling None (s\<lparr>reconcile_ready := False, backoff := retry_initial cfg\<rparr>))\<lparr>pc := Driving\<rparr>"

section \<open>Driving a connection\<close>

text \<open>One command taken; \<open>failure\<close> is the error of the write, if it fails.\<close>

definition drive_command :: "'v json \<Rightarrow> string option \<Rightarrow> 'v Command \<Rightarrow> 'v Link \<Rightarrow> 'v Link" where
  "drive_command J failure command s =
     (case command of
        C_Request i m params ch \<Rightarrow>
          (case failure of
             Some e \<Rightarrow> drive_exit (Disconnected e) (reply ch (Inl (NotWritten e)) s)
           | None \<Rightarrow> s\<lparr>written := written s @ [request J i m params],
                      pending := pending_insert i \<lparr>p_method = m, p_response = ch\<rparr> (pending s)\<rparr>)
      | C_Notify m params \<Rightarrow>
          (case failure of
             Some e \<Rightarrow> drive_exit (Disconnected e) s
           | None \<Rightarrow> s\<lparr>written := written s @ [notification J m params]\<rparr>)
      | C_Reconciled ch \<Rightarrow>
          (set_health P_Connected None (s\<lparr>reconcile_ready := True\<rparr>))\<lparr>acknowledged := acknowledged s @ [ch]\<rparr>
      | C_Shutdown ch \<Rightarrow> drive_exit (ExitShutdown ch) s)"

definition drive_frame :: "'v json \<Rightarrow> nat \<Rightarrow> nat \<Rightarrow> bool \<Rightarrow> 'v IncomingFrame \<Rightarrow> 'v Link \<Rightarrow> 'v Link" where
  "drive_frame J now el ingress_open f s =
     (let s1 = answer_pending J f (next_seq s);
          e = from_frame J now (seq s1) el f
      in if \<not> ingress_open then drive_exit CommandsClosed s1
         else (let s2 = hand_over e s1
               in s2\<lparr>health := (health s2)\<lparr>last_frame_sequence := seq s2\<rparr>\<rparr>))"

definition drive_read :: "'v json \<Rightarrow> 'v codec \<Rightarrow> nat \<Rightarrow> nat \<Rightarrow> bool \<Rightarrow> socket_read \<Rightarrow> 'v Link \<Rightarrow> 'v Link" where
  "drive_read J C now el ingress_open r s =
     (case r of
        StreamEnded \<Rightarrow> drive_exit (Disconnected ''websocket stream ended'') s
      | ReadFailed e \<Rightarrow> drive_exit (Disconnected e) s
      | Message m \<Rightarrow>
          (case message_json C m of
             Inl e \<Rightarrow> drive_exit (Disconnected e) s
           | Inr None \<Rightarrow> s
           | Inr (Some v) \<Rightarrow>
               (case parse J v of
                  Inl e \<Rightarrow> s
                | Inr f \<Rightarrow> drive_frame J now el ingress_open f s))
      | ReadTimedOut \<Rightarrow> s)"

text \<open>A tick after \<open>idle\<close> without a message; \<open>idle_text\<close> is the \<open>Debug\<close> text of that duration.\<close>

definition drive_tick :: "TransportConfig \<Rightarrow> nat \<Rightarrow> string \<Rightarrow> bool \<Rightarrow> 'v Link \<Rightarrow> 'v Link" where
  "drive_tick cfg idle idle_text ping_fails s =
     (if idle \<ge> read_idle_timeout cfg * 2 then drive_exit (Disconnected (''read idle for '' @ idle_text)) s
      else if idle \<ge> read_idle_timeout cfg \<and> ping_fails then drive_exit (Disconnected ''ping write failed'') s
      else s)"

section \<open>The loop\<close>

datatype link_input =
    ConnectResult "string option"  \<comment> \<open>the error, if it failed\<close>
  | WriteResult "string option"  \<comment> \<open>of a frame of the handshake\<close>
  | HandshakeRead nat nat bool socket_read  \<comment> \<open>clocks, ingress open\<close>
  | TakeCommand "string option"  \<comment> \<open>the error of the write it leads to\<close>
  | SendersGone
  | DriveRead nat nat bool socket_read
  | Tick nat string bool
  | Slept

definition loop_step :: "'v json \<Rightarrow> 'v codec \<Rightarrow> TransportConfig \<Rightarrow> link_input \<Rightarrow> 'v Link \<Rightarrow> 'v Link" where
  "loop_step J C cfg x s =
     (case (pc s, x) of
        (Connecting, ConnectResult None) \<Rightarrow> (set_health P_Handshaking None s)\<lparr>pc := SendingInitialize\<rparr>
      | (Connecting, ConnectResult (Some d)) \<Rightarrow> degrade d s
      | (SendingInitialize, WriteResult None) \<Rightarrow>
          s\<lparr>written := written s @ [initialize_request J cfg], pc := AwaitingInitialize\<rparr>
      | (SendingInitialize, WriteResult (Some e)) \<Rightarrow> degrade e s
      | (AwaitingInitialize, HandshakeRead now el is_open r) \<Rightarrow> initialize_read J C now el is_open r s
      | (SendingInitialized, WriteResult None) \<Rightarrow>
          start_driving cfg (s\<lparr>written := written s @ [notification J ''initialized'' (jobj J [])]\<rparr>)
      | (SendingInitialized, WriteResult (Some e)) \<Rightarrow> degrade e s
      | (Driving, TakeCommand failure) \<Rightarrow>
          (case queue s of [] \<Rightarrow> s | c # cs \<Rightarrow> drive_command J failure c (s\<lparr>queue := cs\<rparr>))
      | (Driving, SendersGone) \<Rightarrow> (if queue s = [] then drive_exit CommandsClosed s else s)
      | (Driving, DriveRead now el is_open r) \<Rightarrow> drive_read J C now el is_open r s
      | (Driving, Tick idle txt ping_fails) \<Rightarrow> drive_tick cfg idle txt ping_fails s
      | (BackingOff d, TakeCommand failure) \<Rightarrow>
          (case queue s of
             [] \<Rightarrow> s
           | c # cs \<Rightarrow>
               (let (ends, s') = reject_while_disconnected d (Some c) (s\<lparr>queue := cs\<rparr>)
                in if ends then s'\<lparr>pc := Stopped\<rparr> else after_backoff cfg s'))
      | (BackingOff d, SendersGone) \<Rightarrow>
          (if queue s = [] then (snd (reject_while_disconnected d None s))\<lparr>pc := Stopped\<rparr> else s)
      | (BackingOff d, Slept) \<Rightarrow> after_backoff cfg s
      | _ \<Rightarrow> s)"

text \<open>
  The handle and the loop side by side. A sender that finds the channel of the commands full waits:
  the step changes nothing, but that \<open>mark_reconciled\<close> has raised the flag; \<open>OfferReconciled\<close> is
  its second half.
\<close>

datatype 'v link_op =
    Submit bool string 'v
  | Notify string 'v
  | MarkReconciled
  | OfferReconciled
  | Shutdown
  | TakeIngress
  | Loop link_input

fun link_step :: "'v json \<Rightarrow> 'v codec \<Rightarrow> TransportConfig \<Rightarrow> 'v Link \<Rightarrow> 'v link_op \<Rightarrow> 'v Link" where
  "link_step J C cfg s (Submit action m p) = (if pc s = Stopped \<or> full s then s else snd (submit action m p s))"
| "link_step J C cfg s (Notify m p) = (if pc s = Stopped \<or> full s then s else notify m p s)"
| "link_step J C cfg s MarkReconciled =
     (if full s then raise_flag s else snd (mark_reconciled (pc s \<noteq> Stopped) s))"
| "link_step J C cfg s OfferReconciled =
     (if full s then s else snd (offer_reconciled (pc s \<noteq> Stopped) s))"
| "link_step J C cfg s Shutdown = (if pc s = Stopped \<or> full s then s else shutdown s)"
| "link_step J C cfg s TakeIngress = snd (take_ingress s)"
| "link_step J C cfg s (Loop x) = loop_step J C cfg x s"

lemmas mark_defs = mark_reconciled_def offer_reconciled_def raise_flag_def

lemma not_full_small: "length (queue s) < 256 \<Longrightarrow> \<not> full s"
  by (simp add: full_def command_capacity_def)

section \<open>Every request is accounted for\<close>

fun request_channel :: "'v Command \<Rightarrow> nat list" where
  "request_channel (C_Request i m p ch) = [ch]"
| "request_channel _ = []"

fun request_id :: "'v Command \<Rightarrow> RpcId list" where
  "request_id (C_Request i m p ch) = [i]"
| "request_id _ = []"

definition answered :: "'v Link \<Rightarrow> nat list" where
  "answered s = map fst (replies s)"

definition open_channels :: "'v Link \<Rightarrow> nat list" where
  "open_channels s = concat (map request_channel (queue s)) @ map (\<lambda>(i, p). p_response p) (pending s)"

definition open_ids :: "'v Link \<Rightarrow> RpcId list" where
  "open_ids s = concat (map request_id (queue s)) @ map fst (pending s)"

definition balance :: "'v Link \<Rightarrow> nat multiset" where
  "balance s = mset (answered s) + mset (open_channels s)"

definition ids_ok :: "'v Link \<Rightarrow> bool" where
  "ids_ok s \<longleftrightarrow> distinct (open_ids s) \<and> (\<forall>i \<in> set (open_ids s). \<exists>n. i = Number n \<and> 0 < n \<and> n < next_id s) \<and>
     (pc s \<noteq> Driving \<longrightarrow> pending s = [])"

lemma set_health_frame [simp]:
  "pc (set_health ph d s) = pc s" "queue (set_health ph d s) = queue s" "pending (set_health ph d s) = pending s"
  "replies (set_health ph d s) = replies s" "next_id (set_health ph d s) = next_id s"
  "next_channel (set_health ph d s) = next_channel s" "written (set_health ph d s) = written s"
  "seq (set_health ph d s) = seq s" "ingress (set_health ph d s) = ingress s"
  "inbound (set_health ph d s) = inbound s" "reconcile_ready (set_health ph d s) = reconcile_ready s"
  "backoff (set_health ph d s) = backoff s" "attempts (set_health ph d s) = attempts s"
  "acknowledged (set_health ph d s) = acknowledged s"
  by (simp_all add: set_health_def)

lemma small_frames [simp]:
  "pc (reply ch a s) = pc s" "queue (reply ch a s) = queue s" "pending (reply ch a s) = pending s"
  "replies (reply ch a s) = replies s @ [(ch, a)]" "next_id (reply ch a s) = next_id s"
  "next_channel (reply ch a s) = next_channel s" "written (reply ch a s) = written s"
  "seq (reply ch a s) = seq s" "ingress (reply ch a s) = ingress s" "inbound (reply ch a s) = inbound s"
  "backoff (reply ch a s) = backoff s"
  "pc (next_seq s) = pc s" "queue (next_seq s) = queue s" "pending (next_seq s) = pending s"
  "replies (next_seq s) = replies s" "next_id (next_seq s) = next_id s" "next_channel (next_seq s) = next_channel s"
  "written (next_seq s) = written s" "seq (next_seq s) = seq s + 1" "ingress (next_seq s) = ingress s"
  "inbound (next_seq s) = inbound s" "backoff (next_seq s) = backoff s"
  "pc (hand_over e s) = pc s" "queue (hand_over e s) = queue s" "pending (hand_over e s) = pending s"
  "replies (hand_over e s) = replies s" "next_id (hand_over e s) = next_id s"
  "next_channel (hand_over e s) = next_channel s" "written (hand_over e s) = written s" "seq (hand_over e s) = seq s"
  "ingress (hand_over e s) = ingress s @ [e]" "inbound (hand_over e s) = inbound s @ [e]"
  "backoff (hand_over e s) = backoff s"
  by (simp_all add: reply_def next_seq_def hand_over_def)

lemma degrade_frame [simp]:
  "pc (degrade d s) = BackingOff d" "queue (degrade d s) = queue s" "pending (degrade d s) = pending s"
  "replies (degrade d s) = replies s" "next_id (degrade d s) = next_id s"
  "next_channel (degrade d s) = next_channel s" "written (degrade d s) = written s" "seq (degrade d s) = seq s"
  "ingress (degrade d s) = ingress s" "inbound (degrade d s) = inbound s" "backoff (degrade d s) = backoff s"
  "pc (after_backoff cfg s) = Connecting" "queue (after_backoff cfg s) = queue s"
  "pending (after_backoff cfg s) = pending s" "replies (after_backoff cfg s) = replies s"
  "next_id (after_backoff cfg s) = next_id s" "next_channel (after_backoff cfg s) = next_channel s"
  "written (after_backoff cfg s) = written s" "seq (after_backoff cfg s) = seq s"
  "ingress (after_backoff cfg s) = ingress s" "inbound (after_backoff cfg s) = inbound s"
  "backoff (after_backoff cfg s) = min (backoff s * 2) (retry_max cfg)"
  by (simp_all add: degrade_def after_backoff_def reconnecting_def Let_def)

lemma drive_exit_frame [simp]:
  "queue (drive_exit x s) = queue s" "pending (drive_exit x s) = []" "next_id (drive_exit x s) = next_id s"
  "next_channel (drive_exit x s) = next_channel s" "written (drive_exit x s) = written s"
  "seq (drive_exit x s) = seq s" "ingress (drive_exit x s) = ingress s" "inbound (drive_exit x s) = inbound s"
  "backoff (drive_exit x s) = backoff s"
  "pc (drive_exit x s) = (case x of Disconnected d \<Rightarrow> Connecting | _ \<Rightarrow> Stopped)"
  by (cases x; simp add: drive_exit_def fail_pending_def reconnecting_def Let_def)+

lemma drive_exit_replies:
  "replies (drive_exit x s) = replies s @
     map (\<lambda>(i, p). (p_response p, Inl (WrittenOutcomeUnknown i (p_method p)
       (case x of Disconnected d \<Rightarrow> d | _ \<Rightarrow> ''connection closed'')))) (pending s)"
  by (cases x; simp add: drive_exit_def fail_pending_def reconnecting_def Let_def)

lemma balance_drive_exit [simp]: "balance (drive_exit x s) = balance s"
  by (simp add: balance_def answered_def open_channels_def drive_exit_replies comp_def case_prod_unfold)

lemma pending_split:
  assumes "map_of ps i = Some p" "distinct (map fst ps)"
  obtains xs ys where "ps = xs @ (i, p) # ys" "filter (\<lambda>(j, _). j \<noteq> i) ps = xs @ ys"
proof -
  from assms(1) have "(i, p) \<in> set ps" by (rule map_of_SomeD)
  then obtain xs ys where ps: "ps = xs @ (i, p) # ys" by (meson split_list)
  with assms(2) have "filter (\<lambda>(j, _). j \<noteq> i) xs = xs" "filter (\<lambda>(j, _). j \<noteq> i) ys = ys"
    by (force simp: filter_id_conv)+
  with ps that show thesis by simp
qed

lemma answer_pending_balance:
  assumes "distinct (map fst (pending s))"
  shows "balance (answer_pending J f s) = balance s"
proof (cases f)
  case (Response i result error raw)
  show ?thesis
  proof (cases "map_of (pending s) i")
    case None
    then show ?thesis by (simp add: Response answer_pending_def pending_remove_def)
  next
    case (Some p)
    from pending_split [OF this assms] obtain xs ys where
      "pending s = xs @ (i, p) # ys" "filter (\<lambda>(j, _). j \<noteq> i) (pending s) = xs @ ys" .
    with Some show ?thesis
      by (simp add: Response answer_pending_def pending_remove_def balance_def answered_def open_channels_def)
  qed
qed (simp_all add: answer_pending_def)

lemma answer_pending_frame [simp]:
  "pc (answer_pending J f s) = pc s" "queue (answer_pending J f s) = queue s"
  "next_id (answer_pending J f s) = next_id s" "next_channel (answer_pending J f s) = next_channel s"
  "written (answer_pending J f s) = written s" "seq (answer_pending J f s) = seq s"
  "ingress (answer_pending J f s) = ingress s" "inbound (answer_pending J f s) = inbound s"
  "backoff (answer_pending J f s) = backoff s"
  by (simp_all add: answer_pending_def pending_remove_def split: IncomingFrame.splits option.splits)

lemma answer_pending_subset: "\<exists>P. pending (answer_pending J f s) = filter P (pending s)"
proof (cases "pending (answer_pending J f s) = pending s")
  case True
  then show ?thesis by (intro exI [of _ "\<lambda>_. True"]) simp
next
  case False
  then show ?thesis by (auto simp: answer_pending_def pending_remove_def split: IncomingFrame.splits option.splits)
qed

lemma balance_cong:
  "replies s' = replies s \<Longrightarrow> queue s' = queue s \<Longrightarrow> pending s' = pending s \<Longrightarrow> balance s' = balance s"
  by (simp add: balance_def answered_def open_channels_def)

lemma ids_ok_cong:
  "ids_ok s \<Longrightarrow> queue s' = queue s \<Longrightarrow> pending s' = filter P (pending s) \<Longrightarrow> next_id s' = next_id s \<Longrightarrow>
     (pc s' = Driving \<or> pending s' = []) \<Longrightarrow> ids_ok s'"
  by (auto simp: ids_ok_def open_ids_def distinct_map_filter)

lemma filter_all [simp]: "filter (\<lambda>_. True) xs = xs"
  by simp

text \<open>What the handshake leaves alone.\<close>

lemma initialize_read_frame [simp]:
  "queue (initialize_read J C now el b r s) = queue s" "pending (initialize_read J C now el b r s) = pending s"
  "replies (initialize_read J C now el b r s) = replies s" "next_id (initialize_read J C now el b r s) = next_id s"
  "next_channel (initialize_read J C now el b r s) = next_channel s"
  "written (initialize_read J C now el b r s) = written s" "backoff (initialize_read J C now el b r s) = backoff s"
  by (simp_all add: initialize_read_def initialize_frame_def Let_def
      split: socket_read.splits sum.splits option.splits bool.splits)

lemma initialize_read_pc: "pc s \<noteq> Driving \<Longrightarrow> pc (initialize_read J C now el b r s) \<noteq> Driving"
  by (simp add: initialize_read_def initialize_frame_def Let_def
      split: socket_read.splits sum.splits option.splits bool.splits)

lemma start_driving_frame [simp]:
  "pc (start_driving cfg s) = Driving" "queue (start_driving cfg s) = queue s"
  "pending (start_driving cfg s) = pending s" "replies (start_driving cfg s) = replies s"
  "next_id (start_driving cfg s) = next_id s" "next_channel (start_driving cfg s) = next_channel s"
  "written (start_driving cfg s) = written s" "seq (start_driving cfg s) = seq s"
  "ingress (start_driving cfg s) = ingress s" "inbound (start_driving cfg s) = inbound s"
  "backoff (start_driving cfg s) = retry_initial cfg"
  by (simp_all add: start_driving_def)

lemma ids_ok_pending_distinct: "ids_ok s \<Longrightarrow> distinct (map fst (pending s))"
  by (simp add: ids_ok_def open_ids_def)

text \<open>Commands.\<close>

lemma drive_command_frame [simp]:
  "next_id (drive_command J failure c s) = next_id s"
  "next_channel (drive_command J failure c s) = next_channel s"
  by (simp_all add: drive_command_def split: Command.splits option.splits)

lemma pending_insert_fresh: "i \<notin> fst ` set ps \<Longrightarrow> pending_insert i p ps = (i, p) # ps"
  by (force simp: pending_insert_def filter_id_conv)

lemma drive_command_balance:
  assumes "ids_ok s" "queue s = c # cs"
  shows "balance (drive_command J failure c (s\<lparr>queue := cs\<rparr>)) = balance s"
proof (cases c)
  case (C_Request i m p ch)
  have "i \<notin> fst ` set (pending s)" using assms by (auto simp: C_Request ids_ok_def open_ids_def)
  then have ins: "pending_insert i q (pending s) = (i, q) # pending s" for q by (rule pending_insert_fresh)
  show ?thesis
    using assms(2) by (cases failure)
      (simp_all add: C_Request drive_command_def ins, simp_all add: balance_def answered_def open_channels_def)
qed (use assms(2) in \<open>cases failure; simp add: drive_command_def; simp add: balance_def answered_def open_channels_def\<close>)+

lemma drive_command_ids:
  assumes "ids_ok s" "queue s = c # cs" "pc s = Driving"
  shows "ids_ok (drive_command J failure c (s\<lparr>queue := cs\<rparr>))"
proof (cases c)
  case (C_Request i m p ch)
  have "i \<notin> fst ` set (pending s)" using assms by (auto simp: C_Request ids_ok_def open_ids_def)
  then have ins: "pending_insert i q (pending s) = (i, q) # pending s" for q by (rule pending_insert_fresh)
  show ?thesis
    using assms by (cases failure) (auto simp: C_Request drive_command_def ins ids_ok_def open_ids_def)
qed (use assms in \<open>auto simp: drive_command_def ids_ok_def open_ids_def split: option.splits\<close>)

text \<open>Reads and ticks.\<close>

lemma drive_read_cases:
  "drive_read J C now el b r s = s \<or> (\<exists>x. drive_read J C now el b r s = drive_exit x s) \<or>
   (\<exists>f. drive_read J C now el b r s = drive_frame J now el b f s)"
  by (simp add: drive_read_def split: socket_read.splits sum.splits option.splits) blast

lemma drive_frame_balance: "ids_ok s \<Longrightarrow> balance (drive_frame J now el b f s) = balance s"
  using answer_pending_balance [of "next_seq s" J f]
  by (simp add: drive_frame_def Let_def ids_ok_pending_distinct) (simp add: balance_def answered_def open_channels_def)

lemma drive_frame_frame [simp]:
  "next_id (drive_frame J now el b f s) = next_id s" "next_channel (drive_frame J now el b f s) = next_channel s"
  "queue (drive_frame J now el b f s) = queue s" "written (drive_frame J now el b f s) = written s"
  "seq (drive_frame J now el b f s) = seq s + 1" "backoff (drive_frame J now el b f s) = backoff s"
  by (simp_all add: drive_frame_def Let_def)

lemma drive_frame_ids: "ids_ok s \<Longrightarrow> pc s = Driving \<Longrightarrow> ids_ok (drive_frame J now el b f s)"
proof -
  assume ok: "ids_ok s" and pc: "pc s = Driving"
  obtain P where P: "pending (answer_pending J f (next_seq s)) = filter P (pending s)"
    using answer_pending_subset [of J f "next_seq s"] by auto
  show ?thesis
  proof (cases b)
    case True
    with P pc show ?thesis by (intro ids_ok_cong [OF ok, of _ P]) (simp_all add: drive_frame_def Let_def)
  next
    case False
    then show ?thesis by (intro ids_ok_cong [OF ok, of _ "\<lambda>_. False"]) (simp_all add: drive_frame_def Let_def)
  qed
qed

text \<open>A step that keeps the requests, their replies and the counters where they are.\<close>

definition keeps_requests :: "'v Link \<Rightarrow> 'v Link \<Rightarrow> bool" where
  "keeps_requests s s' \<longleftrightarrow> ids_ok s' \<and> balance s' = balance s \<and> next_id s' = next_id s \<and> next_channel s' = next_channel s"

lemma keeps_requests_refl [simp]: "keeps_requests s s \<longleftrightarrow> ids_ok s"
  by (auto simp: keeps_requests_def)

lemma keeps_requests_frame:
  "ids_ok s \<Longrightarrow> queue s' = queue s \<Longrightarrow> pending s' = pending s \<Longrightarrow> replies s' = replies s \<Longrightarrow>
     next_id s' = next_id s \<Longrightarrow> next_channel s' = next_channel s \<Longrightarrow> pc s' = Driving \<or> pc s \<noteq> Driving \<Longrightarrow>
     keeps_requests s s'"
  by (auto simp: keeps_requests_def ids_ok_def open_ids_def intro!: balance_cong)

lemma keeps_requests_exit: "ids_ok s \<Longrightarrow> keeps_requests s (drive_exit x s)"
  by (auto simp: keeps_requests_def ids_ok_def open_ids_def)

lemma keeps_requests_tick: "ids_ok s \<Longrightarrow> keeps_requests s (drive_tick cfg idle txt b s)"
  by (simp add: drive_tick_def keeps_requests_exit)

lemma keeps_requests_command:
  "ids_ok s \<Longrightarrow> queue s = c # cs \<Longrightarrow> pc s = Driving \<Longrightarrow> keeps_requests s (drive_command J failure c (s\<lparr>queue := cs\<rparr>))"
  by (simp add: keeps_requests_def drive_command_ids drive_command_balance)

lemma keeps_requests_read: "ids_ok s \<Longrightarrow> pc s = Driving \<Longrightarrow> keeps_requests s (drive_read J C now el b r s)"
  using drive_read_cases [of J C now el b r s]
  by (auto simp: keeps_requests_exit) (simp add: keeps_requests_def drive_frame_ids drive_frame_balance)

lemma keeps_requests_reject:
  assumes "ids_ok s" "queue s = c # cs" "pc s = BackingOff d"
  shows "keeps_requests s
    (let (ends, s') = reject_while_disconnected d (Some c) (s\<lparr>queue := cs\<rparr>)
     in if ends then s'\<lparr>pc := Stopped\<rparr> else after_backoff cfg s')"
  using assms
  by (cases c; simp add: reject_while_disconnected_def keeps_requests_def;
      simp add: ids_ok_def open_ids_def balance_def answered_def open_channels_def)

lemma loop_step_keeps_requests:
  assumes ok: "ids_ok s"
  shows "keeps_requests s (loop_step J C cfg x s)"
proof (cases "pc s")
  case Connecting
  with ok show ?thesis
    by (cases x) (auto simp: loop_step_def split: option.split intro!: keeps_requests_frame)
next
  case SendingInitialize
  with ok show ?thesis
    by (cases x) (auto simp: loop_step_def split: option.split intro!: keeps_requests_frame)
next
  case AwaitingInitialize
  with ok show ?thesis
    by (cases x) (auto simp: loop_step_def intro!: keeps_requests_frame)
next
  case SendingInitialized
  with ok show ?thesis
    by (cases x) (auto simp: loop_step_def split: option.split intro!: keeps_requests_frame)
next
  case Driving
  with ok show ?thesis
    by (cases x) (auto simp: loop_step_def keeps_requests_exit keeps_requests_tick keeps_requests_read
        keeps_requests_command split: list.split)
next
  case (BackingOff d)
  show ?thesis
  proof (cases x)
    case (TakeCommand failure)
    with BackingOff ok keeps_requests_reject [OF ok _ BackingOff, of _ _ cfg] show ?thesis
      by (cases "queue s") (simp_all add: loop_step_def)
  qed (use BackingOff ok in \<open>auto simp: loop_step_def reject_while_disconnected_def intro!: keeps_requests_frame\<close>)
next
  case Stopped
  with ok show ?thesis by (cases x) (auto simp: loop_step_def)
qed

section \<open>Runs of the handle and the loop\<close>

text \<open>The channels of the requests a run accepts; and the counters stay below their ends.\<close>

fun accepted :: "'v Link \<Rightarrow> 'v link_op \<Rightarrow> nat list" where
  "accepted s (Submit action m p) =
     (if pc s = Stopped \<or> full s then []
      else case fst (submit action m p s) of Inl _ \<Rightarrow> [] | Inr ch \<Rightarrow> [ch])"
| "accepted s _ = []"

fun accepted_run :: "'v json \<Rightarrow> 'v codec \<Rightarrow> TransportConfig \<Rightarrow> 'v Link \<Rightarrow> 'v link_op list \<Rightarrow> nat list" where
  "accepted_run J C cfg s [] = []"
| "accepted_run J C cfg s (x # xs) = accepted s x @ accepted_run J C cfg (link_step J C cfg s x) xs"

fun link_admits :: "'v Link \<Rightarrow> 'v link_op \<Rightarrow> bool" where
  "link_admits s (Submit action m p) = (unat (next_id s) + 1 < 2 ^ 64)"
| "link_admits s (Loop x) = (unat (seq s) + 1 < 2 ^ 64)"
| "link_admits s _ = True"

lemma succ_no_wrap: "unat (n :: u64) + 1 < 2 ^ 64 \<Longrightarrow> n < n + 1 \<and> 0 < n + 1 \<and> unat (n + 1) = unat n + 1"
  by (simp add: word_less_nat_alt unat_word_ariths)

definition channels_ok :: "'v Link \<Rightarrow> bool" where
  "channels_ok s \<longleftrightarrow> (\<forall>ch. count (balance s) ch \<le> 1) \<and> (\<forall>ch \<in># balance s. ch < next_channel s) \<and> 0 < next_id s"

lemma submit_effect:
  assumes "link_admits s (Submit action m p)" "ids_ok s" "channels_ok s" "pc s \<noteq> Stopped" "\<not> full s"
  shows "ids_ok (snd (submit action m p s)) \<and>
    balance (snd (submit action m p s)) = balance s + mset (accepted s (Submit action m p)) \<and>
    channels_ok (snd (submit action m p s))"
proof (cases "action \<and> \<not> is_reconciled s")
  case True
  with assms show ?thesis by (simp add: submit_def)
next
  case False
  let ?s = "snd (submit action m p s)"
  have fresh: "\<forall>i \<in> set (open_ids s). i \<noteq> Number (next_id s)" using assms(2) by (auto simp: ids_ok_def)
  have grow: "n < next_id s + 1" if "n < next_id s" for n
    using that succ_no_wrap [of "next_id s"] assms(1) by (auto intro: less_trans)
  have pos: "0 < next_id s" using assms(3) by (simp add: channels_ok_def)
  have ids: "mset (open_ids ?s) = add_mset (Number (next_id s)) (mset (open_ids s))"
    using False by (simp add: submit_def open_ids_def)
  then have "set (open_ids ?s) = insert (Number (next_id s)) (set (open_ids s))"
    by (metis set_mset_add_mset_insert set_mset_mset)
  moreover have "distinct (open_ids ?s)"
    using fresh assms(2) mset_eq_imp_distinct_iff [of "open_ids ?s" "Number (next_id s) # open_ids s"] ids
    by (auto simp: ids_ok_def)
  moreover have "next_id ?s = next_id s + 1" "pc ?s = pc s" "pending ?s = pending s"
    using False by (simp_all add: submit_def)
  ultimately have "ids_ok ?s"
    using assms(1,2) pos grow succ_no_wrap [of "next_id s"] by (auto simp: ids_ok_def)
  moreover have bal: "balance ?s = add_mset (next_channel s) (balance s)"
    using False by (simp add: submit_def balance_def answered_def open_channels_def)
  moreover have "count (balance s) (next_channel s) = 0"
    using assms(3) by (auto simp: channels_ok_def count_eq_zero_iff)
  moreover have "next_channel ?s = Suc (next_channel s)" "next_id ?s = next_id s + 1"
    using False by (simp_all add: submit_def)
  ultimately show ?thesis
    using False assms(1,3-5) succ_no_wrap [of "next_id s"]
    by (auto simp: channels_ok_def submit_def less_Suc_eq)
qed

lemma channels_ok_keep:
  "channels_ok s \<Longrightarrow> keeps_requests s s' \<Longrightarrow> channels_ok s'"
  by (simp add: channels_ok_def keeps_requests_def)

lemma queue_other_ok:
  assumes "ids_ok s" "channels_ok s" "request_channel c = []" "request_id c = []"
    and "queue s' = queue s @ [c]" "pending s' = pending s" "replies s' = replies s" "pc s' = pc s"
      "next_id s' = next_id s" "next_channel s \<le> next_channel s'"
  shows "ids_ok s' \<and> balance s' = balance s \<and> channels_ok s'"
proof -
  have "balance s' = balance s"
    using assms by (simp add: balance_def answered_def open_channels_def)
  moreover have "ids_ok s'" using assms by (simp add: ids_ok_def open_ids_def)
  ultimately show ?thesis using assms(2,9,10) by (auto simp: channels_ok_def intro: less_le_trans)
qed

lemma link_step_effect:
  assumes "ids_ok s" "channels_ok s" "link_admits s x"
  shows "ids_ok (link_step J C cfg s x) \<and>
    balance (link_step J C cfg s x) = balance s + mset (accepted s x) \<and>
    channels_ok (link_step J C cfg s x)"
proof (cases x)
  case (Submit action m p)
  with submit_effect [of s action m p] assms show ?thesis by simp
next
  case (Notify m p)
  with queue_other_ok [OF assms(1,2), of "C_Notify m p" "notify m p s"] assms show ?thesis
    by (simp add: notify_def)
next
  case MarkReconciled
  show ?thesis
  proof (cases "pc s = Stopped \<or> full s")
    case True
    then have "keeps_requests s (link_step J C cfg s x)"
      using MarkReconciled by (intro keeps_requests_frame assms)
        (auto simp: mark_defs)
    with channels_ok_keep [OF assms(2) this] MarkReconciled show ?thesis by (simp add: keeps_requests_def)
  next
    case False
    with queue_other_ok [OF assms(1,2), of "C_Reconciled (next_channel s)" "snd (mark_reconciled (pc s \<noteq> Stopped) s)"]
      MarkReconciled show ?thesis by (simp add: mark_defs)
  qed
next
  case OfferReconciled
  show ?thesis
  proof (cases "pc s = Stopped \<or> full s")
    case True
    then have "keeps_requests s (link_step J C cfg s x)"
      using OfferReconciled by (intro keeps_requests_frame assms) (auto simp: offer_reconciled_def)
    with channels_ok_keep [OF assms(2) this] OfferReconciled show ?thesis by (simp add: keeps_requests_def)
  next
    case False
    with queue_other_ok [OF assms(1,2), of "C_Reconciled (next_channel s)" "snd (offer_reconciled (pc s \<noteq> Stopped) s)"]
      OfferReconciled show ?thesis by (simp add: offer_reconciled_def)
  qed
next
  case Shutdown
  with queue_other_ok [OF assms(1,2), of "C_Shutdown (next_channel s)" "shutdown s"] assms show ?thesis
    by (simp add: shutdown_def)
next
  case TakeIngress
  have "keeps_requests s (snd (take_ingress s))"
    by (intro keeps_requests_frame assms) (simp_all add: take_ingress_def)
  with channels_ok_keep [OF assms(2) this] TakeIngress show ?thesis by (simp add: keeps_requests_def)
next
  case (Loop y)
  with loop_step_keeps_requests [OF assms(1), of J C cfg y] channels_ok_keep [OF assms(2)] show ?thesis
    by (simp add: keeps_requests_def)
qed

lemma link_run_effect:
  assumes "ids_ok s" "channels_ok s" "admissible (link_step J C cfg) link_admits s ops"
  shows "ids_ok (foldl (link_step J C cfg) s ops) \<and> channels_ok (foldl (link_step J C cfg) s ops) \<and>
    balance (foldl (link_step J C cfg) s ops) = balance s + mset (accepted_run J C cfg s ops)"
  using assms
proof (induction ops arbitrary: s)
  case (Cons x ops)
  from link_step_effect [OF Cons.prems(1,2), of x J C cfg] Cons.prems(3) Cons.IH [of "link_step J C cfg s x"]
  show ?case by simp
qed simp

lemma spawn_ok [simp]: "ids_ok (spawn cfg)" "channels_ok (spawn cfg)" "balance (spawn cfg) = {#}"
  by (simp_all add: spawn_def ids_ok_def open_ids_def channels_ok_def balance_def answered_def open_channels_def)

section \<open>The channel of the commands\<close>

text \<open>The loop only takes from it, the handle adds where there is room: it never holds more than it can.\<close>

definition within_capacity :: "'v Link \<Rightarrow> bool" where
  "within_capacity s \<longleftrightarrow> length (queue s) \<le> command_capacity"

lemma loop_takes: "\<exists>k. queue (loop_step J C cfg x s) = drop k (queue s)"
proof -
  have same: "queue (loop_step J C cfg x s) = queue s \<Longrightarrow> ?thesis" by (intro exI [of _ 0]) simp
  have read: "queue (drive_read J C now el b r s) = queue s" for now el b r
    using drive_read_cases [of J C now el b r s] by auto
  have command: "queue (drive_command J failure c l) = queue l" for failure c l
    by (cases c; cases failure) (simp_all add: drive_command_def reply_def)
  show ?thesis
  proof (cases "queue s = [] \<or> (\<nexists>failure. x = TakeCommand failure) \<or> (pc s \<noteq> Driving \<and> (\<nexists>d. pc s = BackingOff d))")
    case True
    then show ?thesis
      by (intro same, cases "pc s"; cases x)
        (auto simp: loop_step_def read drive_tick_def reject_while_disconnected_def after_backoff_def reconnecting_def
          split: option.splits)
  next
    case False
    then obtain c cs failure where "queue s = c # cs" "x = TakeCommand failure" "pc s = Driving \<or> (\<exists>d. pc s = BackingOff d)"
      by (cases "queue s") auto
    then have "queue (loop_step J C cfg x s) = cs"
      by (cases c) (auto simp: loop_step_def command reject_while_disconnected_def after_backoff_def reconnecting_def reply_def)
    with \<open>queue s = c # cs\<close> show ?thesis by (intro exI [of _ 1]) simp
  qed
qed

lemma within_capacity_step:
  assumes "within_capacity s"
  shows "within_capacity (link_step J C cfg s x)"
proof (cases x)
  case (Loop y)
  from loop_takes [of J C cfg y s] obtain k where "queue (loop_step J C cfg y s) = drop k (queue s)" by blast
  with assms Loop show ?thesis by (simp add: within_capacity_def)
qed (use assms in \<open>auto simp: within_capacity_def full_def submit_def notify_def mark_defs shutdown_def take_ingress_def\<close>)

interpretation capacity: preserved_by "link_step J C cfg" within_capacity "\<lambda>_ _. True" for J C cfg
  by unfold_locales (rule within_capacity_step)

lemma taking_makes_room:
  assumes "within_capacity s" "pc s = Driving \<or> (\<exists>d. pc s = BackingOff d)"
  shows "\<not> full (loop_step J C cfg (TakeCommand failure) s)"
proof (cases "queue s")
  case Nil
  with assms(2) show ?thesis by (auto simp: loop_step_def full_def command_capacity_def)
next
  case (Cons c cs)
  then have "length cs < command_capacity" using assms(1) by (simp add: within_capacity_def)
  moreover have "queue (loop_step J C cfg (TakeCommand failure) s) = cs"
    using assms(2) Cons by (cases c)
      (auto simp: loop_step_def drive_command_def reject_while_disconnected_def after_backoff_def reconnecting_def reply_def
        split: option.split)
  ultimately show ?thesis by (simp add: full_def)
qed

section \<open>What is written and what is received\<close>

text \<open>A frame of ours: it names a method, so it is a request or a notification and answers nothing.\<close>

definition names_method :: "'v json \<Rightarrow> 'v \<Rightarrow> bool" where
  "names_method J v = (get_str J v ''method'' \<noteq> None)"

lemma built_frames_name_methods [simp]:
  "json_laws J \<Longrightarrow> names_method J (request J i m p)" "json_laws J \<Longrightarrow> names_method J (notification J m p)"
  by (simp_all add: names_method_def request_def notification_def get_str_def json_get_obj)

definition receipts_ok :: "'v json \<Rightarrow> 'v Link \<Rightarrow> bool" where
  "receipts_ok J s \<longleftrightarrow>
     list_all (names_method J) (written s) \<and> inbound s = ingress s \<and>
     sorted_wrt (\<lambda>a b. sequence a < sequence b) (ingress s) \<and> list_all (\<lambda>e. sequence e \<le> seq s) (ingress s)"

lemma receipts_ok_cong:
  "receipts_ok J s \<Longrightarrow> written s' = written s \<Longrightarrow> inbound s' = inbound s \<Longrightarrow> ingress s' = ingress s \<Longrightarrow>
     seq s' = seq s \<Longrightarrow> receipts_ok J s'"
  by (simp add: receipts_ok_def)

lemma receipts_ok_next:
  assumes "receipts_ok J s" "unat (seq s) + 1 < 2 ^ 64" "written s' = written s"
    and "ingress s' = ingress s \<or> (\<exists>e. ingress s' = ingress s @ [e] \<and> sequence e = seq s + 1)"
    and "inbound s' = ingress s'" "seq s' = seq s + 1"
  shows "receipts_ok J s'"
proof -
  have less: "seq s < seq s + 1" using succ_no_wrap [OF assms(2)] by simp
  with assms(1) have "list_all (\<lambda>e. sequence e < seq s + 1) (ingress s)"
    by (auto simp: receipts_ok_def list_all_iff)
  with assms(1,3-6) show ?thesis
    by (auto simp: receipts_ok_def list_all_iff sorted_wrt_append less_imp_le)
qed

lemma receipts_initialize_read:
  assumes "receipts_ok J s" "unat (seq s) + 1 < 2 ^ 64"
  shows "receipts_ok J (initialize_read J C now el b r s)"
proof -
  have "receipts_ok J (initialize_frame J now el b f s)" for f
    by (rule receipts_ok_next [OF assms])
      (use assms(1) in \<open>simp_all add: initialize_frame_def Let_def receipts_ok_def split: option.split bool.split\<close>)
  with assms show ?thesis
    by (auto simp: initialize_read_def split: socket_read.split sum.split option.split intro: receipts_ok_cong)
qed

lemma receipts_drive_read:
  assumes "receipts_ok J s" "unat (seq s) + 1 < 2 ^ 64"
  shows "receipts_ok J (drive_read J C now el b r s)"
proof -
  have "receipts_ok J (drive_frame J now el b f s)" for f
    by (rule receipts_ok_next [OF assms])
      (use assms(1) in \<open>simp_all add: drive_frame_def Let_def receipts_ok_def\<close>)
  with drive_read_cases [of J C now el b r s] assms receipts_ok_cong [OF assms(1), of "drive_exit _ s"]
  show ?thesis by auto
qed

lemma written_drive_command:
  assumes "json_laws J" "receipts_ok J s"
  shows "receipts_ok J (drive_command J failure c (s\<lparr>queue := cs\<rparr>))"
  using assms by (cases c; cases failure; simp add: drive_command_def receipts_ok_def)

lemma receipts_loop_step:
  assumes J: "json_laws J" and ok: "receipts_ok J s" and room: "unat (seq s) + 1 < 2 ^ 64"
  shows "receipts_ok J (loop_step J C cfg x s)"
proof (cases "pc s")
  case Connecting
  with ok show ?thesis by (cases x) (auto simp: loop_step_def split: option.split intro: receipts_ok_cong)
next
  case SendingInitialize
  with ok J show ?thesis
    by (cases x) (auto simp: loop_step_def receipts_ok_def initialize_request_def split: option.split)
next
  case AwaitingInitialize
  with ok show ?thesis
    by (cases x) (auto simp: loop_step_def receipts_initialize_read [OF ok room])
next
  case SendingInitialized
  with ok J show ?thesis
    by (cases x) (auto simp: loop_step_def receipts_ok_def split: option.split)
next
  case Driving
  with ok show ?thesis
    by (cases x) (auto simp: loop_step_def receipts_drive_read [OF ok room] written_drive_command [OF J ok]
        drive_tick_def split: list.split intro: receipts_ok_cong)
next
  case (BackingOff d)
  show ?thesis
  proof (cases x)
    case (TakeCommand failure)
    show ?thesis
    proof (cases "queue s")
      case (Cons c cs)
      with BackingOff TakeCommand ok show ?thesis
        by (cases c) (auto simp: loop_step_def reject_while_disconnected_def intro: receipts_ok_cong)
    qed (use BackingOff TakeCommand ok in \<open>simp add: loop_step_def\<close>)
  qed (use BackingOff ok in \<open>auto simp: loop_step_def reject_while_disconnected_def intro: receipts_ok_cong\<close>)
next
  case Stopped
  with ok show ?thesis by (cases x) (auto simp: loop_step_def)
qed

lemma receipts_step:
  assumes "json_laws J" "receipts_ok J s" "link_admits s x"
  shows "receipts_ok J (link_step J C cfg s x)"
proof (cases x)
  case (Loop y)
  with receipts_loop_step [OF assms(1,2)] assms(3) show ?thesis by simp
qed (use assms(2) in \<open>auto simp: submit_def notify_def mark_defs shutdown_def take_ingress_def Let_def intro: receipts_ok_cong\<close>)

interpretation receipts: preserved_by "link_step J C cfg" "\<lambda>s. json_laws J \<and> receipts_ok J s" link_admits for J C cfg
  by unfold_locales (use receipts_step in blast)

definition backoff_ok :: "TransportConfig \<Rightarrow> 'v Link \<Rightarrow> bool" where
  "backoff_ok cfg s = (backoff s \<le> max (retry_initial cfg) (retry_max cfg))"

lemma backoff_loop_step:
  assumes "backoff_ok cfg s"
  shows "backoff_ok cfg (loop_step J C cfg x s)"
proof (cases "pc s")
  case Driving
  with assms drive_read_cases show ?thesis
    by (cases x) (auto simp: loop_step_def backoff_ok_def drive_tick_def drive_command_def drive_read_def
        split: list.split Command.split option.split socket_read.split sum.split)
next
  case (BackingOff d)
  show ?thesis
  proof (cases x)
    case (TakeCommand failure)
    show ?thesis
    proof (cases "queue s")
      case (Cons c cs)
      with BackingOff TakeCommand assms show ?thesis
        by (cases c) (simp_all add: loop_step_def reject_while_disconnected_def backoff_ok_def)
    qed (use BackingOff TakeCommand assms in \<open>simp add: loop_step_def\<close>)
  qed (use BackingOff assms in \<open>auto simp: loop_step_def reject_while_disconnected_def backoff_ok_def\<close>)
qed (use assms in \<open>cases x; auto simp: loop_step_def backoff_ok_def split: option.split\<close>)+

lemma backoff_step: "backoff_ok cfg s \<Longrightarrow> backoff_ok cfg (link_step J C cfg s x)"
proof (cases x)
  case (Loop y)
  then show "backoff_ok cfg s \<Longrightarrow> ?thesis" by (simp add: backoff_loop_step)
qed (auto simp: backoff_ok_def submit_def notify_def mark_defs shutdown_def take_ingress_def Let_def)

interpretation backoffs: preserved_by "link_step J C cfg" "backoff_ok cfg" "\<lambda>_ _. True" for J C cfg
  by unfold_locales (rule backoff_step)

section \<open>What a reply says was written\<close>

definition frame_id :: "'v json \<Rightarrow> 'v \<Rightarrow> 'v option" where
  "frame_id J f = get J f ''id''"

definition was_written :: "'v json \<Rightarrow> 'v Link \<Rightarrow> RpcId \<Rightarrow> string \<Rightarrow> bool" where
  "was_written J s i m \<longleftrightarrow>
     (\<exists>f \<in> set (written s). frame_id J f = Some (rpc_id_value J i) \<and> get_str J f ''method'' = Some m)"

definition queue_ids :: "'v Link \<Rightarrow> RpcId list" where
  "queue_ids s = concat (map request_id (queue s))"

definition never_written :: "'v json \<Rightarrow> 'v Link \<Rightarrow> RpcId \<Rightarrow> bool" where
  "never_written J s i \<longleftrightarrow> (\<forall>f \<in> set (written s). frame_id J f \<noteq> Some (rpc_id_value J i))"

definition writes_ok :: "'v json \<Rightarrow> 'v Link \<Rightarrow> bool" where
  "writes_ok J s \<longleftrightarrow>
     (\<forall>x \<in> set (pending s). was_written J s (fst x) (p_method (snd x))) \<and>
     (\<forall>i \<in> set (queue_ids s). never_written J s i) \<and>
     (\<forall>n. \<not> n < next_id s \<longrightarrow> never_written J s (Number n))"

lemma request_fields [simp]:
  "json_laws J \<Longrightarrow> frame_id J (request J i m p) = Some (rpc_id_value J i)"
  "json_laws J \<Longrightarrow> get_str J (request J i m p) ''method'' = Some m"
  "json_laws J \<Longrightarrow> frame_id J (notification J m p) = None"
  by (simp_all add: frame_id_def request_def notification_def json_get_obj get_str_def)

lemma rpc_id_value_inj: "json_laws J \<Longrightarrow> rpc_id_value J i = rpc_id_value J j \<longleftrightarrow> i = j"
  by (metis option.inject rpc_id_roundtrip)

lemma writes_ok_quiet:
  assumes "writes_ok J s" "written s' = written s" "set (pending s') \<subseteq> set (pending s)"
    "set (queue_ids s') \<subseteq> set (queue_ids s)" "next_id s' = next_id s"
  shows "writes_ok J s'"
proof -
  have "was_written J s' = was_written J s" "never_written J s' = never_written J s"
    using assms(2) by (intro ext, simp add: was_written_def never_written_def)+
  with assms(1,3-5) show ?thesis unfolding writes_ok_def by auto
qed

lemma writes_ok_other_frame:
  assumes "writes_ok J s" "written s' = written s @ [f]" "pending s' = pending s" "queue_ids s' = queue_ids s"
    "next_id s' = next_id s" "frame_id J f = None \<or> (\<exists>i. frame_id J f = Some (rpc_id_value J i) \<and>
       i \<notin> set (queue_ids s) \<and> (\<forall>n. i = Number n \<longrightarrow> n < next_id s))" "json_laws J"
  shows "writes_ok J s'"
  using assms rpc_id_value_inj [OF assms(7)]
  by (auto simp: writes_ok_def was_written_def never_written_def)

lemma queue_ids_cons: "queue s = c # cs \<Longrightarrow> queue_ids s = request_id c @ queue_ids (s\<lparr>queue := cs\<rparr>)"
  by (simp add: queue_ids_def)

lemma open_ids_queue: "open_ids s = queue_ids s @ map fst (pending s)"
  by (simp add: open_ids_def queue_ids_def)

lemma writes_ok_command:
  assumes J: "json_laws J" and ids: "ids_ok s" and ok: "writes_ok J s" and q: "queue s = c # cs"
  shows "writes_ok J (drive_command J failure c (s\<lparr>queue := cs\<rparr>))"
proof (cases "failure = None")
  case False
  then obtain e where "failure = Some e" by auto
  then have "written (drive_command J failure c (s\<lparr>queue := cs\<rparr>)) = written s"
    and "set (pending (drive_command J failure c (s\<lparr>queue := cs\<rparr>))) \<subseteq> set (pending s)"
    and "queue (drive_command J failure c (s\<lparr>queue := cs\<rparr>)) = cs"
    by (cases c; simp add: drive_command_def)+
  with ok q show ?thesis by (intro writes_ok_quiet [OF ok]) (auto simp: queue_ids_def)
next
  case True
  show ?thesis
  proof (cases c)
    case (C_Request i m p ch)
    have i: "i \<notin> fst ` set (pending s)" "i \<notin> set (queue_ids (s\<lparr>queue := cs\<rparr>))"
      and n: "\<forall>n. i = Number n \<longrightarrow> n < next_id s"
      using ids by (auto simp: ids_ok_def open_ids_queue queue_ids_cons [OF q] C_Request)
    have qs: "queue_ids (drive_command J failure c (s\<lparr>queue := cs\<rparr>)) = queue_ids (s\<lparr>queue := cs\<rparr>)"
      by (simp add: C_Request True drive_command_def queue_ids_def)
    have sub: "set (queue_ids (s\<lparr>queue := cs\<rparr>)) \<subseteq> set (queue_ids s)" by (simp add: queue_ids_cons [OF q])
    have "\<forall>j \<in> set (queue_ids (s\<lparr>queue := cs\<rparr>)). rpc_id_value J i \<noteq> rpc_id_value J j"
      using i(2) by (auto simp: rpc_id_value_inj [OF J])
    moreover have "\<forall>n. \<not> n < next_id s \<longrightarrow> rpc_id_value J i \<noteq> rpc_id_value J (Number n)"
      using n by (auto simp: rpc_id_value_inj [OF J])
    ultimately show ?thesis
      using ok sub J pending_insert_fresh [OF i(1), of "\<lparr>p_method = m, p_response = ch\<rparr>"]
      unfolding writes_ok_def qs
      by (auto simp: C_Request True drive_command_def was_written_def never_written_def)
  next
    case (C_Notify m p)
    with True J q show ?thesis
      by (intro writes_ok_other_frame [OF ok _ _ _ _ _ J, where f = "notification J m p"]) (simp_all add: drive_command_def queue_ids_def)
  qed (use True q in \<open>intro writes_ok_quiet [OF ok]; auto simp: drive_command_def queue_ids_def\<close>)+
qed

lemma writes_ok_read:
  assumes "writes_ok J s"
  shows "writes_ok J (drive_read J C now el b r s)"
proof -
  have "writes_ok J (drive_exit x s)" for x
    by (rule writes_ok_quiet [OF assms]) (simp_all add: queue_ids_def)
  moreover have "writes_ok J (drive_frame J now el b f s)" for f
  proof -
    obtain P where "pending (answer_pending J f (next_seq s)) = filter P (pending s)"
      using answer_pending_subset [of J f "next_seq s"] by auto
    then have "set (pending (drive_frame J now el b f s)) \<subseteq> set (pending s)"
      by (auto simp: drive_frame_def Let_def)
    then show ?thesis by (intro writes_ok_quiet [OF assms]) (simp_all add: queue_ids_def)
  qed
  ultimately show ?thesis using drive_read_cases [of J C now el b r s] assms by metis
qed

lemma writes_ok_loop_step:
  assumes J: "json_laws J" and ids: "ids_ok s" and pos: "0 < next_id s" and ok: "writes_ok J s"
  shows "writes_ok J (loop_step J C cfg x s)"
proof -
  note quiet = writes_ok_quiet [OF ok]
  have zero: "Number 0 \<notin> set (queue_ids s)" using ids by (auto simp: ids_ok_def open_ids_queue)
  show ?thesis
  proof (cases "pc s")
    case Connecting
    with ok show ?thesis by (cases x) (auto simp: loop_step_def queue_ids_def split: option.split intro!: quiet)
  next
    case SendingInitialize
    have "writes_ok J (s\<lparr>written := written s @ [initialize_request J cfg], pc := AwaitingInitialize\<rparr>)"
      using J zero pos
      by (intro writes_ok_other_frame [OF ok _ _ _ _ _ J, where f = "initialize_request J cfg"])
        (auto simp: initialize_request_def queue_ids_def)
    with SendingInitialize ok show ?thesis
      by (cases x) (auto simp: loop_step_def queue_ids_def split: option.split intro!: quiet)
  next
    case AwaitingInitialize
    with ok show ?thesis by (cases x) (auto simp: loop_step_def queue_ids_def intro!: quiet)
  next
    case SendingInitialized
    let ?f = "notification J ''initialized'' (jobj J [])"
    have "writes_ok J (start_driving cfg (s\<lparr>written := written s @ [?f]\<rparr>))"
      using J by (intro writes_ok_other_frame [OF ok _ _ _ _ _ J, where f = ?f]) (simp_all add: queue_ids_def)
    with SendingInitialized ok show ?thesis
      by (cases x) (auto simp: loop_step_def queue_ids_def split: option.split intro!: quiet)
  next
    case Driving
    with ok show ?thesis
      by (cases x) (auto simp: loop_step_def drive_tick_def writes_ok_read writes_ok_command [OF J ids ok] queue_ids_def
          split: list.split intro!: quiet)
  next
    case (BackingOff d)
    show ?thesis
    proof (cases x)
      case (TakeCommand failure)
      show ?thesis
      proof (cases "queue s")
        case (Cons c cs)
        with BackingOff TakeCommand show ?thesis
          by (cases c) (auto simp: loop_step_def reject_while_disconnected_def queue_ids_def intro!: quiet)
      qed (use BackingOff TakeCommand ok in \<open>simp add: loop_step_def\<close>)
    qed (use BackingOff ok in \<open>auto simp: loop_step_def reject_while_disconnected_def queue_ids_def intro!: quiet\<close>)
  next
    case Stopped
    with ok show ?thesis by (cases x) (auto simp: loop_step_def)
  qed
qed

lemma writes_ok_submit:
  assumes "writes_ok J s" "link_admits s (Submit action m p)"
  shows "writes_ok J (snd (submit action m p s))"
proof (cases "action \<and> \<not> is_reconciled s")
  case False
  let ?s = "snd (submit action m p s)"
  have same: "was_written J ?s = was_written J s" "never_written J ?s = never_written J s" "pending ?s = pending s"
    and qs: "queue_ids ?s = queue_ids s @ [Number (next_id s)]" and nx: "next_id ?s = next_id s + 1"
    using False by (auto simp: submit_def was_written_def [abs_def] never_written_def [abs_def] queue_ids_def)
  have "\<not> n < next_id s" if "\<not> n < next_id s + 1" for n
    using that succ_no_wrap [of "next_id s"] assms(2) by (auto intro: less_trans)
  with assms(1) show ?thesis unfolding writes_ok_def same qs nx by auto
qed (use assms in \<open>simp add: submit_def\<close>)

lemma writes_ok_step:
  assumes "json_laws J" "ids_ok s" "channels_ok s" "writes_ok J s" "link_admits s x"
  shows "writes_ok J (link_step J C cfg s x)"
proof (cases x)
  case (Submit action m p)
  with writes_ok_submit assms show ?thesis by (cases "pc s = Stopped") auto
next
  case (Loop y)
  with writes_ok_loop_step [OF assms(1,2) _ assms(4)] assms(3) show ?thesis by (simp add: channels_ok_def)
qed (use assms(4) in \<open>auto simp: notify_def mark_defs shutdown_def take_ingress_def Let_def queue_ids_def
       intro!: writes_ok_quiet [OF assms(4)]\<close>)

definition link_ok :: "'v json \<Rightarrow> 'v Link \<Rightarrow> bool" where
  "link_ok J s \<longleftrightarrow> json_laws J \<and> ids_ok s \<and> channels_ok s \<and> writes_ok J s"

interpretation links: preserved_by "link_step J C cfg" "link_ok J" link_admits for J C cfg
  by unfold_locales (unfold link_ok_def, use link_step_effect writes_ok_step in blast)

lemma link_ok_spawn: "json_laws J \<Longrightarrow> link_ok J (spawn cfg)"
  by (simp add: link_ok_def) (simp add: writes_ok_def spawn_def queue_ids_def never_written_def)

text \<open>The replies a step adds, and what each says.\<close>

definition new_replies :: "'v Link \<Rightarrow> 'v Link \<Rightarrow> (nat \<times> 'v answer) list" where
  "new_replies s s' = drop (length (replies s)) (replies s')"

definition truthful :: "'v json \<Rightarrow> 'v Link \<Rightarrow> 'v Link \<Rightarrow> nat \<times> 'v answer \<Rightarrow> bool" where
  "truthful J s s' r \<longleftrightarrow>
     (case snd r of
        Inl (NotWritten d) \<Rightarrow> \<exists>i m p. C_Request i m p (fst r) \<in> set (queue s) \<and> never_written J s' i
      | Inl (WrittenOutcomeUnknown i m d) \<Rightarrow>
          (i, \<lparr>p_method = m, p_response = fst r\<rparr>) \<in> set (pending s) \<and> was_written J s' i m
      | Inl (Rejected m err) \<Rightarrow>
          \<exists>i. (i, \<lparr>p_method = m, p_response = fst r\<rparr>) \<in> set (pending s) \<and> was_written J s' i m
      | Inr v \<Rightarrow> \<exists>i m. (i, \<lparr>p_method = m, p_response = fst r\<rparr>) \<in> set (pending s) \<and> was_written J s' i m
      | _ \<Rightarrow> False)"

lemma was_written_cong: "written s' = written s \<Longrightarrow> was_written J s' = was_written J s"
  by (intro ext) (simp add: was_written_def)

lemma never_written_cong: "written s' = written s \<Longrightarrow> never_written J s' = never_written J s"
  by (intro ext) (simp add: never_written_def)

lemma truthful_pending:
  assumes "writes_ok J s" "(i, p) \<in> set (pending s)" "written s' = written s"
  shows "truthful J s s' (p_response p, Inl (WrittenOutcomeUnknown i (p_method p) d))"
    and "truthful J s s' (p_response p, response_answer J (p_method p) res err)"
proof -
  have "was_written J s' i (p_method p)"
    using assms(1,2) was_written_cong [OF assms(3), of J] unfolding writes_ok_def by fastforce
  moreover have "(i, \<lparr>p_method = p_method p, p_response = p_response p\<rparr>) \<in> set (pending s)"
    using assms(2) by (cases p) simp
  ultimately show "truthful J s s' (p_response p, Inl (WrittenOutcomeUnknown i (p_method p) d))"
    and "truthful J s s' (p_response p, response_answer J (p_method p) res err)"
    by (auto simp: truthful_def response_answer_def split: option.split)
qed

lemma truthful_exit:
  assumes "writes_ok J s"
  shows "list_all (truthful J s (drive_exit x s)) (new_replies s (drive_exit x s))"
  using truthful_pending(1) [OF assms]
  by (auto simp: new_replies_def drive_exit_replies list_all_iff)

lemma truthful_frame:
  assumes "writes_ok J s"
  shows "list_all (truthful J s (drive_frame J now el b f s)) (new_replies s (drive_frame J now el b f s))"
proof -
  let ?s' = "drive_frame J now el b f s" and ?a = "answer_pending J f (next_seq s)"
  note truth = truthful_pending [OF assms, where s' = ?s', OF _ drive_frame_frame(4)]
  have sub: "set (pending ?a) \<subseteq> set (pending s)" using answer_pending_subset [of J f "next_seq s"] by auto
  have one: "\<exists>rs. replies ?a = replies s @ rs \<and> list_all (truthful J s ?s') rs"
  proof (cases f)
    case (Response i result error raw)
    show ?thesis
    proof (cases "map_of (pending s) i")
      case (Some p)
      then have "(i, p) \<in> set (pending s)" by (rule map_of_SomeD)
      from truth(2) [OF this] Some show ?thesis
        by (auto simp: Response answer_pending_def pending_remove_def)
    qed (simp add: Response answer_pending_def pending_remove_def)
  qed (simp_all add: answer_pending_def)
  then obtain rs where rs: "replies ?a = replies s @ rs" "list_all (truthful J s ?s') rs" by blast
  show ?thesis
  proof (cases b)
    case True
    then have "replies ?s' = replies ?a" by (simp add: drive_frame_def Let_def)
    with rs show ?thesis by (simp add: new_replies_def)
  next
    case False
    then have "replies ?s' = replies (drive_exit CommandsClosed ?a)" by (simp add: drive_frame_def Let_def)
    moreover have "list_all (truthful J s ?s') (map (\<lambda>(i, p). (p_response p,
        Inl (WrittenOutcomeUnknown i (p_method p) ''connection closed''))) (pending ?a))"
      using sub truth(1) by (auto simp: list_all_iff)
    ultimately show ?thesis using rs by (simp add: new_replies_def drive_exit_replies)
  qed
qed

lemma truthful_command:
  assumes ok: "writes_ok J s" and q: "queue s = c # cs"
  shows "list_all (truthful J s (drive_command J failure c (s\<lparr>queue := cs\<rparr>)))
    (new_replies s (drive_command J failure c (s\<lparr>queue := cs\<rparr>)))"
proof -
  have never: "never_written J s i" if "c = C_Request i m p ch" for i m p ch
    using ok that by (simp add: writes_ok_def queue_ids_cons [OF q])
  show ?thesis
  proof (cases c)
    case (C_Request i m p ch)
    show ?thesis
    proof (cases failure)
      case (Some e)
      let ?s' = "drive_command J failure c (s\<lparr>queue := cs\<rparr>)"
      have w: "written ?s' = written s" by (simp add: C_Request Some drive_command_def)
      have "truthful J s ?s' (ch, Inl (NotWritten e))"
        using never [OF C_Request] q unfolding truthful_def never_written_cong [OF w] by (auto simp: C_Request)
      moreover have "list_all (truthful J s ?s') (map (\<lambda>(i, p). (p_response p,
          Inl (WrittenOutcomeUnknown i (p_method p) e))) (pending s))"
        using truthful_pending(1) [OF ok _ w] by (auto simp: list_all_iff)
      moreover have "new_replies s ?s' = (ch, Inl (NotWritten e)) # map (\<lambda>(i, p). (p_response p,
          Inl (WrittenOutcomeUnknown i (p_method p) e))) (pending s)"
        by (simp add: C_Request Some drive_command_def new_replies_def drive_exit_replies)
      ultimately show ?thesis by simp
    qed (simp add: C_Request drive_command_def new_replies_def)
  next
    case (C_Notify m p)
    show ?thesis
    proof (cases failure)
      case (Some e)
      have "drive_command J failure c (s\<lparr>queue := cs\<rparr>) = drive_exit (Disconnected e) (s\<lparr>queue := cs\<rparr>)"
        by (simp add: C_Notify Some drive_command_def)
      then show ?thesis
        using truthful_pending(1) [OF ok, where s' = "drive_exit (Disconnected e) (s\<lparr>queue := cs\<rparr>)"]
        by (auto simp: new_replies_def drive_exit_replies list_all_iff)
    qed (simp add: C_Notify drive_command_def new_replies_def)
  next
    case (C_Shutdown ch)
    then show ?thesis
      using truthful_pending(1) [OF ok, where s' = "drive_exit (ExitShutdown ch) (s\<lparr>queue := cs\<rparr>)"]
      by (auto simp: drive_command_def new_replies_def drive_exit_replies list_all_iff)
  qed (simp add: drive_command_def new_replies_def)
qed

lemma truthful_step:
  assumes ok: "writes_ok J s"
  shows "list_all (truthful J s (link_step J C cfg s x)) (new_replies s (link_step J C cfg s x))"
proof (cases "\<exists>y. x = Loop y \<and> (pc s = Driving \<or> (\<exists>d. pc s = BackingOff d))")
  case False
  then have "replies (link_step J C cfg s x) = replies s"
    by (cases x; cases "pc s")
      (auto simp: submit_def notify_def mark_defs shutdown_def take_ingress_def Let_def loop_step_def
        split: link_input.split option.split)
  then show ?thesis by (simp add: new_replies_def)
next
  case True
  then obtain y where x: "x = Loop y" by blast
  from True consider "pc s = Driving" | d where "pc s = BackingOff d" by blast
  then show ?thesis
  proof cases
    case 1
    have read: "list_all (truthful J s (drive_read J C now el b r s)) (new_replies s (drive_read J C now el b r s))" for now el b r
      using drive_read_cases [of J C now el b r s] truthful_exit [OF ok] truthful_frame [OF ok, of now el b]
      by (auto simp: new_replies_def)
    from 1 show ?thesis unfolding x
      by (cases y) (auto simp: loop_step_def truthful_exit [OF ok] read truthful_command [OF ok] drive_tick_def
          new_replies_def [of s s] split: list.split)
  next
    case (2 d)
    show ?thesis
    proof (cases "\<exists>failure. y = TakeCommand failure")
      case True
      show ?thesis
      proof (cases "queue s")
        case (Cons c cs)
        let ?s' = "link_step J C cfg s x"
        have s': "?s' = (let (ends, s') = reject_while_disconnected d (Some c) (s\<lparr>queue := cs\<rparr>)
            in if ends then s'\<lparr>pc := Stopped\<rparr> else after_backoff cfg s')"
          using 2 True Cons by (auto simp: x loop_step_def)
        have w: "written ?s' = written s" unfolding s' by (cases c) (simp_all add: reject_while_disconnected_def)
        show ?thesis
        proof (cases c)
          case (C_Request i m p ch)
          then have "new_replies s ?s' = [(ch, Inl (NotWritten d))]"
            unfolding new_replies_def s' by (simp add: reject_while_disconnected_def)
          moreover have "never_written J s i" "C_Request i m p ch \<in> set (queue s)"
            using ok Cons C_Request by (simp_all add: writes_ok_def queue_ids_cons [OF Cons])
          ultimately show ?thesis
            by (simp add: truthful_def never_written_cong [OF w]) blast
        qed (simp_all add: new_replies_def s' reject_while_disconnected_def)
      qed (use 2 True x in \<open>auto simp: loop_step_def new_replies_def\<close>)
    qed (use 2 x in \<open>cases y; simp add: loop_step_def new_replies_def reject_while_disconnected_def\<close>)
  qed
qed

section \<open>Properties\<close>

text \<open>C13. Every request is answered exactly once or still open: after any interleaving of the handle and the
  loop, over any number of connections and failures, the channels of the accepted requests are,
  each exactly once, those that got a reply, those queued and those pending on the current
  connection; no channel gets two replies, and nothing is pending outside a connection.\<close>

theorem every_request_answered_once:
  assumes "admissible (link_step J C cfg) link_admits (spawn cfg) ops"
  shows "let s = foldl (link_step J C cfg) (spawn cfg) ops
    in mset (answered s) + mset (open_channels s) = mset (accepted_run J C cfg (spawn cfg) ops) \<and>
       distinct (answered s @ open_channels s) \<and> (pc s = Driving \<or> pending s = [])"
proof -
  let ?s = "foldl (link_step J C cfg) (spawn cfg) ops"
  note effect = link_run_effect [OF spawn_ok(1,2) assms]
  then have "channels_ok ?s" by blast
  then have "count (mset (answered ?s @ open_channels ?s)) ch \<le> 1" for ch
    unfolding channels_ok_def balance_def mset_append by blast
  then have "distinct (answered ?s @ open_channels ?s)"
    unfolding distinct_count_atmost_1 by (simp only: le_Suc_eq One_nat_def le_zero_eq) (metis count_mset_0_iff)
  moreover have "balance ?s = mset (accepted_run J C cfg (spawn cfg) ops)" using effect by simp
  moreover have "pc ?s = Driving \<or> pending ?s = []" using effect unfolding ids_ok_def by blast
  ultimately show ?thesis unfolding Let_def balance_def by blast
qed

text \<open>A configuration and readers for the concrete runs: every text is a response to request 0.\<close>

definition test_config :: TransportConfig where
  "test_config = \<lparr>socket_path = ''/run/rpc.sock'', connect_timeout = 3000, read_idle_timeout = 30000,
     request_timeout = 15000, retry_initial = 100, retry_max = 5000,
     client_name = ''codex-control'', client_version = ''0''\<rparr>"

definition test_codec :: "jv codec" where
  "test_codec = \<lparr>text_json = (\<lambda>t. Inr (JObj [(''id'', JNum 0), (''result'', JStr t)])), bytes_json = (\<lambda>_. Inl [])\<rparr>"

definition connect_ops :: "jv link_op list" where
  "connect_ops = [Loop (ConnectResult None), Loop (WriteResult None),
     Loop (HandshakeRead 0 0 True (Message (TextMessage []))), Loop (WriteResult None)]"

lemmas link_run_defs =
  connect_ops_def test_codec_def test_config_def spawn_def loop_step_def submit_def is_reconciled_def
  mark_defs full_def command_capacity_def notify_def initialize_read_def initialize_frame_def message_json_def start_driving_def
  drive_command_def drive_exit_def fail_pending_def drive_read_def reject_while_disconnected_def degrade_def
  after_backoff_def reconnecting_def set_health_def hand_over_def next_seq_def reply_def pending_insert_def
  default_health_def parse_def get_str_def rpc_id_from_value_def Let_def

theorem every_request_answered_once_witness:
  "let ops = connect_ops @ [Submit False ''thread/list'' JNull, Submit False ''thread/read'' JNull,
         Loop (TakeCommand None), Loop (TakeCommand (Some ''broken pipe''))];
       s = foldl (link_step jv_api test_codec test_config) (spawn test_config) ops
   in distinct (answered s @ open_channels s)"
proof -
  let ?ops = "connect_ops @ [Submit False ''thread/list'' JNull, Submit False ''thread/read'' JNull,
    Loop (TakeCommand None), Loop (TakeCommand (Some ''broken pipe''))]"
  have "admissible (link_step jv_api test_codec test_config) link_admits (spawn test_config) ?ops"
    by (simp add: link_run_defs)
  from every_request_answered_once [OF this] show ?thesis unfolding Let_def by blast
qed

text \<open>C12. A reply says truly what was written: whatever happened before, a step that replies that a
  request was not written does so for a queued request of which no frame was ever written on
  any connection; a reply that the outcome is unknown, a rejection and a result go to a request that is pending
  and whose frame, with its id and method, was written; no other reply is ever sent.\<close>

theorem replies_tell_what_was_written:
  assumes "json_laws J" "admissible (link_step J C cfg) link_admits (spawn cfg) ops"
  shows "let s = foldl (link_step J C cfg) (spawn cfg) ops; s' = link_step J C cfg s x
    in list_all (truthful J s s') (new_replies s s')"
  using links.run_inv [OF link_ok_spawn [OF assms(1)] assms(2)]
  by (simp add: Let_def truthful_step link_ok_def)

theorem replies_tell_what_was_written_witness:
  "let s = foldl (link_step jv_api test_codec test_config) (spawn test_config)
         (connect_ops @ [Submit False ''thread/list'' JNull]);
       s' = link_step jv_api test_codec test_config s (Loop (TakeCommand (Some ''broken pipe'')))
   in new_replies s s' = [(0, Inl (NotWritten ''broken pipe''))] \<and> list_all (truthful jv_api s s') (new_replies s s')"
proof -
  let ?ops = "connect_ops @ [Submit False ''thread/list'' JNull]"
  let ?s = "foldl (link_step jv_api test_codec test_config) (spawn test_config) ?ops"
  have "admissible (link_step jv_api test_codec test_config) link_admits (spawn test_config) ?ops"
    by (simp add: link_run_defs)
  note truth = replies_tell_what_was_written [OF jv_api_laws this, of "Loop (TakeCommand (Some ''broken pipe''))"]
  have "new_replies ?s (link_step jv_api test_codec test_config ?s (Loop (TakeCommand (Some ''broken pipe'')))) =
      [(0, Inl (NotWritten ''broken pipe''))]"
    by (simp add: new_replies_def link_run_defs)
  with truth show ?thesis unfolding Let_def by blast
qed

text \<open>C31. Receipts are ordered and nothing is ever answered: over all connections the events handed to the
  authoritative ingress carry strictly increasing sequences and are the ones fanned out, and every frame
  written names a method, so that no server request, approvals included, is ever responded to.\<close>

theorem receipts_increase_and_nothing_is_answered:
  assumes "json_laws J" "admissible (link_step J C cfg) link_admits (spawn cfg) ops"
  shows "let s = foldl (link_step J C cfg) (spawn cfg) ops
    in sorted_wrt (\<lambda>a b. sequence a < sequence b) (ingress s) \<and> inbound s = ingress s \<and>
       list_all (\<lambda>f. get_str J f ''method'' \<noteq> None) (written s)"
proof -
  have "receipts_ok J (spawn cfg)" by (simp add: receipts_ok_def spawn_def)
  with receipts.run_inv [of J "spawn cfg" C cfg ops] assms show ?thesis
    by (simp add: receipts_ok_def names_method_def [abs_def] Let_def)
qed

theorem receipts_increase_and_nothing_is_answered_witness:
  "let s = foldl (link_step jv_api test_codec test_config) (spawn test_config)
         (connect_ops @ [Loop (DriveRead 0 0 True (Message (TextMessage [])))])
   in length (ingress s) = 2 \<and> sorted_wrt (\<lambda>a b. sequence a < sequence b) (ingress s)"
proof -
  let ?ops = "connect_ops @ [Loop (DriveRead 0 0 True (Message (TextMessage [])))]"
  have "admissible (link_step jv_api test_codec test_config) link_admits (spawn test_config) ?ops"
    by (simp add: link_run_defs)
  note order = receipts_increase_and_nothing_is_answered [OF jv_api_laws this]
  have "length (ingress (foldl (link_step jv_api test_codec test_config) (spawn test_config) ?ops)) = 2"
    by (simp add: link_run_defs drive_frame_def answer_pending_def pending_remove_def)
  with order show ?thesis unfolding Let_def by blast
qed

text \<open>Recovery: what the daemon has to send for the handshake to succeed.\<close>

definition greets :: "'v json \<Rightarrow> 'v codec \<Rightarrow> ws_message \<Rightarrow> bool" where
  "greets J C m \<longleftrightarrow>
     (\<exists>v result raw. message_json C m = Inr (Some v) \<and> parse J v = Inr (Response (Number 0) result None raw))"

definition handshake_inputs :: "ws_message \<Rightarrow> link_input list" where
  "handshake_inputs m =
     [WriteResult None, HandshakeRead 0 0 True (Message m), WriteResult None]"

abbreviation loop_run :: "'v json \<Rightarrow> 'v codec \<Rightarrow> TransportConfig \<Rightarrow> 'v Link \<Rightarrow> link_input list \<Rightarrow> 'v Link" where
  "loop_run J C cfg s xs \<equiv> foldl (\<lambda>s x. loop_step J C cfg x s) s xs"

lemma greeted:
  assumes "greets J C m" "pc s = AwaitingInitialize"
  shows "pc (loop_step J C cfg (HandshakeRead 0 0 True (Message m)) s) = SendingInitialized \<and>
    queue (loop_step J C cfg (HandshakeRead 0 0 True (Message m)) s) = queue s"
  using assms by (auto simp: greets_def loop_step_def initialize_read_def initialize_frame_def Let_def)

lemma handshake_succeeds:
  assumes "greets J C m" "pc s = SendingInitialize"
  shows "pc (loop_run J C cfg s (handshake_inputs m)) = Driving \<and>
    queue (loop_run J C cfg s (handshake_inputs m)) = queue s"
proof -
  let ?s1 = "loop_step J C cfg (WriteResult None) s"
  have "pc ?s1 = AwaitingInitialize" "queue ?s1 = queue s"
    using assms(2) by (simp_all add: loop_step_def)
  with greeted [OF assms(1), of ?s1 cfg] show ?thesis
    by (simp add: handshake_inputs_def loop_step_def [of _ _ _ "WriteResult None" "loop_step _ _ _ _ _"])
qed

text \<open>From every state but the last one, a connection that succeeds leads to driving, the queue intact.\<close>

lemma reaches_driving:
  assumes "greets J C m" "pc s \<noteq> Stopped"
  shows "\<exists>xs. pc (loop_run J C cfg s xs) = Driving \<and> queue (loop_run J C cfg s xs) = queue s"
proof -
  have connecting: "\<exists>xs. pc (loop_run J C cfg t xs) = Driving \<and> queue (loop_run J C cfg t xs) = queue t"
    if "pc t = Connecting" for t
  proof -
    let ?t = "loop_step J C cfg (ConnectResult None) t"
    have "pc ?t = SendingInitialize" "queue ?t = queue t" using that by (simp_all add: loop_step_def)
    with handshake_succeeds [OF assms(1), of ?t cfg] show ?thesis
      by (intro exI [of _ "ConnectResult None # handshake_inputs m"]) simp
  qed
  show ?thesis
  proof (cases "pc s")
    case Connecting
    then show ?thesis by (rule connecting)
  next
    case SendingInitialize
    with handshake_succeeds [OF assms(1)] show ?thesis by blast
  next
    case AwaitingInitialize
    with greeted [OF assms(1), of s cfg] show ?thesis
      by (intro exI [of _ "[HandshakeRead 0 0 True (Message m), WriteResult None]"])
         (simp add: loop_step_def [of _ _ _ "WriteResult None" "loop_step _ _ _ _ _"])
  next
    case SendingInitialized
    then show ?thesis by (intro exI [of _ "[WriteResult None]"]) (simp add: loop_step_def)
  next
    case Driving
    then show ?thesis by (intro exI [of _ "[]"]) simp
  next
    case (BackingOff d)
    let ?t = "loop_step J C cfg Slept s"
    have "pc ?t = Connecting" "queue ?t = queue s" using BackingOff by (simp_all add: loop_step_def)
    with connecting [of ?t] obtain xs where "pc (loop_run J C cfg ?t xs) = Driving" "queue (loop_run J C cfg ?t xs) = queue s"
      by auto
    then show ?thesis by (intro exI [of _ "Slept # xs"]) simp
  qed (use assms(2) in simp)
qed

fun shutdown_command :: "'v Command \<Rightarrow> bool" where
  "shutdown_command (C_Shutdown ch) = True"
| "shutdown_command _ = False"

fun command_frame :: "'v json \<Rightarrow> 'v Command \<Rightarrow> 'v list" where
  "command_frame J (C_Request i m p ch) = [request J i m p]"
| "command_frame J (C_Notify m p) = [notification J m p]"
| "command_frame J _ = []"

lemma queue_is_written:
  assumes "pc s = Driving" "list_all (\<lambda>c. \<not> shutdown_command c) (queue s)"
  shows "let s' = loop_run J C cfg s (replicate (length (queue s)) (TakeCommand None))
    in pc s' = Driving \<and> queue s' = [] \<and> written s' = written s @ concat (map (command_frame J) (queue s))"
  using assms
proof (induction "queue s" arbitrary: s)
  case Nil
  then show ?case by simp
next
  case (Cons c cs)
  let ?s = "loop_step J C cfg (TakeCommand None) s"
  have q: "queue s = c # cs" using Cons.hyps(2) by simp
  have "pc ?s = Driving \<and> queue ?s = cs \<and> written ?s = written s @ command_frame J c"
    using Cons.prems q by (cases c) (simp_all add: loop_step_def drive_command_def)
  with Cons.hyps(1) [of ?s] Cons.prems q show ?case by (simp add: Let_def)
qed



text \<open>The back-off is capped: after any run it is at most the larger of the configured initial
  and maximal delays.\<close>

theorem backoff_is_capped:
  "backoff (foldl (link_step J C cfg) (spawn cfg) ops) \<le> max (retry_initial cfg) (retry_max cfg)"
  using backoffs.run_inv [of cfg "spawn cfg" J C ops] by (simp add: backoff_ok_def spawn_def)

text \<open>The gate is checked on submission only: an action accepted while reconciled, and still queued
  when the connection breaks, is written on the next connection, which is not reconciled.\<close>

theorem queued_action_crosses_the_gate:
  "let s = foldl (link_step jv_api test_codec test_config) (spawn test_config)
         (connect_ops @ [MarkReconciled, Loop (TakeCommand None), Submit True ''turn/start'' JNull,
            Loop (DriveRead 0 0 True StreamEnded)] @ connect_ops @ [Loop (TakeCommand None)])
   in \<not> is_reconciled s \<and> phase (health s) = P_Reconciling \<and>
      last (written s) = request jv_api (Number 1) ''turn/start'' JNull"
  by (simp add: link_run_defs)

text \<open>Marking reconciled needs no connection: on a transport that has never connected the call is
  acknowledged, and leaves the gate open for actions.\<close>

theorem gate_opens_without_connection:
  "let s = foldl (link_step jv_api test_codec test_config) (spawn test_config)
         [Loop (ConnectResult (Some ''refused'')), MarkReconciled, Loop (TakeCommand None)]
   in acknowledged s = [0] \<and> is_reconciled s \<and> phase (health s) = P_Connecting \<and> written s = []"
  by (simp add: link_run_defs)

end
