(* ===== verification/Core.thy ===== *)
theory Core
  imports Process_Ops Reconcile Control Transport
begin

text \<open>
  The embedded library (\<open>src/core/src/lib.rs\<close>): the configuration, the start of a run, and the
  running system, in which the transport, the ingress task, the discoveries of signals, the main
  task, the watcher of reconnections and the cleanup of a shutdown interleave. One input is one
  turn of one of them, between two of its awaits; they share the reducer and the store (held by
  the ingestor here, as every component holds a clone of them), the hub and the transport's link.
\<close>

section \<open>Configuration and errors\<close>

record Config =
  manage_gui :: bool
  transport_config :: TransportConfig
  store_settings :: StoreConfig
  ingest_config :: IngestConfig
  control_config :: ControlConfig
  lifecycle_replay_capacity :: nat
  lifecycle_broadcast_capacity :: nat
  delta_broadcast_capacity :: nat
  supervisor_config :: SupervisorConfig

text \<open>\<open>version\<close> is the version of the transport crate.\<close>

definition default_config :: "string option \<Rightarrow> string \<Rightarrow> Config" where
  "default_config home version =
     (let supervisor = default_supervisor_config home
      in \<lparr>manage_gui = True,
          transport_config = (default_transport_config home version)\<lparr>socket_path := daemon_socket supervisor\<rparr>,
          store_settings = default_store_config, ingest_config = default_ingest_config,
          control_config = default_control_config, lifecycle_replay_capacity = 4096,
          lifecycle_broadcast_capacity = 1024, delta_broadcast_capacity = 2048,
          supervisor_config = supervisor\<rparr>)"

datatype 'v CoreError =
    CE_Supervisor SupervisorError
  | CE_Ingest "'v IngestError"
  | CE_IngressAlreadyTaken
  | CE_Transport "'v RequestError"

section \<open>The running system\<close>

text \<open>
  The main task: reconciling, closing the transport after a failed reconciliation, waiting for room
  in the channel of the commands with the flag of \<open>mark_reconciled\<close> raised, waiting for its
  acknowledgement, running the operation of the caller, ending (whether it
  runs the cleanup itself), returned.
\<close>

datatype 'v main_pc =
    M_Reconciling "'v reconcile_pc"
  | M_Closing "'v IngestError"
  | M_Offering
  | M_Marking nat
  | M_Operating
  | M_Ending bool
  | M_Returned "'v CoreError option"

datatype 'v watcher_pc =
    W_NotStarted
  | W_Waiting
  | W_Reconciling "'v reconcile_pc"
  | W_Offering
  | W_Marking nat
  | W_Stopped

datatype cleanup_pc = C_Idle | C_Unsubscribing | C_Closing | C_Awaiting nat | C_Finished

record 'v Core =
  core_link :: "'v Link"
  core_ingestor :: "'v ThreadIngestor"
  core_hub :: "'v EventHub"
  taken :: nat  \<comment> \<open>how many events the ingress task has received\<close>
  ingress_running :: bool
  signals :: "(string \<times> DiscoverySource \<times> 'v discover_pc) list"
  main :: "'v main_pc"
  watcher :: "'v watcher_pc"
  stop_signal :: bool  \<comment> \<open>sent, or its sender dropped\<close>
  stopped :: bool
  cleanup :: cleanup_pc
  supervision :: "SupervisionState option"

definition core_parts :: "'v parts \<Rightarrow> Config \<Rightarrow> 'v parts" where
  "core_parts P cfg = P\<lparr>store_config := store_settings cfg\<rparr>"

text \<open>
  From supervision to the first reconciliation. \<open>None\<close> is a panic: a replay or broadcast capacity
  of zero.
\<close>

definition begin_core ::
    "Config \<Rightarrow> SupervisionState option \<Rightarrow> ('v CoreError + 'v Core) option" where
  "begin_core cfg supervised =
     (case take_ingress (spawn (transport_config cfg)) of
        (False, l) \<Rightarrow> Some (Inl CE_IngressAlreadyTaken)
      | (True, l) \<Rightarrow>
          if lifecycle_broadcast_capacity cfg = 0 \<or> delta_broadcast_capacity cfg = 0 then None
          else map_option (\<lambda>r.
            (let g = with_store new_store (new_ingestor (ingest_config cfg) r)
             in Inr \<lparr>core_link = l, core_ingestor = g, core_hub = new_hub, taken = 0, ingress_running = True,
                     signals = [], main = M_Reconciling (start_reconcile (ingest_config cfg) g),
                     watcher = W_NotStarted, stop_signal = False, stopped = False, cleanup = C_Idle,
                     supervision = supervised\<rparr>))
            (new_reducer (lifecycle_replay_capacity cfg)))"

text \<open>The start of \<open>CodexControl::run\<close>; \<open>None\<close> is a panic, or a supervision that never returns.\<close>

definition run_begin ::
    "'w ProcessOps \<Rightarrow> Config \<Rightarrow> 'w host \<Rightarrow> (('v CoreError + 'v Core) \<times> 'w host) option" where
  "run_begin X cfg h =
     (if manage_gui cfg
      then (case initialize X (supervisor_config cfg) h of
              None \<Rightarrow> None
            | Some (Inl e, h') \<Rightarrow> Some (Inl (CE_Supervisor e), h')
            | Some (Inr st, h') \<Rightarrow> map_option (\<lambda>r. (r, h')) (begin_core cfg (Some st)))
      else map_option (\<lambda>r. (r, h)) (begin_core cfg None))"

section \<open>The tasks\<close>

text \<open>A handle exists once the operation of the caller has been started.\<close>

fun handle_minted :: "'v main_pc \<Rightarrow> bool" where
  "handle_minted M_Operating = True"
| "handle_minted (M_Ending _) = True"
| "handle_minted (M_Returned None) = True"
| "handle_minted _ = False"

text \<open>The ingress task: an event is applied, recorded and published, and a signal starts a task.\<close>

definition ingress_takes :: "'v parts \<Rightarrow> 'v SequencedEvent \<Rightarrow> 'v Core \<Rightarrow> 'v Core option" where
  "ingress_takes P e s =
     (case ti_store (core_ingestor s) of
        None \<Rightarrow> None
      | Some st \<Rightarrow>
          map_option (\<lambda>a. s\<lparr>
              core_ingestor := (core_ingestor s)\<lparr>ti_reducer := in_reducer a, ti_store := Some (in_store a)\<rparr>,
              core_hub := in_hub a, taken := Suc (taken s),
              signals := signals s @
                (if event_method e = Some ''thread/started'' \<or> event_method e = Some ''thread/status/changed''
                 then (case signal_source (api P) e of
                         None \<Rightarrow> []
                       | Some (t, source) \<Rightarrow> [(t, source, Claim)])
                 else [])\<rparr>)
            (process P e \<lparr>in_reducer = ti_reducer (core_ingestor s), in_store = st, in_hub = core_hub s\<rparr>))"

text \<open>The main task. \<open>is_open\<close> is whether the transport's loop still receives.\<close>

abbreviation link_open :: "'v Core \<Rightarrow> bool" where
  "link_open s \<equiv> pc (core_link s) \<noteq> loop_pc.Stopped"

text \<open>\<open>mark_reconciled\<close>; \<open>None\<close> is a full channel, where the caller waits with the flag raised.\<close>

definition marks :: "'v Core \<Rightarrow> ('v RequestError + nat) option \<times> 'v Core" where
  "marks s =
     (if full (core_link s) then (None, s\<lparr>core_link := raise_flag (core_link s)\<rparr>)
      else case mark_reconciled (link_open s) (core_link s) of (r, l) \<Rightarrow> (Some r, s\<lparr>core_link := l\<rparr>))"

definition offers :: "'v Core \<Rightarrow> ('v RequestError + nat) option \<times> 'v Core" where
  "offers s =
     (if full (core_link s) then (None, s)
      else case offer_reconciled (link_open s) (core_link s) of (r, l) \<Rightarrow> (Some r, s\<lparr>core_link := l\<rparr>))"

definition main_marked :: "('v RequestError + nat) option \<times> 'v Core \<Rightarrow> 'v Core" where
  "main_marked = (\<lambda>(r, s).
     (case r of
        None \<Rightarrow> s\<lparr>main := M_Offering\<rparr>
      | Some (Inl e) \<Rightarrow> s\<lparr>main := M_Returned (Some (CE_Transport e)), stop_signal := True\<rparr>
      | Some (Inr ch) \<Rightarrow> s\<lparr>main := M_Marking ch\<rparr>))"

definition main_step ::
    "'v parts \<Rightarrow> Config \<Rightarrow> 'v answer option \<Rightarrow> nat \<Rightarrow> nat \<Rightarrow> 'v Core \<Rightarrow> 'v Core" where
  "main_step P cfg ans clock elapsed s =
     (case main s of
        M_Reconciling (R_Done (Inl e)) \<Rightarrow>
          (if full (core_link s) then s
           else s\<lparr>main := M_Closing e,
                  core_link := (if link_open s then shutdown (core_link s) else core_link s)\<rparr>)
      | M_Reconciling (R_Done (Inr outcomes)) \<Rightarrow> main_marked (marks s)
      | M_Reconciling rpc \<Rightarrow>
          (case reconcile_step P (ingest_config cfg) ans clock elapsed rpc (core_ingestor s) of
             None \<Rightarrow> s
           | Some (rpc', g) \<Rightarrow> s\<lparr>main := M_Reconciling rpc', core_ingestor := g\<rparr>)
      | M_Closing e \<Rightarrow>
          (if link_open s then s else s\<lparr>main := M_Returned (Some (CE_Ingest e)), stop_signal := True\<rparr>)
      | M_Offering \<Rightarrow> main_marked (offers s)
      | M_Marking ch \<Rightarrow>
          (if ch \<in> set (acknowledged (core_link s)) then s\<lparr>main := M_Operating, watcher := W_Waiting\<rparr>
           else if link_open s then s
           else s\<lparr>main := M_Returned (Some (CE_Transport TransportClosed)), stop_signal := True\<rparr>)
      | M_Ending own \<Rightarrow> (if own \<and> cleanup s \<noteq> C_Finished then s else s\<lparr>main := M_Returned None\<rparr>)
      | _ \<Rightarrow> s)"

text \<open>The handle's \<open>shutdown\<close>: the first caller raises the flag, sends the signal and cleans up.\<close>

definition shutdown_called :: "'v Core \<Rightarrow> bool \<times> 'v Core" where
  "shutdown_called s =
     (if stopped s then (False, s)
      else (True, s\<lparr>stopped := True, stop_signal := True, cleanup := C_Unsubscribing\<rparr>))"

text \<open>\<open>order\<close> lists the map of states in its iteration order.\<close>

definition cleanup_step ::
    "'v parts \<Rightarrow> (string \<times> SubscriptionState) list \<Rightarrow> 'v Core \<Rightarrow> 'v Core" where
  "cleanup_step P order s =
     (case cleanup s of
        C_Unsubscribing \<Rightarrow>
          s\<lparr>core_ingestor := unsubscribe_all_best_effort P order (core_ingestor s), cleanup := C_Closing\<rparr>
      | C_Closing \<Rightarrow>
          (if full (core_link s) then s
           else if link_open s
           then s\<lparr>cleanup := C_Awaiting (Transport.next_channel (core_link s)), core_link := shutdown (core_link s)\<rparr>
           else s\<lparr>cleanup := C_Finished\<rparr>)
      | C_Awaiting ch \<Rightarrow>
          (if ch \<in> set (acknowledged (core_link s)) \<or> \<not> link_open s then s\<lparr>cleanup := C_Finished\<rparr> else s)
      | _ \<Rightarrow> s)"

text \<open>
  The watcher of reconnections: woken by a change of the health it compares the phase and the
  gate; it sees the stop signal only while it waits.
\<close>

definition watcher_woken :: "Config \<Rightarrow> 'v Core \<Rightarrow> 'v Core" where
  "watcher_woken cfg s =
     (if watcher s = W_Waiting \<and> phase (health (core_link s)) = P_Reconciling \<and> \<not> is_reconciled (core_link s)
      then s\<lparr>watcher := W_Reconciling (start_reconcile (ingest_config cfg) (core_ingestor s))\<rparr>
      else s)"

definition watcher_marked :: "('v RequestError + nat) option \<times> 'v Core \<Rightarrow> 'v Core" where
  "watcher_marked = (\<lambda>(r, s).
     (case r of
        None \<Rightarrow> s\<lparr>watcher := W_Offering\<rparr>
      | Some (Inl e) \<Rightarrow> s\<lparr>watcher := W_Waiting\<rparr>
      | Some (Inr ch) \<Rightarrow> s\<lparr>watcher := W_Marking ch\<rparr>))"

definition watcher_step ::
    "'v parts \<Rightarrow> Config \<Rightarrow> 'v answer option \<Rightarrow> nat \<Rightarrow> nat \<Rightarrow> 'v Core \<Rightarrow> 'v Core" where
  "watcher_step P cfg ans clock elapsed s =
     (case watcher s of
        W_Reconciling (R_Done (Inl e)) \<Rightarrow> s\<lparr>watcher := W_Waiting\<rparr>
      | W_Reconciling (R_Done (Inr outcomes)) \<Rightarrow>
          watcher_marked (marks s)
      | W_Reconciling rpc \<Rightarrow>
          (case reconcile_step P (ingest_config cfg) ans clock elapsed rpc (core_ingestor s) of
             None \<Rightarrow> s
           | Some (rpc', g) \<Rightarrow> s\<lparr>watcher := W_Reconciling rpc', core_ingestor := g\<rparr>)
      | W_Offering \<Rightarrow> watcher_marked (offers s)
      | W_Marking ch \<Rightarrow>
          (if ch \<in> set (acknowledged (core_link s)) \<or> \<not> link_open s then s\<lparr>watcher := W_Waiting\<rparr> else s)
      | _ \<Rightarrow> s)"

section \<open>The system as one step function\<close>

text \<open>
  What can happen next. \<open>OnLink\<close>: the transport's loop turns, or a client submits; an action, a
  waiter and a call of \<open>shutdown\<close> need a handle. \<open>OperationEnds\<close> is the return of the caller's
  operation, after which the main task calls \<open>shutdown\<close>. \<open>HandlesGone\<close>: the future of the run and
  every handle have been dropped, and the sender of the stop signal with them.
\<close>

datatype 'v core_input =
    OnLink "'v link_op"
  | IngressTakes
  | IngressStops
  | SignalRuns nat "'v answer option" nat nat
  | MainRuns "'v answer option" nat nat
  | OperationEnds
  | WatcherWoken
  | WatcherRuns "'v answer option" nat nat
  | WatcherStops
  | RegistersWaiter "'v SequencedEvent \<Rightarrow> bool"
  | ShutdownCalled
  | CleanupRuns "(string \<times> SubscriptionState) list"
  | HandlesGone

fun client_op :: "bool \<Rightarrow> 'v link_op \<Rightarrow> bool" where
  "client_op minted (Submit action m p) = (action \<longrightarrow> minted)"
| "client_op minted (Notify m p) = True"
| "client_op minted (Loop x) = True"
| "client_op minted _ = False"

fun core_step :: "'v parts \<Rightarrow> 'v codec \<Rightarrow> Config \<Rightarrow> 'v Core \<Rightarrow> 'v core_input \<Rightarrow> 'v Core" where
  "core_step P C cfg s (OnLink x) =
     (if client_op (handle_minted (main s)) x
      then s\<lparr>core_link := link_step (api P) C (transport_config cfg) (core_link s) x\<rparr> else s)"
| "core_step P C cfg s IngressTakes =
     (if ingress_running s \<and> taken s < length (ingress (core_link s))
      then unwrap_or (ingress_takes (core_parts P cfg) (ingress (core_link s) ! taken s) s) s else s)"
| "core_step P C cfg s IngressStops =
     (if stop_signal s \<or> (\<not> link_open s \<and> taken s = length (ingress (core_link s)))
      then s\<lparr>ingress_running := False\<rparr> else s)"
| "core_step P C cfg s (SignalRuns i ans clock elapsed) =
     (if i < length (signals s)
      then (case signals s ! i of (t, source, dpc) \<Rightarrow>
              (case discover_step (core_parts P cfg) (ingest_config cfg) t source ans clock elapsed dpc (core_ingestor s) of
                 None \<Rightarrow> s
               | Some (dpc', g) \<Rightarrow> s\<lparr>core_ingestor := g, signals := (signals s)[i := (t, source, dpc')]\<rparr>))
      else s)"
| "core_step P C cfg s (MainRuns ans clock elapsed) = main_step (core_parts P cfg) cfg ans clock elapsed s"
| "core_step P C cfg s OperationEnds =
     (if main s = M_Operating then (case shutdown_called s of (own, s') \<Rightarrow> s'\<lparr>main := M_Ending own\<rparr>) else s)"
| "core_step P C cfg s WatcherWoken = watcher_woken cfg s"
| "core_step P C cfg s (WatcherRuns ans clock elapsed) = watcher_step (core_parts P cfg) cfg ans clock elapsed s"
| "core_step P C cfg s WatcherStops =
     (if watcher s = W_Waiting \<and> stop_signal s then s\<lparr>watcher := W_Stopped\<rparr> else s)"
| "core_step P C cfg s (RegistersWaiter p) =
     (if handle_minted (main s)
      then s\<lparr>core_ingestor := (core_ingestor s)\<lparr>ti_reducer := snd (register_waiter p (ti_reducer (core_ingestor s)))\<rparr>\<rparr>
      else s)"
| "core_step P C cfg s ShutdownCalled = (if handle_minted (main s) then snd (shutdown_called s) else s)"
| "core_step P C cfg s (CleanupRuns order) = cleanup_step (core_parts P cfg) order s"
| "core_step P C cfg s HandlesGone = s\<lparr>stop_signal := True\<rparr>"

definition core_run :: "'v parts \<Rightarrow> 'v codec \<Rightarrow> Config \<Rightarrow> 'v Core \<Rightarrow> 'v core_input list \<Rightarrow> 'v Core" where
  "core_run P C cfg s xs = foldl (core_step P C cfg) s xs"

text \<open>
  The counters of the transport do not wrap, and the order in which a cleanup visits the states
  lists exactly the map.
\<close>

fun core_admits :: "'v Core \<Rightarrow> 'v core_input \<Rightarrow> bool" where
  "core_admits s (OnLink x) = link_admits (core_link s) x"
| "core_admits s (CleanupRuns order) =
     (distinct (map fst order) \<and> map_of order = states (core_ingestor s))"
| "core_admits s _ = True"

section \<open>The handle\<close>

definition handle_lifecycle :: "u64 \<Rightarrow> LifecycleStream" where
  "handle_lifecycle after = lifecycle_stream after"

definition handle_deltas :: DeltaStream where
  "handle_deltas = delta_stream"

definition handle_events_since :: "'v Core \<Rightarrow> u64 \<Rightarrow> 'v ReplayResult" where
  "handle_events_since s after = events_since (ti_reducer (core_ingestor s)) after"

definition handle_snapshot :: "'v Core \<Rightarrow> 'v Snapshot" where
  "handle_snapshot s = snapshot (ti_reducer (core_ingestor s))"

text \<open>The store is there from the beginning of a run (\<open>begin_core\<close>).\<close>

definition handle_query_sequence :: "'v Core \<Rightarrow> string option \<Rightarrow> u64 \<Rightarrow> u64 option \<Rightarrow> 'v QueryResult option" where
  "handle_query_sequence s t after through =
     map_option (\<lambda>st. query_sequence st t after through) (ti_store (core_ingestor s))"

definition handle_query_time :: "Config \<Rightarrow> 'v Core \<Rightarrow> string option \<Rightarrow> u64 \<Rightarrow> u64 \<Rightarrow> 'v QueryResult option" where
  "handle_query_time cfg s t start_unix_ms end_unix_ms =
     map_option (\<lambda>st. query_time (store_settings cfg) st t start_unix_ms end_unix_ms) (ti_store (core_ingestor s))"

definition handle_health :: "'v Core \<Rightarrow> Health" where
  "handle_health s = health (core_link s)"

definition handle_supervision :: "'v Core \<Rightarrow> SupervisionState option" where
  "handle_supervision s = supervision s"

definition handle_subscription_states :: "'v Core \<Rightarrow> string \<rightharpoonup> SubscriptionState" where
  "handle_subscription_states s = states (core_ingestor s)"

text \<open>
  The actions run on the controller, whose reducer is the one of the system; within a run of the
  system they appear as the requests they submit and the waiters they register (Actions has them
  as its tasks).
\<close>

definition at_controller :: "'v Core \<Rightarrow> 'v Controller \<Rightarrow> 'v Controller" where
  "at_controller s c = c\<lparr>ct_reducer := ti_reducer (core_ingestor s)\<rparr>"

definition handle_interrupt ::
    "'v parts \<Rightarrow> Config \<Rightarrow> string \<Rightarrow> string \<Rightarrow> 'v answer list \<Rightarrow> 'v reducer_op list \<Rightarrow> 'v Core \<Rightarrow> 'v Controller \<Rightarrow>
     ('v ActionOutcome \<times> 'v answer list \<times> 'v Controller) option" where
  "handle_interrupt P cfg t u answers during s c =
     interrupt (api P) (id_debug P) (control_config cfg) t u answers during (at_controller s c)"

definition handle_steer ::
    "'v parts \<Rightarrow> Config \<Rightarrow> string \<Rightarrow> string \<Rightarrow> 'v list \<Rightarrow> 'v answer list \<Rightarrow> 'v Core \<Rightarrow> 'v Controller \<Rightarrow>
     ('v ActionOutcome \<times> 'v answer list \<times> 'v Controller) option" where
  "handle_steer P cfg t u input answers s c =
     steer (api P) (id_debug P) (control_config cfg) t u input answers (at_controller s c)"

definition handle_start ::
    "'v parts \<Rightarrow> Config \<Rightarrow> string \<Rightarrow> 'v list \<Rightarrow> 'v answer list \<Rightarrow> 'v reducer_op list \<Rightarrow> 'v Core \<Rightarrow> 'v Controller \<Rightarrow>
     ('v ActionOutcome \<times> 'v answer list \<times> 'v Controller) option" where
  "handle_start P cfg t input answers during s c =
     start (api P) (id_debug P) (control_config cfg) t input answers during (at_controller s c)"

section \<open>How the parts move\<close>

lemma ingress_loop_step: "\<exists>new. ingress (loop_step J C cfg x s) = ingress s @ new"
proof -
  have same: "ingress (loop_step J C cfg x s) = ingress s \<Longrightarrow> ?thesis" by simp
  have frame: "\<exists>new. ingress (drive_frame J clk el b f s) = ingress s @ new" for clk el b f
    by (auto simp: drive_frame_def Let_def)
  show ?thesis
  proof (cases "pc s")
    case AwaitingInitialize
    have "\<exists>new. ingress (initialize_read J C clk el b r s) = ingress s @ new" for clk el b r
      by (auto simp: initialize_read_def initialize_frame_def Let_def
          split: socket_read.splits sum.splits option.splits bool.splits)
    with AwaitingInitialize show ?thesis by (cases x) (simp_all add: loop_step_def)
  next
    case Driving
    have "\<exists>new. ingress (drive_read J C clk el b r s) = ingress s @ new" for clk el b r
      using drive_read_cases [of J C clk el b r s] frame by (metis append_Nil2 drive_exit_frame(7))
    moreover have "ingress (drive_command J failure c (s\<lparr>queue := cs\<rparr>)) = ingress s" for failure c cs
      by (simp add: drive_command_def split: Command.splits option.splits)
    ultimately show ?thesis
      using Driving by (cases x) (simp_all add: loop_step_def drive_tick_def split: list.splits)
  next
    case (BackingOff d)
    then show ?thesis
      by (intro same, cases x)
         (simp_all add: loop_step_def reject_while_disconnected_def split: list.splits Command.splits)
  qed (intro same; cases x; simp add: loop_step_def start_driving_def split: option.splits)+
qed

lemma ingress_link_step: "\<exists>new. ingress (link_step J C cfg s x) = ingress s @ new"
  using ingress_loop_step
  by (cases x) (auto simp: submit_def notify_def mark_defs shutdown_def take_ingress_def Let_def)

lemmas marking_defs = marks_def offers_def main_marked_def watcher_marked_def mark_defs full_def command_capacity_def

text \<open>The link moves by steps of the transport only.\<close>

definition link_moves :: "'v json \<Rightarrow> 'v codec \<Rightarrow> TransportConfig \<Rightarrow> 'v Link \<Rightarrow> 'v Link \<Rightarrow> bool" where
  "link_moves J C cfg l l' \<longleftrightarrow> l' = l \<or> (\<exists>x. link_admits l x \<and> l' = link_step J C cfg l x)"

lemma link_moves_refl [simp]: "link_moves J C cfg l l"
  by (simp add: link_moves_def)

lemma link_moves_mark:
  "link_moves J C cfg l (if full l then raise_flag l else snd (mark_reconciled (pc l \<noteq> loop_pc.Stopped) l))"
  unfolding link_moves_def by (intro disjI2 exI [of _ MarkReconciled]) simp

lemma link_moves_offer:
  "link_moves J C cfg l (if full l then l else snd (offer_reconciled (pc l \<noteq> loop_pc.Stopped) l))"
  unfolding link_moves_def by (intro disjI2 exI [of _ OfferReconciled]) simp

lemma link_moves_shutdown: "pc l \<noteq> loop_pc.Stopped \<Longrightarrow> \<not> full l \<Longrightarrow> link_moves J C cfg l (shutdown l)"
  unfolding link_moves_def by (intro disjI2 exI [of _ Shutdown]) simp

lemma marks_frame:
  "marks s = (r, s') \<Longrightarrow> link_moves J C tc (core_link s) (core_link s') \<and> core_ingestor s' = core_ingestor s \<and>
     taken s' = taken s \<and> core_hub s' = core_hub s \<and> ingress (core_link s') = ingress (core_link s)"
  using link_moves_mark [of J C tc "core_link s"]
  by (auto simp: marks_def mark_defs split: prod.splits if_splits)

lemma offers_frame:
  "offers s = (r, s') \<Longrightarrow> link_moves J C tc (core_link s) (core_link s') \<and> core_ingestor s' = core_ingestor s \<and>
     taken s' = taken s \<and> core_hub s' = core_hub s \<and> ingress (core_link s') = ingress (core_link s)"
  using link_moves_offer [of J C tc "core_link s"]
  by (auto simp: offers_def mark_defs split: prod.splits if_splits)

lemma main_marked_frame [simp]:
  "core_link (main_marked x) = core_link (snd x)" "core_ingestor (main_marked x) = core_ingestor (snd x)"
  "taken (main_marked x) = taken (snd x)" "core_hub (main_marked x) = core_hub (snd x)"
  "signals (main_marked x) = signals (snd x)" "stopped (main_marked x) = stopped (snd x)"
  "cleanup (main_marked x) = cleanup (snd x)" "ingress_running (main_marked x) = ingress_running (snd x)"
  "supervision (main_marked x) = supervision (snd x)" "watcher (main_marked x) = watcher (snd x)"
  by (cases x; simp add: main_marked_def split: option.split sum.split)+

lemma main_marked_stops: "stop_signal (snd x) \<Longrightarrow> stop_signal (main_marked x)"
  by (cases x) (simp add: main_marked_def split: option.split sum.split)

lemma watcher_marked_frame [simp]:
  "core_link (watcher_marked x) = core_link (snd x)" "core_ingestor (watcher_marked x) = core_ingestor (snd x)"
  "taken (watcher_marked x) = taken (snd x)" "core_hub (watcher_marked x) = core_hub (snd x)"
  "signals (watcher_marked x) = signals (snd x)" "stopped (watcher_marked x) = stopped (snd x)"
  "cleanup (watcher_marked x) = cleanup (snd x)" "ingress_running (watcher_marked x) = ingress_running (snd x)"
  "supervision (watcher_marked x) = supervision (snd x)" "main (watcher_marked x) = main (snd x)"
  "stop_signal (watcher_marked x) = stop_signal (snd x)"
  by (cases x; simp add: watcher_marked_def split: option.split sum.split)+

lemma marks_fields [simp]:
  "core_ingestor (snd (marks s)) = core_ingestor s" "core_ingestor (snd (offers s)) = core_ingestor s"
  "taken (snd (marks s)) = taken s" "taken (snd (offers s)) = taken s"
  "core_hub (snd (marks s)) = core_hub s" "core_hub (snd (offers s)) = core_hub s"
  "signals (snd (marks s)) = signals s" "signals (snd (offers s)) = signals s"
  "stopped (snd (marks s)) = stopped s" "stopped (snd (offers s)) = stopped s"
  "cleanup (snd (marks s)) = cleanup s" "cleanup (snd (offers s)) = cleanup s"
  "ingress_running (snd (marks s)) = ingress_running s" "ingress_running (snd (offers s)) = ingress_running s"
  "supervision (snd (marks s)) = supervision s" "supervision (snd (offers s)) = supervision s"
  "watcher (snd (marks s)) = watcher s" "watcher (snd (offers s)) = watcher s"
  "main (snd (marks s)) = main s" "main (snd (offers s)) = main s"
  "stop_signal (snd (marks s)) = stop_signal s" "stop_signal (snd (offers s)) = stop_signal s"
  by (simp_all add: marks_def offers_def split: prod.split)

text \<open>
  What a step of the system does to the shared state: the link moves, the reducer takes operations,
  and the events applied are exactly those the ingress task receives.
\<close>

definition subscriptions_only :: "'v json \<Rightarrow> 'v ThreadIngestor \<Rightarrow> 'v ThreadIngestor \<Rightarrow> bool" where
  "subscriptions_only J g g' \<longleftrightarrow>
     (\<exists>ops. list_all subscription_op ops \<and> ti_reducer g' = foldl (reducer_step J) (ti_reducer g) ops)"

lemma subscriptions_only_refl [simp]: "subscriptions_only J g g"
  unfolding subscriptions_only_def by (intro exI [of _ "[]"]) simp

lemma subscriptions_only_same: "ti_reducer g' = ti_reducer g \<Longrightarrow> subscriptions_only J g g'"
  unfolding subscriptions_only_def by (intro exI [of _ "[]"]) simp

definition coherent :: "'v parts \<Rightarrow> 'v codec \<Rightarrow> Config \<Rightarrow> 'v Core \<Rightarrow> 'v Core \<Rightarrow> bool" where
  "coherent P C cfg s s' \<longleftrightarrow>
     link_moves (api P) C (transport_config cfg) (core_link s) (core_link s') \<and>
     (taken s' = taken s \<and> subscriptions_only (api P) (core_ingestor s) (core_ingestor s') \<or>
      taken s < length (ingress (core_link s)) \<and> taken s' = Suc (taken s) \<and> core_link s' = core_link s \<and>
      ti_reducer (core_ingestor s') =
        apply_event (api P) (ingress (core_link s) ! taken s) (ti_reducer (core_ingestor s)))"

lemma coherent_quiet:
  "link_moves (api P) C (transport_config cfg) (core_link s) (core_link s') \<Longrightarrow> taken s' = taken s \<Longrightarrow>
     subscriptions_only (api P) (core_ingestor s) (core_ingestor s') \<Longrightarrow> coherent P C cfg s s'"
  by (simp add: coherent_def)

lemma core_parts_api [simp]: "api (core_parts P cfg) = api P"
  by (simp add: core_parts_def)

lemma ingress_takes_effect:
  assumes "ingress_takes P e s = Some s'"
  shows "core_link s' = core_link s \<and> taken s' = Suc (taken s) \<and>
    ti_reducer (core_ingestor s') = apply_event (api P) e (ti_reducer (core_ingestor s)) \<and>
    main s' = main s \<and> requests (core_ingestor s') = requests (core_ingestor s) \<and> cleanup s' = cleanup s \<and>
    stopped s' = stopped s \<and> states (core_ingestor s') = states (core_ingestor s) \<and> watcher s' = watcher s"
  using assms by (auto simp: ingress_takes_def process_def Let_def split: option.splits)

lemma reconcile_subscriptions:
  "reconcile_step P cfg ans clk el rpc g = Some (rpc', g') \<Longrightarrow> subscriptions_only (api P) g g'"
  unfolding subscriptions_only_def by (rule reconcile_step_reducer)

lemma discover_subscriptions:
  "discover_step P cfg t source ans clk el dpc g = Some (dpc', g') \<Longrightarrow> subscriptions_only (api P) g g'"
  unfolding subscriptions_only_def by (rule discover_step_reducer)

lemma unsubscribe_all_frame [simp]:
  "ti_reducer (unsubscribe_all_best_effort P order g) = ti_reducer g"
  "ti_store (unsubscribe_all_best_effort P order g) = ti_store g"
  "states (unsubscribe_all_best_effort P order g) = states g"
proof -
  have "ti_reducer (foldl (\<lambda>g t. call m (f t) g) g ts) = ti_reducer g \<and> ti_store (foldl (\<lambda>g t. call m (f t) g) g ts) = ti_store g
      \<and> states (foldl (\<lambda>g t. call m (f t) g) g ts) = states g" for m f ts
    by (induction ts arbitrary: g) simp_all
  then show "ti_reducer (unsubscribe_all_best_effort P order g) = ti_reducer g"
    "ti_store (unsubscribe_all_best_effort P order g) = ti_store g"
    "states (unsubscribe_all_best_effort P order g) = states g"
    unfolding unsubscribe_all_best_effort_def by blast+
qed

lemma main_step_coherent: "coherent P C cfg s (main_step (core_parts P cfg) cfg ans clk el s)"
proof (cases "main s")
  case (M_Reconciling rpc)
  show ?thesis
  proof (cases "\<exists>r. rpc = R_Done r")
    case True
    then obtain r where r: "rpc = R_Done r" by blast
    show ?thesis
    proof (cases r)
      case (Inl e)
      then show ?thesis
        by (intro coherent_quiet) (simp_all add: main_step_def M_Reconciling r link_moves_shutdown)
    next
      case (Inr outcomes)
      obtain a s' where a: "marks s = (a, s')" by fastforce
      from marks_frame [OF a, of "api P" C "transport_config cfg"] show ?thesis
        by (intro coherent_quiet) (simp_all add: main_step_def M_Reconciling r Inr a)
    qed
  next
    case False
    then have "main_step (core_parts P cfg) cfg ans clk el s =
      (case reconcile_step (core_parts P cfg) (ingest_config cfg) ans clk el rpc (core_ingestor s) of
         None \<Rightarrow> s | Some (rpc', g) \<Rightarrow> s\<lparr>main := M_Reconciling rpc', core_ingestor := g\<rparr>)"
      by (cases rpc) (simp_all add: main_step_def M_Reconciling del: reconcile_step.simps)
    then show ?thesis
      by (intro coherent_quiet)
         (auto split: option.split dest!: reconcile_subscriptions simp del: reconcile_step.simps)
  qed
next
  case M_Offering
  obtain a s' where a: "offers s = (a, s')" by fastforce
  from offers_frame [OF a, of "api P" C "transport_config cfg"] show ?thesis
    by (intro coherent_quiet) (simp_all add: main_step_def M_Offering a)
qed (auto intro!: coherent_quiet simp: main_step_def)

lemma watcher_step_coherent: "coherent P C cfg s (watcher_step (core_parts P cfg) cfg ans clk el s)"
proof (cases "watcher s")
  case (W_Reconciling rpc)
  show ?thesis
  proof (cases "\<exists>r. rpc = R_Done r")
    case True
    then obtain r where r: "rpc = R_Done r" by blast
    show ?thesis
    proof (cases r)
      case (Inl e)
      then show ?thesis by (intro coherent_quiet) (simp_all add: watcher_step_def W_Reconciling r)
    next
      case (Inr outcomes)
      obtain a s' where a: "marks s = (a, s')" by fastforce
      from marks_frame [OF a, of "api P" C "transport_config cfg"] show ?thesis
        by (intro coherent_quiet) (simp_all add: watcher_step_def W_Reconciling r Inr a)
    qed
  next
    case False
    then have "watcher_step (core_parts P cfg) cfg ans clk el s =
      (case reconcile_step (core_parts P cfg) (ingest_config cfg) ans clk el rpc (core_ingestor s) of
         None \<Rightarrow> s | Some (rpc', g) \<Rightarrow> s\<lparr>watcher := W_Reconciling rpc', core_ingestor := g\<rparr>)"
      by (cases rpc) (simp_all add: watcher_step_def W_Reconciling del: reconcile_step.simps)
    then show ?thesis
      by (intro coherent_quiet)
         (auto split: option.split dest!: reconcile_subscriptions simp del: reconcile_step.simps)
  qed
next
  case W_Offering
  obtain a s' where a: "offers s = (a, s')" by fastforce
  from offers_frame [OF a, of "api P" C "transport_config cfg"] show ?thesis
    by (intro coherent_quiet) (simp_all add: watcher_step_def W_Offering a)
qed (auto intro!: coherent_quiet simp: watcher_step_def)

lemma core_step_coherent:
  assumes "core_admits s x"
  shows "coherent P C cfg s (core_step P C cfg s x)"
proof (cases x)
  case (OnLink y)
  with assms show ?thesis by (intro coherent_quiet) (auto simp: link_moves_def)
next
  case IngressTakes
  show ?thesis
  proof (cases "ingress_running s \<and> taken s < length (ingress (core_link s))")
    case True
    then show ?thesis
      by (cases "ingress_takes (core_parts P cfg) (ingress (core_link s) ! taken s) s")
         (auto simp: IngressTakes coherent_def dest: ingress_takes_effect)
  qed (auto simp: IngressTakes coherent_def)
next
  case (SignalRuns i ans clk el)
  then show ?thesis
    by (intro coherent_quiet)
       (auto split: prod.split option.split dest!: discover_subscriptions simp del: discover_step.simps)
next
  case (MainRuns ans clk el)
  then show ?thesis by (simp add: main_step_coherent)
next
  case (WatcherRuns ans clk el)
  then show ?thesis by (simp add: watcher_step_coherent)
next
  case (RegistersWaiter p)
  show ?thesis
  proof (cases "handle_minted (main s)")
    case True
    then show ?thesis
      by (intro coherent_quiet)
         (auto simp: RegistersWaiter subscriptions_only_def subscription_op_def intro!: exI [of _ "[Register p]"])
  qed (simp add: RegistersWaiter coherent_def)
next
  case (CleanupRuns order)
  then show ?thesis
    by (intro coherent_quiet)
       (auto simp: cleanup_step_def link_moves_shutdown split: cleanup_pc.split intro: subscriptions_only_same)
qed (auto intro!: coherent_quiet simp: shutdown_called_def watcher_woken_def)

section \<open>The link of a running system\<close>

definition core_link_ok :: "'v json \<Rightarrow> 'v Core \<Rightarrow> bool" where
  "core_link_ok J s \<longleftrightarrow> link_ok J (core_link s) \<and> receipts_ok J (core_link s)"

lemma link_moves_ok:
  assumes "link_moves J C cfg l l'" "link_ok J l \<and> receipts_ok J l"
  shows "link_ok J l' \<and> receipts_ok J l'"
proof -
  have "json_laws J" using assms(2) by (simp add: link_ok_def)
  with assms show ?thesis
    by (auto simp: link_moves_def intro: links.step_inv receipts.step_inv [THEN conjunct2])
qed

interpretation core_links: preserved_by "core_step P C cfg" "core_link_ok (api P)" core_admits for P C cfg
proof
  fix s x
  assume "core_link_ok (api P) s" "core_admits s x"
  with core_step_coherent [of s x P C cfg] show "core_link_ok (api P) (core_step P C cfg s x)"
    by (auto simp: core_link_ok_def coherent_def dest: link_moves_ok)
qed

lemma ingress_link_moves: "link_moves J C cfg l l' \<Longrightarrow> \<exists>new. ingress l' = ingress l @ new"
  using ingress_link_step by (auto simp: link_moves_def)

lemma applied_subscriptions: "list_all subscription_op ops \<Longrightarrow> applied ops = []"
proof (induction ops)
  case (Cons x ops)
  then show ?case by (cases x) (simp_all add: subscription_op_def)
qed simp

text \<open>The reducer has applied exactly the events received, in the order of their receipt.\<close>

definition tracks_ingress :: "'v json \<Rightarrow> nat \<Rightarrow> 'v Core \<Rightarrow> bool" where
  "tracks_ingress J c s \<longleftrightarrow>
     taken s \<le> length (ingress (core_link s)) \<and>
     (\<exists>ops. ti_reducer (core_ingestor s) = foldl (reducer_step J) (empty_reducer c) ops \<and>
        applied ops = take (taken s) (ingress (core_link s)))"

lemma tracks_ingress_step:
  assumes "tracks_ingress (api P) c s" "coherent P C cfg s s'"
  shows "tracks_ingress (api P) c s'"
proof -
  obtain ops where ops: "ti_reducer (core_ingestor s) = foldl (reducer_step (api P)) (empty_reducer c) ops"
    "applied ops = take (taken s) (ingress (core_link s))" and le: "taken s \<le> length (ingress (core_link s))"
    using assms(1) by (auto simp: tracks_ingress_def)
  have "link_moves (api P) C (transport_config cfg) (core_link s) (core_link s')"
    using assms(2) by (simp add: coherent_def)
  from ingress_link_moves [OF this] obtain new where new: "ingress (core_link s') = ingress (core_link s) @ new"
    by blast
  from assms(2) consider
      (quiet) "taken s' = taken s" "subscriptions_only (api P) (core_ingestor s) (core_ingestor s')"
    | (takes) "taken s < length (ingress (core_link s))" "taken s' = Suc (taken s)" "core_link s' = core_link s"
        "ti_reducer (core_ingestor s') =
          apply_event (api P) (ingress (core_link s) ! taken s) (ti_reducer (core_ingestor s))"
    by (auto simp: coherent_def)
  then show ?thesis
  proof cases
    case quiet
    then obtain more where more: "list_all subscription_op more"
      "ti_reducer (core_ingestor s') = foldl (reducer_step (api P)) (ti_reducer (core_ingestor s)) more"
      by (auto simp: subscriptions_only_def)
    then show ?thesis
      using ops le new quiet(1)
      by (auto simp: tracks_ingress_def applied_subscriptions intro!: exI [of _ "ops @ more"])
  next
    case takes
    then show ?thesis
      using ops
      by (auto simp: tracks_ingress_def take_Suc_conv_app_nth
          intro!: exI [of _ "ops @ [Apply (ingress (core_link s) ! taken s)]"])
  qed
qed

interpretation tracking: preserved_by "core_step P C cfg" "tracks_ingress (api P) c" core_admits for P C cfg c
  by unfold_locales (rule tracks_ingress_step [OF _ core_step_coherent])

lemma begin_core_cases:
  assumes "begin_core cfg supervised = Some (Inr s)"
  shows "0 < lifecycle_replay_capacity cfg \<and> core_link s = snd (take_ingress (spawn (transport_config cfg))) \<and>
    core_ingestor s = with_store new_store (new_ingestor (ingest_config cfg) (empty_reducer (lifecycle_replay_capacity cfg))) \<and>
    core_hub s = new_hub \<and> taken s = 0 \<and> ingress_running s \<and> signals s = [] \<and>
    main s = M_Reconciling (start_reconcile (ingest_config cfg) (core_ingestor s)) \<and> watcher s = W_NotStarted \<and>
    \<not> stop_signal s \<and> \<not> stopped s \<and> cleanup s = C_Idle \<and> supervision s = supervised"
  using assms
  by (auto simp: begin_core_def new_reducer_def Let_def split: prod.splits bool.splits if_splits)

lemma begun_link_ok:
  assumes "json_laws J" "begin_core cfg supervised = Some (Inr s)"
  shows "core_link_ok J s"
proof -
  have spawned: "link_ok J (spawn (transport_config cfg)) \<and> receipts_ok J (spawn (transport_config cfg))"
    using link_ok_spawn [OF assms(1)] by (simp add: receipts_ok_def spawn_def)
  have "link_moves J C (transport_config cfg) (spawn (transport_config cfg))
      (snd (take_ingress (spawn (transport_config cfg))))" for C
    unfolding link_moves_def by (intro disjI2 exI [of _ TakeIngress] conjI) simp_all
  from link_moves_ok [OF this spawned] begin_core_cases [OF assms(2)] show ?thesis
    by (simp add: core_link_ok_def)
qed

lemma begun_tracks:
  assumes "begin_core cfg supervised = Some (Inr s)"
  shows "tracks_ingress J (lifecycle_replay_capacity cfg) s"
  using begin_core_cases [OF assms]
  by (auto simp: tracks_ingress_def with_store_def new_ingestor_def intro!: exI [of _ "[]"])

lemma sorted_wrt_take: "sorted_wrt R xs \<Longrightarrow> sorted_wrt R (take n xs)"
  by (metis append_take_drop_id sorted_wrt_append)

text \<open>What the handle's replay rests on, for any system that begins and runs.\<close>

lemma run_reducer:
  assumes "json_laws (api P)" "begin_core cfg supervised = Some (Inr s0)"
    and "admissible (core_step P C cfg) core_admits s0 xs"
  shows "\<exists>ops. ti_reducer (core_ingestor (core_run P C cfg s0 xs)) =
      foldl (reducer_step (api P)) (empty_reducer (lifecycle_replay_capacity cfg)) ops \<and>
    applied ops = take (taken (core_run P C cfg s0 xs)) (ingress (core_link (core_run P C cfg s0 xs))) \<and>
    increasing (applied ops)"
proof -
  let ?s = "core_run P C cfg s0 xs"
  have "tracks_ingress (api P) (lifecycle_replay_capacity cfg) ?s"
    unfolding core_run_def by (rule tracking.run_inv [OF begun_tracks [OF assms(2)] assms(3)])
  then obtain ops where ops: "ti_reducer (core_ingestor ?s) =
      foldl (reducer_step (api P)) (empty_reducer (lifecycle_replay_capacity cfg)) ops"
    "applied ops = take (taken ?s) (ingress (core_link ?s))"
    by (auto simp: tracks_ingress_def)
  have "core_link_ok (api P) ?s"
    unfolding core_run_def by (rule core_links.run_inv [OF begun_link_ok [OF assms(1,2)] assms(3)])
  then have "sorted_wrt (\<lambda>a b. sequence a < sequence b) (ingress (core_link ?s))"
    by (simp add: core_link_ok_def receipts_ok_def)
  then have "increasing (applied ops)"
    by (simp add: ops(2) increasing_def sorted_wrt_take)
  with ops show ?thesis by blast
qed

section \<open>The store of a running system\<close>

text \<open>
  The store accounts for every event received (\<open>received\<close>), and for reconstructed anchors besides.
\<close>

lemma subseq_set_subset: "subseq xs ys \<Longrightarrow> set xs \<subseteq> set ys"
  by (induction rule: list_emb.induct) auto

definition store_sound :: "'v parts \<Rightarrow> 'v SequencedEvent list \<Rightarrow> 'v Inner \<Rightarrow> bool" where
  "store_sound P received st \<longleftrightarrow> store_inv (serialise P) st \<and> within_caps (store_config P) (serialise P) st \<and>
     (\<exists>recs ev. accounts recs ev st \<and> subseq received recs \<and> (\<forall>e \<in> set recs. e \<in> set received \<or> reconstructed e))"

definition core_store_ok :: "'v parts \<Rightarrow> 'v SequencedEvent list \<Rightarrow> 'v ThreadIngestor \<Rightarrow> bool" where
  "core_store_ok P received g \<longleftrightarrow> (\<exists>st. ti_store g = Some st \<and> store_sound P received st)"

lemma record_sound:
  assumes "iter_ok (iteration P)" "store_sound P received st"
  shows "\<exists>st'. record_locked (store_config P) (serialise P) (iteration P) st e = Some st' \<and>
    store_sound P (received @ [e]) st'"
proof -
  from assms(2) obtain recs ev where st: "store_inv (serialise P) st" "accounts recs ev st"
    and recs: "subseq received recs" "\<forall>e \<in> set recs. e \<in> set received \<or> reconstructed e"
    by (auto simp: store_sound_def)
  from record_locked_step [OF assms(1) st, of "store_config P" e] obtain ev' st' where
    "record_locked (store_config P) (serialise P) (iteration P) st e = Some st'" "store_inv (serialise P) st'"
    "within_caps (store_config P) (serialise P) st'" "accounts (recs @ [e]) (ev @ ev') st'" by blast
  moreover have "subseq (received @ [e]) (recs @ [e])" "\<forall>x \<in> set (recs @ [e]). x \<in> set (received @ [e]) \<or> reconstructed x"
    using recs by auto
  ultimately show ?thesis unfolding store_sound_def by blast
qed

lemma anchor_recorded: "x \<in> set (step_recorded J (Anchor clk el sq t u) st) \<Longrightarrow> json_laws J \<Longrightarrow> reconstructed x"
  using reconstructed_active_turn_Some [of J clk sq el t u] by (auto split: if_splits option.splits)

lemma anchor_sound:
  assumes "json_laws (api P)" "iter_ok (iteration P)" "store_sound P received st"
    and "record_reconstructed_active_turn (api P) (store_config P) (serialise P) (iteration P) clk el sq t u st = Some (b, st')"
  shows "store_sound P received st'"
proof -
  from assms(3) obtain recs ev where
    st: "store_inv (serialise P) st" "within_caps (store_config P) (serialise P) st" "accounts recs ev st"
    and recs: "subseq received recs" "\<forall>e \<in> set recs. e \<in> set received \<or> reconstructed e"
    by (auto simp: store_sound_def)
  let ?recs = "recs @ step_recorded (api P) (Anchor clk el sq t u) st"
  from store_step_ends [OF assms(1,2) st, of "Anchor clk el sq t u"] assms(4) obtain ev' where
    "store_inv (serialise P) st'" "within_caps (store_config P) (serialise P) st'" "accounts ?recs (ev @ ev') st'"
    by auto
  moreover have "subseq received ?recs" using recs(1) by (rule subseq_rev_drop_many)
  moreover have "\<forall>e \<in> set ?recs. e \<in> set received \<or> reconstructed e"
    using recs(2) anchor_recorded [OF _ assms(1)] by (auto simp del: step_recorded.simps)
  ultimately show ?thesis unfolding store_sound_def by blast
qed

lemma discover_step_store:
  assumes "json_laws (api P)" "iter_ok (iteration P)" "core_store_ok P received g"
    and "discover_step P cfg t source ans clk el dpc g = Some (dpc', g')"
  shows "core_store_ok P received g'"
proof (cases "\<exists>sq u. dpc = Anchoring sq u")
  case True
  then obtain sq u where dpc: "dpc = Anchoring sq u" by blast
  from assms(3) obtain st where st: "ti_store g = Some st" "store_sound P received st" by (auto simp: core_store_ok_def)
  from assms(4) dpc st(1) obtain b st' where
    "record_reconstructed_active_turn (api P) (store_config P) (serialise P) (iteration P) clk el sq t u st = Some (b, st')"
    "g' = g\<lparr>ti_store := Some st'\<rparr>"
    by auto
  with anchor_sound [OF assms(1,2) st(2)] show ?thesis by (auto simp: core_store_ok_def)
next
  case False
  then have "ti_store g' = ti_store g"
    using assms(4) by (cases dpc) (auto simp: claim_def Let_def split: if_splits option.splits)
  with assms(3) show ?thesis by (simp add: core_store_ok_def)
qed

lemma reconcile_step_store:
  assumes "json_laws (api P)" "iter_ok (iteration P)" "core_store_ok P received g"
    and "reconcile_step P cfg ans clk el rpc g = Some (rpc', g')"
  shows "core_store_ok P received g'"
proof -
  have same: "ti_store g' = ti_store g \<Longrightarrow> ?thesis" using assms(3) by (simp add: core_store_ok_def)
  show ?thesis
  proof (cases rpc)
    case (R_Listing pages cur previous newest candidates)
    with assms(4) show ?thesis by (intro same) (auto simp: end_listing_def split: nat.splits if_splits)
  next
    case (R_AwaitingPage pages previous newest candidates)
    with assms(4) obtain a where "page_answered P cfg pages previous newest candidates a g = (rpc', g')" by auto
    with page_answered_frame(2) [of P cfg pages previous newest candidates a g] show ?thesis
      by (intro same) simp
  next
    case (R_Reading candidates outcomes)
    with assms(4) show ?thesis by (intro same) (auto split: list.splits)
  next
    case (R_AwaitingThread t ts outcomes)
    with assms(4) show ?thesis by (intro same) auto
  next
    case (R_Applying v t ts outcomes)
    with assms(4) show ?thesis by (intro same) auto
  next
    case (R_Discovering d t ts outcomes)
    show ?thesis
    proof (cases "\<exists>o'. d = Done o'")
      case True
      with R_Discovering assms(4) show ?thesis by (intro same) auto
    next
      case False
      with R_Discovering assms(4) obtain d' where
        "discover_step P cfg t Reconciliation ans clk el d g = Some (d', g')"
        by (auto simp del: discover_step.simps split: discover_pc.splits)
      then show ?thesis by (rule discover_step_store [OF assms(1-3)])
    qed
  qed (use assms(4) in simp)
qed

text \<open>Given a sound store, the ingress takes an event.\<close>

lemma ingress_takes_sound:
  assumes "iter_ok (iteration P)" "core_store_ok P received (core_ingestor s)"
  shows "\<exists>s'. ingress_takes P e s = Some s' \<and> core_store_ok P (received @ [e]) (core_ingestor s') \<and>
    taken s' = Suc (taken s) \<and> ingress_running s' = ingress_running s"
proof -
  from assms(2) obtain st where st: "ti_store (core_ingestor s) = Some st" "store_sound P received st"
    by (auto simp: core_store_ok_def)
  from record_sound [OF assms(1) st(2)] obtain st' where
    "record_locked (store_config P) (serialise P) (iteration P) st e = Some st'" "store_sound P (received @ [e]) st'"
    by blast
  with st(1) show ?thesis by (simp add: ingress_takes_def process_def Let_def core_store_ok_def)
qed

lemma main_step_ingestor:
  "core_ingestor (main_step P cfg ans clk el s) = core_ingestor s \<or>
   (\<exists>rpc rpc'. reconcile_step P (ingest_config cfg) ans clk el rpc (core_ingestor s) =
      Some (rpc', core_ingestor (main_step P cfg ans clk el s)))"
proof (cases "main s")
  case (M_Reconciling rpc)
  then show ?thesis
    by (cases "reconcile_step P (ingest_config cfg) ans clk el rpc (core_ingestor s)"; cases rpc)
       (fastforce simp: main_step_def marks_def split: sum.splits prod.splits simp del: reconcile_step.simps)+
qed (simp_all add: main_step_def)

lemma watcher_step_ingestor:
  "core_ingestor (watcher_step P cfg ans clk el s) = core_ingestor s \<or>
   (\<exists>rpc rpc'. reconcile_step P (ingest_config cfg) ans clk el rpc (core_ingestor s) =
      Some (rpc', core_ingestor (watcher_step P cfg ans clk el s)))"
proof (cases "watcher s")
  case (W_Reconciling rpc)
  then show ?thesis
    by (cases "reconcile_step P (ingest_config cfg) ans clk el rpc (core_ingestor s)"; cases rpc)
       (fastforce simp: watcher_step_def marks_def split: sum.splits prod.splits simp del: reconcile_step.simps)+
qed (simp_all add: watcher_step_def)

abbreviation received :: "'v Core \<Rightarrow> 'v SequencedEvent list" where
  "received s \<equiv> take (taken s) (ingress (core_link s))"

definition store_follows :: "'v parts \<Rightarrow> 'v Core \<Rightarrow> bool" where
  "store_follows P s \<longleftrightarrow> taken s \<le> length (ingress (core_link s)) \<and> core_store_ok P (received s) (core_ingestor s)"

text \<open>All but the ingress leave the events received as they are.\<close>

lemma received_kept:
  assumes "coherent P C cfg s s'" "taken s' = taken s" "taken s \<le> length (ingress (core_link s))"
  shows "taken s' \<le> length (ingress (core_link s')) \<and> received s' = received s"
proof -
  from assms(1) have "link_moves (api P) C (transport_config cfg) (core_link s) (core_link s')"
    by (simp add: coherent_def)
  from ingress_link_moves [OF this] assms(2,3) show ?thesis by auto
qed

lemma core_ingestor_store:
  assumes laws: "json_laws (api P)" "iter_ok (iteration P)"
    and ok: "core_store_ok (core_parts P cfg) rs (core_ingestor s)" and "x \<noteq> IngressTakes"
  shows "core_store_ok (core_parts P cfg) rs (core_ingestor (core_step P C cfg s x)) \<and>
    taken (core_step P C cfg s x) = taken s"
proof -
  have laws': "json_laws (api (core_parts P cfg))" "iter_ok (iteration (core_parts P cfg))"
    using laws by (simp_all add: core_parts_def)
  have frame: "core_store_ok (core_parts P cfg) rs g'" if "ti_store g' = ti_store (core_ingestor s)" for g'
    using ok that by (simp add: core_store_ok_def)
  show ?thesis
  proof (cases x)
    case (SignalRuns i ans clk el)
    with ok show ?thesis
      by (auto split: prod.split option.split dest: discover_step_store [OF laws' ok] simp del: discover_step.simps)
  next
    case (MainRuns ans clk el)
    have "taken (main_step (core_parts P cfg) cfg ans clk el s) = taken s"
      by (auto simp: main_step_def marks_def split: main_pc.split reconcile_pc.split sum.split option.split prod.split)
    with MainRuns ok reconcile_step_store [OF laws' ok] main_step_ingestor [of "core_parts P cfg" cfg ans clk el s]
    show ?thesis by auto
  next
    case (WatcherRuns ans clk el)
    have "taken (watcher_step (core_parts P cfg) cfg ans clk el s) = taken s"
      by (auto simp: watcher_step_def split: watcher_pc.split reconcile_pc.split sum.split option.split prod.split)
    with WatcherRuns ok reconcile_step_store [OF laws' ok] watcher_step_ingestor [of "core_parts P cfg" cfg ans clk el s]
    show ?thesis by auto
  next
    case (CleanupRuns order)
    with ok frame show ?thesis by (auto simp: cleanup_step_def split: cleanup_pc.split)
  qed (use ok frame assms(4) in \<open>auto simp: shutdown_called_def watcher_woken_def split: prod.split\<close>)
qed

lemma core_store_step:
  assumes laws: "json_laws (api P)" "iter_ok (iteration P)"
    and ok: "store_follows (core_parts P cfg) s" and adm: "core_admits s x"
  shows "store_follows (core_parts P cfg) (core_step P C cfg s x)"
proof (cases "x = IngressTakes")
  case True
  have "iter_ok (iteration (core_parts P cfg))" using laws(2) by (simp add: core_parts_def)
  from ingress_takes_sound [OF this, of "received s" s "ingress (core_link s) ! taken s"] ok obtain s' where
    s': "ingress_takes (core_parts P cfg) (ingress (core_link s) ! taken s) s = Some s'"
      "core_store_ok (core_parts P cfg) (received s @ [ingress (core_link s) ! taken s]) (core_ingestor s')"
    by (auto simp: store_follows_def)
  from ingress_takes_effect [OF s'(1)] have "taken s' = Suc (taken s)" "core_link s' = core_link s" by simp_all
  with s' ok show ?thesis by (simp add: True store_follows_def take_Suc_conv_app_nth)
next
  case False
  from core_ingestor_store [OF laws _ False, of cfg "received s" s C] ok
    received_kept [OF core_step_coherent [OF adm, of P C cfg]]
  show ?thesis by (simp add: store_follows_def del: core_step.simps)
qed

interpretation stores: preserved_by "core_step P C cfg"
  "\<lambda>s. json_laws (api P) \<and> iter_ok (iteration P) \<and> store_follows (core_parts P cfg) s" core_admits
  for P C cfg
  by unfold_locales (use core_store_step in blast)

lemma begun_store_ok:
  assumes "begin_core cfg supervised = Some (Inr s)"
  shows "store_follows (core_parts P cfg) s"
proof -
  have "store_sound (core_parts P cfg) [] new_store"
    unfolding store_sound_def by (intro conjI exI [of _ "[]"]) simp_all
  with begin_core_cases [OF assms] show ?thesis by (simp add: store_follows_def core_store_ok_def with_store_def)
qed

text \<open>What the handle's queries rest on.\<close>

lemma run_store:
  assumes "json_laws (api P)" "iter_ok (iteration P)" "begin_core cfg supervised = Some (Inr s0)"
    and "admissible (core_step P C cfg) core_admits s0 xs"
  shows "store_follows (core_parts P cfg) (core_run P C cfg s0 xs)"
  using stores.run_inv [OF _ assms(4)] begun_store_ok [OF assms(3), of P] assms(1,2)
  by (simp add: core_run_def)

section \<open>The gate before the first reconciliation\<close>

fun reconciled_command :: "'v Command \<Rightarrow> bool" where
  "reconciled_command (C_Reconciled ch) = True"
| "reconciled_command _ = False"

definition gate_shut :: "'v Link \<Rightarrow> bool" where
  "gate_shut l \<longleftrightarrow> \<not> reconcile_ready l \<and> list_all (\<lambda>c. \<not> reconciled_command c) (queue l)"

lemma gate_shut_cong:
  "gate_shut l \<Longrightarrow> queue l' = queue l \<Longrightarrow> reconcile_ready l' = reconcile_ready l \<Longrightarrow> gate_shut l'"
  by (simp add: gate_shut_def)

lemma ready_frames [simp]:
  "reconcile_ready (reply ch a s) = reconcile_ready s" "reconcile_ready (next_seq s) = reconcile_ready s"
  "reconcile_ready (hand_over e s) = reconcile_ready s" "reconcile_ready (degrade d s) = reconcile_ready s"
  "reconcile_ready (after_backoff cfg s) = reconcile_ready s" "reconcile_ready (start_driving cfg s) = False"
  "reconcile_ready (answer_pending J f s) = reconcile_ready s"
  "reconcile_ready (initialize_read J C clk el b r s) = reconcile_ready s"
  by (simp_all add: reply_def next_seq_def hand_over_def degrade_def after_backoff_def reconnecting_def Let_def
      start_driving_def answer_pending_def pending_remove_def initialize_read_def initialize_frame_def
      split: IncomingFrame.splits option.splits socket_read.splits sum.splits bool.splits)

lemma ready_drive_exit: "\<not> reconcile_ready s \<Longrightarrow> \<not> reconcile_ready (drive_exit x s)"
  by (cases x) (simp_all add: drive_exit_def fail_pending_def reconnecting_def Let_def)

lemma gate_shut_exit: "gate_shut s \<Longrightarrow> gate_shut (drive_exit x s)"
  by (simp add: gate_shut_def ready_drive_exit)

lemma gate_shut_loop:
  assumes "gate_shut s"
  shows "gate_shut (loop_step J C cfg x s)"
proof (cases "pc s")
  case Driving
  have answered: "gate_shut (answer_pending J f (next_seq s))" for f
    by (rule gate_shut_cong [OF assms]) simp_all
  have "gate_shut (drive_frame J clk el b f s)" for clk el b f
    using gate_shut_exit [OF answered] answered [THEN gate_shut_cong]
    by (auto simp: drive_frame_def Let_def)
  then have "gate_shut (drive_read J C clk el b r s)" for clk el b r
    using assms drive_read_cases [of J C clk el b r s] by (metis gate_shut_exit)
  moreover have "gate_shut (drive_command J failure c (s\<lparr>queue := cs\<rparr>))" if "queue s = c # cs" for failure c cs
    using assms that
    by (cases c) (auto simp: drive_command_def gate_shut_def ready_drive_exit split: option.split)
  ultimately show ?thesis
    using Driving assms
    by (cases x) (auto simp: loop_step_def drive_tick_def gate_shut_exit split: list.split)
next
  case (BackingOff d)
  with assms show ?thesis
    by (cases x) (auto simp: loop_step_def reject_while_disconnected_def gate_shut_def split: list.split Command.split)
qed (use assms in \<open>cases x; auto simp: loop_step_def gate_shut_def split: option.split\<close>)+

lemma gate_shut_step:
  assumes "gate_shut s" "x \<noteq> MarkReconciled" "x \<noteq> OfferReconciled"
  shows "gate_shut (link_step J C cfg s x)"
proof (cases x)
  case (Loop y)
  with assms(1) show ?thesis by (simp add: gate_shut_loop)
qed (use assms in \<open>auto simp: submit_def notify_def shutdown_def take_ingress_def gate_shut_def\<close>)

fun before_marking :: "'v main_pc \<Rightarrow> bool" where
  "before_marking (M_Reconciling rpc) = True"
| "before_marking (M_Closing e) = True"
| "before_marking (M_Returned (Some (CE_Ingest e))) = True"
| "before_marking _ = False"

lemma marked_not_before: "\<not> before_marking (main (main_marked x))"
  by (cases x) (simp add: main_marked_def split: option.split sum.split)

definition gate_waits :: "'v Core \<Rightarrow> bool" where
  "gate_waits s \<longleftrightarrow> (before_marking (main s) \<longrightarrow> gate_shut (core_link s) \<and> watcher s = W_NotStarted)"

lemma gate_waits_main:
  assumes "gate_waits s"
  shows "gate_waits (main_step P cfg ans clk el s)"
proof (cases "main s")
  case (M_Reconciling rpc)
  show ?thesis
  proof (cases "\<exists>r. rpc = R_Done r")
    case True
    then obtain r where "rpc = R_Done r" by blast
    with M_Reconciling assms show ?thesis
      by (cases r) (auto simp: main_step_def gate_waits_def gate_shut_def shutdown_def marked_not_before)
  next
    case False
    with M_Reconciling assms show ?thesis
      by (cases rpc) (auto simp: main_step_def gate_waits_def split: option.split simp del: reconcile_step.simps)
  qed
next
  case (M_Ending own)
  with assms show ?thesis by (simp add: main_step_def gate_waits_def)
qed (use assms in \<open>auto simp: main_step_def gate_waits_def marked_not_before\<close>)

lemma gate_waits_step: "gate_waits s \<Longrightarrow> gate_waits (core_step P C cfg s x)"
proof (cases x)
  case (OnLink y)
  moreover have "client_op b y \<Longrightarrow> y \<noteq> MarkReconciled \<and> y \<noteq> OfferReconciled" for b by auto
  ultimately show "gate_waits s \<Longrightarrow> ?thesis"
    using gate_shut_step by (fastforce simp: gate_waits_def)
next
  case IngressTakes
  then show "gate_waits s \<Longrightarrow> ?thesis"
    by (cases "ingress_takes (core_parts P cfg) (ingress (core_link s) ! taken s) s")
       (auto simp: gate_waits_def dest!: ingress_takes_effect)
next
  case (SignalRuns i ans clk el)
  then show "gate_waits s \<Longrightarrow> ?thesis"
    by (auto simp: gate_waits_def split: prod.split option.split simp del: discover_step.simps)
next
  case (MainRuns ans clk el)
  then show "gate_waits s \<Longrightarrow> ?thesis" by (simp add: gate_waits_main)
next
  case OperationEnds
  then show "gate_waits s \<Longrightarrow> ?thesis" by (auto simp: gate_waits_def shutdown_called_def)
next
  case (WatcherRuns ans clk el)
  assume ok: "gate_waits s"
  show ?thesis
  proof (cases "before_marking (main s)")
    case True
    with ok have "watcher s = W_NotStarted" by (simp add: gate_waits_def)
    with ok WatcherRuns show ?thesis by (simp add: watcher_step_def)
  next
    case False
    have "main (watcher_step (core_parts P cfg) cfg ans clk el s) = main s"
      by (auto simp: watcher_step_def split: watcher_pc.split reconcile_pc.split sum.split option.split prod.split)
    with False WatcherRuns show ?thesis by (simp add: gate_waits_def)
  qed
next
  case (CleanupRuns order)
  then show "gate_waits s \<Longrightarrow> ?thesis"
    by (auto simp: gate_waits_def cleanup_step_def gate_shut_def shutdown_def split: cleanup_pc.split)
qed (auto simp: gate_waits_def shutdown_called_def watcher_woken_def)

interpretation gates: preserved_by "core_step P C cfg" gate_waits "\<lambda>_ _. True" for P C cfg
  by unfold_locales (rule gate_waits_step)

lemma begun_gate: "begin_core cfg supervised = Some (Inr s) \<Longrightarrow> gate_waits s"
  by (drule begin_core_cases) (simp add: gate_waits_def gate_shut_def take_ingress_def spawn_def)

section \<open>The cleanup of a shutdown\<close>

definition unsubscribes :: "'v ThreadIngestor \<Rightarrow> (string \<times> 'v) list" where
  "unsubscribes g = filter (\<lambda>(m, _). m = ''thread/unsubscribe'') (requests g)"

lemma unsubscribes_call [simp]:
  "unsubscribes (call m p g) = unsubscribes g @ (if m = ''thread/unsubscribe'' then [(m, p)] else [])"
  by (simp add: unsubscribes_def)

lemma unsubscribes_cong: "requests g' = requests g \<Longrightarrow> unsubscribes g' = unsubscribes g"
  by (simp add: unsubscribes_def)

lemma discover_no_unsubscribe:
  "discover_step P cfg t source ans clk el dpc g = Some (dpc', g') \<Longrightarrow> unsubscribes g' = unsubscribes g"
  by (cases dpc) (auto simp: claim_def Let_def unsubscribes_def split: if_splits option.splits)

lemma reconcile_no_unsubscribe:
  assumes "reconcile_step P cfg ans clk el rpc g = Some (rpc', g')"
  shows "unsubscribes g' = unsubscribes g"
proof (cases rpc)
  case (R_Listing pages cur previous newest candidates)
  with assms show ?thesis
    by (auto simp: end_listing_def unsubscribes_def split: nat.splits if_splits)
next
  case (R_AwaitingPage pages previous newest candidates)
  have "unsubscribes (snd (page_answered P cfg pages previous newest candidates a g)) = unsubscribes g" for a
    by (simp add: page_answered_def end_listing_def Let_def unsubscribes_def
        split: sum.splits option.splits prod.splits)
  moreover from assms R_AwaitingPage obtain a where
    "page_answered P cfg pages previous newest candidates a g = (rpc', g')" by auto
  ultimately show ?thesis by (metis snd_conv)
next
  case (R_Reading candidates outcomes)
  with assms show ?thesis by (auto simp: unsubscribes_def split: list.splits)
next
  case (R_Discovering d t ts outcomes)
  show ?thesis
  proof (cases "\<exists>o'. d = Done o'")
    case True
    with R_Discovering assms show ?thesis by auto
  next
    case False
    with R_Discovering assms obtain d' where
      "discover_step P cfg t Reconciliation ans clk el d g = Some (d', g')"
      by (auto simp del: discover_step.simps split: discover_pc.splits)
    then show ?thesis by (rule discover_no_unsubscribe)
  qed
qed (use assms in \<open>auto simp: unsubscribes_def\<close>)

text \<open>The requests of one cleanup: one for each subscribed thread.\<close>

definition unsubscribe_each :: "'v json \<Rightarrow> string list \<Rightarrow> (string \<times> 'v) list" where
  "unsubscribe_each J ts = map (\<lambda>t. (''thread/unsubscribe'', resume_params J t)) ts"

lemma unsubscribe_all_asks:
  "unsubscribes (unsubscribe_all_best_effort P order g) =
     unsubscribes g @ unsubscribe_each (api P) (map fst (filter (\<lambda>(_, st). st = Subscribed) order))"
proof -
  have "unsubscribes (foldl (\<lambda>g t. call ''thread/unsubscribe'' (resume_params J t) g) g ts) =
      unsubscribes g @ unsubscribe_each J ts" for J :: "'v json" and ts and g :: "'v ThreadIngestor"
    by (induction ts arbitrary: g) (simp_all add: unsubscribe_each_def)
  then show ?thesis by (simp add: unsubscribe_all_best_effort_def)
qed

definition cleaned_once :: "'v json \<Rightarrow> 'v Core \<Rightarrow> bool" where
  "cleaned_once J s \<longleftrightarrow>
     (cleanup s \<noteq> C_Idle \<longrightarrow> stopped s \<and> stop_signal s) \<and>
     (if cleanup s = C_Idle \<or> cleanup s = C_Unsubscribing then unsubscribes (core_ingestor s) = []
      else \<exists>ts. distinct ts \<and> unsubscribes (core_ingestor s) = unsubscribe_each J ts)"

lemma cleaned_once_cong:
  "cleaned_once J s \<Longrightarrow> cleanup s' = cleanup s \<Longrightarrow> stopped s' = stopped s \<Longrightarrow> (stop_signal s \<Longrightarrow> stop_signal s') \<Longrightarrow>
     unsubscribes (core_ingestor s') = unsubscribes (core_ingestor s) \<Longrightarrow> cleaned_once J s'"
  by (auto simp: cleaned_once_def)

lemma shutdown_called_clean: "cleaned_once J s \<Longrightarrow> cleaned_once J (snd (shutdown_called s))"
  by (cases "cleanup s = C_Idle") (auto simp: cleaned_once_def shutdown_called_def)

lemma main_step_frame:
  "cleanup (main_step P cfg ans clk el s) = cleanup s \<and> stopped (main_step P cfg ans clk el s) = stopped s \<and>
   (stop_signal s \<longrightarrow> stop_signal (main_step P cfg ans clk el s))"
  by (auto simp: main_step_def main_marked_stops split: main_pc.split reconcile_pc.split sum.split option.split prod.split)

lemma watcher_step_frame:
  "cleanup (watcher_step P cfg ans clk el s) = cleanup s \<and> stopped (watcher_step P cfg ans clk el s) = stopped s \<and>
   stop_signal (watcher_step P cfg ans clk el s) = stop_signal s"
  by (auto simp: watcher_step_def split: watcher_pc.split reconcile_pc.split sum.split option.split prod.split)

lemma distinct_subscribed: "distinct (map fst order) \<Longrightarrow> distinct (map fst (filter p order))"
  by (simp add: distinct_map_filter)

lemma cleaned_once_cleanup:
  assumes "cleaned_once (api P) s" "distinct (map fst order)"
  shows "cleaned_once (api P) (cleanup_step P order s)"
proof (cases "cleanup s")
  case C_Unsubscribing
  with assms distinct_subscribed [OF assms(2)] show ?thesis
    by (auto simp: cleaned_once_def cleanup_step_def unsubscribe_all_asks)
qed (use assms in \<open>auto simp: cleaned_once_def cleanup_step_def\<close>)

lemma cleaned_once_step:
  assumes ok: "cleaned_once (api P) s" and adm: "core_admits s x"
  shows "cleaned_once (api P) (core_step P C cfg s x)"
proof (cases x)
  case IngressTakes
  show ?thesis
  proof (cases "ingress_takes (core_parts P cfg) (ingress (core_link s) ! taken s) s")
    case (Some s')
    then have "stop_signal s' = stop_signal s"
      by (auto simp: ingress_takes_def split: option.splits)
    with Some ok show ?thesis
      by (auto simp: IngressTakes dest!: ingress_takes_effect intro: cleaned_once_cong unsubscribes_cong)
  qed (use ok in \<open>simp add: IngressTakes\<close>)
next
  case (SignalRuns i ans clk el)
  with ok show ?thesis
    by (auto split: prod.split option.split intro: cleaned_once_cong simp del: discover_step.simps
        dest!: discover_no_unsubscribe)
next
  case (MainRuns ans clk el)
  have "unsubscribes (core_ingestor (main_step (core_parts P cfg) cfg ans clk el s)) = unsubscribes (core_ingestor s)"
    using main_step_ingestor [of "core_parts P cfg" cfg ans clk el s] reconcile_no_unsubscribe by metis
  with main_step_frame [of "core_parts P cfg" cfg ans clk el s] MainRuns show ?thesis
    by (auto intro: cleaned_once_cong [OF ok])
next
  case OperationEnds
  have "cleaned_once (api P) (snd (shutdown_called s))" using ok by (rule shutdown_called_clean)
  with ok show ?thesis
    by (auto simp: OperationEnds split: prod.split intro: cleaned_once_cong)
next
  case (WatcherRuns ans clk el)
  have "unsubscribes (core_ingestor (watcher_step (core_parts P cfg) cfg ans clk el s)) = unsubscribes (core_ingestor s)"
    using watcher_step_ingestor [of "core_parts P cfg" cfg ans clk el s] reconcile_no_unsubscribe by metis
  with watcher_step_frame [of "core_parts P cfg" cfg ans clk el s] WatcherRuns show ?thesis
    by (auto intro: cleaned_once_cong [OF ok])
next
  case ShutdownCalled
  with ok show ?thesis by (simp add: shutdown_called_clean)
next
  case (CleanupRuns order)
  with adm cleaned_once_cleanup [of "core_parts P cfg" s order] ok show ?thesis by simp
next
  case (RegistersWaiter p)
  with ok show ?thesis by (auto simp: unsubscribes_def intro: cleaned_once_cong)
qed (use ok in \<open>auto simp: watcher_woken_def intro: cleaned_once_cong\<close>)

interpretation cleanups: preserved_by "core_step P C cfg" "cleaned_once (api P)" core_admits for P C cfg
  by unfold_locales (rule cleaned_once_step)

lemma begun_clean: "begin_core cfg supervised = Some (Inr s) \<Longrightarrow> cleaned_once J s"
  by (drule begin_core_cases) (simp add: cleaned_once_def unsubscribes_def with_store_def new_ingestor_def)

end
