(* ===== verification/Core_Runs.thy ===== *)
theory Core_Runs
  imports Core
begin

text \<open>
  Concrete runs of the system, led stage by stage: a small system, the answers its first
  reconciliation gets, and the states these runs reach. The properties of the root theory are
  applied to them.
\<close>

section \<open>A system to evaluate\<close>

definition test_core_config :: Config where
  "test_core_config = (default_config None ''0'')\<lparr>manage_gui := False\<rparr>"

definition test_ingestor :: "jv ThreadIngestor" where
  "test_ingestor = with_store new_store (new_ingestor default_ingest_config (empty_reducer 4096))"

definition test_core :: "jv Core" where
  "test_core =
     \<lparr>core_link = snd (take_ingress (spawn (transport_config test_core_config))),
      core_ingestor = test_ingestor, core_hub = new_hub, taken = 0, ingress_running = True, signals = [],
      main = M_Reconciling (start_reconcile default_ingest_config test_ingestor), watcher = W_NotStarted,
      stop_signal = False, stopped = False, cleanup = C_Idle, supervision = None\<rparr>"

lemma test_core_begins: "begin_core test_core_config None = Some (Inr test_core)"
  by (simp add: begin_core_def take_ingress_def spawn_def new_reducer_def test_core_def test_ingestor_def
      test_core_config_def default_config_def Let_def)

text \<open>A connection, as inputs of the system; and an empty page of threads.\<close>

definition connects :: "jv core_input list" where
  "connects = map OnLink connect_ops"

definition empty_page :: jv where
  "empty_page = JObj [(''data'', JArr [])]"

lemma admissible_nothing:
  "(\<And>s. list_all (core_admits s) xs) \<Longrightarrow> admissible (core_step P C cfg) core_admits s xs"
  by (induction xs arbitrary: s) auto



section \<open>Runs, stage by stage\<close>

text \<open>A reconciliation that is fed its answers.\<close>

fun feed ::
    "'v parts \<Rightarrow> IngestConfig \<Rightarrow> 'v answer option list \<Rightarrow> 'v reconcile_pc \<times> 'v ThreadIngestor \<Rightarrow>
     ('v reconcile_pc \<times> 'v ThreadIngestor) option" where
  "feed P cfg [] st = Some st"
| "feed P cfg (a # as) (rpc, g) = Option.bind (reconcile_step P cfg a 0 0 rpc g) (feed P cfg as)"

lemma reconcile_step_done: "reconcile_step P cfg a clk el (R_Done r) g = None"
  by simp

lemma main_takes:
  assumes "reconcile_step P (ingest_config cfg) a clk el rpc (core_ingestor s) = Some (rpc', g')"
    and "main s = M_Reconciling rpc"
  shows "main_step P cfg a clk el s = s\<lparr>main := M_Reconciling rpc', core_ingestor := g'\<rparr>"
  using assms
  by (cases rpc) (simp_all add: main_step_def reconcile_step_done del: reconcile_step.simps)

lemma watcher_takes:
  assumes "reconcile_step P (ingest_config cfg) a clk el rpc (core_ingestor s) = Some (rpc', g')"
    and "watcher s = W_Reconciling rpc"
  shows "watcher_step P cfg a clk el s = s\<lparr>watcher := W_Reconciling rpc', core_ingestor := g'\<rparr>"
  using assms
  by (cases rpc) (simp_all add: watcher_step_def reconcile_step_done del: reconcile_step.simps)

lemma main_feeds:
  assumes "feed (core_parts P cfg) (ingest_config cfg) as (rpc, core_ingestor s) = Some (rpc', g')"
    and "main s = M_Reconciling rpc"
  shows "core_run P C cfg s (map (\<lambda>a. MainRuns a 0 0) as) = s\<lparr>main := M_Reconciling rpc', core_ingestor := g'\<rparr>"
  using assms
proof (induction as arbitrary: rpc s)
  case (Cons a as)
  then obtain rpc1 g1 where
    "reconcile_step (core_parts P cfg) (ingest_config cfg) a 0 0 rpc (core_ingestor s) = Some (rpc1, g1)"
    "feed (core_parts P cfg) (ingest_config cfg) as (rpc1, g1) = Some (rpc', g')"
    by (auto simp: Option.bind_eq_Some_conv)
  with Cons.IH [of rpc1 "s\<lparr>main := M_Reconciling rpc1, core_ingestor := g1\<rparr>"] Cons.prems(2) show ?case
    by (simp add: core_run_def main_takes)
qed (simp add: core_run_def)

lemma watcher_feeds:
  assumes "feed (core_parts P cfg) (ingest_config cfg) as (rpc, core_ingestor s) = Some (rpc', g')"
    and "watcher s = W_Reconciling rpc"
  shows "core_run P C cfg s (map (\<lambda>a. WatcherRuns a 0 0) as) =
    s\<lparr>watcher := W_Reconciling rpc', core_ingestor := g'\<rparr>"
  using assms
proof (induction as arbitrary: rpc s)
  case (Cons a as)
  then obtain rpc1 g1 where
    "reconcile_step (core_parts P cfg) (ingest_config cfg) a 0 0 rpc (core_ingestor s) = Some (rpc1, g1)"
    "feed (core_parts P cfg) (ingest_config cfg) as (rpc1, g1) = Some (rpc', g')"
    by (auto simp: Option.bind_eq_Some_conv)
  with Cons.IH [of rpc1 "s\<lparr>watcher := W_Reconciling rpc1, core_ingestor := g1\<rparr>"] Cons.prems(2) show ?case
    by (simp add: core_run_def watcher_takes)
qed (simp add: core_run_def)

lemma link_feeds:
  assumes "list_all (client_op False) ops"
  shows "core_run P C cfg s (map OnLink ops) =
    s\<lparr>core_link := foldl (link_step (api P) C (transport_config cfg)) (core_link s) ops\<rparr>"
  using assms
proof (induction ops arbitrary: s)
  case (Cons x ops)
  then have "client_op (handle_minted (main s)) x" by (cases x) auto
  with Cons.IH [of "s\<lparr>core_link := link_step (api P) C (transport_config cfg) (core_link s) x\<rparr>"] Cons.prems
  show ?case by (simp add: core_run_def)
qed (simp add: core_run_def)

lemma core_run_append: "core_run P C cfg s (xs @ ys) = core_run P C cfg (core_run P C cfg s xs) ys"
  by (simp add: core_run_def)

lemma main_marks:
  assumes "main s = M_Reconciling (R_Done (Inr os))" "pc (core_link s) = loop_pc.Driving" "queue (core_link s) = []"
  shows "core_run P C cfg s [MainRuns None 0 0, OnLink (Loop (TakeCommand None)), MainRuns None 0 0] =
    s\<lparr>main := M_Operating, watcher := W_Waiting,
       core_link := foldl (link_step (api P) C (transport_config cfg)) (core_link s)
         [MarkReconciled, Loop (TakeCommand None)]\<rparr>"
  using assms
  by (simp add: core_run_def main_step_def marking_defs loop_step_def drive_command_def Let_def)



lemma feed_empty_page:
  assumes "0 < reconcile_page_bound cfg" "0 < reconcile_candidate_limit cfg"
  shows "\<exists>g'. feed (core_parts test_parts tc) cfg [None, Some (Inr empty_page), None]
     (start_reconcile cfg g, g) = Some (R_Done (Inr []), g')"
  using assms
  by (cases "reconcile_page_bound cfg")
     (simp_all add: start_reconcile_def page_answered_def end_listing_def empty_page_def core_parts_def get_str_def Let_def)

lemma core_admits_main [simp]: "admissible (core_step P C cfg) core_admits s (map (\<lambda>a. MainRuns a 0 0) as)"
  by (induction as arbitrary: s) auto

lemma core_admits_links:
  "list_all (client_op False) ops \<Longrightarrow> admissible (link_step (api P) C (transport_config cfg)) link_admits (core_link s) ops \<Longrightarrow>
     admissible (core_step P C cfg) core_admits s (map OnLink ops)"
proof (induction ops arbitrary: s)
  case (Cons x ops)
  moreover have "client_op (handle_minted (main s)) x" using Cons.prems(1) by (cases x) auto
  ultimately show ?case by simp
qed simp

text \<open>A run up to the operation of the caller, with the answers to its first reconciliation.\<close>

definition marking :: "jv core_input list" where
  "marking = [MainRuns None 0 0, OnLink (Loop (TakeCommand None)), MainRuns None 0 0]"

definition first_run :: "jv answer option list \<Rightarrow> jv core_input list" where
  "first_run as = connects @ map (\<lambda>a. MainRuns a 0 0) as @ marking"

abbreviation test_run :: "jv Core \<Rightarrow> jv core_input list \<Rightarrow> jv Core" where
  "test_run \<equiv> core_run test_parts test_codec test_core_config"

abbreviation test_feed :: "jv answer option list \<Rightarrow> jv reconcile_pc \<times> jv ThreadIngestor \<Rightarrow> (jv reconcile_pc \<times> jv ThreadIngestor) option" where
  "test_feed \<equiv> feed (core_parts test_parts test_core_config) default_ingest_config"

abbreviation test_links :: "jv link_op list \<Rightarrow> jv Link" where
  "test_links ops \<equiv> foldl (link_step jv_api test_codec (transport_config test_core_config)) (core_link test_core) ops"

abbreviation test_admits :: "jv Core \<Rightarrow> jv core_input list \<Rightarrow> bool" where
  "test_admits \<equiv> admissible (core_step test_parts test_codec test_core_config) core_admits"

lemma test_core_fields [simp]:
  "core_link test_core = snd (take_ingress (spawn (transport_config test_core_config)))"
  "main test_core = M_Reconciling (start_reconcile default_ingest_config (core_ingestor test_core))"
  by (simp_all add: test_core_def)

lemma test_core_settings [simp]: "ingest_config test_core_config = default_ingest_config"
  by (simp add: test_core_config_def default_config_def Let_def)

lemma first_run_leads:
  assumes "test_feed as (start_reconcile default_ingest_config (core_ingestor test_core), core_ingestor test_core) =
     Some (R_Done (Inr os), g)"
  shows "test_run test_core (first_run as) =
       test_core\<lparr>main := M_Operating, watcher := W_Waiting, core_ingestor := g,
         core_link := test_links (connect_ops @ [MarkReconciled, Loop (TakeCommand None)])\<rparr> \<and>
     test_admits test_core (first_run as)"
proof -
  let ?s1 = "test_core\<lparr>core_link := test_links connect_ops\<rparr>"
  let ?s2 = "?s1\<lparr>main := M_Reconciling (R_Done (Inr os)), core_ingestor := g\<rparr>"
  have 1: "test_run test_core connects = ?s1"
    unfolding connects_def by (subst link_feeds) (simp_all add: connect_ops_def)
  have 2: "test_run ?s1 (map (\<lambda>a. MainRuns a 0 0) as) = ?s2"
    by (rule main_feeds) (use assms in simp_all)
  have driving: "pc (test_links connect_ops) = loop_pc.Driving" "queue (test_links connect_ops) = []"
      "seq (test_links connect_ops) = 1"
    by (simp_all add: link_run_defs take_ingress_def)
  then have 3: "test_run ?s2 marking =
      test_core\<lparr>main := M_Operating, watcher := W_Waiting, core_ingestor := g,
       core_link := test_links (connect_ops @ [MarkReconciled, Loop (TakeCommand None)])\<rparr>"
    unfolding marking_def by (subst main_marks) simp_all
  have "test_admits test_core connects" unfolding connects_def
    by (rule core_admits_links) (simp_all add: link_run_defs take_ingress_def)
  moreover have "test_admits ?s2 marking"
    using driving by (simp add: marking_def main_step_def marking_defs Let_def)
  ultimately show ?thesis
    using 1 2 3 unfolding first_run_def core_run_append admissible_append
    by (simp add: core_run_def [symmetric] del: test_core_fields)
qed

text \<open>With no thread; and the run of a watcher whose connection breaks off before it marks.\<close>

abbreviation nothing_listed :: "jv answer option list" where
  "nothing_listed \<equiv> [None, Some (Inr empty_page), None]"

definition breaks_off :: "jv link_op list" where
  "breaks_off = [Loop (DriveRead 0 0 True StreamEnded)]"

definition racing_run :: "jv core_input list" where
  "racing_run = first_run nothing_listed @ map OnLink (breaks_off @ connect_ops) @ [WatcherWoken] @
     map (\<lambda>a. WatcherRuns a 0 0) nothing_listed @ map OnLink (breaks_off @ take 3 connect_ops)"

lemma feed_nothing: "\<exists>g'. test_feed nothing_listed (start_reconcile default_ingest_config g, g) = Some (R_Done (Inr []), g')"
  by (rule feed_empty_page) (simp_all add: default_ingest_config_def)

lemma racing_run_leads:
  "\<exists>g. test_run test_core racing_run =
     test_core\<lparr>main := M_Operating, watcher := W_Reconciling (R_Done (Inr [])), core_ingestor := g,
       core_link := test_links (connect_ops @ [MarkReconciled, Loop (TakeCommand None)] @
         breaks_off @ connect_ops @ breaks_off @ take 3 connect_ops)\<rparr>"
proof -
  let ?ops = "connect_ops @ [MarkReconciled, Loop (TakeCommand None)]"
  let ?ops' = "?ops @ breaks_off @ connect_ops"
  from feed_nothing first_run_leads obtain g where
    1: "test_run test_core (first_run nothing_listed) =
      test_core\<lparr>main := M_Operating, watcher := W_Waiting, core_ingestor := g, core_link := test_links ?ops\<rparr>"
      (is "_ = ?s1") by blast
  let ?s2 = "?s1\<lparr>core_link := test_links ?ops'\<rparr>"
  have 2: "test_run ?s1 (map OnLink (breaks_off @ connect_ops)) = ?s2"
    by (subst link_feeds) (simp_all add: connect_ops_def breaks_off_def)
  have "phase (health (test_links ?ops')) = P_Reconciling" "\<not> is_reconciled (test_links ?ops')"
    by (simp_all add: link_run_defs take_ingress_def breaks_off_def)
  then have 3: "test_run ?s2 [WatcherWoken] = ?s2\<lparr>watcher := W_Reconciling (start_reconcile default_ingest_config g)\<rparr>"
    (is "_ = ?s3") by (simp add: core_run_def watcher_woken_def)
  from feed_nothing obtain g' where fed: "feed (core_parts test_parts test_core_config)
     (ingest_config test_core_config) nothing_listed (start_reconcile default_ingest_config g, g) =
     Some (R_Done (Inr []), g')" by auto
  have 4: "test_run ?s3 (map (\<lambda>a. WatcherRuns a 0 0) nothing_listed) =
      ?s3\<lparr>watcher := W_Reconciling (R_Done (Inr [])), core_ingestor := g'\<rparr>" (is "_ = ?s4")
    by (rule watcher_feeds) (use fed in simp_all)
  have 5: "test_run ?s4 (map OnLink (breaks_off @ take 3 connect_ops)) =
      ?s4\<lparr>core_link := test_links (?ops' @ breaks_off @ take 3 connect_ops)\<rparr>"
    by (subst link_feeds) (simp_all add: connect_ops_def breaks_off_def)
  show ?thesis
    unfolding racing_run_def core_run_append 1 2 3 4 5 by (rule exI [of _ g']) simp
qed

text \<open>With one thread that is active, and gets subscribed.\<close>

definition page_of :: "string list \<Rightarrow> jv" where
  "page_of ts = JObj [(''data'', JArr (List.map (\<lambda>t. JObj [(''id'', JStr t)]) ts))]"

definition active_thread :: "string \<Rightarrow> jv" where
  "active_thread t = JObj [(''thread'', JObj [(''id'', JStr t), (''status'', JObj [(''type'', JStr ''active'')])])]"

lemma feed_discovers:
  assumes "states g = Map.empty" "0 < subscription_cap cfg"
  shows "\<exists>g'. feed (core_parts test_parts tc) cfg [None, None, Some (Inr JNull), None, None, Some (Inr JNull), None]
     (R_Discovering Claim t ts os, g) = Some (R_Reading ts (os @ [(t, O_Subscribed)]), g') \<and>
     states g' = [t \<mapsto> Subscribed]"
  using assms
  by (simp add: claim_def Let_def core_parts_def resume_answered_def retained_count_def)

lemma feed_one_thread:
  assumes "states g = Map.empty" "0 < subscription_cap cfg" "0 < reconcile_page_bound cfg" "0 < reconcile_candidate_limit cfg"
    "watermark g = 0"
  shows "\<exists>g'. feed (core_parts test_parts tc) cfg 
     [None, Some (Inr (page_of [''t''])), None, Some (Inr (active_thread ''t'')), None]
     (start_reconcile cfg g, g) = Some (R_Discovering Claim ''t'' [] [], g') \<and>
     states g' = Map.empty"
  using assms
  by (cases "reconcile_page_bound cfg")
     (simp_all add: start_reconcile_def page_answered_def thread_answered_def end_listing_def thread_is_active_def page_of_def active_thread_def core_parts_def get_str_def get_path_def Let_def)


definition one_thread :: "jv answer option list" where
  "one_thread = [None, Some (Inr (page_of [''t''])), None, Some (Inr (active_thread ''t'')), None] @
     [None, None, Some (Inr JNull), None, None, Some (Inr JNull), None] @ [None]"

lemma feed_append: "feed P cfg (as @ bs) st = Option.bind (feed P cfg as st) (feed P cfg bs)"
  by (induction as arbitrary: st) (auto split: Option.bind_split)

lemma feed_subscribes:
  "\<exists>g. test_feed one_thread (start_reconcile default_ingest_config (core_ingestor test_core), core_ingestor test_core) =
     Some (R_Done (Inr [(''t'', O_Subscribed)]), g) \<and> states g = [''t'' \<mapsto> Subscribed]"
proof -
  let ?g = "core_ingestor test_core"
  have "states ?g = Map.empty" "watermark ?g = 0"
    by (simp_all add: test_core_def test_ingestor_def with_store_def new_ingestor_def)
  with feed_one_thread [of ?g default_ingest_config test_core_config] obtain g1 where
    1: "test_feed [None, Some (Inr (page_of [''t''])), None, Some (Inr (active_thread ''t'')), None]
         (start_reconcile default_ingest_config ?g, ?g) = Some (R_Discovering Claim ''t'' [] [], g1)"
       "states g1 = Map.empty" by (auto simp: default_ingest_config_def)
  from feed_discovers [OF 1(2), of default_ingest_config test_core_config "''t''" "[]" "[]"] obtain g where
    2: "test_feed [None, None, Some (Inr JNull), None, None, Some (Inr JNull), None] (R_Discovering Claim ''t'' [] [], g1) =
         Some (R_Reading [] [(''t'', O_Subscribed)], g)" "states g = [''t'' \<mapsto> Subscribed]"
    by (auto simp: default_ingest_config_def)
  have "test_feed [None] (R_Reading [] [(''t'', O_Subscribed)], g) = Some (R_Done (Inr [(''t'', O_Subscribed)]), g)" by simp
  with 1 2 show ?thesis unfolding one_thread_def feed_append by (simp del: feed.simps)
qed

end
