(* ===== verification/Mock.thy ===== *)
theory Mock
  imports Core
begin

text \<open>
  The stateful app-server of the integration tests (\<open>src/transport/src/mock.rs\<close>): the threads it
  knows, the faults it injects, how it answers a request, and the loop that serves one connection.
  It stands on the other side of the transport, so what the client parts make of its answers is a
  statement about both.
\<close>

section \<open>State\<close>

datatype Fault = NoFault | DisconnectOnMethod string | HalfOpen | InterruptCompletionBeforeResponse

record MockThread =
  mt_id :: string
  mt_status :: string
  mt_turn_id :: "string option"
  mt_ephemeral :: bool
  mt_updated_at :: u64

definition mock_thread_json :: "'v json \<Rightarrow> MockThread \<Rightarrow> 'v" where
  "mock_thread_json J t =
     (let turns = (case mt_turn_id t of
            Some i \<Rightarrow> jarr J [jobj J [(''id'', jstr J i), (''status'', jstr J (mt_status t))]]
          | None \<Rightarrow> jarr J [])
      in jobj J [(''id'', jstr J (mt_id t)), (''status'', jobj J [(''type'', jstr J (mt_status t))]),
           (''turns'', turns), (''ephemeral'', jbool J (mt_ephemeral t)), (''updatedAt'', jnum J (mt_updated_at t))])"

text \<open>
  The server: its state, what it has broadcast to its connections, whether it accepts, and whether
  its socket is in the file system.
\<close>

record 'v MockServer =
  fault :: Fault
  mock_threads :: "string \<rightharpoonup> MockThread"
  mock_received :: "'v list"
  responses_to_server_requests :: nat
  next_server_id :: u64
  resume_failures_remaining :: nat
  outgoing :: "'v list"
  accepting :: bool
  socket_present :: bool

text \<open>
  Parameters: JSON, the order in which the map of threads lists its values, and the value of
  \<open>json!(-32000)\<close>.
\<close>

record 'v mock_api =
  mock_json :: "'v json"
  map_values :: "(string \<rightharpoonup> MockThread) \<Rightarrow> MockThread list"
  no_rollout_code :: 'v

text \<open>What the answers to the ingestor rest on: arrays and nulls read back, and \<open>values\<close> lists the map.\<close>

definition mock_laws :: "'v mock_api \<Rightarrow> bool" where
  "mock_laws M \<longleftrightarrow> json_laws (mock_json M) \<and>
     (\<forall>vs. as_array (mock_json M) (jarr (mock_json M) vs) = Some vs) \<and>
     as_str (mock_json M) (jnull (mock_json M)) = None \<and>
     (\<forall>m. finite (dom m) \<longrightarrow>
        (\<exists>ks. distinct ks \<and> set ks = dom m \<and> map_values M m = map (\<lambda>k. the (m k)) ks))"

section \<open>Operations\<close>

definition mock_start :: "'v MockServer" where
  "mock_start =
     \<lparr>fault = NoFault, mock_threads = Map.empty, mock_received = [], responses_to_server_requests = 0,
      next_server_id = 9000, resume_failures_remaining = 0, outgoing = [], accepting = True, socket_present = True\<rparr>"

definition add_thread :: "MockThread \<Rightarrow> 'v MockServer \<Rightarrow> 'v MockServer" where
  "add_thread t s = s\<lparr>mock_threads := (mock_threads s)(mt_id t \<mapsto> t)\<rparr>"

definition set_fault :: "'v mock_api \<Rightarrow> Fault \<Rightarrow> 'v MockServer \<Rightarrow> 'v MockServer" where
  "set_fault M f s = s\<lparr>fault := f, outgoing := outgoing s @ [jnull (mock_json M)]\<rparr>"

definition set_resume_failures :: "nat \<Rightarrow> 'v MockServer \<Rightarrow> 'v MockServer" where
  "set_resume_failures n s = s\<lparr>resume_failures_remaining := n\<rparr>"

definition emit_notification :: "'v mock_api \<Rightarrow> string \<Rightarrow> 'v \<Rightarrow> 'v MockServer \<Rightarrow> 'v MockServer" where
  "emit_notification M m params s =
     (let J = mock_json M
      in s\<lparr>outgoing := outgoing s @
             [jobj J [(''jsonrpc'', jstr J ''2.0''), (''method'', jstr J m), (''params'', params)]]\<rparr>)"

definition emit_server_request :: "'v mock_api \<Rightarrow> string \<Rightarrow> 'v \<Rightarrow> 'v MockServer \<Rightarrow> 'v MockServer" where
  "emit_server_request M m params s =
     (let J = mock_json M; i = next_server_id s + 1
      in s\<lparr>next_server_id := i,
           outgoing := outgoing s @
             [jobj J [(''jsonrpc'', jstr J ''2.0''), (''id'', jnum J i), (''method'', jstr J m), (''params'', params)]]\<rparr>)"

definition mock_shutdown :: "'v MockServer \<Rightarrow> 'v MockServer" where
  "mock_shutdown s = s\<lparr>accepting := False, socket_present := False\<rparr>"

section \<open>Answering a request\<close>

text \<open>\<open>sort_by_key\<close> is stable, as is \<open>sort_key\<close>; \<open>Reverse\<close> turns the order of the keys round.\<close>

definition newest_first :: "MockThread list \<Rightarrow> MockThread list" where
  "newest_first ts = sort_key (\<lambda>t. - uint (mt_updated_at t)) ts"

definition missing_thread :: "string \<Rightarrow> MockThread" where
  "missing_thread t =
     \<lparr>mt_id = t, mt_status = ''idle'', mt_turn_id = None, mt_ephemeral = False, mt_updated_at = 0\<rparr>"

definition method_result :: "'v mock_api \<Rightarrow> 'v MockServer \<Rightarrow> string \<Rightarrow> 'v \<Rightarrow> 'v" where
  "method_result M s m params =
     (let J = mock_json M
      in if m = ''initialize''
         then jobj J [(''serverInfo'', jobj J [(''name'', jstr J ''mock''), (''version'', jstr J ''0.144.6'')])]
         else if m = ''thread/list''
         then jobj J [(''data'', jarr J (map (mock_thread_json J) (newest_first (map_values M (mock_threads s))))),
                (''nextCursor'', jnull J)]
         else if m = ''thread/read'' \<or> m = ''thread/resume''
         then (let t = unwrap_or (get_str J params ''threadId'') []
               in jobj J [(''thread'', mock_thread_json J (unwrap_or (mock_threads s t) (missing_thread t)))])
         else if m = ''thread/subscribe''
         then jobj J [(''subscriptionId'', jstr J (''sub-'' @ unwrap_or (as_str J (index J params ''threadId'')) []))]
         else if m = ''thread/unsubscribe'' then jobj J [(''status'', jstr J ''unsubscribed'')]
         else if m = ''turn/interrupt'' then jobj J []
         else if m = ''turn/start'' then jobj J [(''turn'', jobj J [(''id'', jstr J ''mock-turn'')])]
         else if m = ''turn/steer'' then jobj J [(''turnId'', index J params ''expectedTurnId'')]
         else jobj J [])"

definition handle_request :: "'v mock_api \<Rightarrow> 'v \<Rightarrow> 'v MockServer \<Rightarrow> 'v option \<times> 'v MockServer" where
  "handle_request M v s =
     (let J = mock_json M
      in case (get J v ''id'', get_str J v ''method'') of
           (Some i, Some m) \<Rightarrow>
             (let params = unwrap_or (get J v ''params'') (jnull J)
              in if m = ''thread/resume'' \<and> resume_failures_remaining s > 0
                 then (Some (jobj J [(''jsonrpc'', jstr J ''2.0''), (''id'', i),
                         (''error'', jobj J [(''code'', no_rollout_code M), (''message'', jstr J ''no rollout found'')])]),
                       s\<lparr>resume_failures_remaining := resume_failures_remaining s - 1\<rparr>)
                 else (Some (jobj J [(''jsonrpc'', jstr J ''2.0''), (''id'', i),
                         (''result'', method_result M s m params)]), s))
         | _ \<Rightarrow> (None, s))"

section \<open>Serving a connection\<close>

text \<open>
  A connection: how much of the broadcast it has heard, the messages it has sent, and where its
  loop stands: at the top, where a half-open server only sleeps, in the \<open>select!\<close>, or ended.
\<close>

datatype serve_pc = ServeTop | ServeSelect | ServeEnded

record MockConnection =
  heard :: nat
  mock_sent :: "ws_message list"
  serve_at :: serve_pc

definition accept_connection :: "string \<Rightarrow> 'v MockServer \<Rightarrow> MockConnection" where
  "accept_connection path s =
     \<lparr>heard = length (outgoing s), mock_sent = [],
      serve_at = (if path \<noteq> ''/rpc'' \<or> \<not> accepting s then ServeEnded else ServeTop)\<rparr>"

text \<open>\<open>socket.send\<close>; a failure ends the connection.\<close>

definition mock_send :: "bool \<Rightarrow> ws_message \<Rightarrow> MockConnection \<Rightarrow> MockConnection" where
  "mock_send fails w c = (if fails then c\<lparr>serve_at := ServeEnded\<rparr> else c\<lparr>mock_sent := mock_sent c @ [w]\<rparr>)"

definition ended :: "MockConnection \<Rightarrow> bool" where
  "ended c \<longleftrightarrow> serve_at c = ServeEnded"

definition to_top :: "MockConnection \<Rightarrow> MockConnection" where
  "to_top c = (if ended c then c else c\<lparr>serve_at := ServeTop\<rparr>)"

text \<open>The message is recorded, before a disconnection on its method or anything else.\<close>

definition note_received :: "'v mock_api \<Rightarrow> 'v \<Rightarrow> 'v MockServer \<Rightarrow> 'v MockServer" where
  "note_received M v s =
     s\<lparr>responses_to_server_requests := responses_to_server_requests s +
         (if get (mock_json M) v ''method'' = None \<and> get (mock_json M) v ''id'' \<noteq> None then 1 else 0),
       mock_received := mock_received s @ [v]\<rparr>"

definition interrupted_event :: "'v mock_api \<Rightarrow> 'v \<Rightarrow> 'v" where
  "interrupted_event M v =
     (let J = mock_json M; params = unwrap_or (get J v ''params'') (jnull J)
      in jobj J [(''jsonrpc'', jstr J ''2.0''), (''method'', jstr J ''turn/completed''),
           (''params'', jobj J [(''threadId'', index J params ''threadId''),
              (''turn'', jobj J [(''id'', index J params ''turnId''), (''status'', jstr J ''interrupted'')])])])"

definition serve_value ::
    "'v mock_api \<Rightarrow> bool \<Rightarrow> bool \<Rightarrow> 'v \<Rightarrow> 'v MockServer \<times> MockConnection \<Rightarrow> 'v MockServer \<times> MockConnection" where
  "serve_value M event_fails response_fails v = (\<lambda>(s, c).
     (let J = mock_json M; s1 = note_received M v s
      in if (case fault s1 of DisconnectOnMethod target \<Rightarrow> value_is_str J (index J v ''method'') target | _ \<Rightarrow> False)
         then (s1, c\<lparr>serve_at := ServeEnded\<rparr>)
         else (let c1 = (if fault s1 = InterruptCompletionBeforeResponse \<and>
                            value_is_str J (index J v ''method'') ''turn/interrupt''
                         then mock_send event_fails (TextMessage (to_text J (interrupted_event M v))) c else c)
               in if ended c1 then (s1, c1)
                  else (case handle_request M v s1 of
                          (None, s2) \<Rightarrow> (s2, to_top c1)
                        | (Some response, s2) \<Rightarrow>
                            (s2, to_top (mock_send response_fails (TextMessage (to_text J response)) c1))))))"

text \<open>
  The turns of the loop: its top, a message of the socket (with whether the sends it may cause
  fail), the next broadcast value, or a lag of the broadcast receiver.
\<close>

datatype serve_input =
    ServeLoop
  | ServeSocket bool bool "(string + ws_message) option"
  | ServeBroadcast bool
  | ServeLagged nat

definition serve_message ::
    "'v mock_api \<Rightarrow> 'v codec \<Rightarrow> bool \<Rightarrow> bool \<Rightarrow> ws_message \<Rightarrow> 'v MockServer \<times> MockConnection \<Rightarrow>
     'v MockServer \<times> MockConnection" where
  "serve_message M C event_fails response_fails w = (\<lambda>(s, c).
     (if fault s = HalfOpen then (s, to_top c)
      else case w of
          Ping \<Rightarrow> (s, to_top (mock_send response_fails OtherMessage c))
        | TextMessage t \<Rightarrow>
            (case text_json C t of
               Inl e \<Rightarrow> (s, c\<lparr>serve_at := ServeEnded\<rparr>)
             | Inr v \<Rightarrow> serve_value M event_fails response_fails v (s, c))
        | BinaryMessage b \<Rightarrow>
            (case bytes_json C b of
               Inl e \<Rightarrow> (s, c\<lparr>serve_at := ServeEnded\<rparr>)
             | Inr v \<Rightarrow> serve_value M event_fails response_fails v (s, c))
        | CloseMessage \<Rightarrow> (s, c\<lparr>serve_at := ServeEnded\<rparr>)
        | OtherMessage \<Rightarrow> (s, to_top c)))"

definition serve_step ::
    "'v mock_api \<Rightarrow> 'v codec \<Rightarrow> serve_input \<Rightarrow> 'v MockServer \<times> MockConnection \<Rightarrow> 'v MockServer \<times> MockConnection" where
  "serve_step M C x = (\<lambda>(s, c).
     (case (serve_at c, x) of
        (ServeTop, ServeLoop) \<Rightarrow> (s, if fault s = HalfOpen then c else c\<lparr>serve_at := ServeSelect\<rparr>)
      | (ServeSelect, ServeSocket event_fails response_fails m) \<Rightarrow>
          (case m of
             None \<Rightarrow> (s, c\<lparr>serve_at := ServeEnded\<rparr>)
           | Some (Inl e) \<Rightarrow> (s, c\<lparr>serve_at := ServeEnded\<rparr>)
           | Some (Inr w) \<Rightarrow> serve_message M C event_fails response_fails w (s, c))
      | (ServeSelect, ServeBroadcast fails) \<Rightarrow>
          (if heard c < length (outgoing s)
           then (let v = outgoing s ! heard c; c1 = c\<lparr>heard := Suc (heard c)\<rparr>
                 in if fault s = HalfOpen \<or> v = jnull (mock_json M) then (s, to_top c1)
                    else (s, to_top (mock_send fails (TextMessage (to_text (mock_json M) v)) c1)))
           else (s, c))
      | (ServeSelect, ServeLagged n) \<Rightarrow>
          (s, if heard c + n \<le> length (outgoing s) then to_top (c\<lparr>heard := heard c + n\<rparr>) else c)
      | _ \<Rightarrow> (s, c)))"

section \<open>What its answers read back as\<close>

lemma mock_lawsD:
  assumes "mock_laws M"
  shows "json_laws (mock_json M)" "as_array (mock_json M) (jarr (mock_json M) vs) = Some vs"
    "as_str (mock_json M) (jnull (mock_json M)) = None"
  using assms by (simp_all add: mock_laws_def)

lemma mock_values:
  assumes "mock_laws M" "finite (dom m)"
  shows "\<exists>ks. distinct ks \<and> set ks = dom m \<and> map_values M m = map (\<lambda>k. the (m k)) ks"
  using assms by (auto simp: mock_laws_def)

text \<open>Threads are stored under their own ids.\<close>

definition keyed :: "'v MockServer \<Rightarrow> bool" where
  "keyed s \<longleftrightarrow> finite (dom (mock_threads s)) \<and> (\<forall>k t. mock_threads s k = Some t \<longrightarrow> mt_id t = k)"

lemma keyed_start: "keyed mock_start"
  by (simp add: keyed_def mock_start_def)

lemma keyed_add_thread: "keyed s \<Longrightarrow> keyed (add_thread t s)"
  by (simp add: keyed_def add_thread_def)

definition listed :: "'v mock_api \<Rightarrow> 'v MockServer \<Rightarrow> MockThread list" where
  "listed M s = newest_first (map_values M (mock_threads s))"

lemma listed_threads:
  assumes "mock_laws M" "keyed s"
  shows "set (listed M s) = ran (mock_threads s)" "distinct (map mt_id (listed M s))"
    "t \<in> set (listed M s) \<Longrightarrow> mock_threads s (mt_id t) = Some t"
proof -
  obtain ks where ks: "distinct ks" "set ks = dom (mock_threads s)"
    "map_values M (mock_threads s) = map (\<lambda>k. the (mock_threads s k)) ks"
    using mock_values [OF assms(1)] assms(2) unfolding keyed_def by blast
  then have "map mt_id (map_values M (mock_threads s)) = ks"
    using assms(2) by (auto simp: keyed_def domIff intro!: map_idI)
  with ks(1) have "distinct (map mt_id (map_values M (mock_threads s)))" by simp
  then show "distinct (map mt_id (listed M s))"
    unfolding listed_def newest_first_def distinct_map by simp
  show members: "set (listed M s) = ran (mock_threads s)"
    using ks by (force simp: listed_def newest_first_def ran_def)
  show "t \<in> set (listed M s) \<Longrightarrow> mock_threads s (mt_id t) = Some t"
    using assms(2) unfolding members by (auto simp: ran_def keyed_def)
qed

text \<open>How a thread of the server reads: when the ingestor takes it for active.\<close>

definition shows_active :: "MockThread \<Rightarrow> bool" where
  "shows_active t \<longleftrightarrow> mt_status t = ''active'' \<or>
     (mt_turn_id t \<noteq> None \<and> mt_status t \<notin> {''completed'', ''failed'', ''interrupted''})"

lemma mock_thread_fields:
  assumes "mock_laws M" "J = mock_json M"
  shows "get_str J (mock_thread_json J t) ''id'' = Some (mt_id t)"
    "get J (mock_thread_json J t) ''updatedAt'' = Some (jnum J (mt_updated_at t))"
    "Option.bind (get_path J (mock_thread_json J t) ''status'' ''type'') (as_str J) = Some (mt_status t)"
    "get J (mock_thread_json J t) ''turns'' = Some (case mt_turn_id t of
       Some i \<Rightarrow> jarr J [jobj J [(''id'', jstr J i), (''status'', jstr J (mt_status t))]] | None \<Rightarrow> jarr J [])"
  using mock_lawsD [OF assms(1)] unfolding assms(2)
  by (simp_all add: mock_thread_json_def get_str_def get_path_def json_get_obj Let_def)

lemma mock_thread_active:
  assumes "mock_laws M" "J = mock_json M"
  shows "thread_is_active J (mock_thread_json J t) = shows_active t"
  using mock_lawsD [OF assms(1)] unfolding assms(2)
  by (auto simp: thread_is_active_def mock_thread_fields [OF assms(1) refl] shows_active_def turn_is_finished_def
      get_str_def json_get_obj is_some_and_def split: option.splits)

section \<open>The answer to a request\<close>

definition refused :: "'v mock_api \<Rightarrow> 'v" where
  "refused M = jobj (mock_json M)
     [(''code'', no_rollout_code M), (''message'', jstr (mock_json M) ''no rollout found'')]"

lemma handle_built_request:
  assumes "mock_laws M"
  shows "handle_request M (request (mock_json M) i m p) s =
    (let J = mock_json M
     in if m = ''thread/resume'' \<and> resume_failures_remaining s > 0
        then (Some (jobj J [(''jsonrpc'', jstr J ''2.0''), (''id'', rpc_id_value J i), (''error'', refused M)]),
              s\<lparr>resume_failures_remaining := resume_failures_remaining s - 1\<rparr>)
        else (Some (jobj J [(''jsonrpc'', jstr J ''2.0''), (''id'', rpc_id_value J i),
                (''result'', method_result M s m p)]), s))"
  using mock_lawsD(1) [OF assms]
  by (simp add: handle_request_def request_def get_str_def json_get_obj refused_def Let_def)

text \<open>What the client makes of the answer, whatever the id it chose.\<close>

definition mock_answer :: "'v mock_api \<Rightarrow> 'v MockServer \<Rightarrow> string \<times> 'v \<Rightarrow> 'v answer" where
  "mock_answer M s = (\<lambda>(m, p).
     (case fst (handle_request M (request (mock_json M) (Number 1) m p) s) of
        None \<Rightarrow> Inl TransportClosed
      | Some reply_frame \<Rightarrow>
          (case parse (mock_json M) reply_frame of
             Inr (Response i result error raw) \<Rightarrow> response_answer (mock_json M) m result error
           | _ \<Rightarrow> Inl TransportClosed)))"

lemma parse_answer:
  assumes "json_laws J" "distinct (map fst ((''id'', rpc_id_value J i) # kvs))" "map_of kvs ''method'' = None"
    "reply_frame = jobj J ((''jsonrpc'', jstr J ''2.0'') # (''id'', rpc_id_value J i) # kvs)" "''jsonrpc'' \<notin> fst ` set kvs"
  shows "parse J reply_frame = Inr (Response i (map_of kvs ''result'') (map_of kvs ''error'') reply_frame)"
  using assms by (simp add: parse_def get_str_def json_get_obj rpc_id_roundtrip Let_def)

lemma mock_answer_ok:
  assumes "mock_laws M" "resume_failures_remaining s = 0 \<or> m \<noteq> ''thread/resume''"
  shows "mock_answer M s (m, p) = Inr (method_result M s m p)"
proof -
  let ?J = "mock_json M"
  have "parse ?J (jobj ?J [(''jsonrpc'', jstr ?J ''2.0''), (''id'', rpc_id_value ?J (Number 1)), (''result'', r)]) =
      Inr (Response (Number 1) (Some r) None
        (jobj ?J [(''jsonrpc'', jstr ?J ''2.0''), (''id'', rpc_id_value ?J (Number 1)), (''result'', r)]))" for r
    by (subst parse_answer [OF mock_lawsD(1) [OF assms(1)], where kvs = "[(''result'', r)]"]) simp_all
  with assms show ?thesis
    by (auto simp: mock_answer_def handle_built_request Let_def response_answer_def)
qed

text \<open>Reading a thread the server knows.\<close>

lemma mock_reads:
  assumes "mock_laws M" "keyed s" "mock_threads s (mt_id t) = Some t"
  shows "get (mock_json M) (method_result M s ''thread/read'' (read_params (mock_json M) (mt_id t))) ''thread'' =
    Some (mock_thread_json (mock_json M) t)"
  using mock_lawsD(1) [OF assms(1)] assms(3)
  by (simp add: method_result_def read_params_def get_str_def json_get_obj Let_def)

section \<open>The ingestor against the server\<close>

lemma discover_run_store:
  assumes "json_laws (api P)" "iter_ok (iteration P)" "core_store_ok P rs g"
    and "discover_run fuel P cfg t source clk el dpc answers g = Some (outcome, rest, g')"
  shows "core_store_ok P rs g'"
  using assms(3,4)
proof (induction fuel arbitrary: dpc answers g)
  case (Suc fuel)
  show ?case
  proof (cases "\<exists>o'. dpc = Done o'")
    case True
    with Suc.prems show ?thesis by auto
  next
    case False
    with Suc.prems(2) obtain ans dpc' g1 as where
      "discover_step P cfg t source ans clk el dpc g = Some (dpc', g1)"
      "discover_run fuel P cfg t source clk el dpc' as g1 = Some (outcome, rest, g')"
      by (cases dpc) (auto simp: Let_def Option.bind_eq_Some_conv simp del: discover_step.simps split: prod.splits)
    with Suc.IH Suc.prems(1) discover_step_store [OF assms(1,2)] show ?thesis by blast
  qed
qed simp

text \<open>A discovery makes the same of its answers whatever follows them.\<close>

lemma discover_run_prefix:
  assumes "discover_run fuel P cfg t source clk el dpc answers g = Some (outcome, rest, g')"
  shows "\<exists>used. answers = used @ rest \<and>
    (\<forall>more. discover_run fuel P cfg t source clk el dpc (used @ more) g = Some (outcome, more, g'))"
  using assms
proof (induction fuel arbitrary: dpc answers g)
  case (Suc fuel)
  show ?case
  proof (cases "\<exists>o'. dpc = Done o'")
    case True
    with Suc.prems show ?thesis by (intro exI [of _ "[]"]) auto
  next
    case False
    define step where "step = (\<lambda>ans. discover_step P cfg t source ans clk el dpc g)"
    define onward where "onward = (\<lambda>as (dpc', g1). discover_run fuel P cfg t source clk el dpc' as g1)"
    have run: "discover_run (Suc fuel) P cfg t source clk el dpc as g =
        (if awaits_answer dpc
         then (case as of [] \<Rightarrow> Option.bind (step None) (onward []) | x # xs \<Rightarrow> Option.bind (step (Some x)) (onward xs))
         else Option.bind (step None) (onward as))" for as
      using False by (cases dpc; cases as) (simp_all add: step_def onward_def Let_def del: discover_step.simps)
    have IH: "onward as st = Some (outcome, rest, g') \<Longrightarrow>
        \<exists>used. as = used @ rest \<and> (\<forall>more. onward (used @ more) st = Some (outcome, more, g'))" for as st
      using Suc.IH by (cases st) (simp add: onward_def)
    show ?thesis
    proof (cases "awaits_answer dpc")
      case False
      with Suc.prems obtain st where "step None = Some st" "onward answers st = Some (outcome, rest, g')"
        unfolding run by (auto simp: Option.bind_eq_Some_conv)
      with IH False show ?thesis unfolding run by fastforce
    next
      case True
      have "step None = None" using True by (cases dpc) (simp_all add: step_def)
      with True Suc.prems obtain x xs st where st: "answers = x # xs" "step (Some x) = Some st"
        "onward xs st = Some (outcome, rest, g')"
        unfolding run by (auto simp: Option.bind_eq_Some_conv split: list.splits)
      from IH [OF st(3)] obtain used where "xs = used @ rest" "\<forall>more. onward (used @ more) st = Some (outcome, more, g')"
        by blast
      with True st(1,2) show ?thesis unfolding run by (intro exI [of _ "x # used"]) simp
    qed
  qed
qed simp

text \<open>A discovery whose resume is accepted.\<close>

lemma run_accepted:
  "discover_run (Suc fuel) P cfg t source clk el (Resuming n) (Inr a # as) g =
     discover_run fuel P cfg t source clk el FinishSubscription as g"
  by (simp add: resume_answered_def)

lemma discover_accepted:
  assumes "json_laws (api P)" "iter_ok (iteration P)" "core_store_ok P rs g"
    and "\<not> is_some_and (states g t) managed" "retained_count g < subscription_cap cfg"
  shows "\<exists>g'. (\<forall>rest. discover P cfg t source clk el (Inr a # b # rest) g = Some (O_Subscribed, rest, g')) \<and>
    states g' = (states g)(t \<mapsto> Subscribed) \<and> core_store_ok P rs g' \<and>
    requests g' = requests g @ [(''thread/resume'', resume_params (api P) t), (''thread/read'', read_params (api P) t)]"
proof -
  let ?g1 = "call ''thread/resume'' (resume_params (api P) t)
    ((set_state t (Subscribing source 1) g)\<lparr>ti_reducer := begin_subscription t (ti_reducer g)\<rparr>)"
  let ?fuel = "3 * resume_retry_limit cfg"
  have fuel: "discover_fuel cfg = Suc (Suc (Suc (9 + ?fuel)))" by (simp add: discover_fuel_def)
  have ready: "store_ready P ?g1"
    using assms(1-3) by (auto simp: store_ready_def core_store_ok_def store_sound_def)
  from run_finishing [OF ready, of ?fuel cfg t source clk el b "[]"] obtain g' where
    g': "discover_run (9 + ?fuel) P cfg t source clk el FinishSubscription [b] ?g1 = Some (O_Subscribed, [], g')"
      "states g' = (states ?g1)(t \<mapsto> Subscribed)"
      "requests g' = requests ?g1 @ [(''thread/read'', read_params (api P) t)]" by blast
  from discover_run_prefix [OF g'(1)] have
    "discover_run (9 + ?fuel) P cfg t source clk el FinishSubscription (b # rest) ?g1 = Some (O_Subscribed, rest, g')" for rest
    by auto
  then have run: "discover P cfg t source clk el (Inr a # b # rest) g = Some (O_Subscribed, rest, g')" for rest
    unfolding discover_def fuel run_claimed [OF assms(4,5)] run_accepted .
  from run [of "[]"] have "core_store_ok P rs g'"
    unfolding discover_def by (rule discover_run_store [OF assms(1-3)])
  with run g' show ?thesis by auto
qed

text \<open>The answers of the server, in the order of the requests that were made.\<close>

definition answers_of :: "'v mock_api \<Rightarrow> 'v MockServer \<Rightarrow> (string \<times> 'v) list \<Rightarrow> 'v answer list" where
  "answers_of M s rqs = map (mock_answer M s) rqs"

text \<open>The listing: one page, as the server sends no cursor.\<close>

lemma scan_mock_page:
  assumes "mock_laws M" "length cands < reconcile_candidate_limit cfg"
  shows "\<exists>newest'. scan_page (mock_json M) cfg 0 (map (mock_thread_json (mock_json M)) ts) newest cands =
    (newest', False, cands @ map mt_id (take (reconcile_candidate_limit cfg - length cands) ts))"
  using assms(2)
proof (induction ts arbitrary: newest cands)
  case (Cons t ts)
  let ?n = "reconcile_candidate_limit cfg"
  show ?case
  proof (cases "Suc (length cands) < ?n")
    case True
    then have "?n - length cands = Suc (?n - length (cands @ [mt_id t]))" by simp
    with True Cons.IH [of "cands @ [mt_id t]"] show ?thesis
      by (simp add: mock_thread_fields [OF assms(1) refl] Let_def)
  next
    case False
    with Cons.prems have "?n - length cands = Suc 0" by simp
    with False show ?thesis by (simp add: mock_thread_fields [OF assms(1) refl] Let_def)
  qed
qed simp

lemma mock_listing:
  assumes "mock_laws M" "api P = mock_json M" "0 < reconcile_page_bound cfg" "0 < reconcile_candidate_limit cfg"
    and "s' = map mt_id (take (reconcile_candidate_limit cfg) (listed M s))"
    and "rq = (''thread/list'', list_params (api P) cfg None)"
  shows "\<exists>newest. \<forall>rest. list_pages P cfg 0 (reconcile_page_bound cfg) None 0 [] (mock_answer M s rq # rest) g =
    Some (Inr (newest, s'), rest, call (fst rq) (snd rq) g)"
proof -
  let ?J = "mock_json M"
  let ?data = "map (mock_thread_json ?J) (listed M s)"
  from scan_mock_page [OF assms(1), of "[]" cfg "listed M s" 0] assms(4,5) obtain newest where
    scan: "scan_page ?J cfg 0 ?data 0 [] = (newest, False, s')" by auto
  have answer: "mock_answer M s rq = Inr (jobj ?J [(''data'', jarr ?J ?data), (''nextCursor'', jnull ?J)])"
    unfolding assms(6) by (simp add: mock_answer_ok [OF assms(1)] method_result_def listed_def Let_def)
  obtain n where n: "reconcile_page_bound cfg = Suc n" using assms(3) by (cases "reconcile_page_bound cfg") auto
  show ?thesis
    using assms(2,4) scan mock_lawsD [OF assms(1)] unfolding answer n
    by (simp add: json_get_obj get_str_def assms(6) Let_def)
qed

text \<open>The reads and discoveries of the candidates.\<close>

definition with_subscribed :: "MockThread list \<Rightarrow> (string \<rightharpoonup> SubscriptionState) \<Rightarrow> string \<rightharpoonup> SubscriptionState" where
  "with_subscribed ts m = (\<lambda>t. if t \<in> mt_id ` set (filter shows_active ts) then Some Subscribed else m t)"

lemma retained_count_Suc:
  assumes "states g' = (states g)(t \<mapsto> x)" "finite (dom (states g))"
  shows "retained_count g' \<le> Suc (retained_count g)"
proof -
  let ?A = "{u. is_some_and (states g u) managed}"
  have "?A \<subseteq> dom (states g)" by (auto simp: is_some_and_def split: option.splits)
  then have fin: "finite ?A" using assms(2) finite_subset by blast
  have "{u. is_some_and (states g' u) managed} \<subseteq> insert t ?A" by (auto simp: assms(1))
  then have "card {u. is_some_and (states g' u) managed} \<le> card (insert t ?A)" using fin by (intro card_mono) simp_all
  also have "\<dots> \<le> Suc (card ?A)" using fin by (simp add: card_insert_if)
  finally show ?thesis by (simp add: retained_count_def)
qed

lemma reads_candidates:
  assumes laws: "mock_laws M" "api P = mock_json M" "iter_ok (iteration P)" "keyed s" "resume_failures_remaining s = 0"
    and "\<forall>t \<in> set ts. mock_threads s (mt_id t) = Some t" "distinct (map mt_id ts)"
    and "core_store_ok P rs g" "finite (dom (states g))"
    and "\<forall>t \<in> set (filter shows_active ts). \<not> is_some_and (states g (mt_id t)) managed"
    and "retained_count g + length (filter shows_active ts) \<le> subscription_cap cfg"
  shows "\<exists>rq g'. read_candidates P cfg clk el (map mt_id ts) outs (answers_of M s rq @ rest) g =
      Some (outs @ map (\<lambda>t. (mt_id t, O_Subscribed)) (filter shows_active ts), rest, g') \<and>
    requests g' = requests g @ rq \<and> states g' = with_subscribed ts (states g)"
  using assms(6-)
proof (induction ts arbitrary: g outs)
  case Nil
  then show ?case by (intro exI [of _ "[]"] exI [of _ g]) (simp add: answers_of_def with_subscribed_def)
next
  case (Cons t ts)
  let ?J = "mock_json M"
  let ?v = "mock_thread_json ?J t"
  let ?read = "(''thread/read'', read_params (api P) (mt_id t))"
  have J: "json_laws (api P)" using mock_lawsD(1) [OF laws(1)] laws(2) by simp
  have v: "mock_answer M s ?read = Inr (method_result M s ''thread/read'' (read_params ?J (mt_id t)))"
    "get (api P) (method_result M s ''thread/read'' (read_params ?J (mt_id t))) ''thread'' = Some ?v"
    using mock_answer_ok [OF laws(1)] mock_reads [OF laws(1,4)] Cons.prems(1) laws(2) by auto
  show ?case
  proof (cases "shows_active t")
    case False
    with Cons.prems Cons.IH [of "call (fst ?read) (snd ?read) g" outs] obtain rq g' where
      "read_candidates P cfg clk el (map mt_id ts) outs (answers_of M s rq @ rest) (call (fst ?read) (snd ?read) g) =
        Some (outs @ map (\<lambda>t. (mt_id t, O_Subscribed)) (filter shows_active ts), rest, g')"
      "requests g' = requests g @ ?read # rq" "states g' = with_subscribed ts (states g)"
      by (auto simp: core_store_ok_def retained_count_def)
    with False v laws(2) mock_thread_active [OF laws(1) refl, of t] show ?thesis
      by (intro exI [of _ "?read # rq"] exI [of _ g'])
         (simp add: answers_of_def with_subscribed_def is_some_and_def Let_def)
  next
    case True
    let ?g2 = "(call (fst ?read) (snd ?read) g)\<lparr>ti_reducer := reconcile_thread (api P) ?v (ti_reducer g)\<rparr>"
    let ?resume = "(''thread/resume'', resume_params (api P) (mt_id t))"
    have resumed: "mock_answer M s ?resume = Inr (method_result M s ''thread/resume'' (resume_params (api P) (mt_id t)))"
      by (rule mock_answer_ok [OF laws(1)]) (simp add: laws(5))
    have pre: "core_store_ok P rs ?g2" "\<not> is_some_and (states ?g2 (mt_id t)) managed" "retained_count ?g2 < subscription_cap cfg"
      using Cons.prems True by (auto simp: core_store_ok_def retained_count_def)
    obtain g3 where g3: "discover P cfg (mt_id t) Reconciliation clk el
          (mock_answer M s ?resume # mock_answer M s ?read # as) ?g2 = Some (O_Subscribed, as, g3)"
        "states g3 = (states g)(mt_id t \<mapsto> Subscribed)" "core_store_ok P rs g3"
        "requests g3 = requests g @ [?read, ?resume, ?read]" for as
      using discover_accepted [OF J laws(3) pre, of Reconciliation clk el
          "method_result M s ''thread/resume'' (resume_params (api P) (mt_id t))"
          "Inr (method_result M s ''thread/read'' (read_params ?J (mt_id t)))"]
      unfolding resumed v(1) by auto
    have "retained_count g3 \<le> Suc (retained_count g)"
      by (rule retained_count_Suc [OF g3(2) Cons.prems(4)])
    moreover have "finite (dom (states g3))" using Cons.prems(4) by (simp add: g3(2))
    moreover have "\<forall>u \<in> set (filter shows_active ts). \<not> is_some_and (states g3 (mt_id u)) managed"
    proof
      fix u
      assume u: "u \<in> set (filter shows_active ts)"
      then have "mt_id u \<noteq> mt_id t" using Cons.prems(2) by (metis filter_is_subset imageI list.set_map list.simps(9) distinct.simps(2) subsetD)
      with u Cons.prems(5) show "\<not> is_some_and (states g3 (mt_id u)) managed" by (simp add: g3(2))
    qed
    ultimately obtain rq g' where
      "read_candidates P cfg clk el (map mt_id ts) (outs @ [(mt_id t, O_Subscribed)]) (answers_of M s rq @ rest) g3 =
        Some (outs @ map (\<lambda>t. (mt_id t, O_Subscribed)) (filter shows_active (t # ts)), rest, g')"
      "requests g' = requests g3 @ rq" "states g' = with_subscribed ts (states g3)"
      using Cons.prems True g3(3) Cons.IH [of g3 "outs @ [(mt_id t, O_Subscribed)]"] by auto
    with True g3 v laws(2) mock_thread_active [OF laws(1) refl, of t] show ?thesis
      by (intro exI [of _ "[?read, ?resume, ?read] @ rq"] exI [of _ g'])
         (auto simp: answers_of_def with_subscribed_def is_some_and_def Let_def fun_eq_iff)
  qed
qed

text \<open>A result on the wire; and that the reader of JSON reads a printed value back.\<close>

definition result_frame :: "'v json \<Rightarrow> RpcId \<Rightarrow> 'v \<Rightarrow> 'v" where
  "result_frame J i v = jobj J [(''jsonrpc'', jstr J ''2.0''), (''id'', rpc_id_value J i), (''result'', v)]"

definition reads_back :: "'v json \<Rightarrow> 'v codec \<Rightarrow> 'v \<Rightarrow> bool" where
  "reads_back J C v \<longleftrightarrow> text_json C (to_text J v) = Inr v"

section \<open>A server to evaluate\<close>

definition test_mock_api :: "jv mock_api" where
  "test_mock_api = \<lparr>mock_json = jv_api, map_values = (\<lambda>m. map (\<lambda>k. the (m k)) (sorted_list_of_set (dom m))),
     no_rollout_code = JNum 0\<rparr>"

lemma test_mock_api_simps [simp]: "mock_json test_mock_api = jv_api"
  by (simp add: test_mock_api_def)

lemma test_mock_laws [simp]: "mock_laws test_mock_api"
  unfolding mock_laws_def
  by (auto simp: test_mock_api_def intro!: exI [of _ "sorted_list_of_set (dom m)" for m :: "string \<rightharpoonup> MockThread"])

definition busy_thread :: MockThread where
  "busy_thread = \<lparr>mt_id = ''t'', mt_status = ''active'', mt_turn_id = None, mt_ephemeral = False, mt_updated_at = 7\<rparr>"

definition busy_server :: "jv MockServer" where
  "busy_server = add_thread busy_thread mock_start"

lemma listed_busy: "listed test_mock_api busy_server = [busy_thread]"
  by (simp add: listed_def newest_first_def test_mock_api_def busy_server_def add_thread_def mock_start_def busy_thread_def)

definition fresh_ingestor :: "jv ThreadIngestor" where
  "fresh_ingestor = with_store new_store (new_ingestor default_ingest_config (empty_reducer 8))"

lemma fresh_ingestor_ok:
  "core_store_ok test_parts [] fresh_ingestor" "states fresh_ingestor = Map.empty" "watermark fresh_ingestor = 0"
  "requests fresh_ingestor = []"
proof -
  have "store_sound test_parts [] new_store"
    unfolding store_sound_def by (intro conjI exI [of _ "[]"]) simp_all
  then show "core_store_ok test_parts [] fresh_ingestor"
    by (simp add: core_store_ok_def fresh_ingestor_def with_store_def)
qed (simp_all add: fresh_ingestor_def with_store_def new_ingestor_def)

definition asking_link :: "jv Link" where
  "asking_link = (spawn test_config)\<lparr>pc := loop_pc.Driving, queue := [C_Request (Number 1) ''turn/interrupt'' JNull 0]\<rparr>"

lemma asking_link_fields:
  "pc asking_link = loop_pc.Driving" "queue asking_link = [C_Request (Number 1) ''turn/interrupt'' JNull 0]"
  "pending asking_link = []"
  by (simp_all add: asking_link_def spawn_def)

definition printed_codec :: "jv \<Rightarrow> jv \<Rightarrow> jv codec" where
  "printed_codec v w = \<lparr>text_json = (\<lambda>t. Inr (if t = jv_text v then v else w)), bytes_json = (\<lambda>_. Inl [])\<rparr>"

section \<open>Properties\<close>

text \<open>The server answers every request: to a request built by the client, whatever its id, method and
  parameters, it sends one reply, which parses as the response to that id; a resume while failures remain is
  refused and uses one up, anything else gets its result and changes nothing; and a notification gets none.\<close>

theorem mock_answers_every_request:
  assumes "mock_laws M" "J = mock_json M"
  shows "(\<exists>reply_frame s'. handle_request M (request J i m p) s = (Some reply_frame, s') \<and>
       (if m = ''thread/resume'' \<and> 0 < resume_failures_remaining s
        then s' = s\<lparr>resume_failures_remaining := resume_failures_remaining s - 1\<rparr> \<and>
          (\<exists>e. parse J reply_frame = Inr (Response i None (Some e) reply_frame) \<and>
               get_str J e ''message'' = Some ''no rollout found'')
        else s' = s \<and> parse J reply_frame = Inr (Response i (Some (method_result M s m p)) None reply_frame))) \<and>
    handle_request M (notification J m p) s = (None, s)"
proof -
  note laws = mock_lawsD(1) [OF assms(1), folded assms(2)]
  have result: "parse J (jobj J [(''jsonrpc'', jstr J ''2.0''), (''id'', rpc_id_value J i), (''result'', r)]) =
      Inr (Response i (Some r) None (jobj J [(''jsonrpc'', jstr J ''2.0''), (''id'', rpc_id_value J i), (''result'', r)]))" for r
    by (subst parse_answer [OF laws, where kvs = "[(''result'', r)]"]) simp_all
  have error: "parse J (jobj J [(''jsonrpc'', jstr J ''2.0''), (''id'', rpc_id_value J i), (''error'', r)]) =
      Inr (Response i None (Some r) (jobj J [(''jsonrpc'', jstr J ''2.0''), (''id'', rpc_id_value J i), (''error'', r)]))" for r
    by (subst parse_answer [OF laws, where kvs = "[(''error'', r)]"]) simp_all
  have "get_str J (refused M) ''message'' = Some ''no rollout found''"
    using laws by (simp add: refused_def assms(2) get_str_def json_get_obj)
  moreover have "handle_request M (notification J m p) s = (None, s)"
    using laws by (simp add: handle_request_def notification_def assms(2) json_get_obj Let_def)
  ultimately show ?thesis
    using handle_built_request [OF assms(1), folded assms(2), of i m p s] result error by (auto simp: Let_def)
qed

theorem mock_answers_every_request_witness:
  "\<exists>reply_frame. fst (handle_request test_mock_api (request jv_api (Number 4) ''thread/read'' JNull) busy_server) = Some reply_frame \<and>
     parse jv_api reply_frame = Inr (Response (Number 4)
       (Some (method_result test_mock_api busy_server ''thread/read'' JNull)) None reply_frame)"
  using mock_answers_every_request [of test_mock_api jv_api "Number 4" "''thread/read''" JNull busy_server] by auto

text \<open>C23. A reconciliation finds what is active: run against the server, the first reconciliation (the
  watermark is still 0), when no failure is left to inject, none of the active threads on its page is managed
  yet, and the cap has room for all of them, reads the newest threads of the listing, up to its limit, and subscribes exactly those
  that show as active, in the order of the listing; the answers it gets are those the server gives to the
  requests it makes, it needs no others, and no other subscription state changes.\<close>

theorem mock_reconciliation_subscribes:
  assumes "mock_laws M" "api P = mock_json M" "iter_ok (iteration P)" "keyed s" "resume_failures_remaining s = 0"
    and "0 < reconcile_page_bound cfg" "0 < reconcile_candidate_limit cfg"
    and "watermark g = 0" "core_store_ok P rs g" "finite (dom (states g))"
    and "page = take (reconcile_candidate_limit cfg) (listed M s)"
    and "\<forall>t \<in> set (filter shows_active page). \<not> is_some_and (states g (mt_id t)) managed"
    and "retained_count g + length (filter shows_active page) \<le> subscription_cap cfg"
  shows "\<exists>rq g'. reconcile P cfg clk el (answers_of M s rq) g =
      Some (Inr (map (\<lambda>t. (mt_id t, O_Subscribed)) (filter shows_active page)), [], g') \<and>
    requests g' = requests g @ rq \<and> states g' = with_subscribed page (states g)"
proof -
  let ?list = "(''thread/list'', list_params (api P) cfg None)"
  let ?g1 = "call (fst ?list) (snd ?list) g"
  from mock_listing [OF assms(1,2,6,7) refl refl, of s g] obtain newest where
    listing: "\<And>rest. list_pages P cfg 0 (reconcile_page_bound cfg) None 0 [] (mock_answer M s ?list # rest) g =
      Some (Inr (newest, map mt_id page), rest, ?g1)" unfolding assms(11) by blast
  have known: "\<forall>t \<in> set page. mock_threads s (mt_id t) = Some t"
    using listed_threads(3) [OF assms(1,4)] by (auto simp: assms(11) dest: in_set_takeD)
  have "distinct (map mt_id page)"
    using listed_threads(2) [OF assms(1,4)] by (simp add: assms(11) flip: take_map)
  with reads_candidates [OF assms(1-5) known, of rs "?g1\<lparr>watermark := newest\<rparr>" cfg clk el "[]" "[]"] assms(9-13)
  obtain rq g' where reads: "read_candidates P cfg clk el (map mt_id page) [] (answers_of M s rq) (?g1\<lparr>watermark := newest\<rparr>) =
      Some (map (\<lambda>t. (mt_id t, O_Subscribed)) (filter shows_active page), [], g')"
    "requests g' = requests ?g1 @ rq" "states g' = with_subscribed page (states g)"
    by (auto simp: core_store_ok_def retained_count_def)
  have "reconcile P cfg clk el (answers_of M s (?list # rq)) g =
      Some (Inr (map (\<lambda>t. (mt_id t, O_Subscribed)) (filter shows_active page)), [], g')"
    using listing reads(1) by (simp add: reconcile_def assms(8) answers_of_def Let_def)
  with reads(2,3) show ?thesis by (intro exI [of _ "?list # rq"] exI [of _ g']) simp
qed

theorem mock_reconciliation_subscribes_witness:
  "\<exists>rq g'. reconcile test_parts default_ingest_config 0 0 (answers_of test_mock_api busy_server rq) fresh_ingestor =
     Some (Inr [(''t'', O_Subscribed)], [], g') \<and> states g' ''t'' = Some Subscribed"
proof -
  have "keyed busy_server" by (simp add: busy_server_def keyed_add_thread keyed_start)
  moreover have "resume_failures_remaining busy_server = 0"
    by (simp add: busy_server_def add_thread_def mock_start_def)
  moreover have cfg: "0 < reconcile_page_bound default_ingest_config" "0 < subscription_cap default_ingest_config"
    "0 < reconcile_candidate_limit default_ingest_config" by (simp_all add: default_ingest_config_def)
  moreover from cfg(3) have "[busy_thread] = take (reconcile_candidate_limit default_ingest_config) (listed test_mock_api busy_server)"
    by (simp add: listed_busy)
  moreover have active: "filter shows_active [busy_thread] = [busy_thread]" by (simp add: shows_active_def busy_thread_def)
  moreover have "retained_count fresh_ingestor + length (filter shows_active [busy_thread]) \<le> subscription_cap default_ingest_config"
    using cfg(2) active by (simp add: retained_count_def fresh_ingestor_ok)
  ultimately have "\<exists>rq g'. reconcile test_parts default_ingest_config 0 0 (answers_of test_mock_api busy_server rq) fresh_ingestor =
       Some (Inr (map (\<lambda>t. (mt_id t, O_Subscribed)) (filter shows_active [busy_thread])), [], g') \<and>
     requests g' = requests fresh_ingestor @ rq \<and> states g' = with_subscribed [busy_thread] (states fresh_ingestor)"
    by (intro mock_reconciliation_subscribes [where rs = "[]"]) (simp_all add: fresh_ingestor_ok is_some_and_def)
  then show ?thesis unfolding active with_subscribed_def by (fastforce simp: busy_thread_def)
qed



end
