(* ===== verification/Fates.thy ===== *)
theory Fates
  imports Control Transport
begin

text \<open>
  What becomes of one submitted request on the transport's link (\<open>src/transport/src/lib.rs\<close>):
  queued and not written, pending and written once, or answered, by an answer that tells how many
  frames it left. A request has one such fate after any steps of the handle and the loop.
\<close>

section \<open>The fate of a request\<close>

text \<open>The frames on the socket that bear an id.\<close>

definition frames_of :: "'v json \<Rightarrow> 'v Link \<Rightarrow> RpcId \<Rightarrow> 'v list" where
  "frames_of J s i = filter (\<lambda>f. frame_id J f = Some (rpc_id_value J i)) (written s)"

text \<open>The frames a reply says were written; and the answers a channel carries.\<close>

fun leaves :: "'v answer \<Rightarrow> 'v \<Rightarrow> 'v list" where
  "leaves (Inl (NotWritten d)) f = []"
| "leaves _ f = [f]"

fun carried :: "'v answer \<Rightarrow> bool" where
  "carried (Inl (TimedOut m)) = False"
| "carried (Inl TransportClosed) = False"
| "carried _ = True"

definition queued :: "'v json \<Rightarrow> 'v Link \<Rightarrow> nat \<Rightarrow> RpcId \<Rightarrow> string \<Rightarrow> 'v \<Rightarrow> bool" where
  "queued J s ch i m p \<longleftrightarrow> C_Request i m p ch \<in> set (queue s) \<and> frames_of J s i = []"

definition sent_off :: "'v json \<Rightarrow> 'v Link \<Rightarrow> nat \<Rightarrow> RpcId \<Rightarrow> string \<Rightarrow> 'v \<Rightarrow> bool" where
  "sent_off J s ch i m p \<longleftrightarrow>
     (i, \<lparr>p_method = m, p_response = ch\<rparr>) \<in> set (pending s) \<and> frames_of J s i = [request J i m p]"

definition settled :: "'v json \<Rightarrow> 'v Link \<Rightarrow> nat \<Rightarrow> RpcId \<Rightarrow> string \<Rightarrow> 'v \<Rightarrow> 'v answer \<Rightarrow> bool" where
  "settled J s ch i m p a \<longleftrightarrow>
     (ch, a) \<in> set (replies s) \<and> carried a \<and> i \<notin> set (open_ids s) \<and> frames_of J s i = leaves a (request J i m p)"

definition fate :: "'v json \<Rightarrow> 'v Link \<Rightarrow> nat \<Rightarrow> RpcId \<Rightarrow> string \<Rightarrow> 'v \<Rightarrow> bool" where
  "fate J s ch i m p \<longleftrightarrow> (\<exists>n. i = Number n \<and> 0 < n \<and> n < next_id s) \<and>
     (queued J s ch i m p \<or> sent_off J s ch i m p \<or> (\<exists>a. settled J s ch i m p a))"

lemma leaves_cases: "leaves a f = [] \<or> leaves a f = [f]"
  by (cases "(a, f)" rule: leaves.cases) auto

lemma frames_of_cong: "written s' = written s \<Longrightarrow> frames_of J s' i = frames_of J s i"
  by (simp add: frames_of_def)

lemma frames_of_more:
  "written s' = written s @ [f] \<Longrightarrow> frames_of J s' i =
     frames_of J s i @ (if frame_id J f = Some (rpc_id_value J i) then [f] else [])"
  by (simp add: frames_of_def)

lemma fate_cong:
  assumes "fate J s ch i m p" "queue s' = queue s" "pending s' = pending s" "replies s' = replies s"
    "next_id s' = next_id s" "frames_of J s' i = frames_of J s i"
  shows "fate J s' ch i m p"
  using assms by (simp add: fate_def queued_def sent_off_def settled_def open_ids_def)

lemma fate_quiet:
  assumes "fate J s ch i m p" "queue s' = queue s" "pending s' = pending s" "replies s' = replies s"
    "next_id s' = next_id s" "written s' = written s"
  shows "fate J s' ch i m p"
  using assms by (intro fate_cong [OF assms(1)]) (simp_all add: frames_of_def)

text \<open>A frame with no id, or with the id of the handshake, is none of the request's.\<close>

lemma fate_other_frame:
  assumes "json_laws J" "fate J s ch i m p" "written s' = written s @ [f]"
    and "frame_id J f = None \<or> frame_id J f = Some (rpc_id_value J (Number 0))"
    and "queue s' = queue s" "pending s' = pending s" "replies s' = replies s" "next_id s' = next_id s"
  shows "fate J s' ch i m p"
proof (rule fate_cong [OF assms(2,5-8)])
  have "i \<noteq> Number 0" using assms(2) by (auto simp: fate_def)
  then show "frames_of J s' i = frames_of J s i"
    using assms(4) rpc_id_value_inj [OF assms(1)] frames_of_more [OF assms(3), of J i] by auto
qed

text \<open>Leaving a connection, and reading a response.\<close>

lemma fate_exit:
  assumes "fate J s ch i m p" "distinct (open_ids s)"
  shows "fate J (drive_exit x s) ch i m p"
proof -
  have w: "frames_of J (drive_exit x s) i = frames_of J s i" by (simp add: frames_of_def)
  consider (q) "queued J s ch i m p" | (o) "sent_off J s ch i m p" | (a) a where "settled J s ch i m p a"
    using assms(1) by (auto simp: fate_def)
  then show ?thesis
  proof cases
    case q
    then show ?thesis using assms(1) w by (simp add: fate_def queued_def)
  next
    case o
    let ?d = "case x of Disconnected d \<Rightarrow> d | _ \<Rightarrow> ''connection closed''"
    have "(ch, Inl (WrittenOutcomeUnknown i m ?d)) \<in> set (replies (drive_exit x s))"
      using o by (force simp: sent_off_def drive_exit_replies)
    moreover have "i \<notin> set (open_ids (drive_exit x s))"
      using o assms(2) by (force simp: sent_off_def open_ids_queue queue_ids_def)
    ultimately have "settled J (drive_exit x s) ch i m p (Inl (WrittenOutcomeUnknown i m ?d))"
      using o w by (simp add: settled_def sent_off_def)
    then show ?thesis using assms(1) unfolding fate_def drive_exit_frame by blast
  next
    case a
    then have "settled J (drive_exit x s) ch i m p a"
      using w by (auto simp: settled_def open_ids_def drive_exit_replies)
    then show ?thesis using assms(1) unfolding fate_def drive_exit_frame by blast
  qed
qed

lemma fate_answer:
  assumes "fate J s ch i m p" "distinct (open_ids s)"
  shows "fate J (answer_pending J f s) ch i m p"
proof (cases "answer_pending J f s = s")
  case False
  then obtain j res err raw q where f: "f = Response j res err raw" and q: "map_of (pending s) j = Some q"
    by (auto simp: answer_pending_def pending_remove_def split: IncomingFrame.splits option.splits)
  let ?s = "answer_pending J f s"
  let ?a = "response_answer J (p_method q) res err"
  have s': "pending ?s = filter (\<lambda>(k, _). k \<noteq> j) (pending s)" "replies ?s = replies s @ [(p_response q, ?a)]"
    by (simp_all add: f q answer_pending_def pending_remove_def)
  have w: "frames_of J ?s i = frames_of J s i" by (simp add: frames_of_def)
  have dist: "distinct (map fst (pending s))" "distinct (queue_ids s)" "set (queue_ids s) \<inter> fst ` set (pending s) = {}"
    using assms(2) by (simp_all add: open_ids_queue)
  consider (q) "queued J s ch i m p" | (o) "sent_off J s ch i m p" | (a) a where "settled J s ch i m p a"
    using assms(1) by (auto simp: fate_def)
  then show ?thesis
  proof cases
    case q
    then show ?thesis using assms(1) w by (simp add: fate_def queued_def)
  next
    case o
    then have i: "map_of (pending s) i = Some \<lparr>p_method = m, p_response = ch\<rparr>"
      using dist(1) by (simp add: sent_off_def)
    show ?thesis
    proof (cases "j = i")
      case True
      with i q have "q = \<lparr>p_method = m, p_response = ch\<rparr>" by simp
      moreover have "i \<notin> set (queue_ids s)" using o dist(3) by (force simp: sent_off_def)
      then have "i \<notin> set (open_ids ?s)" using s'(1) True by (auto simp: open_ids_queue queue_ids_def)
      moreover have "carried ?a" "leaves ?a g = [g]" for g by (simp_all add: response_answer_def split: option.split)
      ultimately have "settled J ?s ch i m p ?a" using o w s'(2) by (simp add: settled_def sent_off_def)
      then show ?thesis using assms(1) unfolding fate_def answer_pending_frame by blast
    next
      case False
      then have "sent_off J ?s ch i m p" using o w s'(1) by (auto simp: sent_off_def)
      then show ?thesis using assms(1) unfolding fate_def answer_pending_frame by blast
    qed
  next
    case a
    then have "settled J ?s ch i m p a"
      using w s' by (auto simp: settled_def open_ids_def)
    then show ?thesis using assms(1) unfolding fate_def answer_pending_frame by blast
  qed
qed (use assms in simp)

lemma drive_frame_by_parts:
  "drive_frame J clk el b f s =
     (let s1 = answer_pending J f (next_seq s); s2 = hand_over (from_frame J clk (seq s1) el f) s1
      in if \<not> b then drive_exit CommandsClosed s1 else s2\<lparr>health := (health s2)\<lparr>last_frame_sequence := seq s2\<rparr>\<rparr>)"
  by (simp add: drive_frame_def Let_def)

lemma fate_read:
  assumes "fate J s ch i m p" "ids_ok s"
  shows "fate J (drive_read J C clk el b r s) ch i m p"
proof -
  have dist: "distinct (open_ids s)" using assms(2) by (simp add: ids_ok_def)
  have "fate J (drive_frame J clk el b f s) ch i m p" for f
  proof -
    let ?t = "answer_pending J f (next_seq s)"
    have nx: "fate J (next_seq s) ch i m p" by (rule fate_quiet [OF assms(1)]) (simp_all add: next_seq_def)
    have "distinct (open_ids (next_seq s))" using dist by (simp add: open_ids_def)
    with nx have t: "fate J ?t ch i m p" by (rule fate_answer)
    obtain P where P: "pending ?t = filter P (pending s)" using answer_pending_subset [of J f "next_seq s"] by auto
    then have dist': "distinct (open_ids ?t)" using dist by (auto simp: open_ids_def distinct_map_filter)
    show ?thesis
    proof (cases b)
      case True
      then show ?thesis
        unfolding drive_frame_by_parts Let_def by (auto intro: fate_quiet [OF t] simp: hand_over_def)
    next
      case False
      then show ?thesis unfolding drive_frame_by_parts Let_def using fate_exit [OF t dist'] by simp
    qed
  qed
  then show ?thesis using drive_read_cases [of J C clk el b r s] fate_exit [OF assms(1) dist] assms(1) by metis
qed

text \<open>Taking a command.\<close>

lemma queue_ids_mem: "C_Request i m p ch \<in> set (queue s) \<Longrightarrow> i \<in> set (queue_ids s)"
  by (force simp: queue_ids_def)

lemma fate_dequeue:
  assumes "fate J s ch i m p" "queue s = c # cs" "c \<noteq> C_Request i m p ch"
  shows "fate J (s\<lparr>queue := cs\<rparr>) ch i m p"
  using assms by (auto simp: fate_def queued_def sent_off_def settled_def frames_of_def open_ids_def)

lemma distinct_dequeue: "distinct (open_ids s) \<Longrightarrow> queue s = c # cs \<Longrightarrow> distinct (open_ids (s\<lparr>queue := cs\<rparr>))"
  by (auto simp: open_ids_def)

lemma fate_own_command:
  assumes "fate J s ch i m p" "ids_ok s" "queue s = C_Request i m p ch # cs"
  shows "frames_of J s i = [] \<and> i \<notin> set (queue_ids (s\<lparr>queue := cs\<rparr>)) \<and> i \<notin> fst ` set (pending s)"
proof -
  have "distinct (open_ids s)" using assms(2) by (simp add: ids_ok_def)
  then have i: "i \<notin> set (queue_ids (s\<lparr>queue := cs\<rparr>))" "i \<notin> fst ` set (pending s)" "i \<in> set (open_ids s)"
    using assms(3) by (auto simp: open_ids_queue queue_ids_cons)
  then have "queued J s ch i m p" using assms(1) by (force simp: fate_def sent_off_def settled_def)
  with i show ?thesis by (simp add: queued_def)
qed

lemma fate_command:
  assumes J: "json_laws J" and ids: "ids_ok s" and ok: "fate J s ch i m p" and q: "queue s = c # cs"
  shows "fate J (drive_command J failure c (s\<lparr>queue := cs\<rparr>)) ch i m p"
proof (cases "c = C_Request i m p ch")
  case True
  from fate_own_command [OF ok ids, of cs] q True have own: "frames_of J s i = []"
    "i \<notin> set (queue_ids (s\<lparr>queue := cs\<rparr>))" "i \<notin> fst ` set (pending s)" by simp_all
  let ?s' = "drive_command J failure c (s\<lparr>queue := cs\<rparr>)"
  have nx: "\<exists>n. i = Number n \<and> 0 < n \<and> n < next_id ?s'" using ok by (simp add: fate_def)
  show ?thesis
  proof (cases failure)
    case None
    have "sent_off J ?s' ch i m p"
      using own J pending_insert_fresh [OF own(3)]
      by (simp add: sent_off_def True None drive_command_def frames_of_def)
    with nx show ?thesis unfolding fate_def by blast
  next
    case (Some e)
    have "settled J ?s' ch i m p (Inl (NotWritten e))"
      using own by (simp add: settled_def True Some drive_command_def drive_exit_replies frames_of_def
          open_ids_queue queue_ids_def)
    with nx show ?thesis unfolding fate_def by blast
  qed
next
  case other: False
  let ?t = "s\<lparr>queue := cs\<rparr>"
  have t: "fate J ?t ch i m p" by (rule fate_dequeue [OF ok q other])
  have dist: "distinct (open_ids ?t)" using ids q by (intro distinct_dequeue) (simp_all add: ids_ok_def)
  note quit = fate_exit [OF t dist]
  show ?thesis
  proof (cases c)
    case (C_Request j m' p' ch')
    show ?thesis
    proof (cases failure)
      case (Some e)
      have "fate J (reply ch' (Inl (NotWritten e)) ?t) ch i m p" (is "fate J ?r ch i m p")
        using t by (auto simp: fate_def queued_def sent_off_def settled_def frames_of_def open_ids_def)
      moreover have "distinct (open_ids ?r)" using dist by (simp add: open_ids_def)
      ultimately show ?thesis using fate_exit by (simp add: C_Request Some drive_command_def)
    next
      case None
      let ?s' = "drive_command J failure c ?t"
      have fresh: "j \<notin> fst ` set (pending s)" "j \<notin> set (queue_ids ?t)"
        using ids by (auto simp: ids_ok_def open_ids_queue queue_ids_cons [OF q] C_Request)
      have parts: "queue ?s' = cs" "pending ?s' = (j, \<lparr>p_method = m', p_response = ch'\<rparr>) # pending s"
          "replies ?s' = replies s" "written ?s' = written s @ [request J j m' p']" "next_id ?s' = next_id s"
        by (simp_all add: C_Request None drive_command_def pending_insert_fresh [OF fresh(1)])
      have frames: "frames_of J ?s' i = frames_of J s i @ (if i = j then [request J j m' p'] else [])"
        using J by (auto simp: frames_of_more [OF parts(4)] rpc_id_value_inj)
      have "queued J s ch i m p \<Longrightarrow> queued J ?t ch i m p" "sent_off J s ch i m p \<Longrightarrow> sent_off J ?t ch i m p"
        using q other by (auto simp: queued_def sent_off_def frames_of_def)
      then consider (q) "queued J ?t ch i m p" | (o) "sent_off J ?t ch i m p" | (a) a where "settled J s ch i m p a"
        using ok unfolding fate_def by blast
      then show ?thesis
      proof cases
        case q
        then have "i \<noteq> j" using fresh(2) queue_ids_mem [of i m p ch ?t] by (auto simp: queued_def)
        with q frames parts have "queued J ?s' ch i m p" by (simp add: queued_def frames_of_def)
        with t show ?thesis unfolding fate_def by simp
      next
        case o
        then have "i \<noteq> j" using fresh(1) by (force simp: sent_off_def)
        with o frames parts have "sent_off J ?s' ch i m p" by (simp add: sent_off_def frames_of_def)
        with t show ?thesis unfolding fate_def by simp
      next
        case a
        then have "i \<noteq> j" using q by (auto simp: settled_def open_ids_def C_Request)
        with a q frames parts have "settled J ?s' ch i m p a" by (auto simp: settled_def open_ids_def)
        with t show ?thesis unfolding fate_def by (metis drive_command_frame(1))
      qed
    qed
  next
    case (C_Notify m' p')
    show ?thesis
    proof (cases failure)
      case None
      show ?thesis
        by (rule fate_other_frame [OF J t, where f = "notification J m' p'"])
          (use J in \<open>simp_all add: C_Notify None drive_command_def\<close>)
    qed (use quit in \<open>simp add: C_Notify drive_command_def\<close>)
  next
    case (C_Reconciled ch')
    then show ?thesis by (intro fate_quiet [OF t]) (simp_all add: drive_command_def)
  next
    case (C_Shutdown ch')
    with quit show ?thesis by (simp add: drive_command_def)
  qed
qed

lemma fate_reject:
  assumes ids: "ids_ok s" and ok: "fate J s ch i m p" and q: "queue s = c # cs"
    and r: "reject_while_disconnected d (Some c) (s\<lparr>queue := cs\<rparr>) = (ends, s')"
  shows "fate J s' ch i m p"
proof (cases "c = C_Request i m p ch")
  case True
  from fate_own_command [OF ok ids, of cs] q True have "frames_of J s i = []"
    "i \<notin> set (queue_ids (s\<lparr>queue := cs\<rparr>))" "i \<notin> fst ` set (pending s)" by simp_all
  moreover have "s' = reply ch (Inl (NotWritten d)) (s\<lparr>queue := cs\<rparr>)"
    using r by (simp add: True reject_while_disconnected_def)
  ultimately have "settled J s' ch i m p (Inl (NotWritten d))"
    by (simp add: settled_def frames_of_def open_ids_queue queue_ids_def)
  moreover have "next_id s' = next_id s" using r by (auto simp: True reject_while_disconnected_def)
  ultimately show ?thesis using ok unfolding fate_def by auto
next
  case False
  have t: "fate J (s\<lparr>queue := cs\<rparr>) ch i m p" by (rule fate_dequeue [OF ok q False])
  show ?thesis
  proof (cases c)
    case (C_Request j m' p' ch')
    with r t show ?thesis
      by (auto simp: reject_while_disconnected_def fate_def queued_def sent_off_def settled_def frames_of_def open_ids_def)
  qed (use r in \<open>auto simp: reject_while_disconnected_def intro: fate_quiet [OF t]\<close>)
qed

lemma fate_loop_step:
  assumes J: "json_laws J" and ids: "ids_ok s" and ok: "fate J s ch i m p"
  shows "fate J (loop_step J C cfg x s) ch i m p"
proof -
  note quiet = fate_quiet [OF ok]
  have dist: "distinct (open_ids s)" using ids by (simp add: ids_ok_def)
  show ?thesis
  proof (cases "pc s")
    case Connecting
    with ok show ?thesis by (cases x) (auto simp: loop_step_def split: option.split intro!: quiet)
  next
    case SendingInitialize
    have "fate J (s\<lparr>written := written s @ [initialize_request J cfg], pc := AwaitingInitialize\<rparr>) ch i m p"
      using J by (intro fate_other_frame [OF J ok, where f = "initialize_request J cfg"])
        (simp_all add: initialize_request_def)
    with SendingInitialize ok show ?thesis
      by (cases x) (auto simp: loop_step_def split: option.split intro!: quiet)
  next
    case AwaitingInitialize
    with ok show ?thesis by (cases x) (auto simp: loop_step_def intro!: quiet)
  next
    case SendingInitialized
    let ?f = "notification J ''initialized'' (jobj J [])"
    have "fate J (start_driving cfg (s\<lparr>written := written s @ [?f]\<rparr>)) ch i m p"
      using J by (intro fate_other_frame [OF J ok, where f = ?f]) simp_all
    with SendingInitialized ok show ?thesis
      by (cases x) (auto simp: loop_step_def split: option.split intro!: quiet)
  next
    case Driving
    with ok show ?thesis
      by (cases x) (auto simp: loop_step_def drive_tick_def fate_read [OF ok ids] fate_command [OF J ids ok]
          fate_exit [OF ok dist] split: list.split)
  next
    case (BackingOff d)
    show ?thesis
    proof (cases x)
      case (TakeCommand failure)
      show ?thesis
      proof (cases "queue s")
        case (Cons c cs)
        obtain ends s' where r: "reject_while_disconnected d (Some c) (s\<lparr>queue := cs\<rparr>) = (ends, s')" by fastforce
        have "fate J s' ch i m p" by (rule fate_reject [OF ids ok Cons r])
        note quiet' = fate_quiet [OF this]
        show ?thesis
          by (cases ends) (auto simp: BackingOff TakeCommand Cons loop_step_def r intro!: quiet')
      qed (use BackingOff TakeCommand ok in \<open>simp add: loop_step_def\<close>)
    qed (use BackingOff ok in \<open>auto simp: loop_step_def reject_while_disconnected_def intro!: quiet\<close>)
  next
    case Stopped
    with ok show ?thesis by (cases x) (auto simp: loop_step_def)
  qed
qed

lemma fate_submit:
  assumes "fate J s ch i m p" "link_admits s (Submit action m' p')"
  shows "fate J (snd (submit action m' p' s)) ch i m p"
proof (cases "action \<and> \<not> is_reconciled s")
  case False
  from assms(1) obtain n where n: "i = Number n" "0 < n" "n < next_id s" by (auto simp: fate_def)
  moreover have "next_id s < next_id s + 1" using succ_no_wrap [of "next_id s"] assms(2) by simp
  ultimately have "n < next_id s + 1" "i \<noteq> Number (next_id s)" by auto
  with assms(1) n show ?thesis
    by (auto simp: False submit_def fate_def queued_def sent_off_def settled_def frames_of_def open_ids_def)
qed (use assms in \<open>simp add: submit_def\<close>)

lemma fate_step:
  assumes "link_ok J s" "fate J s ch i m p" "link_admits s x"
  shows "fate J (link_step J C cfg s x) ch i m p"
proof (cases x)
  case (Submit action m' p')
  with fate_submit assms show ?thesis by (cases "pc s = Stopped") auto
next
  case (Loop y)
  with fate_loop_step [OF _ _ assms(2)] assms(1) show ?thesis by (simp add: link_ok_def)
next
  case (Notify m' p')
  with assms(2) show ?thesis
    by (auto simp: notify_def fate_def queued_def sent_off_def settled_def frames_of_def open_ids_def)
next
  case MarkReconciled
  with assms(2) show ?thesis
    by (auto simp: mark_defs fate_def queued_def sent_off_def settled_def frames_of_def open_ids_def)
next
  case OfferReconciled
  with assms(2) show ?thesis
    by (auto simp: mark_defs fate_def queued_def sent_off_def settled_def frames_of_def open_ids_def)
next
  case Shutdown
  with assms(2) show ?thesis
    by (auto simp: shutdown_def fate_def queued_def sent_off_def settled_def frames_of_def open_ids_def)
next
  case TakeIngress
  with assms(2) show ?thesis by (auto simp: take_ingress_def intro: fate_quiet)
qed

section \<open>Where fates begin and end\<close>

text \<open>A request accepted is queued, under the next id and on the next channel.\<close>

lemma submit_accepted:
  assumes "submit action m p s = (Inr ch, s')"
  shows "ch = next_channel s \<and> s' = s\<lparr>next_id := next_id s + 1, next_channel := Suc (next_channel s),
     queue := queue s @ [C_Request (Number (next_id s)) m p ch]\<rparr>"
  using assms by (auto simp: submit_def split: if_splits)

lemma submit_refused:
  assumes "submit action m p s = (Inl e, s')"
  shows "action \<and> \<not> is_reconciled s \<and> e = NotWritten ''reconciliation gate is closed'' \<and> s' = s"
  using assms by (auto simp: submit_def split: if_splits)

lemma submit_begins_fate:
  assumes "link_ok J s" "link_admits s (Submit action m p)" "submit action m p s = (Inr ch, s')"
  shows "fate J s' ch (Number (next_id s)) m p"
proof -
  note s' = submit_accepted [OF assms(3)]
  have "0 < next_id s" "next_id s < next_id s + 1"
    using assms(1,2) succ_no_wrap [of "next_id s"] by (simp_all add: link_ok_def channels_ok_def)
  moreover have "never_written J s (Number (next_id s))"
    using assms(1) by (simp add: link_ok_def writes_ok_def)
  then have "frames_of J s' (Number (next_id s)) = []"
    using s' by (simp add: frames_of_def never_written_def filter_empty_conv)
  ultimately show ?thesis using s' by (simp add: fate_def queued_def)
qed

text \<open>A stopped link writes nothing more, and has no request pending.\<close>

lemma stopped_step:
  assumes "pc s = Stopped"
  shows "pc (link_step J C cfg s x) = Stopped \<and> queue (link_step J C cfg s x) = queue s \<and>
    replies (link_step J C cfg s x) = replies s \<and> written (link_step J C cfg s x) = written s"
proof (cases x)
  case (Loop y)
  with assms show ?thesis by (cases y) (simp_all add: loop_step_def)
qed (use assms in \<open>auto simp: mark_defs take_ingress_def\<close>)

text \<open>The answer a channel holds, and what a request that ends without one has left behind.\<close>

definition answer_on :: "'v Link \<Rightarrow> nat \<Rightarrow> 'v answer option" where
  "answer_on s ch = map_of (replies s) ch"

lemma answers_distinct: "channels_ok s \<Longrightarrow> distinct (answered s)"
  unfolding distinct_count_atmost_1 channels_ok_def balance_def
  by (metis (mono_tags, lifting) add_leD1 count_eq_zero_iff count_union le_antisym not_less_eq_eq
      One_nat_def le_zero_eq set_mset_mset)

lemma answered_fate:
  assumes "link_ok J s" "fate J s ch i m p" "answer_on s ch = Some a"
  shows "settled J s ch i m p a"
proof -
  have ok: "channels_ok s" using assms(1) by (simp add: link_ok_def)
  have a: "(ch, a) \<in> set (replies s)" using assms(3) by (auto simp: answer_on_def dest: map_of_SomeD)
  then have "ch \<in># mset (answered s)" by (force simp: answered_def)
  then have "0 < count (mset (answered s)) ch" by simp
  moreover have "count (balance s) ch \<le> 1" using ok by (simp add: channels_ok_def)
  ultimately have "count (mset (open_channels s)) ch = 0" unfolding balance_def count_union by linarith
  then have no: "ch \<notin> set (open_channels s)" by (metis count_eq_zero_iff set_mset_mset)
  have "\<not> queued J s ch i m p" "\<not> sent_off J s ch i m p"
    using no by (force simp: queued_def sent_off_def open_channels_def)+
  then obtain b where b: "settled J s ch i m p b" using assms(2) by (auto simp: fate_def)
  then have "map_of (replies s) ch = Some b"
    using answers_distinct [OF ok] by (simp add: settled_def answered_def)
  with b assms(3) show ?thesis by (simp add: answer_on_def)
qed

lemma dropped_fate:
  assumes "link_ok J s" "fate J s ch i m p" "pc s = Stopped" "answer_on s ch = None"
  shows "frames_of J s i = []"
proof -
  have "pending s = []" using assms(1,3) by (simp add: link_ok_def ids_ok_def)
  moreover have "\<not> settled J s ch i m p a" for a
    using assms(4) by (force simp: answer_on_def settled_def map_of_eq_None_iff)
  ultimately show ?thesis using assms(2) by (auto simp: fate_def queued_def sent_off_def)
qed

lemma fate_frames: "fate J s ch i m p \<Longrightarrow> frames_of J s i = [] \<or> frames_of J s i = [request J i m p]"
  using leaves_cases by (fastforce simp: fate_def queued_def sent_off_def settled_def)

text \<open>A request that an answer says was not written never will be.\<close>

lemma unsent_settled: "unsent a \<Longrightarrow> settled J s ch i m p a \<Longrightarrow> frames_of J s i = []"
  by (auto simp: settled_def unsent_iff)

end
