(* ===== verification/Actions.thy ===== *)
theory Actions
  imports Core Fates
begin

text \<open>
  The actions of the controller as tasks of a running system (\<open>src/control/src/lib.rs\<close> within
  \<open>src/core/src/lib.rs\<close>): each call of \<open>interrupt\<close>, \<open>steer\<close> or \<open>start\<close> is a task that waits for the
  mutex of its thread, registers its waiter, submits on the transport, waits for answers and
  timers, and returns an outcome, while the other tasks of the system, other actions among them,
  take their turns in between. One input is one turn of one task.
\<close>

section \<open>An action and its stages\<close>

datatype 'v Wanted =
    A_Interrupt string string
  | A_Steer string string "'v list"
  | A_Start string "'v list"

fun wanted_target :: "'v Wanted \<Rightarrow> ActionTarget" where
  "wanted_target (A_Interrupt t u) = Turn t u"
| "wanted_target (A_Steer t u input) = Turn t u"
| "wanted_target (A_Start t input) = Thread t"

fun wanted_method :: "'v Wanted \<Rightarrow> string" where
  "wanted_method (A_Interrupt t u) = ''turn/interrupt''"
| "wanted_method (A_Steer t u input) = ''turn/steer''"
| "wanted_method (A_Start t input) = ''turn/start''"

fun wanted_params :: "'v json \<Rightarrow> 'v Wanted \<Rightarrow> 'v" where
  "wanted_params J (A_Interrupt t u) = interrupt_params J t u"
| "wanted_params J (A_Steer t u input) = steer_params J t u input"
| "wanted_params J (A_Start t input) = start_params J t input"

text \<open>The predicate of the waiter it registers; \<open>steer\<close> registers none.\<close>

fun wanted_waiter :: "'v Wanted \<Rightarrow> ('v SequencedEvent \<Rightarrow> bool) option" where
  "wanted_waiter (A_Interrupt t u) = Some (completes t u)"
| "wanted_waiter (A_Steer t u input) = None"
| "wanted_waiter (A_Start t input) = Some (starts_on t)"

abbreviation thread_of :: "'v Wanted \<Rightarrow> string" where
  "thread_of w \<equiv> target_thread (wanted_target w)"

text \<open>What a task holds once it has the mutex: the mutex, its correlation, its waiter's channel.\<close>

record Hold =
  h_lock :: nat
  h_number :: u64
  h_waiter :: "nat option"

text \<open>
  The await a task stands at: not begun, in line for the mutex; about to submit (after \<open>k\<close>
  retries), past the gate and waiting for room in the channel of the commands, waiting for the reply on a channel, sleeping before a retry; holding the response and
  waiting for its event; about to read the thread, waiting for that reply; returned, or dropped by
  the caller.
\<close>

datatype 'v Stage =
    Arrived
  | InLine nat
  | Sending Hold nat
  | Offering Hold nat
  | Asking Hold nat nat
  | Pausing Hold nat
  | Watching Hold 'v
  | ToRead Hold bool
  | AskingRead Hold bool nat
  | Concluded "'v ActionOutcome"
  | Abandoned

fun holding :: "'v Stage \<Rightarrow> Hold option" where
  "holding (Sending h k) = Some h"
| "holding (Offering h k) = Some h"
| "holding (Asking h k ch) = Some h"
| "holding (Pausing h k) = Some h"
| "holding (Watching h v) = Some h"
| "holding (ToRead h b) = Some h"
| "holding (AskingRead h b ch) = Some h"
| "holding _ = None"

fun over :: "'v Stage \<Rightarrow> bool" where
  "over (Concluded out) = True"
| "over Abandoned = True"
| "over _ = False"

text \<open>
  \<open>answers_had\<close>, \<open>submissions\<close>, \<open>watched_from\<close> and \<open>watched_to\<close> are a record of the task's history:
  the answers its requests got, the channels and ids of the action requests it queued, and how many
  events the ingress had received when the waiter was registered and when its window closed.
\<close>

record 'v Action =
  wanted :: "'v Wanted"
  stage :: "'v Stage"
  answers_had :: "'v answer list"
  submissions :: "(nat \<times> RpcId) list"
  watched_from :: nat
  watched_to :: nat

definition new_action :: "'v Wanted \<Rightarrow> 'v Action" where
  "new_action w = \<lparr>wanted = w, stage = Arrived, answers_had = [], submissions = [], watched_from = 0, watched_to = 0\<rparr>"

section \<open>Requests within an action\<close>

text \<open>
  \<open>request_inner\<close> up to its wait: the gate first, then the channel to the loop; \<open>None\<close> is a channel
  with no room, where the caller waits, outside the time-out of the request.
\<close>

definition submits :: "bool \<Rightarrow> string \<Rightarrow> 'v \<Rightarrow> 'v Link \<Rightarrow> ('v RequestError + nat) option" where
  "submits action m p l =
     (case fst (submit action m p l) of
        Inl e \<Rightarrow> Some (Inl e)
      | Inr ch \<Rightarrow>
          if pc l = loop_pc.Stopped then Some (Inl TransportClosed) else if full l then None else Some (Inr ch))"

text \<open>The wait: a reply, a dropped channel, or the time-out, in this order.\<close>

definition waited_on :: "'v Link \<Rightarrow> nat \<Rightarrow> bool \<Rightarrow> 'v waited option" where
  "waited_on l ch el =
     (case answer_on l ch of
        Some a \<Rightarrow> Some (Replied a)
      | None \<Rightarrow> if pc l = loop_pc.Stopped then Some Dropped else if el then Some Elapsed else None)"

text \<open>The stage after an answer of \<open>request_action\<close>, in the \<open>k\<close>-th try.\<close>

definition send_decided ::
    "'v json \<Rightarrow> (RpcId \<Rightarrow> string) \<Rightarrow> 'v Wanted \<Rightarrow> Hold \<Rightarrow> 'v answer \<Rightarrow> 'v Stage" where
  "send_decided J D w h a =
     (case w of
        A_Interrupt t u \<Rightarrow>
          (case a of
             Inr v \<Rightarrow> Watching h v
           | Inl (Rejected m reason) \<Rightarrow> Concluded (ActionRejected (Turn t u) ''daemon rejected interrupt'' (Some reason))
           | Inl (WrittenOutcomeUnknown i m d) \<Rightarrow> ToRead h False
           | Inl (TimedOut m) \<Rightarrow> ToRead h False
           | Inl error \<Rightarrow> Concluded (ActionRejected (Turn t u) (error_text J D error) None))
      | A_Steer t u input \<Rightarrow> Concluded (response_outcome J D ''turn/steer'' t u (h_number h) a)
      | A_Start t input \<Rightarrow>
          (case a of
             Inr v \<Rightarrow> Watching h v
           | Inl _ \<Rightarrow> Concluded (start_outcome J D t (h_number h) a None)))"

definition after_answer ::
    "'v json \<Rightarrow> (RpcId \<Rightarrow> string) \<Rightarrow> ControlConfig \<Rightarrow> 'v Wanted \<Rightarrow> Hold \<Rightarrow> nat \<Rightarrow> 'v answer \<Rightarrow> 'v Stage" where
  "after_answer J D cfg w h k a =
     (if unsent a \<and> k < not_written_retries cfg then Pausing h (Suc k) else send_decided J D w h a)"

text \<open>The end of the window: the event, or none.\<close>

definition window_closed ::
    "'v json \<Rightarrow> (RpcId \<Rightarrow> string) \<Rightarrow> 'v Wanted \<Rightarrow> Hold \<Rightarrow> 'v \<Rightarrow> 'v SequencedEvent option \<Rightarrow> 'v Stage" where
  "window_closed J D w h v mail =
     (case w of
        A_Start t input \<Rightarrow> Concluded (start_outcome J D t (h_number h) (Inr v) mail)
      | A_Interrupt t u \<Rightarrow>
          (case mail of
             Some e \<Rightarrow> Concluded (Confirmed (Turn t u) (observed (h_number h) True e
               ''matching completion observed after interrupt; correlation is not proof of causation''))
           | None \<Rightarrow> ToRead h True)
      | A_Steer t u input \<Rightarrow> Concluded (response_outcome J D ''turn/steer'' t u (h_number h) (Inr v)))"

text \<open>What the read of the thread shows.\<close>

definition terminal_params :: "'v json \<Rightarrow> string \<Rightarrow> 'v" where
  "terminal_params J t = jobj J [(''threadId'', jstr J t), (''includeTurns'', jbool J True)]"

definition read_outcome :: "'v json \<Rightarrow> ActionTarget \<Rightarrow> u64 \<Rightarrow> bool \<Rightarrow> 'v answer \<Rightarrow> 'v ActionOutcome" where
  "read_outcome J target n acc a =
     (let terminal = (case a of Inl _ \<Rightarrow> False | Inr v \<Rightarrow>
            (case target of Turn t u \<Rightarrow> turn_status_terminal J v u | Thread t \<Rightarrow> False));
          evidence = unknown n acc
            (if terminal then ''target turn is terminal on reconciliation; correlation is not causation''
             else ''no unique terminal evidence for target turn'')
      in if terminal then Confirmed target evidence else OutcomeUnknown target evidence)"

section \<open>One turn of an action that holds its mutex\<close>

text \<open>The inputs of the system the turn amounts to, and the action afterwards.\<close>

definition hears :: "'v answer \<Rightarrow> nat \<Rightarrow> 'v Stage \<Rightarrow> 'v Action \<Rightarrow> 'v Action" where
  "hears x sofar st a = a\<lparr>stage := st, answers_had := answers_had a @ [x], watched_to := sofar\<rparr>"

text \<open>A request of the action, in the \<open>k\<close>-th try; \<open>gated\<close>: it has yet to pass the gate.\<close>

definition sends ::
    "'v parts \<Rightarrow> Config \<Rightarrow> bool \<Rightarrow> Hold \<Rightarrow> nat \<Rightarrow> 'v Core \<Rightarrow> 'v Action \<Rightarrow> 'v core_input list \<times> 'v Action" where
  "sends P cfg gated h k s a =
     (let J = api P; w = wanted a; l = core_link s
      in case submits gated (wanted_method w) (wanted_params J w) l of
           None \<Rightarrow> ([], a\<lparr>stage := Offering h k\<rparr>)
         | Some (Inl e) \<Rightarrow>
             ([], hears (Inl e) (taken s) (after_answer J (id_debug P) (control_config cfg) w h k (Inl e)) a)
         | Some (Inr ch) \<Rightarrow>
             ([OnLink (Submit gated (wanted_method w) (wanted_params J w))],
              a\<lparr>stage := Asking h k ch, submissions := submissions a @ [(ch, Number (next_id l))]\<rparr>))"

definition advance ::
    "'v parts \<Rightarrow> Config \<Rightarrow> bool \<Rightarrow> 'v Core \<Rightarrow> 'v Action \<Rightarrow> 'v core_input list \<times> 'v Action" where
  "advance P cfg el s a =
     (let J = api P; D = id_debug P; ctl = control_config cfg; w = wanted a; l = core_link s
      in case stage a of
           Sending h k \<Rightarrow> sends P cfg True h k s a
         | Offering h k \<Rightarrow> sends P cfg False h k s a
         | Asking h k ch \<Rightarrow>
             (case waited_on l ch el of
                None \<Rightarrow> ([], a)
              | Some x \<Rightarrow>
                  (let r = request_result (wanted_method w) x
                   in ([], hears r (taken s) (after_answer J D ctl w h k r) a)))
         | Pausing h k \<Rightarrow> ([], if el then a\<lparr>stage := Sending h k\<rparr> else a)
         | Watching h v \<Rightarrow>
             (let mail = Option.bind (h_waiter h) (mailbox (ti_reducer (core_ingestor s)))
              in if mail \<noteq> None \<or> el
                 then ([], a\<lparr>stage := window_closed J D w h v mail, watched_to := taken s\<rparr>) else ([], a))
         | ToRead h acc \<Rightarrow>
             (case submits False ''thread/read'' (terminal_params J (thread_of w)) l of
                None \<Rightarrow> ([], a)
              | Some (Inl e) \<Rightarrow>
                  ([], a\<lparr>stage := Concluded (read_outcome J (wanted_target w) (h_number h) acc (Inl e)),
                         answers_had := answers_had a @ [Inl e]\<rparr>)
              | Some (Inr ch) \<Rightarrow>
                  ([OnLink (Submit False ''thread/read'' (terminal_params J (thread_of w)))],
                   a\<lparr>stage := AskingRead h acc ch\<rparr>))
         | AskingRead h acc ch \<Rightarrow>
             (case waited_on l ch el of
                None \<Rightarrow> ([], a)
              | Some x \<Rightarrow>
                  (let r = request_result ''thread/read'' x
                   in ([], a\<lparr>stage := Concluded (read_outcome J (wanted_target w) (h_number h) acc r),
                            answers_had := answers_had a @ [r]\<rparr>)))
         | _ \<Rightarrow> ([], a))"

section \<open>The system with its actions\<close>

text \<open>
  \<open>mutexes\<close> holds the mutexes of the threads by number: the tasks that asked for one, in order. A
  tokio mutex is fair, so the first of them has it. The controller's reducer is the system's.
\<close>

record 'v Runtime =
  rt_core :: "'v Core"
  rt_control :: "'v Controller"
  mutexes :: "nat \<Rightarrow> nat list"
  actions :: "'v Action list"

definition new_runtime :: "'v Core \<Rightarrow> 'v Runtime" where
  "new_runtime s =
     \<lparr>rt_core = s, rt_control = new_controller (ti_reducer (core_ingestor s)), mutexes = (\<lambda>_. []), actions = []\<rparr>"

text \<open>A task takes its new state; one that is over gives up its place at every mutex (the guard is dropped).\<close>

definition put :: "nat \<Rightarrow> 'v Action \<Rightarrow> 'v Runtime \<Rightarrow> 'v Runtime" where
  "put i a r =
     r\<lparr>actions := (actions r)[i := a],
       mutexes := (if over (stage a) then (\<lambda>l. removeAll i (mutexes r l)) else mutexes r)\<rparr>"

text \<open>The mutex is there: the correlation is taken and the waiter registered.\<close>

definition acquires :: "'v parts \<Rightarrow> 'v codec \<Rightarrow> Config \<Rightarrow> nat \<Rightarrow> nat \<Rightarrow> 'v Action \<Rightarrow> 'v Runtime \<Rightarrow> 'v Runtime" where
  "acquires P C cfg i lock a r =
     (let (n, c) = take_correlation (rt_control r); s = rt_core r;
          a' = a\<lparr>watched_from := taken s, watched_to := taken s\<rparr>
      in case wanted_waiter (wanted a) of
           None \<Rightarrow>
             put i (a'\<lparr>stage := Sending \<lparr>h_lock = lock, h_number = n, h_waiter = None\<rparr> 0\<rparr>) (r\<lparr>rt_control := c\<rparr>)
         | Some p \<Rightarrow>
             put i (a'\<lparr>stage := Sending \<lparr>h_lock = lock, h_number = n,
                 h_waiter = Some (fst (register_waiter p (ti_reducer (core_ingestor s))))\<rparr> 0\<rparr>)
               (r\<lparr>rt_control := c, rt_core := core_step P C cfg s (RegistersWaiter p)\<rparr>))"

definition act :: "'v parts \<Rightarrow> 'v codec \<Rightarrow> Config \<Rightarrow> nat \<Rightarrow> bool \<Rightarrow> 'v Runtime \<Rightarrow> 'v Runtime" where
  "act P C cfg i el r =
     (if i < length (actions r)
      then (let a = actions r ! i
            in case stage a of
                 Arrived \<Rightarrow>
                   (let (lock, c) = lock_for (thread_of (wanted a)) (rt_control r)
                    in put i (a\<lparr>stage := InLine lock\<rparr>)
                         (r\<lparr>rt_control := c, mutexes := (mutexes r)(lock := mutexes r lock @ [i])\<rparr>))
               | InLine lock \<Rightarrow>
                   (case mutexes r lock of
                      j # _ \<Rightarrow> if j = i then acquires P C cfg i lock a r else r
                    | [] \<Rightarrow> r)
               | Concluded out \<Rightarrow> r
               | Abandoned \<Rightarrow> r
               | _ \<Rightarrow>
                   (let (xs, a') = advance P cfg el (rt_core r) a
                    in put i a' (r\<lparr>rt_core := core_run P C cfg (rt_core r) xs\<rparr>)))
      else r)"

text \<open>
  \<open>System\<close>: the other tasks; what only actions do comes from actions alone. \<open>Begins\<close>: a call on the
  handle. \<open>Abandons\<close>: the caller drops the call.
\<close>

datatype 'v rt_input =
    System "'v core_input"
  | Begins "'v Wanted"
  | Acts nat bool
  | Abandons nat

fun of_an_action :: "'v core_input \<Rightarrow> bool" where
  "of_an_action (OnLink (Submit action m p)) = action"
| "of_an_action (RegistersWaiter p) = True"
| "of_an_action _ = False"

fun rt_step :: "'v parts \<Rightarrow> 'v codec \<Rightarrow> Config \<Rightarrow> 'v Runtime \<Rightarrow> 'v rt_input \<Rightarrow> 'v Runtime" where
  "rt_step P C cfg r (System x) =
     (if of_an_action x then r else r\<lparr>rt_core := core_step P C cfg (rt_core r) x\<rparr>)"
| "rt_step P C cfg r (Begins w) =
     (if handle_minted (main (rt_core r)) then r\<lparr>actions := actions r @ [new_action w]\<rparr> else r)"
| "rt_step P C cfg r (Acts i el) = act P C cfg i el r"
| "rt_step P C cfg r (Abandons i) =
     (if i < length (actions r) \<and> \<not> over (stage (actions r ! i))
      then put i ((actions r ! i)\<lparr>stage := Abandoned\<rparr>) r else r)"

definition rt_run :: "'v parts \<Rightarrow> 'v codec \<Rightarrow> Config \<Rightarrow> 'v Runtime \<Rightarrow> 'v rt_input list \<Rightarrow> 'v Runtime" where
  "rt_run P C cfg r xs = foldl (rt_step P C cfg) r xs"

text \<open>The counters do not wrap.\<close>

fun rt_admits :: "'v Runtime \<Rightarrow> 'v rt_input \<Rightarrow> bool" where
  "rt_admits r (System x) = core_admits (rt_core r) x"
| "rt_admits r (Acts i el) =
     (unat (next_id (core_link (rt_core r))) + 1 < 2 ^ 64 \<and> unat (next_correlation (rt_control r)) + 1 < 2 ^ 64)"
| "rt_admits r _ = True"

section \<open>The turns of an action\<close>

lemma put_simps [simp]:
  "rt_core (put i a r) = rt_core r" "rt_control (put i a r) = rt_control r"
  "actions (put i a r) = (actions r)[i := a]"
  "mutexes (put i a r) l = (if over (stage a) then removeAll i (mutexes r l) else mutexes r l)"
  by (simp_all add: put_def)

lemma after_answer_stage:
  "\<forall>out. after_answer J D cfg w h k x \<noteq> Concluded out \<Longrightarrow> holding (after_answer J D cfg w h k x) = Some h"
  by (auto simp: after_answer_def send_decided_def split: Wanted.splits sum.splits RequestError.splits if_splits)

lemma window_closed_stage:
  "\<forall>out. window_closed J D w h v mail \<noteq> Concluded out \<Longrightarrow> holding (window_closed J D w h v mail) = Some h"
  by (auto simp: window_closed_def split: Wanted.splits option.splits)

lemma hears_simps [simp]:
  "wanted (hears x n st a) = wanted a" "stage (hears x n st a) = st" "answers_had (hears x n st a) = answers_had a @ [x]"
  "submissions (hears x n st a) = submissions a" "watched_from (hears x n st a) = watched_from a"
  "watched_to (hears x n st a) = n"
  by (simp_all add: hears_def)

lemma advance_stage:
  assumes "advance P cfg el s a = (xs, a')" "holding (stage a) = Some h"
  shows "wanted a' = wanted a \<and> (holding (stage a') = Some h \<or> (\<exists>out. stage a' = Concluded out))"
  using assms
  by (cases "stage a")
     (auto simp: advance_def sends_def Let_def split: sum.splits option.splits if_splits
        intro: after_answer_stage window_closed_stage)

fun leads :: "nat list \<Rightarrow> nat \<Rightarrow> bool" where
  "leads [] i = False"
| "leads (j # js) i = (j = i)"

lemma leads_more: "leads js i \<Longrightarrow> leads (js @ ks) i"
  by (cases js) auto

lemma leads_removeAll: "leads js i \<Longrightarrow> i \<noteq> j \<Longrightarrow> leads (removeAll j js) i"
  by (cases js) auto

lemma leads_unique: "leads js i \<Longrightarrow> leads js j \<Longrightarrow> i = j"
  by (cases js) auto

text \<open>Whether a task can take a turn now.\<close>

definition can_turn :: "'v Runtime \<Rightarrow> nat \<Rightarrow> bool" where
  "can_turn r i \<longleftrightarrow>
     (case stage (actions r ! i) of
        InLine l \<Rightarrow> leads (mutexes r l) i
      | st \<Rightarrow> \<not> over st)"

text \<open>A turn is one of four.\<close>

lemma act_turns:
  assumes "i < length (actions r)"
  obtains (idle) "act P C cfg i el r = r" "\<not> can_turn r i"
  | (enters) lock c where "stage (actions r ! i) = Arrived"
      "lock_for (thread_of (wanted (actions r ! i))) (rt_control r) = (lock, c)"
      "act P C cfg i el r = put i ((actions r ! i)\<lparr>stage := InLine lock\<rparr>)
         (r\<lparr>rt_control := c, mutexes := (mutexes r)(lock := mutexes r lock @ [i])\<rparr>)"
  | (acquires) lock rest where "stage (actions r ! i) = InLine lock" "mutexes r lock = i # rest"
      "act P C cfg i el r = acquires P C cfg i lock (actions r ! i) r"
  | (advances) h xs a' where "holding (stage (actions r ! i)) = Some h"
      "advance P cfg el (rt_core r) (actions r ! i) = (xs, a')"
      "act P C cfg i el r = put i a' (r\<lparr>rt_core := core_run P C cfg (rt_core r) xs\<rparr>)"
proof -
  obtain xs a' where adv: "advance P cfg el (rt_core r) (actions r ! i) = (xs, a')" by fastforce
  show thesis
  proof (cases "stage (actions r ! i)")
  case Arrived
  obtain lock c where "lock_for (thread_of (wanted (actions r ! i))) (rt_control r) = (lock, c)" by fastforce
  with assms Arrived show thesis by (intro enters) (simp_all add: act_def Let_def)
next
  case (InLine lock)
  show thesis
  proof (cases "\<exists>rest. mutexes r lock = i # rest")
    case True
    with assms InLine acquires show thesis by (auto simp: act_def Let_def)
  next
    case False
    with assms InLine idle show thesis
      by (cases "mutexes r lock") (auto simp: act_def can_turn_def Let_def)
  qed
qed (use assms idle advances adv in \<open>auto simp: act_def can_turn_def Let_def\<close>)
qed

section \<open>One action at a time on each thread\<close>

text \<open>The mutex a task waits for or holds.\<close>

definition stage_lock :: "'v Stage \<Rightarrow> nat option" where
  "stage_lock st = (case st of InLine l \<Rightarrow> Some l | _ \<Rightarrow> map_option h_lock (holding st))"

lemma stage_lock_simps [simp]:
  "stage_lock (InLine l) = Some l" "stage_lock Arrived = None" "over st \<Longrightarrow> stage_lock st = None"
  "holding st = Some h \<Longrightarrow> stage_lock st = Some (h_lock h)" "holding st = Some h \<Longrightarrow> \<not> over st"
  by (cases st; simp add: stage_lock_def)+

definition line_ok :: "'v Runtime \<Rightarrow> nat \<Rightarrow> bool" where
  "line_ok r i \<longleftrightarrow>
     (\<forall>l. stage_lock (stage (actions r ! i)) = Some l \<longrightarrow>
        thread_locks (rt_control r) (thread_of (wanted (actions r ! i))) = Some l) \<and>
     (\<forall>h. holding (stage (actions r ! i)) = Some h \<longrightarrow> leads (mutexes r (h_lock h)) i)"

definition lines_ok :: "'v Runtime \<Rightarrow> bool" where
  "lines_ok r \<longleftrightarrow> (\<forall>l. distinct (mutexes r l)) \<and>
     (\<forall>l i. i \<in> set (mutexes r l) \<longleftrightarrow>
        i < length (actions r) \<and> stage_lock (stage (actions r ! i)) = Some l)"

definition locks_held :: "'v Runtime \<Rightarrow> bool" where
  "locks_held r \<longleftrightarrow> locks_ok (rt_control r) \<and> lines_ok r \<and> (\<forall>i < length (actions r). line_ok r i)"

lemma lock_for_control:
  "lock_for t c = (l, c') \<Longrightarrow> locks_ok c \<Longrightarrow> locks_ok c' \<and> thread_locks c' t = Some l \<and>
     (\<forall>u k. thread_locks c u = Some k \<longrightarrow> thread_locks c' u = Some k)"
  using locks_ok_step [of c t] lock_for_registered [of t c] lock_for_keeps [of c _ _ t] by auto

text \<open>The other tasks keep their places when one changes.\<close>

lemma line_ok_other:
  assumes "line_ok r j" "j \<noteq> i" "actions r' = (actions r)[i := a']"
    and "\<And>t l. thread_locks (rt_control r) t = Some l \<Longrightarrow> thread_locks (rt_control r') t = Some l"
    and "\<And>l. leads (mutexes r l) j \<Longrightarrow> leads (mutexes r' l) j"
  shows "line_ok r' j"
  using assms by (simp add: line_ok_def)

text \<open>A task that holds its mutex goes on, or is over.\<close>

lemma locks_held_goes_on:
  assumes ok: "locks_held r" and i: "i < length (actions r)" and w: "wanted a' = wanted (actions r ! i)"
    and st: "stage_lock (stage a') = stage_lock (stage (actions r ! i))"
    and h: "\<forall>h. holding (stage a') = Some h \<longrightarrow> leads (mutexes r (h_lock h)) i"
    and r': "actions r' = (actions r)[i := a']" "mutexes r' = mutexes r"
      "thread_locks (rt_control r') = thread_locks (rt_control r)" "locks_ok (rt_control r')"
  shows "locks_held r'"
proof -
  have "line_ok r' j" if "j < length (actions r)" for j
  proof (cases "j = i")
    case True
    with ok i w st h r' show ?thesis by (simp add: locks_held_def line_ok_def)
  next
    case False
    with ok that show ?thesis by (intro line_ok_other [of r j i r' a']) (simp_all add: locks_held_def r')
  qed
  moreover have "lines_ok r'" using ok i st r' by (auto simp: locks_held_def lines_ok_def nth_list_update)
  ultimately show ?thesis using r' by (simp add: locks_held_def)
qed

lemma over_holds_none: "over st \<Longrightarrow> holding st = None"
  by (cases st) simp_all

lemma locks_held_over:
  assumes ok: "locks_held r" and i: "i < length (actions r)" and st: "over (stage a')"
    and r': "actions r' = (actions r)[i := a']" "mutexes r' = (\<lambda>l. removeAll i (mutexes r l))"
      "thread_locks (rt_control r') = thread_locks (rt_control r)" "locks_ok (rt_control r')"
  shows "locks_held r'"
proof -
  have "line_ok r' j" if "j < length (actions r)" for j
  proof (cases "j = i")
    case True
    with i st r' over_holds_none [OF st] show ?thesis by (simp add: line_ok_def)
  next
    case False
    with ok that show ?thesis
      by (intro line_ok_other [of r j i r' a']) (simp_all add: locks_held_def r' leads_removeAll)
  qed
  moreover have "lines_ok r'"
    using ok i st r' by (auto simp: locks_held_def lines_ok_def nth_list_update distinct_removeAll)
  ultimately show ?thesis using r' by (simp add: locks_held_def)
qed

lemma take_correlation_locks [simp]:
  "thread_locks (snd (take_correlation c)) = thread_locks c" "locks_ok (snd (take_correlation c)) = locks_ok c"
  by (simp_all add: take_correlation_def locks_ok_def)

lemma locks_held_enters:
  assumes ok: "locks_held r" and i: "i < length (actions r)" and st: "stage (actions r ! i) = Arrived"
    and lock: "lock_for (thread_of (wanted (actions r ! i))) (rt_control r) = (lock, c)"
    and r': "actions r' = (actions r)[i := (actions r ! i)\<lparr>stage := InLine lock\<rparr>]" "rt_control r' = c"
      "mutexes r' = (mutexes r)(lock := mutexes r lock @ [i])"
  shows "locks_held r'"
proof -
  have "locks_ok (rt_control r)" using ok by (simp add: locks_held_def)
  note c = lock_for_control [OF lock this]
  have "line_ok r' j" if "j < length (actions r)" for j
  proof (cases "j = i")
    case True
    with i c r' show ?thesis by (simp add: line_ok_def)
  next
    case False
    with ok that c show ?thesis
      by (intro line_ok_other [of r j i r' "(actions r ! i)\<lparr>stage := InLine lock\<rparr>"])
         (auto simp: locks_held_def r' leads_more)
  qed
  moreover have "lines_ok r'"
    using ok i st r' by (auto simp: locks_held_def lines_ok_def nth_list_update)
  ultimately show ?thesis using r' c by (simp add: locks_held_def)
qed

lemma acquires_parts:
  assumes "acquires P C cfg i lock a r = r'"
  shows "\<exists>a' h. actions r' = (actions r)[i := a'] \<and> wanted a' = wanted a \<and> stage a' = Sending h 0 \<and> h_lock h = lock \<and>
    mutexes r' = mutexes r \<and> rt_control r' = snd (take_correlation (rt_control r))"
  using assms by (auto simp: acquires_def put_def Let_def split: prod.splits option.splits)

lemma locks_held_act:
  assumes ok: "locks_held r"
  shows "locks_held (act P C cfg i el r)"
proof (cases "i < length (actions r)")
  case i: True
  then show ?thesis
  proof (cases rule: act_turns [where P = P and C = C and cfg = cfg and el = el])
    case idle
    with ok show ?thesis by simp
  next
    case (enters lock c)
    then show ?thesis unfolding enters(3)
      by (intro locks_held_enters [OF ok i enters(1,2)]) (simp_all add: put_def)
  next
    case (acquires lock rest)
    from acquires_parts [OF acquires(3) [symmetric]] obtain a' h where
      "actions (act P C cfg i el r) = (actions r)[i := a']" "wanted a' = wanted (actions r ! i)" "stage a' = Sending h 0"
      "h_lock h = lock" "mutexes (act P C cfg i el r) = mutexes r"
      "rt_control (act P C cfg i el r) = snd (take_correlation (rt_control r))" by blast
    with ok i acquires(1,2) show ?thesis
      by (intro locks_held_goes_on [OF ok i, of a']) (simp_all add: locks_held_def)
  next
    case (advances h xs a')
    have control: "locks_ok (rt_control r)" using ok by (simp add: locks_held_def)
    from advance_stage [OF advances(2,1)] have w: "wanted a' = wanted (actions r ! i)"
      and st: "holding (stage a') = Some h \<or> (\<exists>out. stage a' = Concluded out)" by auto
    show ?thesis
    proof (cases "over (stage a')")
      case True
      with control show ?thesis unfolding advances(3)
        by (intro locks_held_over [OF ok i True]) (simp_all add: put_def)
    next
      case False
      with st have h: "holding (stage a') = Some h" by auto
      with ok i advances(1) have "leads (mutexes r (h_lock h)) i" by (simp add: locks_held_def line_ok_def)
      with h False w advances(1) control show ?thesis unfolding advances(3)
        by (intro locks_held_goes_on [OF ok i w]) (simp_all add: put_def)
    qed
  qed
qed (use ok in \<open>simp add: act_def\<close>)

lemma locks_held_step: "locks_held r \<Longrightarrow> locks_held (rt_step P C cfg r x)"
proof (cases x)
  case (System y)
  then show "locks_held r \<Longrightarrow> ?thesis" by (simp add: locks_held_def lines_ok_def line_ok_def)
next
  case (Begins w)
  assume ok: "locks_held r"
  then have "length (actions r) \<notin> set (mutexes r l)" for l by (simp add: locks_held_def lines_ok_def)
  with ok Begins show ?thesis
    by (auto simp: locks_held_def lines_ok_def line_ok_def new_action_def nth_append less_Suc_eq)
next
  case (Acts i el)
  then show "locks_held r \<Longrightarrow> ?thesis" by (simp add: locks_held_act)
next
  case (Abandons i)
  assume ok: "locks_held r"
  show ?thesis
  proof (cases "i < length (actions r) \<and> \<not> over (stage (actions r ! i))")
    case True
    moreover have "locks_ok (rt_control r)" using ok by (simp add: locks_held_def)
    ultimately show ?thesis
      by (intro locks_held_over [OF ok, of i "(actions r ! i)\<lparr>stage := Abandoned\<rparr>"])
         (simp_all add: Abandons put_def)
  next
    case False
    then show ?thesis unfolding Abandons rt_step.simps by (simp only: if_False ok)
  qed
qed

interpretation locks: preserved_by "rt_step P C cfg" locks_held "\<lambda>_ _. True" for P C cfg
  by unfold_locales (rule locks_held_step)

lemma new_runtime_locks [simp]: "locks_held (new_runtime s)"
  by (simp add: new_runtime_def locks_held_def lines_ok_def locks_ok_def new_controller_def)

lemma run_locks: "locks_held (rt_run P C cfg (new_runtime s) xs)"
  unfolding rt_run_def by (rule locks.run_inv) simp_all

section \<open>Every action ends\<close>

text \<open>
  The turns an action has left: at most four for each try, and the read. Timers that have run out
  let every await return, so a turn moves the action on unless it is in line for its mutex, or
  waits for room in the channel of the commands while that is full.
\<close>

definition effort :: "ControlConfig \<Rightarrow> 'v Stage \<Rightarrow> nat" where
  "effort cfg st =
     (let n = not_written_retries cfg
      in case st of
           Arrived \<Rightarrow> 4 * n + 8
         | InLine l \<Rightarrow> 4 * n + 7
         | Sending h k \<Rightarrow> 4 * (n - k) + 6
         | Offering h k \<Rightarrow> 4 * (n - k) + 5
         | Asking h k ch \<Rightarrow> 4 * (n - k) + 4
         | Pausing h k \<Rightarrow> 4 * (n - k) + 7
         | Watching h v \<Rightarrow> 3
         | ToRead h b \<Rightarrow> 2
         | AskingRead h b ch \<Rightarrow> 1
         | _ \<Rightarrow> 0)"

fun needs_room :: "'v Stage \<Rightarrow> bool" where
  "needs_room (Offering h k) = True"
| "needs_room (ToRead h b) = True"
| "needs_room _ = False"

lemma after_answer_work: "effort cfg (after_answer J D cfg w h k x) < 4 * (not_written_retries cfg - k) + 4"
  by (auto simp: after_answer_def send_decided_def effort_def Let_def
      split: Wanted.split sum.split RequestError.split)

lemma window_closed_work: "effort cfg (window_closed J D w h v mail) < 3"
  by (auto simp: window_closed_def effort_def Let_def split: Wanted.split option.split)

lemma sends_work:
  assumes "sends P cfg gated h k s a = (xs, a')"
  shows "effort (control_config cfg) (stage a') < 4 * (not_written_retries (control_config cfg) - k) + 5 \<or>
    stage a' = Offering h k \<and> full (core_link s)"
proof (cases "submits gated (wanted_method (wanted a)) (wanted_params (api P) (wanted a)) (core_link s)")
  case None
  then have "full (core_link s)" by (auto simp: submits_def split: sum.splits if_splits)
  with None assms show ?thesis by (auto simp: sends_def Let_def)
next
  case (Some x)
  have "effort (control_config cfg) (after_answer (api P) (id_debug P) (control_config cfg) (wanted a) h k y) <
    4 * (not_written_retries (control_config cfg) - k) + 5" for y by (rule less_le_trans [OF after_answer_work]) simp
  with Some assms show ?thesis
    by (cases x) (auto simp: sends_def Let_def effort_def [of _ "Asking _ _ _"])
qed

lemma submits_blocked: "submits action m p l = None \<Longrightarrow> full l"
  by (auto simp: submits_def split: sum.splits if_splits)

lemma advance_work:
  assumes "advance P cfg el s a = (xs, a')" "holding (stage a) = Some h"
  shows "stage a' = stage a \<and> (\<not> el \<or> needs_room (stage a) \<and> full (core_link s)) \<or>
    effort (control_config cfg) (stage a') < effort (control_config cfg) (stage a)"
proof (cases "stage a")
  case (Sending h' k)
  with assms(1) sends_work [of P cfg True h' k s a xs a'] show ?thesis
    by (auto simp: advance_def Let_def effort_def [of _ "Sending _ _"] effort_def [of _ "Offering _ _"])
next
  case (Offering h' k)
  with assms(1) sends_work [of P cfg False h' k s a xs a'] show ?thesis
    by (auto simp: advance_def Let_def effort_def [of _ "Offering _ _"])
next
  case (Asking h' k ch)
  with assms(1) show ?thesis
    by (auto simp: advance_def Let_def effort_def [of _ "Asking _ _ _"] waited_on_def after_answer_work
        split: option.splits if_splits)
next
  case (Watching h' v)
  with assms(1) show ?thesis
    by (auto simp: advance_def Let_def effort_def [of _ "Watching _ _"] window_closed_work split: if_splits)
qed (use assms in \<open>auto simp: advance_def Let_def effort_def waited_on_def
       split: sum.splits option.splits if_splits dest: submits_blocked\<close>)

text \<open>Nothing keeps a task from its turn but a full channel.\<close>

definition ready :: "'v Runtime \<Rightarrow> nat \<Rightarrow> bool" where
  "ready r i \<longleftrightarrow> \<not> (needs_room (stage (actions r ! i)) \<and> full (core_link (rt_core r)))"

definition work_left :: "ControlConfig \<Rightarrow> 'v Runtime \<Rightarrow> nat" where
  "work_left cfg r = sum_list (map (\<lambda>a. effort cfg (stage a)) (actions r))"

definition stages :: "'v Runtime \<Rightarrow> 'v Stage list" where
  "stages r = map stage (actions r)"

lemma work_left_stages: "work_left cfg r = sum_list (map (effort cfg) (stages r))"
  by (simp add: work_left_def stages_def comp_def)

lemma sum_list_less:
  fixes f :: "'a \<Rightarrow> nat"
  assumes "i < length xs" "f x < f (xs ! i)"
  shows "sum_list (map f (xs[i := x])) < sum_list (map f xs)"
  using assms
proof (induction xs arbitrary: i)
  case (Cons y ys)
  then show ?case by (cases i) auto
qed simp

lemma act_work:
  assumes i: "i < length (actions r)"
  shows "act P C cfg i el r = r \<and> \<not> can_turn r i \<or>
    stages (act P C cfg i el r) = stages r \<and> mutexes (act P C cfg i el r) = mutexes r \<and> (\<not> el \<or> \<not> ready r i) \<or>
    work_left (control_config cfg) (act P C cfg i el r) < work_left (control_config cfg) r"
  (is "?idle \<or> ?same \<or> ?less")
proof -
  have less: ?less if "actions (act P C cfg i el r) = (actions r)[i := a']"
    "effort (control_config cfg) (stage a') < effort (control_config cfg) (stage (actions r ! i))" for a'
    using that i sum_list_less [of i "actions r" "\<lambda>a. effort (control_config cfg) (stage a)" a'] by (simp add: work_left_def)
  from i show ?thesis
  proof (cases rule: act_turns [where P = P and C = C and cfg = cfg and el = el])
    case (enters lock c)
    then have ?less by (intro less) (auto simp: effort_def Let_def)
    then show ?thesis by blast
  next
    case (acquires lock rest)
    from acquires_parts [OF acquires(3) [symmetric]] obtain a' h where
      "actions (act P C cfg i el r) = (actions r)[i := a']" "stage a' = Sending h 0" by blast
    with acquires(1) have ?less by (intro less) (auto simp: effort_def Let_def)
    then show ?thesis by blast
  next
    case (advances h xs a')
    from advance_work [OF advances(2,1)] show ?thesis
    proof
      assume same: "stage a' = stage (actions r ! i) \<and>
        (\<not> el \<or> needs_room (stage (actions r ! i)) \<and> full (core_link (rt_core r)))"
      then have "\<not> over (stage a')" using advances(1) by simp
      with same i show ?thesis unfolding advances(3)
        by (intro disjI2 disjI1) (simp add: put_def stages_def map_update list_update_same_conv ready_def)
    next
      assume "effort (control_config cfg) (stage a') < effort (control_config cfg) (stage (actions r ! i))"
      then have ?less by (intro less) (simp_all add: advances(3))
      then show ?thesis by blast
    qed
  qed blast
qed

text \<open>Nothing but a new call gives more work, and what leaves the work left unchanged leaves every task where it is.\<close>

fun begins :: "'v rt_input \<Rightarrow> bool" where
  "begins (Begins w) = True"
| "begins _ = False"

lemma step_work:
  assumes "\<not> begins x"
  shows "stages (rt_step P C cfg r x) = stages r \<and> mutexes (rt_step P C cfg r x) = mutexes r \<and>
      (\<forall>i. x = Acts i True \<longrightarrow> i < length (actions r) \<longrightarrow> ready r i \<longrightarrow> \<not> can_turn r i) \<or>
    work_left (control_config cfg) (rt_step P C cfg r x) < work_left (control_config cfg) r"
proof (cases x)
  case (System y)
  then show ?thesis by (simp add: stages_def)
next
  case (Acts i el)
  show ?thesis
  proof (cases "i < length (actions r)")
    case True
    from act_work [OF this, of P C cfg el] show ?thesis by (auto simp: Acts)
  qed (simp add: Acts act_def)
next
  case (Abandons i)
  have "0 < effort (control_config cfg) st" if "\<not> over st" for st :: "'a Stage"
    using that by (cases st) (simp_all add: effort_def Let_def)
  then show ?thesis
    using sum_list_less [of i "actions r" "\<lambda>a. effort (control_config cfg) (stage a)" "(actions r ! i)\<lparr>stage := Abandoned\<rparr>"]
    by (auto simp: Abandons work_left_def effort_def [of _ Abandoned])
qed (use assms in simp)

lemma can_turn_cong:
  "stages r' = stages r \<Longrightarrow> mutexes r' = mutexes r \<Longrightarrow> i < length (actions r) \<Longrightarrow> can_turn r' i = can_turn r i"
proof -
  assume a: "stages r' = stages r" "mutexes r' = mutexes r" "i < length (actions r)"
  then have "length (actions r') = length (actions r)" unfolding stages_def by (metis length_map)
  with a have "stage (actions r' ! i) = stage (actions r ! i)" unfolding stages_def by (metis nth_map)
  with a(2) show ?thesis by (simp add: can_turn_def split: Stage.split)
qed

text \<open>Someone can always take a turn.\<close>

lemma no_deadlock:
  assumes ok: "locks_held r" and i: "i < length (actions r)" "\<not> over (stage (actions r ! i))"
  shows "\<exists>j < length (actions r). can_turn r j"
proof (cases "can_turn r i")
  case False
  then obtain l where l: "stage (actions r ! i) = InLine l"
    using i(2) by (cases "stage (actions r ! i)") (simp_all add: can_turn_def)
  with ok i have "i \<in> set (mutexes r l)" by (simp add: locks_held_def lines_ok_def)
  then obtain j js where js: "mutexes r l = j # js" by (cases "mutexes r l") auto
  then have "j \<in> set (mutexes r l)" by simp
  with ok have j: "j < length (actions r)" "stage_lock (stage (actions r ! j)) = Some l"
    by (simp_all add: locks_held_def lines_ok_def)
  with js have "can_turn r j"
    by (cases "stage (actions r ! j)") (auto simp: can_turn_def stage_lock_def)
  with j(1) show ?thesis by blast
qed (use i in blast)

text \<open>
  A round gives each task a turn after its timers have run out, among other inputs; one that waits
  for room in the channel of the commands gets it at a moment when there is room.
\<close>

definition round_of :: "'v parts \<Rightarrow> 'v codec \<Rightarrow> Config \<Rightarrow> 'v Runtime \<Rightarrow> 'v rt_input list \<Rightarrow> bool" where
  "round_of P C cfg r xs \<longleftrightarrow> list_all (\<lambda>x. \<not> begins x) xs \<and>
     (\<forall>i < length (actions r). \<exists>ys zs. xs = ys @ Acts i True # zs \<and> ready (rt_run P C cfg r ys) i)"

fun rounds_of :: "'v parts \<Rightarrow> 'v codec \<Rightarrow> Config \<Rightarrow> 'v Runtime \<Rightarrow> 'v rt_input list list \<Rightarrow> bool" where
  "rounds_of P C cfg r [] = True"
| "rounds_of P C cfg r (xs # sweeps) \<longleftrightarrow> round_of P C cfg r xs \<and> rounds_of P C cfg (rt_run P C cfg r xs) sweeps"

lemma length_actions_step: "\<not> begins x \<Longrightarrow> length (actions (rt_step P C cfg r x)) = length (actions r)"
proof (cases x)
  case (Acts i el)
  show ?thesis
  proof (cases "i < length (actions r)")
    case True
    then show ?thesis
    proof (cases rule: act_turns [where P = P and C = C and cfg = cfg and el = el])
      case (acquires lock rest)
      from acquires_parts [OF acquires(3) [symmetric]] show ?thesis by (auto simp: Acts)
    qed (simp_all add: Acts)
  qed (simp add: Acts act_def)
qed auto

lemma run_work:
  assumes "list_all (\<lambda>x. \<not> begins x) xs"
  shows "length (actions (rt_run P C cfg r xs)) = length (actions r) \<and>
    (stages (rt_run P C cfg r xs) = stages r \<and> mutexes (rt_run P C cfg r xs) = mutexes r \<and>
       (\<forall>i ys zs. xs = ys @ Acts i True # zs \<longrightarrow> ready (rt_run P C cfg r ys) i \<longrightarrow> i < length (actions r) \<longrightarrow>
          \<not> can_turn r i) \<or>
     work_left (control_config cfg) (rt_run P C cfg r xs) < work_left (control_config cfg) r)"
  using assms
proof (induction xs arbitrary: r)
  case (Cons x xs)
  let ?r = "rt_step P C cfg r x" and ?cfg = "control_config cfg"
  let ?last = "rt_run P C cfg ?r xs"
  have nb: "\<not> begins x" using Cons.prems by simp
  have run: "rt_run P C cfg r (x # ys) = rt_run P C cfg ?r ys" for ys by (simp add: rt_run_def)
  note len = length_actions_step [OF nb, of P C cfg r]
  from Cons.IH [of ?r] Cons.prems have IH: "length (actions ?last) = length (actions ?r)"
    "stages ?last = stages ?r \<and> mutexes ?last = mutexes ?r \<and>
       (\<forall>i ys zs. xs = ys @ Acts i True # zs \<longrightarrow> ready (rt_run P C cfg ?r ys) i \<longrightarrow> i < length (actions ?r) \<longrightarrow>
          \<not> can_turn ?r i) \<or> work_left ?cfg ?last < work_left ?cfg ?r" by simp_all
  have less: "work_left ?cfg ?last < work_left ?cfg r" if "work_left ?cfg ?r < work_left ?cfg r \<or> work_left ?cfg ?last < work_left ?cfg ?r"
  proof -
    have "work_left ?cfg ?r \<le> work_left ?cfg r" using step_work [OF nb, of P C cfg r] by (auto simp: work_left_stages)
    moreover have "work_left ?cfg ?last \<le> work_left ?cfg ?r" using IH(2) by (auto simp: work_left_stages)
    ultimately show ?thesis using that by linarith
  qed
  show ?case
  proof (cases "work_left ?cfg ?r < work_left ?cfg r \<or> work_left ?cfg ?last < work_left ?cfg ?r")
    case True
    with less IH(1) len show ?thesis unfolding run by simp
  next
    case False
    with step_work [OF nb, of P C cfg r] have first: "stages ?r = stages r" "mutexes ?r = mutexes r"
      "\<And>i. x = Acts i True \<Longrightarrow> i < length (actions r) \<Longrightarrow> ready r i \<Longrightarrow> \<not> can_turn r i" by blast+
    have "\<not> can_turn r i" if split: "x # xs = ys @ Acts i True # zs" and go: "ready (rt_run P C cfg r ys) i"
      and i: "i < length (actions r)" for i ys zs
    proof (cases ys)
      case Nil
      with split go i first(3) [of i] show ?thesis by (simp add: rt_run_def)
    next
      case (Cons y ys')
      with split go have "xs = ys' @ Acts i True # zs" "ready (rt_run P C cfg ?r ys') i" by (auto simp: rt_run_def)
      with False IH(2) i len have "\<not> can_turn ?r i" by auto
      with can_turn_cong [OF first(1,2) i] show ?thesis by simp
    qed
    with False IH first(1,2) len show ?thesis unfolding run by auto
  qed
qed (simp add: rt_run_def)

lemma round_work:
  assumes "locks_held r" "round_of P C cfg r xs" "\<exists>a \<in> set (actions r). \<not> over (stage a)"
  shows "work_left (control_config cfg) (rt_run P C cfg r xs) < work_left (control_config cfg) r"
proof -
  from assms(3) obtain i where "i < length (actions r)" "\<not> over (stage (actions r ! i))" by (metis in_set_conv_nth)
  from no_deadlock [OF assms(1) this] obtain j where j: "j < length (actions r)" "can_turn r j" by blast
  with assms(2) obtain ys zs where "xs = ys @ Acts j True # zs" "ready (rt_run P C cfg r ys) j"
    by (auto simp: round_of_def)
  with j run_work [of xs P C cfg r] assms(2) show ?thesis unfolding round_of_def by blast
qed

lemma over_stays:
  assumes "\<forall>a \<in> set (actions r). over (stage a)" "list_all (\<lambda>x. \<not> begins x) xs"
  shows "\<forall>a \<in> set (actions (rt_run P C cfg r xs)). over (stage a)"
proof -
  have none: "effort (control_config cfg) st = 0 \<longleftrightarrow> over st" for st :: "'a Stage"
    by (cases st) (simp_all add: effort_def Let_def)
  have "work_left (control_config cfg) r = 0" using assms(1) none by (simp add: work_left_def)
  moreover from run_work [OF assms(2), of P C cfg r]
  have "work_left (control_config cfg) (rt_run P C cfg r xs) \<le> work_left (control_config cfg) r"
    by (auto simp: work_left_stages)
  ultimately have "work_left (control_config cfg) (rt_run P C cfg r xs) = 0" by simp
  then show ?thesis by (simp add: work_left_def none)
qed

lemma rounds_begin_nothing: "rounds_of P C cfg r sweeps \<Longrightarrow> list_all (\<lambda>x. \<not> begins x) (concat sweeps)"
  by (induction sweeps arbitrary: r) (auto simp: round_of_def)

lemma rounds_work:
  assumes "locks_held r" "rounds_of P C cfg r sweeps" "work_left (control_config cfg) r \<le> length sweeps"
  shows "\<forall>a \<in> set (actions (rt_run P C cfg r (concat sweeps))). over (stage a)"
  using assms
proof (induction sweeps arbitrary: r)
  case Nil
  have "effort (control_config cfg) st = 0 \<longleftrightarrow> over st" for st :: "'a Stage"
    by (cases st) (simp_all add: effort_def Let_def)
  with Nil show ?case by (simp add: rt_run_def work_left_def)
next
  case (Cons xs sweeps)
  let ?r = "rt_run P C cfg r xs"
  have xs: "round_of P C cfg r xs" "list_all (\<lambda>x. \<not> begins x) xs" "rounds_of P C cfg ?r sweeps"
    using Cons.prems(2) by (simp_all add: round_of_def)
  have run: "rt_run P C cfg r (concat (xs # sweeps)) = rt_run P C cfg ?r (concat sweeps)" by (simp add: rt_run_def)
  show ?case
  proof (cases "\<exists>a \<in> set (actions r). \<not> over (stage a)")
    case True
    from round_work [OF Cons.prems(1) xs(1) True] Cons.prems(3)
    have "work_left (control_config cfg) ?r \<le> length sweeps" by simp
    moreover have "locks_held ?r" unfolding rt_run_def by (rule locks.run_inv [OF Cons.prems(1)]) simp
    ultimately show ?thesis unfolding run using Cons.IH [of ?r] xs(3) by simp
  next
    case False
    then have "\<forall>a \<in> set (actions ?r). over (stage a)" using over_stays [OF _ xs(2)] by blast
    from over_stays [OF this rounds_begin_nothing [OF xs(3)]] show ?thesis unfolding run .
  qed
qed

lemma effort_bound: "effort cfg st \<le> 4 * not_written_retries cfg + 8"
  by (cases st) (simp_all add: effort_def Let_def)

lemma work_left_bound: "work_left cfg r \<le> length (actions r) * (4 * not_written_retries cfg + 8)"
proof -
  have "sum_list (map (\<lambda>a. effort cfg (stage a)) as) \<le> length as * (4 * not_written_retries cfg + 8)" for as :: "'a Action list"
    by (induction as) (use effort_bound in \<open>auto intro: add_mono\<close>)
  then show ?thesis by (simp add: work_left_def)
qed

section \<open>The order at a mutex\<close>

lemma actions_grow: "length (actions r) \<le> length (actions (rt_step P C cfg r x))"
proof (cases "begins x")
  case True
  then show ?thesis by (cases x) auto
qed (simp add: length_actions_step)

lemma over_stays_step:
  assumes "i < length (actions r)" "over (stage (actions r ! i))"
  shows "over (stage (actions (rt_step P C cfg r x) ! i))"
proof (cases x)
  case (Acts j el)
  show ?thesis
  proof (cases "j < length (actions r) \<and> j = i")
    case True
    then show ?thesis using assms by (cases "stage (actions r ! i)") (simp_all add: Acts act_def)
  next
    case False
    then have "actions (act P C cfg j el r) ! i = actions r ! i"
    proof (cases "j < length (actions r)")
      case True
      then show ?thesis
      proof (cases rule: act_turns [where P = P and C = C and cfg = cfg and el = el])
        case (acquires lock rest)
        with False True acquires_parts [OF acquires(3) [symmetric]] show ?thesis by auto
      qed (use False True in simp_all)
    qed (simp add: act_def)
    with assms show ?thesis by (simp add: Acts)
  qed
qed (use assms in \<open>auto simp: nth_append nth_list_update\<close>)

lemma step_line:
  obtains (same) "mutexes (rt_step P C cfg r x) l = mutexes r l"
  | (joins) k where "mutexes (rt_step P C cfg r x) l = mutexes r l @ [k]"
  | (leaves) k where "mutexes (rt_step P C cfg r x) l = removeAll k (mutexes r l)" "k < length (actions r)"
      "over (stage (actions (rt_step P C cfg r x) ! k))"
proof (cases x)
  case (Acts i el)
  show thesis
  proof (cases "i < length (actions r)")
    case True
    then show thesis
    proof (cases rule: act_turns [where P = P and C = C and cfg = cfg and el = el])
      case (enters lock c)
      then show thesis using same joins by (cases "l = lock") (simp_all add: Acts)
    next
      case (acquires lock rest)
      have "mutexes (act P C cfg i el r) = mutexes r" using acquires_parts [OF acquires(3) [symmetric]] by auto
      then show thesis by (intro same) (simp add: Acts)
    next
      case (advances h ys a')
      then show thesis using same leaves True by (cases "over (stage a')") (simp_all add: Acts)
    qed (use same Acts in simp)
  qed (use same Acts in \<open>simp add: act_def\<close>)
next
  case (Abandons i)
  then show thesis using same leaves [of i]
    by (cases "i < length (actions r) \<and> \<not> over (stage (actions r ! i))") auto
qed (use same in auto)

text \<open>The tasks ahead of \<open>j\<close> at a mutex are still ahead, or over.\<close>

definition behind :: "'v Runtime \<Rightarrow> nat \<Rightarrow> nat list \<Rightarrow> nat \<Rightarrow> bool" where
  "behind r l ahead j \<longleftrightarrow> j < length (actions r) \<and> (\<forall>i \<in> set ahead. i < length (actions r)) \<and>
     (over (stage (actions r ! j)) \<or>
      (\<exists>xs ys. mutexes r l = xs @ j # ys \<and> (\<forall>i \<in> set ahead. i \<in> set xs \<or> over (stage (actions r ! i)))))"

lemma behind_step:
  assumes "behind r l ahead j"
  shows "behind (rt_step P C cfg r x) l ahead j"
proof -
  let ?r = "rt_step P C cfg r x"
  have len: "j < length (actions ?r)" "\<forall>i \<in> set ahead. i < length (actions ?r)"
    using assms actions_grow [of r P C cfg x] by (auto simp: behind_def)
  have keep: "over (stage (actions r ! i)) \<Longrightarrow> i < length (actions r) \<Longrightarrow> over (stage (actions ?r ! i))" for i
    by (rule over_stays_step)
  show ?thesis
  proof (cases "over (stage (actions ?r ! j))")
    case False
    then have "\<not> over (stage (actions r ! j))" using keep assms by (auto simp: behind_def)
    then obtain xs ys where q: "mutexes r l = xs @ j # ys" "\<forall>i \<in> set ahead. i \<in> set xs \<or> over (stage (actions r ! i))"
      using assms by (auto simp: behind_def)
    have q2: "\<forall>i \<in> set ahead. i \<in> set xs \<or> over (stage (actions ?r ! i))"
      using q(2) keep assms by (auto simp: behind_def)
    show ?thesis
    proof (cases rule: step_line [of P C cfg r x l])
      case same
      with q q2 len show ?thesis unfolding behind_def by metis
    next
      case (joins k)
      then have "mutexes ?r l = xs @ j # (ys @ [k])" using q(1) by simp
      with q2 len show ?thesis unfolding behind_def by blast
    next
      case (leaves k)
      then have "k \<noteq> j" using False by auto
      with leaves(1) q(1) have "mutexes ?r l = removeAll k xs @ j # removeAll k ys" by simp
      moreover have "\<forall>i \<in> set ahead. i \<in> set (removeAll k xs) \<or> over (stage (actions ?r ! i))"
        using q2 leaves(3) by auto
      ultimately show ?thesis unfolding behind_def using len by blast
    qed
  qed (use len in \<open>simp add: behind_def\<close>)
qed

interpretation order: preserved_by "rt_step P C cfg" "\<lambda>r. behind r l ahead j" "\<lambda>_ _. True" for P C cfg l ahead j
  by unfold_locales (rule behind_step)

end
