(* ===== verification/Action_Outcomes.thy ===== *)
theory Action_Outcomes
  imports Actions
begin

text \<open>
  What the outcome of an action says, in any run of the system with its actions: how many frames of
  it were ever written, and that it is the outcome the direct reading of \<open>interrupt\<close>, \<open>steer\<close> or
  \<open>start\<close> gives on the answers the action got and the events received while it watched.
\<close>

section \<open>The parts of the system move by their own steps\<close>

text \<open>A part of a state whose moves, in any step of the whole, are steps of its own.\<close>

locale moving_part =
  fixes step :: "'r \<Rightarrow> 'x \<Rightarrow> 'r" and ok :: "'r \<Rightarrow> 'x \<Rightarrow> bool"
    and part :: "'r \<Rightarrow> 's"
    and sub :: "'s \<Rightarrow> 'y \<Rightarrow> 's" and sub_ok :: "'s \<Rightarrow> 'y \<Rightarrow> bool"
  assumes moves: "ok r x \<Longrightarrow> \<exists>ys. admissible sub sub_ok (part r) ys \<and> part (step r x) = foldl sub (part r) ys"
begin

lemma moves_run:
  "admissible step ok r xs \<Longrightarrow> \<exists>ys. admissible sub sub_ok (part r) ys \<and> part (foldl step r xs) = foldl sub (part r) ys"
proof (induction xs arbitrary: r)
  case Nil
  show ?case by (intro exI [of _ "[]"]) simp
next
  case (Cons x xs)
  from Cons.prems moves [of r x] obtain ys where
    ys: "admissible sub sub_ok (part r) ys" "part (step r x) = foldl sub (part r) ys" by auto
  from Cons.prems Cons.IH [of "step r x"] obtain zs where
    "admissible sub sub_ok (part (step r x)) zs" "part (foldl step (step r x) xs) = foldl sub (part (step r x)) zs" by auto
  with ys show ?case by (intro exI [of _ "ys @ zs"]) (simp add: admissible_append)
qed

lemma part_inv:
  assumes "\<And>s y. Q s \<Longrightarrow> sub_ok s y \<Longrightarrow> Q (sub s y)" "Q (part r)" "ok r x"
  shows "Q (part (step r x))"
proof -
  have "admissible sub sub_ok s ys \<Longrightarrow> Q s \<Longrightarrow> Q (foldl sub s ys)" for s ys
    by (induction ys arbitrary: s) (auto intro: assms(1))
  with moves [OF assms(3)] assms(2) show ?thesis by metis
qed

end

lemma core_moves_link:
  assumes "core_admits s x"
  shows "\<exists>ys. admissible (link_step (api P) C (transport_config cfg)) link_admits (core_link s) ys \<and>
    core_link (core_step P C cfg s x) = foldl (link_step (api P) C (transport_config cfg)) (core_link s) ys"
proof -
  from core_step_coherent [OF assms, of P C cfg]
  consider "core_link (core_step P C cfg s x) = core_link s"
    | y where "link_admits (core_link s) y"
        "core_link (core_step P C cfg s x) = link_step (api P) C (transport_config cfg) (core_link s) y"
    unfolding coherent_def link_moves_def by blast
  then show ?thesis
  proof cases
    case 1
    then show ?thesis by (intro exI [of _ "[]"]) simp
  next
    case (2 y)
    then show ?thesis by (intro exI [of _ "[y]"]) simp
  qed
qed

interpretation link_part: moving_part "core_step P C cfg" core_admits core_link
  "link_step (api P) C (transport_config cfg)" link_admits for P C cfg
  by unfold_locales (rule core_moves_link)

text \<open>The system within a run with actions.\<close>

lemma advance_inputs:
  assumes "advance P cfg el s a = (xs, a')"
  shows "xs = [] \<or> (\<exists>action m p. xs = [OnLink (Submit action m p)])"
  using assms
  by (cases "stage a") (auto simp: advance_def sends_def Let_def split: sum.splits option.splits if_splits)

lemma acquires_core:
  "rt_core (acquires P C cfg i lock a r) =
     (case wanted_waiter (wanted a) of None \<Rightarrow> rt_core r
      | Some p \<Rightarrow> core_step P C cfg (rt_core r) (RegistersWaiter p))"
  by (simp add: acquires_def Let_def split: option.split prod.split)

lemma rt_one_core:
  obtains (none) "rt_core (rt_step P C cfg r x) = rt_core r"
  | (system) y where "x = System y" "rt_core (rt_step P C cfg r x) = core_step P C cfg (rt_core r) y"
  | (submits) i el action m p where "x = Acts i el"
      "rt_core (rt_step P C cfg r x) = core_step P C cfg (rt_core r) (OnLink (Submit action m p))"
  | (registers) i el p where "x = Acts i el" "rt_core (rt_step P C cfg r x) = core_step P C cfg (rt_core r) (RegistersWaiter p)"
proof (cases x)
  case (System y)
  with none system show thesis by (cases "of_an_action y") (simp_all del: core_step.simps)
next
  case (Acts i el)
  show thesis
  proof (cases "i < length (actions r)")
    case True
    then show thesis
    proof (cases rule: act_turns [where P = P and C = C and cfg = cfg and el = el])
      case (acquires lock rest)
      with none registers Acts show thesis
        by (cases "wanted_waiter (wanted (actions r ! i))") (simp_all add: acquires_core del: core_step.simps)
    next
      case (advances h xs a')
      then have "rt_core (rt_step P C cfg r x) = core_run P C cfg (rt_core r) xs" by (simp add: Acts)
      with advance_inputs [OF advances(2)] none submits Acts show thesis by (auto simp: core_run_def simp del: core_step.simps)
    qed (use none Acts in simp_all)
  qed (use none Acts in \<open>simp add: act_def\<close>)
qed (use none in simp_all)

lemma rt_moves_core:
  assumes "rt_admits r x"
  shows "\<exists>ys. admissible (core_step P C cfg) core_admits (rt_core r) ys \<and>
    rt_core (rt_step P C cfg r x) = foldl (core_step P C cfg) (rt_core r) ys"
proof -
  have one: ?thesis if "rt_core (rt_step P C cfg r x) = core_step P C cfg (rt_core r) y" "core_admits (rt_core r) y" for y
    using that by (intro exI [of _ "[y]"]) simp
  show ?thesis
  proof (cases rule: rt_one_core [of P C cfg r x])
    case none
    then show ?thesis by (intro exI [of _ "[]"]) simp
  next
    case (system y)
    with assms show ?thesis by (intro one [OF system(2)]) simp
  next
    case (submits i el action m p)
    with assms show ?thesis by (intro one [OF submits(2)]) simp
  next
    case (registers i el p)
    then show ?thesis by (intro one [OF registers(2)]) simp
  qed
qed

interpretation core_part: moving_part "rt_step P C cfg" rt_admits rt_core "core_step P C cfg" core_admits for P C cfg
  by unfold_locales (rule rt_moves_core)

text \<open>An action exists only once a handle does, and the handle stays.\<close>

lemma handle_minted_step:
  assumes "handle_minted (main s)"
  shows "handle_minted (main (core_step P C cfg s x))"
proof (cases x)
  case IngressTakes
  with assms show ?thesis
    by (cases "ingress_takes (core_parts P cfg) (ingress (core_link s) ! taken s) s")
       (auto dest!: ingress_takes_effect)
next
  case (SignalRuns i ans clk el)
  with assms show ?thesis
    by (auto split: prod.split option.split simp del: discover_step.simps)
next
  case (MainRuns ans clk el)
  with assms show ?thesis
    by (cases "main s") (auto simp: main_step_def)
next
  case (WatcherRuns ans clk el)
  have "main (watcher_step (core_parts P cfg) cfg ans clk el s) = main s"
    by (auto simp: watcher_step_def marks_def split: watcher_pc.split reconcile_pc.split sum.split option.split prod.split)
  with assms WatcherRuns show ?thesis by simp
next
  case (CleanupRuns order)
  with assms show ?thesis by (auto simp: cleanup_step_def split: cleanup_pc.split)
qed (use assms in \<open>auto simp: shutdown_called_def watcher_woken_def\<close>)

lemma core_run_nil [simp]: "core_run P C cfg s [] = s"
  by (simp add: core_run_def)

lemma minted_core_run: "handle_minted (main s) \<Longrightarrow> handle_minted (main (core_run P C cfg s xs))"
  unfolding core_run_def by (induction xs arbitrary: s) (simp_all add: handle_minted_step del: core_step.simps)

definition minted :: "'v Runtime \<Rightarrow> bool" where
  "minted r \<longleftrightarrow> (actions r = [] \<or> handle_minted (main (rt_core r)))"

lemma minted_step: "minted r \<Longrightarrow> minted (rt_step P C cfg r x)"
proof (cases x)
  case (System y)
  then show "minted r \<Longrightarrow> ?thesis" by (auto simp: minted_def handle_minted_step simp del: core_step.simps)
next
  case (Acts i el)
  assume ok: "minted r"
  show ?thesis
  proof (cases "i < length (actions r)")
    case True
    then have h: "handle_minted (main (rt_core r))" using ok by (auto simp: minted_def)
    from True have "handle_minted (main (rt_core (act P C cfg i el r)))"
    proof (cases rule: act_turns [where P = P and C = C and cfg = cfg and el = el])
      case (acquires lock rest)
      with h handle_minted_step [OF h] show ?thesis by (simp add: acquires_core del: core_step.simps split: option.split)
    next
      case (advances g xs a')
      with minted_core_run [OF h] show ?thesis by simp
    qed (use h in simp_all)
    then show ?thesis by (simp add: Acts minted_def)
  qed (use ok in \<open>simp add: Acts act_def\<close>)
qed (auto simp: minted_def)

section \<open>The frames of an action\<close>

lemma replies_drive_frame: "\<exists>new. replies (drive_frame J clk el b f s) = replies s @ new"
  by (auto simp: drive_frame_def Let_def answer_pending_def pending_remove_def drive_exit_replies
      split: IncomingFrame.split option.split)

lemma replies_loop_step: "\<exists>new. replies (loop_step J C cfg x s) = replies s @ new"
proof (cases "pc s")
  case Driving
  have "\<exists>new. replies (drive_read J C clk el b r s) = replies s @ new" for clk el b r
    using drive_read_cases [of J C clk el b r s]
    by (elim disjE exE) (simp_all add: replies_drive_frame drive_exit_replies)
  moreover have "\<exists>new. replies (drive_command J failure c (s\<lparr>queue := cs\<rparr>)) = replies s @ new" for failure c cs
    by (cases c; cases failure) (simp_all add: drive_command_def drive_exit_replies)
  ultimately show ?thesis
    using Driving by (cases x) (auto simp: loop_step_def drive_tick_def drive_exit_replies split: list.split)
next
  case (BackingOff d)
  show ?thesis
  proof (cases x)
    case (TakeCommand failure)
    with BackingOff show ?thesis
      by (cases "queue s"; cases "hd (queue s)") (auto simp: loop_step_def reject_while_disconnected_def)
  qed (use BackingOff in \<open>auto simp: loop_step_def reject_while_disconnected_def\<close>)
qed (cases x; auto simp: loop_step_def split: option.split)+

lemma answer_on_step: "answer_on s ch = Some a \<Longrightarrow> answer_on (link_step J C cfg s x) ch = Some a"
proof -
  assume a: "answer_on s ch = Some a"
  have "\<exists>new. replies (link_step J C cfg s x) = replies s @ new"
    using replies_loop_step
    by (cases x) (auto simp: submit_def notify_def mark_defs shutdown_def take_ingress_def Let_def)
  with a show ?thesis by (auto simp: answer_on_def map_add_Some_iff)
qed

text \<open>
  A submission that left nothing behind and never will: answered as not written, or never
  taken by a loop that has ended.
\<close>

definition void :: "'v Link \<Rightarrow> nat \<times> RpcId \<Rightarrow> bool" where
  "void l x \<longleftrightarrow> (\<exists>d. answer_on l (fst x) = Some (Inl (NotWritten d))) \<or>
     pc l = loop_pc.Stopped \<and> answer_on l (fst x) = None"

definition fated :: "'v json \<Rightarrow> 'v Link \<Rightarrow> 'v Wanted \<Rightarrow> nat \<times> RpcId \<Rightarrow> bool" where
  "fated J l w x \<longleftrightarrow> fate J l (fst x) (snd x) (wanted_method w) (wanted_params J w)"

definition answered_last :: "'v Link \<Rightarrow> (nat \<times> RpcId) list \<Rightarrow> 'v answer \<Rightarrow> bool" where
  "answered_last l xs a \<longleftrightarrow> xs \<noteq> [] \<and> answer_on l (fst (last xs)) = Some a"

lemma void_no_frames: "link_ok J l \<Longrightarrow> fated J l w x \<Longrightarrow> void l x \<Longrightarrow> frames_of J l (snd x) = []"
  unfolding void_def fated_def
  by (auto dest: dropped_fate answered_fate simp: settled_def)

text \<open>What a stage says of the submissions made so far.\<close>

fun outcome_told :: "'v Link \<Rightarrow> (nat \<times> RpcId) list \<Rightarrow> 'v ActionOutcome \<Rightarrow> bool" where
  "outcome_told l xs (ActionRejected target reason None) = (\<forall>x \<in> set xs. void l x)"
| "outcome_told l xs (ActionRejected target reason (Some e)) = (\<exists>m. answered_last l xs (Inl (Rejected m e)))"
| "outcome_told l xs (Confirmed target ev) = (rpc_accepted ev \<longrightarrow> (\<exists>v. answered_last l xs (Inr v)))"
| "outcome_told l xs (OutcomeUnknown target ev) = (rpc_accepted ev \<longrightarrow> (\<exists>v. answered_last l xs (Inr v)))"

fun stage_told :: "'v Link \<Rightarrow> (nat \<times> RpcId) list \<Rightarrow> 'v Stage \<Rightarrow> bool" where
  "stage_told l xs Arrived = (xs = [])"
| "stage_told l xs (InLine lock) = (xs = [])"
| "stage_told l xs (Sending h k) = (\<forall>x \<in> set xs. void l x)"
| "stage_told l xs (Offering h k) = (\<forall>x \<in> set xs. void l x)"
| "stage_told l xs (Pausing h k) = (\<forall>x \<in> set xs. void l x)"
| "stage_told l xs (Asking h k ch) = (xs \<noteq> [] \<and> fst (last xs) = ch)"
| "stage_told l xs (Watching h v) = answered_last l xs (Inr v)"
| "stage_told l xs (ToRead h b) = (b \<longrightarrow> (\<exists>v. answered_last l xs (Inr v)))"
| "stage_told l xs (AskingRead h b ch) = (b \<longrightarrow> (\<exists>v. answered_last l xs (Inr v)))"
| "stage_told l xs (Concluded out) = outcome_told l xs out"
| "stage_told l xs Abandoned = True"

definition told :: "'v json \<Rightarrow> 'v Link \<Rightarrow> 'v Action \<Rightarrow> bool" where
  "told J l a \<longleftrightarrow> (\<forall>x \<in> set (submissions a). fated J l (wanted a) x) \<and>
     (\<forall>x \<in> set (butlast (submissions a)). void l x) \<and> stage_told l (submissions a) (stage a)"

text \<open>It stays so whatever the link does.\<close>

lemma void_step: "void l x \<Longrightarrow> void (link_step J C cfg l y) x"
proof -
  assume v: "void l x"
  have "answer_on (link_step J C cfg l y) (fst x) = None" "pc (link_step J C cfg l y) = loop_pc.Stopped"
    if "pc l = loop_pc.Stopped" "answer_on l (fst x) = None"
    using that stopped_step [OF that(1), of J C cfg y] by (simp_all add: answer_on_def)
  with v answer_on_step show ?thesis unfolding void_def by metis
qed

lemma answered_last_step: "answered_last l xs a \<Longrightarrow> answered_last (link_step J C cfg l y) xs a"
  by (simp add: answered_last_def answer_on_step)

lemma stage_told_step: "stage_told l xs st \<Longrightarrow> stage_told (link_step J C cfg l y) xs st"
proof (cases st)
  case (Concluded out)
  then show "stage_told l xs st \<Longrightarrow> ?thesis"
    by (cases "(l, xs, out)" rule: outcome_told.cases) (auto intro: void_step dest: answered_last_step)
qed (auto intro: void_step dest: answered_last_step)

lemma told_step:
  assumes "told J l a" "link_ok J l" "link_admits l y"
  shows "told J (link_step J C cfg l y) a"
proof -
  have "fated J (link_step J C cfg l y) (wanted a) x" if "fated J l (wanted a) x" for x
    using fate_step [OF assms(2) _ assms(3)] that by (simp add: fated_def)
  with assms(1) stage_told_step [of l _ _ J C cfg y] void_step [of l _ J C cfg y] show ?thesis by (auto simp: told_def)
qed

text \<open>What an answer tells of the submissions that led to it.\<close>

fun heard_ok :: "'v Link \<Rightarrow> (nat \<times> RpcId) list \<Rightarrow> 'v answer \<Rightarrow> bool" where
  "heard_ok l xs (Inr v) = answered_last l xs (Inr v)"
| "heard_ok l xs (Inl (NotWritten d)) = (\<forall>x \<in> set xs. void l x)"
| "heard_ok l xs (Inl TransportClosed) = (\<forall>x \<in> set xs. void l x)"
| "heard_ok l xs (Inl (Rejected m e)) = answered_last l xs (Inl (Rejected m e))"
| "heard_ok l xs (Inl _) = True"

lemma after_answer_told: "heard_ok l xs x \<Longrightarrow> stage_told l xs (after_answer J D cfg w h k x)"
  by (cases "(l, xs, x)" rule: heard_ok.cases; cases w)
     (auto simp: after_answer_def send_decided_def response_outcome_def start_outcome_def unknown_def)

lemma window_closed_told:
  "answered_last l xs (Inr v) \<Longrightarrow> stage_told l xs (window_closed J D w h v mail)"
  by (cases w; cases mail)
     (auto simp: window_closed_def response_outcome_def start_outcome_def unknown_def observed_def Let_def)

lemma read_outcome_told [simp]:
  "outcome_told l xs (read_outcome J target n b x) \<longleftrightarrow> (b \<longrightarrow> (\<exists>v. answered_last l xs (Inr v)))"
  by (simp add: read_outcome_def unknown_def Let_def)

lemma submits_refused: "submits action m p l = Some (Inl e) \<Longrightarrow> e = NotWritten ''reconciliation gate is closed'' \<or> e = TransportClosed"
  by (auto simp: submits_def submit_def split: if_splits sum.splits)

lemma submits_accepted:
  assumes "submits action m p l = Some (Inr ch)"
  shows "pc l \<noteq> loop_pc.Stopped \<and> submit action m p l = (Inr ch, link_step J C cfg l (Submit action m p))"
  using assms by (auto simp: submits_def submit_def split: if_splits sum.splits)

lemma heard_refused: "submits action m p l = Some (Inl e) \<Longrightarrow> \<forall>x \<in> set xs. void l x \<Longrightarrow> heard_ok l xs (Inl e)"
  using submits_refused [of action m p l e] by auto

lemma all_but_last: "xs \<noteq> [] \<Longrightarrow> \<forall>x \<in> set (butlast xs). Q x \<Longrightarrow> Q (last xs) \<Longrightarrow> \<forall>x \<in> set xs. Q x"
  by (cases xs rule: rev_cases) auto

lemma heard_waited:
  assumes ok: "link_ok J l" and f: "fated J l w (last xs)" and b: "\<forall>x \<in> set (butlast xs). void l x"
    and xs: "xs \<noteq> []" "fst (last xs) = ch" and w: "waited_on l ch el = Some x"
  shows "heard_ok l xs (request_result m x)"
proof (cases x)
  case (Replied a)
  then have on: "answer_on l ch = Some a" using w by (auto simp: waited_on_def split: option.splits if_splits)
  have "carried a" using answered_fate [OF ok _ on] f xs(2) by (simp add: fated_def settled_def)
  with on xs all_but_last [OF xs(1) b] Replied show ?thesis
    by (cases "(l, xs, a)" rule: heard_ok.cases) (auto simp: answered_last_def void_def)
next
  case Dropped
  then have "pc l = loop_pc.Stopped" "answer_on l ch = None"
    using w by (auto simp: waited_on_def split: option.splits if_splits)
  with all_but_last [OF xs(1) b] xs(2) Dropped show ?thesis by (simp add: void_def)
qed simp

text \<open>A turn of the action keeps it true.\<close>

lemma submit_run:
  assumes "handle_minted (main s)"
  shows "core_link (core_run P C cfg s [OnLink (Submit action m p)]) =
    link_step (api P) C (transport_config cfg) (core_link s) (Submit action m p)"
  using assms by (simp add: core_run_def)

lemma sends_told:
  assumes t: "told (api P) (core_link s) a" and ok: "link_ok (api P) (core_link s)" and h: "handle_minted (main s)"
    and room: "unat (next_id (core_link s)) + 1 < 2 ^ 64"
    and void: "\<forall>x \<in> set (submissions a). void (core_link s) x"
    and adv: "sends P cfg gated g k s a = (xs, a')"
  shows "told (api P) (core_link (core_run P C cfg s xs)) a'"
proof -
  let ?l = "core_link s" and ?m = "wanted_method (wanted a)" and ?p = "wanted_params (api P) (wanted a)"
  have admits: "link_admits ?l (Submit gated ?m ?p)" using room by simp
  show ?thesis
  proof (cases "submits gated ?m ?p ?l")
    case None
    with adv t void show ?thesis by (auto simp: sends_def told_def core_run_def Let_def)
  next
    case (Some r)
    show ?thesis
    proof (cases r)
      case (Inl e)
      with adv t Some after_answer_told [OF heard_refused [OF Some [unfolded Inl] void]] show ?thesis
        by (auto simp: sends_def told_def core_run_def Let_def)
    next
      case (Inr ch)
      note acc = submits_accepted [OF Some [unfolded Inr], of "api P" C "transport_config cfg"]
      have parts: "xs = [OnLink (Submit gated ?m ?p)]"
        "a' = a\<lparr>stage := Asking g k ch, submissions := submissions a @ [(ch, Number (next_id ?l))]\<rparr>"
        using adv Some Inr by (auto simp: sends_def Let_def)
      have "fated (api P) (link_step (api P) C (transport_config cfg) ?l (Submit gated ?m ?p)) (wanted a) (ch, Number (next_id ?l))"
        using submit_begins_fate [OF ok admits conjunct2 [OF acc]] by (simp add: fated_def)
      moreover have "\<forall>x \<in> set (submissions a). void (link_step (api P) C (transport_config cfg) ?l (Submit gated ?m ?p)) x"
        using void by (auto intro: void_step simp del: link_step.simps)
      ultimately show ?thesis using told_step [OF t ok admits, of C "transport_config cfg"]
        unfolding parts(1) submit_run [OF h] by (auto simp: parts(2) told_def simp del: link_step.simps)
    qed
  qed
qed

lemma advance_told:
  assumes t: "told (api P) (core_link s) a" and ok: "link_ok (api P) (core_link s)" and h: "handle_minted (main s)"
    and room: "unat (next_id (core_link s)) + 1 < 2 ^ 64"
    and adv: "advance P cfg el s a = (xs, a')"
  shows "told (api P) (core_link (core_run P C cfg s xs)) a'"
proof -
  let ?l = "core_link s"
  have admits: "link_admits ?l (Submit action m p)" for action m p using room by simp
  have same: "told (api P) (core_link (core_run P C cfg s [])) a'"
    if "submissions a' = submissions a" "wanted a' = wanted a" "stage_told ?l (submissions a) (stage a')"
    using t that by (simp add: told_def core_run_def)
  have moved: "told (api P) (link_step (api P) C (transport_config cfg) ?l (Submit action m p)) a" for action m p
    by (rule told_step [OF t ok admits])
  show ?thesis
  proof (cases "stage a")
    case (Sending g k)
    then have "\<forall>x \<in> set (submissions a). void ?l x" using t by (simp add: told_def)
    from sends_told [OF t ok h room this] adv Sending show ?thesis by (simp add: advance_def Let_def)
  next
    case (Offering g k)
    then have "\<forall>x \<in> set (submissions a). void ?l x" using t by (simp add: told_def)
    from sends_told [OF t ok h room this] adv Offering show ?thesis by (simp add: advance_def Let_def)
  next
    case (Asking g k ch)
    then have sub: "submissions a \<noteq> []" "fst (last (submissions a)) = ch" using t by (simp_all add: told_def)
    show ?thesis
    proof (cases "waited_on ?l ch el")
      case None
      with adv Asking t show ?thesis by (simp add: advance_def core_run_def Let_def)
    next
      case (Some x)
      have "fated (api P) ?l (wanted a) (last (submissions a))" "\<forall>x \<in> set (butlast (submissions a)). void ?l x"
        using t last_in_set [OF sub(1)] by (simp_all add: told_def)
      from heard_waited [OF ok this sub Some]
      have "heard_ok ?l (submissions a) (request_result (wanted_method (wanted a)) x)" .
      from after_answer_told [OF this] adv Asking Some same show ?thesis by (auto simp: advance_def Let_def)
    qed
  next
    case (Pausing g k)
    with adv t show ?thesis by (auto simp: advance_def core_run_def told_def Let_def split: if_splits)
  next
    case (Watching g v)
    then have "answered_last ?l (submissions a) (Inr v)" using t by (simp add: told_def)
    from window_closed_told [OF this] adv Watching t show ?thesis
      by (auto simp: advance_def Let_def told_def core_run_def split: if_splits)
  next
    case (ToRead g b)
    let ?p = "terminal_params (api P) (thread_of (wanted a))"
    show ?thesis
    proof (cases "\<exists>ch. submits False ''thread/read'' ?p ?l = Some (Inr ch)")
      case False
      with adv ToRead t show ?thesis
        by (auto simp: advance_def Let_def told_def core_run_def split: option.splits sum.splits)
    next
      case True
      then obtain ch where parts: "xs = [OnLink (Submit False ''thread/read'' ?p)]" "a' = a\<lparr>stage := AskingRead g b ch\<rparr>"
        using adv ToRead by (auto simp: advance_def Let_def)
      from moved [of False "''thread/read''" ?p] ToRead show ?thesis
        unfolding parts(1) submit_run [OF h] by (simp add: parts(2) told_def del: link_step.simps)
    qed
  next
    case (AskingRead g b ch)
    with adv t show ?thesis
      by (auto simp: advance_def Let_def told_def core_run_def split: option.splits)
  qed (use adv t in \<open>simp_all add: advance_def core_run_def Let_def\<close>)
qed

section \<open>All actions of a run\<close>

definition linked :: "'v json \<Rightarrow> 'v Action \<Rightarrow> 'v Core \<Rightarrow> bool" where
  "linked J a s \<longleftrightarrow> core_link_ok J s \<and> told J (core_link s) a"

lemma linked_step:
  assumes "linked (api P) a s" "core_admits s x"
  shows "linked (api P) a (core_step P C cfg s x)"
proof -
  let ?Q = "\<lambda>l. link_ok (api P) l \<and> receipts_ok (api P) l \<and> told (api P) l a"
  have "?Q (link_step (api P) C (transport_config cfg) l y)" if "?Q l" "link_admits l y" for l y
  proof -
    have "json_laws (api P)" using that by (simp add: link_ok_def)
    then show ?thesis
      using that links.step_inv [of "api P" l y C] receipts_step [of "api P" l y C] told_step [of "api P" l a y C] by blast
  qed
  from link_part.part_inv [where Q = ?Q and P = P and C = C and cfg = cfg and r = s and x = x, OF this] assms show ?thesis
    by (auto simp: linked_def core_link_ok_def)
qed

definition all_told :: "'v json \<Rightarrow> 'v Runtime \<Rightarrow> bool" where
  "all_told J r \<longleftrightarrow> minted r \<and> core_link_ok J (rt_core r) \<and> (\<forall>a \<in> set (actions r). told J (core_link (rt_core r)) a)"

lemma told_new: "submissions a = [] \<Longrightarrow> stage_told l [] (stage a) \<Longrightarrow> told J l a"
  by (simp add: told_def)

text \<open>An action that has not submitted anything yet.\<close>

lemma told_early:
  assumes "told J l a" "stage a = Arrived \<or> stage a = InLine lock"
  shows "submissions a = []"
  using assms by (auto simp: told_def)

lemma acquires_action:
  assumes "acquires P C cfg i lock a r = r'"
  shows "\<exists>a' h. actions r' = (actions r)[i := a'] \<and> submissions a' = submissions a \<and> stage a' = Sending h 0"
  using assms by (auto simp: acquires_def put_def Let_def split: prod.splits option.splits)

lemma all_told_step:
  assumes ok: "all_told (api P) r" and adm: "rt_admits r x"
  shows "all_told (api P) (rt_step P C cfg r x)"
proof -
  let ?r = "rt_step P C cfg r x" and ?J = "api P"
  have old: "linked ?J a (rt_core ?r)" if "a \<in> set (actions r)" for a
    using that ok core_part.part_inv [where Q = "linked ?J a", OF linked_step _ adm]
    by (simp add: linked_def all_told_def)
  have linkok: "core_link_ok ?J (rt_core ?r)"
    using ok core_part.part_inv [where Q = "core_link_ok ?J", OF core_links.step_inv _ adm] by (simp add: all_told_def)
  have "told ?J (core_link (rt_core ?r)) a" if a: "a \<in> set (actions ?r)" for a
  proof (cases "a \<in> set (actions r)")
    case True
    from old [OF this] show ?thesis by (simp add: linked_def)
  next
    case new: False
    show ?thesis
    proof (cases x)
      case (System y)
      with a new show ?thesis by (simp split: if_splits)
    next
      case (Begins w)
      with a new show ?thesis by (auto intro: told_new simp: new_action_def split: if_splits)
    next
      case (Abandons i)
      with a new have "i < length (actions r)" "a = (actions r ! i)\<lparr>stage := Abandoned\<rparr>"
        by (auto dest!: set_update_subset_insert [THEN subsetD] split: if_splits)
      with old [of "actions r ! i"] show ?thesis by (auto simp: linked_def told_def)
    next
      case (Acts i el)
      then have i: "i < length (actions r)" using a new by (auto simp: act_def split: if_splits)
      have mine: "told ?J (core_link (rt_core r)) (actions r ! i)" using ok i by (simp add: all_told_def)
      from i show ?thesis
      proof (cases rule: act_turns [where P = P and C = C and cfg = cfg and el = el])
        case idle
        with a new Acts show ?thesis by simp
      next
        case (enters lock c)
        with a new Acts have "a = (actions r ! i)\<lparr>stage := InLine lock\<rparr>"
          by (auto dest!: set_update_subset_insert [THEN subsetD])
        with told_early [OF mine] enters(1) show ?thesis by (intro told_new) simp_all
      next
        case (acquires lock rest)
        from acquires_action [OF acquires(3) [symmetric]] obtain a' h where
          "actions (act P C cfg i el r) = (actions r)[i := a']" "submissions a' = submissions (actions r ! i)"
          "stage a' = Sending h 0" by blast
        moreover from this a new Acts have "a = a'" by (auto dest!: set_update_subset_insert [THEN subsetD])
        ultimately show ?thesis using told_early [OF mine] acquires(1) by (intro told_new) simp_all
      next
        case (advances h xs a')
        with a new Acts have "a = a'" by (auto dest!: set_update_subset_insert [THEN subsetD])
        moreover have "handle_minted (main (rt_core r))" using ok i by (auto simp: all_told_def minted_def)
        ultimately show ?thesis
          using advance_told [OF mine _ _ _ advances(2)] ok adm Acts
          by (simp add: all_told_def core_link_ok_def advances(3))
      qed
    qed
  qed
  moreover have "minted ?r" using ok by (intro minted_step) (simp add: all_told_def)
  ultimately show ?thesis using linkok by (simp add: all_told_def)
qed

interpretation tales: preserved_by "rt_step P C cfg" "all_told (api P)" rt_admits for P C cfg
  by unfold_locales (rule all_told_step)

lemma begun_told: "json_laws J \<Longrightarrow> begin_core cfg supervised = Some (Inr s) \<Longrightarrow> all_told J (new_runtime s)"
  using begun_link_ok by (auto simp: all_told_def new_runtime_def minted_def)

text \<open>The frames of an action on the socket, and whose they are.\<close>

definition frames_left :: "'v json \<Rightarrow> 'v Link \<Rightarrow> 'v Action \<Rightarrow> 'v list" where
  "frames_left J l a = concat (map (\<lambda>x. frames_of J l (snd x)) (submissions a))"

definition own_frame :: "'v json \<Rightarrow> 'v Wanted \<Rightarrow> 'v \<Rightarrow> bool" where
  "own_frame J w f \<longleftrightarrow> (\<exists>i. f = request J i (wanted_method w) (wanted_params J w))"

lemma frames_left_void:
  "link_ok J l \<Longrightarrow> told J l a \<Longrightarrow> \<forall>x \<in> set (submissions a). void l x \<Longrightarrow> frames_left J l a = []"
  using void_no_frames by (fastforce simp: frames_left_def told_def)

lemma frames_left_last:
  assumes "link_ok J l" "told J l a" "submissions a \<noteq> []"
  shows "frames_left J l a = frames_of J l (snd (last (submissions a)))"
proof -
  obtain xs x where xs: "submissions a = xs @ [x]" using assms(3) by (metis rev_exhaust)
  have "frames_of J l (snd y) = []" if "y \<in> set xs" for y
    using that assms(1,2) void_no_frames [of J l "wanted a" y] by (auto simp: told_def xs)
  then have "concat (map (\<lambda>x. frames_of J l (snd x)) xs) = []" by simp
  then show ?thesis by (simp add: frames_left_def xs)
qed

lemma frames_left_answered:
  assumes "link_ok J l" "told J l a" "answered_last l (submissions a) x"
  shows "\<exists>i. frames_left J l a = leaves x (request J i (wanted_method (wanted a)) (wanted_params J (wanted a)))"
proof -
  have ne: "submissions a \<noteq> []" using assms(3) by (simp add: answered_last_def)
  have "fated J l (wanted a) (last (submissions a))" using assms(2) ne by (simp add: told_def)
  with answered_fate [OF assms(1)] assms(3) frames_left_last [OF assms(1,2) ne] show ?thesis
    by (auto simp: fated_def answered_last_def settled_def)
qed

lemma frames_left_one:
  assumes "link_ok J l" "told J l a"
  shows "length (frames_left J l a) \<le> 1 \<and> list_all (own_frame J (wanted a)) (frames_left J l a)"
proof (cases "submissions a = []")
  case False
  have "fated J l (wanted a) (last (submissions a))" using assms(2) False by (simp add: told_def)
  with fate_frames frames_left_last [OF assms False] show ?thesis by (fastforce simp: fated_def own_frame_def)
qed (simp add: frames_left_def)

text \<open>What an outcome says of them.\<close>

fun frames_by :: "'v ActionOutcome \<Rightarrow> 'v list \<Rightarrow> bool" where
  "frames_by (ActionRejected target reason None) fs = (fs = [])"
| "frames_by (ActionRejected target reason (Some e)) fs = (length fs = 1)"
| "frames_by (Confirmed target ev) fs = (rpc_accepted ev \<longrightarrow> length fs = 1)"
| "frames_by (OutcomeUnknown target ev) fs = (rpc_accepted ev \<longrightarrow> length fs = 1)"

lemma outcome_frames:
  assumes "link_ok J l" "told J l a" "stage a = Concluded out"
  shows "frames_by out (frames_left J l a)"
proof -
  have "outcome_told l (submissions a) out" using assms(2,3) by (simp add: told_def)
  moreover have "length (frames_left J l a) = 1" if "answered_last l (submissions a) x" "\<And>f. leaves x f = [f]" for x
    using frames_left_answered [OF assms(1,2) that(1)] that(2) by auto
  ultimately show ?thesis
    using frames_left_void [OF assms(1,2)]
    by (cases "(l, submissions a, out)" rule: outcome_told.cases) auto
qed

section \<open>The direct reading of an action\<close>

definition direct ::
    "'v json \<Rightarrow> (RpcId \<Rightarrow> string) \<Rightarrow> ControlConfig \<Rightarrow> 'v Wanted \<Rightarrow> 'v answer list \<Rightarrow> 'v reducer_op list \<Rightarrow>
     'v Controller \<Rightarrow> 'v ActionOutcome option" where
  "direct J D cfg w answers during c =
     (case w of
        A_Interrupt t u \<Rightarrow> map_option fst (interrupt J D cfg t u answers during c)
      | A_Steer t u input \<Rightarrow> map_option fst (steer J D cfg t u input answers c)
      | A_Start t input \<Rightarrow> map_option fst (start J D cfg t input answers during c))"

definition registered :: "'v Wanted \<Rightarrow> 'v Reducer \<Rightarrow> 'v Reducer" where
  "registered w red = (case wanted_waiter w of None \<Rightarrow> red | Some p \<Rightarrow> snd (register_waiter p red))"

definition waiter_of :: "'v Wanted \<Rightarrow> 'v Reducer \<Rightarrow> nat option" where
  "waiter_of w red = map_option (\<lambda>p. fst (register_waiter p red)) (wanted_waiter w)"

lemma send_runs:
  assumes "list_all unsent tries" "k + length tries \<le> not_written_retries cfg"
    and "unsent x \<longrightarrow> not_written_retries cfg \<le> k + length tries"
  shows "\<exists>c'. send_not_written_safe cfg k m p (tries @ x # rest) c = Some (x, rest, c') \<and> ct_reducer c' = ct_reducer c"
  using assms
proof (induction tries arbitrary: k c)
  case Nil
  show ?case
  proof (cases x)
    case (Inl e)
    with Nil show ?thesis by (cases e) simp_all
  qed simp
next
  case (Cons y tries)
  then obtain d where y: "y = Inl (NotWritten d)" by (auto simp: unsent_iff)
  with Cons.IH [of "k + 1" "ask True m p c"] Cons.prems show ?case by simp
qed

text \<open>The event in the mailbox of the action's waiter at the end of its window.\<close>

definition mail_of :: "'v json \<Rightarrow> 'v Wanted \<Rightarrow> 'v reducer_op list \<Rightarrow> 'v Controller \<Rightarrow> 'v SequencedEvent option" where
  "mail_of J w during c =
     Option.bind (waiter_of w (ct_reducer c)) (mailbox (foldl (reducer_step J) (registered w (ct_reducer c)) during))"

definition tried :: "ControlConfig \<Rightarrow> 'v answer list \<Rightarrow> 'v answer \<Rightarrow> bool" where
  "tried cfg tries x \<longleftrightarrow> list_all unsent tries \<and> length tries \<le> not_written_retries cfg \<and>
     (unsent x \<longrightarrow> not_written_retries cfg \<le> length tries)"

lemma tried_send:
  "tried cfg tries x \<Longrightarrow>
     \<exists>c'. send_not_written_safe cfg 0 m p (tries @ x # rest) c = Some (x, rest, c') \<and> ct_reducer c' = ct_reducer c"
  by (rule send_runs) (simp_all add: tried_def)

lemma direct_interrupt:
  assumes "tried cfg tries x"
  shows "\<exists>c'. direct J D cfg (A_Interrupt t u) (tries @ x # rest) during c = map_option fst
    (interrupt_conclusion J D t u (next_correlation c) (mail_of J (A_Interrupt t u) during c) x rest (await J during c'))"
proof -
  from tried_send [OF assms, of "''turn/interrupt''" "interrupt_params J t u" rest "prepared t (completes t u) c"]
  obtain c' where "send_not_written_safe cfg 0 ''turn/interrupt'' (interrupt_params J t u) (tries @ x # rest)
      (prepared t (completes t u) c) = Some (x, rest, c')" "ct_reducer c' = snd (register_waiter (completes t u) (ct_reducer c))"
    by auto
  then show ?thesis
    unfolding direct_def Wanted.case interrupt_phases mail_of_def waiter_of_def registered_def
    by (intro exI [of _ c']) simp
qed

lemma direct_steer:
  assumes "tried cfg tries x"
  shows "direct J D cfg (A_Steer t u input) (tries @ x # rest) during c =
    Some (response_outcome J D ''turn/steer'' t u (next_correlation c) x)"
  using tried_send [OF assms, of "''turn/steer''" "steer_params J t u input" rest "snd (take_correlation (snd (lock_for t c)))"]
  by (auto simp: direct_def steer_def rpc_response_action_def steer_params_def Let_def case_prod_unfold)

lemma direct_start:
  assumes "tried cfg tries x"
  shows "direct J D cfg (A_Start t input) (tries @ x # rest) during c =
    Some (start_outcome J D t (next_correlation c) x (mail_of J (A_Start t input) during c))"
proof -
  let ?c = "snd (register (starts_on t) (snd (take_correlation (snd (lock_for t c)))))"
  from tried_send [OF assms, of "''turn/start''" "start_params J t input" rest ?c] obtain c' where
    "send_not_written_safe cfg 0 ''turn/start'' (start_params J t input) (tries @ x # rest) ?c = Some (x, rest, c')"
    "ct_reducer c' = ct_reducer ?c" by blast
  then show ?thesis
    by (simp add: direct_def start_def start_params_def mail_of_def waiter_of_def registered_def Let_def case_prod_unfold)
qed

text \<open>The stage an answer that is not retried leads to is what the direct reading says.\<close>

lemma direct_reads:
  assumes "tried cfg tries x" "send_decided J D w h x = ToRead h b"
  shows "direct J D cfg w (tries @ [x, y]) during c = Some (read_outcome J (wanted_target w) (next_correlation c) b y)"
proof (cases w)
  case (A_Interrupt t u)
  from direct_interrupt [OF assms(1), of J D t u "[y]" during c] assms(2) show ?thesis
    by (auto simp: A_Interrupt send_decided_def interrupt_conclusion_def reconcile_interrupt_def read_outcome_def
        Let_def split: sum.splits RequestError.splits)
qed (use assms(2) in \<open>auto simp: send_decided_def split: sum.splits\<close>)

lemma direct_concludes:
  assumes "tried cfg tries x" "send_decided J D w h x = Concluded out" "next_correlation c = h_number h"
  shows "direct J D cfg w (tries @ [x]) during c = Some out"
proof (cases w)
  case (A_Interrupt t u)
  from direct_interrupt [OF assms(1), of J D t u "[]" during c] assms(2) show ?thesis
    by (auto simp: A_Interrupt send_decided_def interrupt_conclusion_def split: sum.splits RequestError.splits)
next
  case (A_Steer t u input)
  with direct_steer [OF assms(1), of J D t u input "[]" during c] assms(2,3) show ?thesis
    by (simp add: send_decided_def)
next
  case (A_Start t input)
  with direct_start [OF assms(1), of J D t input "[]" during c] assms(2,3) show ?thesis
    by (auto simp: send_decided_def start_outcome_def split: sum.splits RequestError.splits)
qed

lemma send_decided_stages:
  "(\<exists>v. x = Inr v \<and> send_decided J D w h x = Watching h v) \<or> (\<exists>b. send_decided J D w h x = ToRead h b) \<or>
   (\<exists>out. send_decided J D w h x = Concluded out)"
  by (auto simp: send_decided_def split: Wanted.split sum.split RequestError.split)

text \<open>And so is the stage at the end of a window.\<close>

lemma direct_window_concludes:
  assumes "tried cfg tries (Inr v)" "window_closed J D w h v (mail_of J w during c) = Concluded out"
    and "next_correlation c = h_number h"
  shows "direct J D cfg w (tries @ [Inr v]) during c = Some out"
proof (cases w)
  case (A_Interrupt t u)
  from direct_interrupt [OF assms(1), of J D t u "[]" during c] assms(2,3) show ?thesis
    by (auto simp: A_Interrupt window_closed_def interrupt_conclusion_def split: option.splits)
next
  case (A_Steer t u input)
  with direct_steer [OF assms(1), of J D t u input "[]" during c] assms(2,3) show ?thesis
    by (simp add: window_closed_def)
next
  case (A_Start t input)
  with direct_start [OF assms(1), of J D t input "[]" during c] assms(2,3) show ?thesis
    by (simp add: window_closed_def)
qed

lemma direct_window_reads:
  assumes "tried cfg tries (Inr v)" "window_closed J D w h v (mail_of J w during c) = ToRead h b"
  shows "direct J D cfg w (tries @ [Inr v, y]) during c =
    Some (read_outcome J (wanted_target w) (next_correlation c) b y)"
proof (cases w)
  case (A_Interrupt t u)
  from direct_interrupt [OF assms(1), of J D t u "[y]" during c] assms(2) show ?thesis
    by (cases y) (auto simp: A_Interrupt window_closed_def interrupt_conclusion_def reconcile_interrupt_def read_outcome_def
        Let_def split: option.splits)
qed (use assms(2) in \<open>auto simp: window_closed_def\<close>)

lemma window_closed_stages:
  "(\<exists>b. window_closed J D w h v mail = ToRead h b) \<or> (\<exists>out. window_closed J D w h v mail = Concluded out)"
  by (auto simp: window_closed_def split: Wanted.split option.split)

section \<open>An action's history in the run\<close>

text \<open>
  The controller an action began with: its reducer is the one that had applied the first
  \<open>watched_from\<close> events received.
\<close>

definition began :: "'v json \<Rightarrow> nat \<Rightarrow> 'v Core \<Rightarrow> 'v Action \<Rightarrow> Hold \<Rightarrow> 'v Controller \<Rightarrow> bool" where
  "began J cap s a h c \<longleftrightarrow> next_correlation c = h_number h \<and> watched_from a \<le> taken s \<and>
     (\<exists>before. ct_reducer c = foldl (reducer_step J) (empty_reducer cap) before \<and>
        applied before = take (watched_from a) (ingress (core_link s)))"

text \<open>While the action watches, the reducer of the system has gone on from there; then its window is closed.\<close>

definition watches :: "'v json \<Rightarrow> nat \<Rightarrow> 'v Core \<Rightarrow> 'v Action \<Rightarrow> Hold \<Rightarrow> 'v Controller \<Rightarrow> 'v reducer_op list \<Rightarrow> bool" where
  "watches J cap s a h c during \<longleftrightarrow> began J cap s a h c \<and> h_waiter h = waiter_of (wanted a) (ct_reducer c) \<and>
     ti_reducer (core_ingestor s) = foldl (reducer_step J) (registered (wanted a) (ct_reducer c)) during \<and>
     applied during = drop (watched_from a) (take (taken s) (ingress (core_link s)))"

definition watched :: "'v json \<Rightarrow> nat \<Rightarrow> 'v Core \<Rightarrow> 'v Action \<Rightarrow> Hold \<Rightarrow> 'v Controller \<Rightarrow> 'v reducer_op list \<Rightarrow> bool" where
  "watched J cap s a h c during \<longleftrightarrow> began J cap s a h c \<and> watched_to a \<le> taken s \<and>
     applied during = drop (watched_from a) (take (watched_to a) (ingress (core_link s)))"

definition trying :: "'v json \<Rightarrow> nat \<Rightarrow> ControlConfig \<Rightarrow> 'v Core \<Rightarrow> 'v Action \<Rightarrow> Hold \<Rightarrow> nat \<Rightarrow> bool" where
  "trying J cap cfg s a h k \<longleftrightarrow> (\<exists>c during. watches J cap s a h c during) \<and>
     list_all unsent (answers_had a) \<and> length (answers_had a) = k \<and> k \<le> not_written_retries cfg"

definition reads_directly :: "'v parts \<Rightarrow> Config \<Rightarrow> 'v Core \<Rightarrow> 'v Action \<Rightarrow> Hold \<Rightarrow> bool \<Rightarrow> bool" where
  "reads_directly P cfg s a h b \<longleftrightarrow>
     (\<exists>c during. watched (api P) (lifecycle_replay_capacity cfg) s a h c during \<and>
        (\<forall>y. direct (api P) (id_debug P) (control_config cfg) (wanted a) (answers_had a @ [y]) during c =
           Some (read_outcome (api P) (wanted_target (wanted a)) (h_number h) b y)))"

fun stage_read :: "'v parts \<Rightarrow> Config \<Rightarrow> 'v Core \<Rightarrow> 'v Action \<Rightarrow> 'v Stage \<Rightarrow> bool" where
  "stage_read P cfg s a (Sending h k) = trying (api P) (lifecycle_replay_capacity cfg) (control_config cfg) s a h k"
| "stage_read P cfg s a (Offering h k) = trying (api P) (lifecycle_replay_capacity cfg) (control_config cfg) s a h k"
| "stage_read P cfg s a (Pausing h k) = trying (api P) (lifecycle_replay_capacity cfg) (control_config cfg) s a h k"
| "stage_read P cfg s a (Asking h k ch) = trying (api P) (lifecycle_replay_capacity cfg) (control_config cfg) s a h k"
| "stage_read P cfg s a (Watching h v) =
     ((\<exists>c during. watches (api P) (lifecycle_replay_capacity cfg) s a h c during) \<and>
      (\<exists>tries. answers_had a = tries @ [Inr v] \<and> tried (control_config cfg) tries (Inr v)))"
| "stage_read P cfg s a (ToRead h b) = reads_directly P cfg s a h b"
| "stage_read P cfg s a (AskingRead h b ch) = reads_directly P cfg s a h b"
| "stage_read P cfg s a (Concluded out) =
     (\<exists>h c during. watched (api P) (lifecycle_replay_capacity cfg) s a h c during \<and>
        direct (api P) (id_debug P) (control_config cfg) (wanted a) (answers_had a) during c = Some out)"
| "stage_read P cfg s a Arrived = (answers_had a = [])"
| "stage_read P cfg s a (InLine l) = (answers_had a = [])"
| "stage_read P cfg s a Abandoned = True"

text \<open>Steps of the system keep it.\<close>

lemma take_grown: "n \<le> length xs \<Longrightarrow> take n (xs @ ys) = take n xs"
  by simp

lemma coherent_link: "coherent P C cfg s s' \<Longrightarrow> \<exists>new. ingress (core_link s') = ingress (core_link s) @ new"
  unfolding coherent_def using ingress_link_moves by blast

lemma coherent_taken: "coherent P C cfg s s' \<Longrightarrow> taken s \<le> taken s'"
  by (auto simp: coherent_def)

lemma began_step:
  assumes "began (api P) cap s a h c" "coherent P C cfg s s'" "taken s \<le> length (ingress (core_link s))"
  shows "began (api P) cap s' a h c"
  using assms coherent_link [OF assms(2)] coherent_taken [OF assms(2)] by (auto simp: began_def)

lemma watched_step:
  assumes "watched (api P) cap s a h c during" "coherent P C cfg s s'" "taken s \<le> length (ingress (core_link s))"
  shows "watched (api P) cap s' a h c during"
  using assms coherent_link [OF assms(2)] coherent_taken [OF assms(2)] began_step [OF _ assms(2,3)]
  by (auto simp: watched_def)

lemma watches_step:
  assumes w: "watches (api P) cap s a h c during" and coh: "coherent P C cfg s s'"
    and le: "taken s \<le> length (ingress (core_link s))"
  shows "\<exists>during. watches (api P) cap s' a h c during"
proof -
  from coherent_link [OF coh] obtain new where new: "ingress (core_link s') = ingress (core_link s) @ new" by blast
  have began: "began (api P) cap s' a h c" using w began_step [OF _ coh le] by (simp add: watches_def)
  have from_le: "watched_from a \<le> taken s" using w by (simp add: watches_def began_def)
  from coh consider
      (quiet) "taken s' = taken s" "subscriptions_only (api P) (core_ingestor s) (core_ingestor s')"
    | (takes) "taken s < length (ingress (core_link s))" "taken s' = Suc (taken s)" "core_link s' = core_link s"
        "ti_reducer (core_ingestor s') =
          apply_event (api P) (ingress (core_link s) ! taken s) (ti_reducer (core_ingestor s))"
    by (auto simp: coherent_def)
  then show ?thesis
  proof cases
    case quiet
    then obtain more where "list_all subscription_op more"
      "ti_reducer (core_ingestor s') = foldl (reducer_step (api P)) (ti_reducer (core_ingestor s)) more"
      by (auto simp: subscriptions_only_def)
    with w began new le quiet(1) show ?thesis
      by (intro exI [of _ "during @ more"]) (simp add: watches_def applied_subscriptions)
  next
    case takes
    with w began from_le show ?thesis
      by (intro exI [of _ "during @ [Apply (ingress (core_link s) ! taken s)]"])
         (simp add: watches_def take_Suc_conv_app_nth)
  qed
qed

lemma trying_step:
  assumes "trying (api P) cap ctl s a h k" "coherent P C cfg s s'" "taken s \<le> length (ingress (core_link s))"
  shows "trying (api P) cap ctl s' a h k"
  using assms(1) watches_step [OF _ assms(2,3)] unfolding trying_def by blast

lemma reads_directly_step:
  assumes "reads_directly P cfg s a h b" "coherent P C cfg s s'" "taken s \<le> length (ingress (core_link s))"
  shows "reads_directly P cfg s' a h b"
  using assms(1) watched_step [OF _ assms(2,3)] unfolding reads_directly_def by blast

lemma stage_read_step:
  assumes "stage_read P cfg s a st" "coherent P C cfg s s'" "taken s \<le> length (ingress (core_link s))"
  shows "stage_read P cfg s' a st"
proof (cases st)
  case (Watching h v)
  with assms(1) watches_step [OF _ assms(2,3)] show ?thesis unfolding Watching stage_read.simps by blast
next
  case (Concluded out)
  with assms(1) watched_step [OF _ assms(2,3)] show ?thesis unfolding Concluded stage_read.simps by blast
qed (use assms(1) trying_step [OF _ assms(2,3)] reads_directly_step [OF _ assms(2,3)] in auto)

text \<open>A turn of the action keeps it too.\<close>

lemma history_fields:
  "wanted a' = wanted a \<Longrightarrow> watched_from a' = watched_from a \<Longrightarrow> watches J cap s a' h c during = watches J cap s a h c during"
  "wanted a' = wanted a \<Longrightarrow> watched_from a' = watched_from a \<Longrightarrow> watched_to a' = watched_to a \<Longrightarrow>
     watched J cap s a' h c during = watched J cap s a h c during"
  by (simp_all add: watches_def watched_def began_def)

lemma trying_fields:
  "wanted a' = wanted a \<Longrightarrow> watched_from a' = watched_from a \<Longrightarrow> answers_had a' = answers_had a \<Longrightarrow>
     trying J cap ctl s a' h k = trying J cap ctl s a h k"
  by (simp add: trying_def history_fields(1) [of a' a])

lemma watches_closed:
  "watches J cap s a h c during \<Longrightarrow> watched_from a' = watched_from a \<Longrightarrow> watched_to a' = taken s \<Longrightarrow>
     watched J cap s a' h c during \<and> next_correlation c = h_number h"
  by (simp add: watches_def watched_def began_def)

lemma hears_read:
  assumes "trying (api P) (lifecycle_replay_capacity cfg) (control_config cfg) s a h k"
    and st: "st = after_answer (api P) (id_debug P) (control_config cfg) (wanted a) h k x"
  shows "stage_read P cfg s (hears x (taken s) st a) st"
proof (cases "unsent x \<and> k < not_written_retries (control_config cfg)")
  case True
  then show ?thesis
    using assms history_fields(1) [of "hears x (taken s) st a" a]
    by (auto simp: after_answer_def trying_def)
next
  case False
  let ?a = "hears x (taken s) st a" and ?J = "api P" and ?cap = "lifecycle_replay_capacity cfg"
  obtain c during where w: "watches ?J ?cap s a h c during" and k: "list_all unsent (answers_had a)"
    "length (answers_had a) = k" "k \<le> not_written_retries (control_config cfg)"
    using assms(1) by (auto simp: trying_def)
  from watches_closed [OF w, of ?a] have closed: "watched ?J ?cap s ?a h c during" "next_correlation c = h_number h" by simp_all
  have tr: "tried (control_config cfg) (answers_had a) x" using k False by (auto simp: tried_def)
  have st': "st = send_decided ?J (id_debug P) (wanted a) h x" using False by (auto simp: st after_answer_def)
  from send_decided_stages [of x ?J "id_debug P" "wanted a" h] show ?thesis
  proof (elim disjE exE conjE)
    fix v assume "x = Inr v" "send_decided ?J (id_debug P) (wanted a) h x = Watching h v"
    moreover from w have "watches ?J ?cap s ?a h c during" using history_fields(1) [of ?a a] by simp
    ultimately show ?thesis using tr by (auto simp: st')
  next
    fix b assume b: "send_decided ?J (id_debug P) (wanted a) h x = ToRead h b"
    from direct_reads [OF tr b] closed show ?thesis by (auto simp: st' b reads_directly_def)
  next
    fix out assume out: "send_decided ?J (id_debug P) (wanted a) h x = Concluded out"
    from direct_concludes [OF tr out closed(2)] closed(1) show ?thesis by (auto simp: st' out)
  qed
qed

lemma window_read:
  assumes "stage_read P cfg s a (Watching h v)"
    and a': "a' = a\<lparr>stage := st, watched_to := taken s\<rparr>"
    and st: "st = window_closed (api P) (id_debug P) (wanted a) h v (Option.bind (h_waiter h) (mailbox (ti_reducer (core_ingestor s))))"
  shows "stage_read P cfg s a' st"
proof -
  let ?J = "api P" and ?cap = "lifecycle_replay_capacity cfg"
  obtain c during tries where w: "watches ?J ?cap s a h c during"
    and tr: "answers_had a = tries @ [Inr v]" "tried (control_config cfg) tries (Inr v)"
    using assms(1) by auto
  from watches_closed [OF w, of a'] have closed: "watched ?J ?cap s a' h c during" "next_correlation c = h_number h"
    by (simp_all add: a')
  have st': "st = window_closed ?J (id_debug P) (wanted a) h v (mail_of ?J (wanted a) during c)"
    using w by (simp add: st watches_def mail_of_def)
  from window_closed_stages [of ?J "id_debug P" "wanted a" h v "mail_of ?J (wanted a) during c"] show ?thesis
  proof (elim disjE exE)
    fix b assume b: "window_closed ?J (id_debug P) (wanted a) h v (mail_of ?J (wanted a) during c) = ToRead h b"
    from direct_window_reads [OF tr(2) b] closed tr(1) show ?thesis by (auto simp: st' b reads_directly_def a')
  next
    fix out assume out: "window_closed ?J (id_debug P) (wanted a) h v (mail_of ?J (wanted a) during c) = Concluded out"
    from direct_window_concludes [OF tr(2) out closed(2)] closed(1) tr(1) show ?thesis by (auto simp: st' out a')
  qed
qed

lemma read_read:
  assumes "reads_directly P cfg s a h b"
  shows "stage_read P cfg s (a\<lparr>stage := st, answers_had := answers_had a @ [y]\<rparr>)
    (Concluded (read_outcome (api P) (wanted_target (wanted a)) (h_number h) b y))"
proof -
  let ?a = "a\<lparr>stage := st, answers_had := answers_had a @ [y]\<rparr>"
  from assms obtain c during where "watched (api P) (lifecycle_replay_capacity cfg) s a h c during"
    "direct (api P) (id_debug P) (control_config cfg) (wanted a) (answers_had a @ [y]) during c =
       Some (read_outcome (api P) (wanted_target (wanted a)) (h_number h) b y)"
    unfolding reads_directly_def by blast
  moreover from this(1) history_fields(2) [of ?a a]
  have "watched (api P) (lifecycle_replay_capacity cfg) s ?a h c during" by simp
  ultimately show ?thesis by auto
qed

lemma sends_read:
  assumes t: "trying (api P) (lifecycle_replay_capacity cfg) (control_config cfg) s a g k"
    and le: "taken s \<le> length (ingress (core_link s))"
    and room: "unat (next_id (core_link s)) + 1 < 2 ^ 64" and adv: "sends P cfg gated g k s a = (xs, a')"
  shows "stage_read P cfg (core_run P C cfg s xs) a' (stage a')"
proof -
  let ?m = "wanted_method (wanted a)" and ?p = "wanted_params (api P) (wanted a)"
  show ?thesis
  proof (cases "submits gated ?m ?p (core_link s)")
    case None
    with adv t trying_fields [of "a\<lparr>stage := Offering g k\<rparr>" a] show ?thesis
      by (auto simp: sends_def core_run_def Let_def)
  next
    case (Some r)
    show ?thesis
    proof (cases r)
      case (Inl e)
      with adv Some hears_read [OF t refl, of "Inl e"] show ?thesis by (auto simp: sends_def core_run_def Let_def)
    next
      case (Inr ch)
      then have parts: "xs = [OnLink (Submit gated ?m ?p)]" "wanted a' = wanted a" "watched_from a' = watched_from a"
        "answers_had a' = answers_had a" "stage a' = Asking g k ch"
        using adv Some by (auto simp: sends_def Let_def)
      have "coherent P C cfg s (core_run P C cfg s [OnLink (Submit gated ?m ?p)])"
        using core_step_coherent [of s "OnLink (Submit gated ?m ?p)" P C cfg] room by (simp add: core_run_def)
      from trying_step [OF t this le] trying_fields [OF parts(2,3,4)] parts show ?thesis by simp
    qed
  qed
qed

lemma advance_read:
  assumes r: "stage_read P cfg s a (stage a)" and le: "taken s \<le> length (ingress (core_link s))"
    and room: "unat (next_id (core_link s)) + 1 < 2 ^ 64" and adv: "advance P cfg el s a = (xs, a')"
  shows "stage_read P cfg (core_run P C cfg s xs) a' (stage a')"
proof -
  have coh: "coherent P C cfg s (core_run P C cfg s [OnLink (Submit action m p)])" for action m p
    using core_step_coherent [of s "OnLink (Submit action m p)" P C cfg] room by (simp add: core_run_def)
  show ?thesis
  proof (cases "stage a")
    case (Sending g k)
    with sends_read [OF _ le room] r adv show ?thesis by (simp add: advance_def Let_def)
  next
    case (Offering g k)
    with sends_read [OF _ le room] r adv show ?thesis by (simp add: advance_def Let_def)
  next
    case (Asking g k ch)
    then have t: "trying (api P) (lifecycle_replay_capacity cfg) (control_config cfg) s a g k" using r by simp
    with adv Asking hears_read [OF t refl] show ?thesis
      by (cases "waited_on (core_link s) ch el") (auto simp: advance_def Let_def)
  next
    case (Pausing g k)
    with r have t: "trying (api P) (lifecycle_replay_capacity cfg) (control_config cfg) s a g k" by simp
    with adv Pausing trying_fields [of "a\<lparr>stage := Sending g k\<rparr>" a] show ?thesis
      by (cases el) (auto simp: advance_def)
  next
    case (Watching g v)
    with r adv window_read [OF _ refl refl, of P cfg s a g v] show ?thesis
      by (auto simp: advance_def Let_def split: if_splits)
  next
    case (ToRead g b)
    let ?p = "terminal_params (api P) (thread_of (wanted a))"
    have t: "reads_directly P cfg s a g b" using r ToRead by simp
    show ?thesis
    proof (cases "submits False ''thread/read'' ?p (core_link s)")
      case None
      with adv ToRead r show ?thesis by (auto simp: advance_def core_run_def Let_def)
    next
      case (Some x)
      show ?thesis
      proof (cases x)
      case (Inl e)
      with adv ToRead Some read_read [OF t] show ?thesis by (auto simp: advance_def Let_def)
    next
      case (Inr ch)
      then have parts: "xs = [OnLink (Submit False ''thread/read'' ?p)]" "a' = a\<lparr>stage := AskingRead g b ch\<rparr>"
        using adv ToRead Some by (auto simp: advance_def Let_def)
      from reads_directly_step [OF t coh le] history_fields(2) [of a' a] show ?thesis
        by (simp add: parts reads_directly_def)
      qed
    qed
  next
    case (AskingRead g b ch)
    then have t: "reads_directly P cfg s a g b" using r by simp
    with adv AskingRead read_read [OF t] show ?thesis
      by (cases "waited_on (core_link s) ch el") (auto simp: advance_def Let_def)
  qed (use adv r in \<open>simp_all add: advance_def\<close>)
qed

text \<open>All actions of a run.\<close>

definition all_read :: "'v parts \<Rightarrow> Config \<Rightarrow> 'v Runtime \<Rightarrow> bool" where
  "all_read P cfg r \<longleftrightarrow> minted r \<and> tracks_ingress (api P) (lifecycle_replay_capacity cfg) (rt_core r) \<and>
     (\<forall>a \<in> set (actions r). stage_read P cfg (rt_core r) a (stage a))"

definition reading :: "'v parts \<Rightarrow> Config \<Rightarrow> 'v Action \<Rightarrow> 'v Core \<Rightarrow> bool" where
  "reading P cfg a s \<longleftrightarrow> tracks_ingress (api P) (lifecycle_replay_capacity cfg) s \<and> stage_read P cfg s a (stage a)"

lemma reading_step: "reading P cfg a s \<Longrightarrow> core_admits s x \<Longrightarrow> reading P cfg a (core_step P C cfg s x)"
  using tracking.step_inv stage_read_step core_step_coherent
  unfolding reading_def tracks_ingress_def by blast

lemma acquires_read:
  assumes tr: "tracks_ingress (api P) (lifecycle_replay_capacity cfg) (rt_core r)" and h: "handle_minted (main (rt_core r))"
    and a: "answers_had a = []" and r': "r' = acquires P C cfg i lock a r"
  shows "\<exists>a'. actions r' = (actions r)[i := a'] \<and> stage_read P cfg (rt_core r') a' (stage a')"
proof -
  let ?s = "rt_core r" and ?J = "api P" and ?n = "next_correlation (rt_control r)"
  let ?red = "ti_reducer (core_ingestor ?s)"
  let ?h = "\<lparr>h_lock = lock, h_number = ?n, h_waiter = waiter_of (wanted a) ?red\<rparr>"
  let ?a = "a\<lparr>watched_from := taken ?s, watched_to := taken ?s, stage := Sending ?h 0\<rparr>"
  let ?c = "(new_controller ?red)\<lparr>next_correlation := ?n\<rparr>"
  have acts: "actions r' = (actions r)[i := ?a]"
    by (auto simp: r' acquires_def take_correlation_def waiter_of_def Let_def split: option.split)
  have core: "core_link (rt_core r') = core_link ?s" "taken (rt_core r') = taken ?s"
      "ti_reducer (core_ingestor (rt_core r')) = registered (wanted a) ?red"
    using h by (simp_all add: r' acquires_core registered_def split: option.split)
  have "began ?J (lifecycle_replay_capacity cfg) (rt_core r') ?a ?h ?c"
    using tr by (auto simp: began_def tracks_ingress_def core new_controller_def)
  then have "watches ?J (lifecycle_replay_capacity cfg) (rt_core r') ?a ?h ?c []"
    using core by (simp add: watches_def new_controller_def)
  then have "trying ?J (lifecycle_replay_capacity cfg) (control_config cfg) (rt_core r') ?a ?h 0"
    unfolding trying_def using a by auto
  with acts show ?thesis by (intro exI [of _ ?a]) simp
qed

lemma all_read_step:
  assumes ok: "all_read P cfg r" and adm: "rt_admits r x"
  shows "all_read P cfg (rt_step P C cfg r x)"
proof -
  let ?r = "rt_step P C cfg r x"
  have old: "stage_read P cfg (rt_core ?r) a (stage a)" if "a \<in> set (actions r)" for a
    using that ok core_part.part_inv [where Q = "reading P cfg a", OF reading_step _ adm]
    by (simp add: reading_def all_read_def)
  have tr: "tracks_ingress (api P) (lifecycle_replay_capacity cfg) (rt_core r)" using ok by (simp add: all_read_def)
  have "stage_read P cfg (rt_core ?r) a (stage a)" if a: "a \<in> set (actions ?r)" for a
  proof (cases "a \<in> set (actions r)")
    case new: False
    show ?thesis
    proof (cases x)
      case (System y)
      with a new show ?thesis by (simp split: if_splits)
    next
      case (Begins w)
      with a new show ?thesis by (auto simp: new_action_def split: if_splits)
    next
      case (Abandons i)
      with a new have "a = (actions r ! i)\<lparr>stage := Abandoned\<rparr>"
        by (auto dest!: set_update_subset_insert [THEN subsetD] split: if_splits)
      then show ?thesis by simp
    next
      case (Acts i el)
      then have i: "i < length (actions r)" using a new by (auto simp: act_def split: if_splits)
      have mine: "stage_read P cfg (rt_core r) (actions r ! i) (stage (actions r ! i))" using ok i by (simp add: all_read_def)
      have h: "handle_minted (main (rt_core r))" using ok i by (auto simp: all_read_def minted_def)
      from i show ?thesis
      proof (cases rule: act_turns [where P = P and C = C and cfg = cfg and el = el])
        case idle
        with a new Acts show ?thesis by simp
      next
        case (enters lock c)
        with a new Acts have "a = (actions r ! i)\<lparr>stage := InLine lock\<rparr>"
          by (auto dest!: set_update_subset_insert [THEN subsetD])
        with mine enters(1) show ?thesis by simp
      next
        case (acquires lock rest)
        then have "answers_had (actions r ! i) = []" using mine by simp
        from acquires_read [OF tr h this acquires(3)] obtain a' where
          "actions ?r = (actions r)[i := a']" "stage_read P cfg (rt_core ?r) a' (stage a')" by (auto simp: Acts)
        moreover from this(1) a new have "a = a'" by (auto dest!: set_update_subset_insert [THEN subsetD])
        ultimately show ?thesis by simp
      next
        case (advances h' xs a')
        with a new Acts have "a = a'" by (auto dest!: set_update_subset_insert [THEN subsetD])
        with advance_read [OF mine _ _ advances(2), of C] tr adm Acts show ?thesis
          by (simp add: tracks_ingress_def advances(3))
      qed
    qed
  qed (rule old)
  moreover have "minted ?r" using ok by (intro minted_step) (simp add: all_read_def)
  moreover have "tracks_ingress (api P) (lifecycle_replay_capacity cfg) (rt_core ?r)"
    using core_part.part_inv [where Q = "tracks_ingress (api P) (lifecycle_replay_capacity cfg)", OF tracking.step_inv tr adm] .
  ultimately show ?thesis by (simp add: all_read_def)
qed

interpretation readings: preserved_by "rt_step P C cfg" "all_read P cfg" rt_admits for P C cfg
  by unfold_locales (rule all_read_step)

lemma begun_read: "begin_core cfg supervised = Some (Inr s) \<Longrightarrow> all_read P cfg (new_runtime s)"
  using begun_tracks by (auto simp: all_read_def new_runtime_def minted_def)

end
