(* ===== verification/Action_Runs.thy ===== *)
theory Action_Runs
  imports Core_Runs Action_Outcomes
begin

text \<open>
  The properties of the actions in a running system: their order, their end, the truth of their
  outcomes; and the runs these are applied to.
\<close>

section \<open>The stages fit what was asked for\<close>

fun outcome_target :: "'v ActionOutcome \<Rightarrow> ActionTarget" where
  "outcome_target (Confirmed target ev) = target"
| "outcome_target (ActionRejected target reason e) = target"
| "outcome_target (OutcomeUnknown target ev) = target"

fun interrupts :: "'v Wanted \<Rightarrow> bool" where
  "interrupts (A_Interrupt t u) = True"
| "interrupts _ = False"

text \<open>What each await of an action may find, by what the action is.\<close>

fun stage_typed :: "ControlConfig \<Rightarrow> 'v Wanted \<Rightarrow> 'v Stage \<Rightarrow> bool" where
  "stage_typed cfg w (Sending h k) = (k \<le> not_written_retries cfg)"
| "stage_typed cfg w (Offering h k) = (k \<le> not_written_retries cfg)"
| "stage_typed cfg w (Asking h k ch) = (k \<le> not_written_retries cfg)"
| "stage_typed cfg w (Pausing h k) = (0 < k \<and> k \<le> not_written_retries cfg)"
| "stage_typed cfg w (Watching h v) = (h_waiter h \<noteq> None)"
| "stage_typed cfg w (ToRead h b) = interrupts w"
| "stage_typed cfg w (AskingRead h b ch) = interrupts w"
| "stage_typed cfg w (Concluded out) = (outcome_target out = wanted_target w)"
| "stage_typed cfg w _ = True"

definition well_typed :: "ControlConfig \<Rightarrow> 'v Wanted \<Rightarrow> 'v Stage \<Rightarrow> bool" where
  "well_typed cfg w st \<longleftrightarrow> stage_typed cfg w st \<and>
     (\<forall>h. holding st = Some h \<longrightarrow> (h_waiter h = None) = (wanted_waiter w = None))"

lemma outcome_targets [simp]:
  "outcome_target (response_outcome J D m t u n a) = Turn t u"
  "outcome_target (start_outcome J D t n a mail) = Thread t"
  "outcome_target (read_outcome J target n b a) = target"
  by (auto simp: response_outcome_def start_outcome_def read_outcome_def Let_def
      split: sum.split RequestError.split option.split)

lemma after_answer_typed:
  assumes "k \<le> not_written_retries cfg" "(h_waiter h = None) = (wanted_waiter w = None)"
  shows "well_typed cfg w (after_answer J D cfg w h k x)"
  using assms
  by (cases w)
     (auto simp: well_typed_def after_answer_def send_decided_def split: sum.split RequestError.split)

lemma window_closed_typed: "well_typed cfg w (Watching h v) \<Longrightarrow> well_typed cfg w (window_closed J D w h v mail)"
  by (cases w) (auto simp: well_typed_def window_closed_def split: option.split)

lemma sends_typed:
  assumes "k \<le> not_written_retries (control_config cfg)" "(h_waiter h = None) = (wanted_waiter (wanted a) = None)"
    and "sends P cfg gated h k s a = (xs, a')"
  shows "well_typed (control_config cfg) (wanted a') (stage a')"
  using after_answer_typed [OF assms(1,2)] assms
  by (auto simp: sends_def well_typed_def [of _ _ "Asking _ _ _"] well_typed_def [of _ _ "Offering _ _"] Let_def
      split: sum.splits option.splits)

lemma advance_typed:
  assumes "well_typed (control_config cfg) (wanted a) (stage a)" "holding (stage a) = Some h"
    and "advance P cfg el s a = (xs, a')"
  shows "well_typed (control_config cfg) (wanted a') (stage a')"
proof (cases "stage a")
  case (Sending g k)
  with assms sends_typed [of k cfg g a P True s xs a'] show ?thesis by (simp add: well_typed_def advance_def Let_def)
next
  case (Offering g k)
  with assms sends_typed [of k cfg g a P False s xs a'] show ?thesis by (simp add: well_typed_def advance_def Let_def)
next
  case (Asking g k ch)
  with assms(1) have "k \<le> not_written_retries (control_config cfg)" "(h_waiter g = None) = (wanted_waiter (wanted a) = None)"
    by (auto simp: well_typed_def)
  with after_answer_typed [OF this] assms(1,3) Asking show ?thesis
    by (auto simp: advance_def Let_def split: option.splits)
next
  case (Watching g v)
  with assms window_closed_typed [of "control_config cfg" "wanted a" g v] show ?thesis
    by (auto simp: advance_def Let_def split: if_splits)
qed (use assms in \<open>auto simp: advance_def Let_def well_typed_def split: sum.splits option.splits if_splits\<close>)

definition all_typed :: "ControlConfig \<Rightarrow> 'v Runtime \<Rightarrow> bool" where
  "all_typed cfg r \<longleftrightarrow> (\<forall>a \<in> set (actions r). well_typed cfg (wanted a) (stage a))"

lemma all_typed_put:
  "all_typed cfg r \<Longrightarrow> well_typed cfg (wanted a) (stage a) \<Longrightarrow> actions r' = (actions r)[i := a] \<Longrightarrow> all_typed cfg r'"
  by (auto simp: all_typed_def dest!: set_update_subset_insert [THEN subsetD])

lemma acquires_typed:
  "\<exists>a'. actions (acquires P C cfg i lock a r) = (actions r)[i := a'] \<and> well_typed ctl (wanted a') (stage a')"
  by (cases "wanted_waiter (wanted a)"; simp add: acquires_def Let_def case_prod_unfold)
     (rule exI, rule conjI, rule refl, simp add: well_typed_def)+

lemma all_typed_step:
  assumes ok: "all_typed (control_config cfg) r"
  shows "all_typed (control_config cfg) (rt_step P C cfg r x)"
proof (cases x)
  case (Acts i el)
  show ?thesis
  proof (cases "i < length (actions r)")
    case True
    then have mine: "well_typed (control_config cfg) (wanted (actions r ! i)) (stage (actions r ! i))"
      using ok by (simp add: all_typed_def)
    from True show ?thesis
    proof (cases rule: act_turns [where P = P and C = C and cfg = cfg and el = el])
      case (enters lock c)
      then show ?thesis by (intro all_typed_put [OF ok]) (simp_all add: Acts well_typed_def)
    next
      case (acquires lock rest)
      from acquires_typed obtain a' where "actions (rt_step P C cfg r x) = (actions r)[i := a']"
        "well_typed (control_config cfg) (wanted a') (stage a')" unfolding Acts rt_step.simps acquires(3) by blast
      with ok show ?thesis by (intro all_typed_put [OF ok]) simp_all
    next
      case (advances h xs a')
      from advance_typed [OF mine advances(1,2)] show ?thesis
        by (intro all_typed_put [OF ok, of a']) (simp_all add: Acts advances(3))
    qed (use ok Acts in simp)
  qed (use ok Acts in \<open>simp add: act_def\<close>)
next
  case (Abandons i)
  show ?thesis
  proof (cases "i < length (actions r) \<and> \<not> over (stage (actions r ! i))")
    case True
    then show ?thesis
      by (intro all_typed_put [OF ok, of "(actions r ! i)\<lparr>stage := Abandoned\<rparr>"]) (simp_all add: Abandons well_typed_def)
  next
    case False
    then show ?thesis unfolding Abandons rt_step.simps by (simp only: if_False ok)
  qed
qed (use ok in \<open>auto simp: all_typed_def new_action_def well_typed_def\<close>)

interpretation types: preserved_by "rt_step P C cfg" "all_typed (control_config cfg)" "\<lambda>_ _. True" for P C cfg
  by unfold_locales (rule all_typed_step)

section \<open>Evidence\<close>

fun outcome_evidence :: "'v ActionOutcome \<Rightarrow> Evidence option" where
  "outcome_evidence (Confirmed target ev) = Some ev"
| "outcome_evidence (OutcomeUnknown target ev) = Some ev"
| "outcome_evidence _ = None"

lemma unknown_observes [simp]: "observed_sequence (unknown n b txt) = None"
  by (simp add: unknown_def)

lemma observed_observes [simp]:
  "observed_sequence (observed n b e txt) = Some (sequence e)" "observed_method (observed n b e txt) = event_method e"
  by (simp_all add: observed_def)

lemma reconcile_observes:
  assumes "reconcile_interrupt J t u n b answers c = Some (out, rest, c')" "outcome_evidence out = Some ev"
  shows "observed_sequence ev = None"
  using reconcile_interrupt_spec [OF assms(1)] assms(2) by (auto split: if_splits)

lemma response_observes:
  "outcome_evidence (response_outcome J D m t u n x) = Some ev \<Longrightarrow> observed_sequence ev = None"
  by (auto simp: response_outcome_def split: sum.splits RequestError.splits)

text \<open>A sequence that an outcome cites is that of the event in the action's mailbox.\<close>

lemma direct_evidence:
  assumes "direct J D cfg w answers during c = Some out" "outcome_evidence out = Some ev" "observed_sequence ev = Some q"
  shows "\<exists>e. mail_of J w during c = Some e \<and> sequence e = q \<and> observed_method ev = event_method e"
proof (cases w)
  case (A_Interrupt t u)
  with assms(1) obtain x rest c1 out' rest' c' where
    send: "send_not_written_safe cfg 0 ''turn/interrupt'' (interrupt_params J t u) answers (prepared t (completes t u) c) = Some (x, rest, c1)"
    and concl: "interrupt_conclusion J D t u (next_correlation c) (mailbox (foldl (reducer_step J) (ct_reducer c1) during)
      (fst (register_waiter (completes t u) (ct_reducer c)))) x rest (await J during c1) = Some (out, rest', c')"
    by (auto simp: direct_def interrupt_phases Option.bind_eq_Some_conv)
  from send_spec [OF send] have red: "ct_reducer c1 = snd (register_waiter (completes t u) (ct_reducer c))" by auto
  have "mailbox (foldl (reducer_step J) (ct_reducer c1) during) (fst (register_waiter (completes t u) (ct_reducer c))) =
      mail_of J w during c"
    by (simp add: A_Interrupt red mail_of_def waiter_of_def registered_def)
  with concl assms(2,3) reconcile_observes show ?thesis
    unfolding interrupt_conclusion_def by (fastforce split: sum.splits RequestError.splits option.splits)
next
  case (A_Steer t u input)
  with assms(1) obtain x where "out = response_outcome J D ''turn/steer'' t u (next_correlation c) x"
    by (auto simp: direct_def steer_def rpc_response_action_def Let_def case_prod_unfold)
  with assms(2,3) response_observes show ?thesis by fastforce
next
  case (A_Start t input)
  let ?c = "snd (register (starts_on t) (snd (take_correlation (snd (lock_for t c)))))"
  from assms(1) obtain x rest c1 where
    send: "send_not_written_safe cfg 0 ''turn/start'' (start_params J t input) answers ?c = Some (x, rest, c1)"
    and out: "out = start_outcome J D t (next_correlation c) x (mailbox (foldl (reducer_step J) (ct_reducer c1) during)
      (fst (register_waiter (starts_on t) (ct_reducer c))))"
    by (auto simp: A_Start direct_def start_def start_params_def Let_def case_prod_unfold)
  from send_spec [OF send] have red: "ct_reducer c1 = snd (register_waiter (starts_on t) (ct_reducer c))" by auto
  have "mailbox (foldl (reducer_step J) (ct_reducer c1) during) (fst (register_waiter (starts_on t) (ct_reducer c))) =
      mail_of J w during c"
    by (simp add: A_Start red mail_of_def waiter_of_def registered_def)
  with out assms(2,3) show ?thesis
    by (cases "mail_of J w during c")
       (auto simp: start_outcome_def Let_def split: sum.splits RequestError.splits option.splits if_splits)
qed

lemma mail_first:
  assumes "waiter_wf (ct_reducer c)" "mail_of J w during c = Some e"
  shows "\<exists>p. wanted_waiter w = Some p \<and> find p (applied during) = Some e"
proof -
  from assms(2) obtain p where p: "wanted_waiter w = Some p" by (auto simp: mail_of_def waiter_of_def Option.bind_eq_Some_conv)
  with assms(2) confirmations.first_match [OF assms(1), of J p during] show ?thesis
    by (simp add: mail_of_def waiter_of_def registered_def)
qed

lemma find_window:
  assumes "find p (drop m (take n xs)) = Some e" "n \<le> length xs"
  shows "\<exists>j. m \<le> j \<and> j < n \<and> e = xs ! j \<and> p e \<and> (\<forall>k. m \<le> k \<and> k < j \<longrightarrow> \<not> p (xs ! k))"
proof -
  from assms(1) obtain i where i: "i < length (drop m (take n xs))" "p (drop m (take n xs) ! i)" "e = drop m (take n xs) ! i"
    "\<forall>j<i. \<not> p (drop m (take n xs) ! j)" by (auto simp: find_Some_iff)
  have "\<not> p (xs ! k)" if "m \<le> k" "k < m + i" for k
    using i(4) [rule_format, of "k - m"] i(1) that assms(2) by simp
  with i assms(2) show ?thesis by (intro exI [of _ "m + i"]) auto
qed

section \<open>Rounds in which nothing fills the channel\<close>

lemma acts_queue:
  "length (queue (core_link (rt_core (rt_step P C cfg r (Acts i el))))) \<le> Suc (length (queue (core_link (rt_core r))))"
proof (cases rule: rt_one_core [of P C cfg r "Acts i el"])
  case (submits j el' action m p)
  have "length (queue (link_step J C tc l (Submit action m p))) \<le> Suc (length (queue l))" for J tc l
    by (auto simp: submit_def)
  with submits show ?thesis by (auto simp del: link_step.simps rt_step.simps)
next
  case (registers j el' p)
  then show ?thesis by (simp del: rt_step.simps)
qed (simp_all del: rt_step.simps)

lemma acts_run_queue:
  "list_all (\<lambda>x. \<exists>i el. x = Acts i el) ys \<Longrightarrow>
     length (queue (core_link (rt_core (rt_run P C cfg r ys)))) \<le> length (queue (core_link (rt_core r))) + length ys"
proof (induction ys arbitrary: r)
  case (Cons y ys)
  then obtain i el where y: "y = Acts i el" by auto
  have "rt_run P C cfg r (y # ys) = rt_run P C cfg (rt_step P C cfg r y) ys" by (simp add: rt_run_def)
  with Cons.IH [of "rt_step P C cfg r y"] Cons.prems acts_queue [of P C cfg r i el] y show ?case
    by (simp del: rt_step.simps)
qed (simp add: rt_run_def)

lemma turns_are_rounds:
  assumes "list_all (\<lambda>xs. list_all (\<lambda>x. \<exists>i el. x = Acts i el) xs \<and> (\<forall>i < length (actions r). Acts i True \<in> set xs)) sweeps"
    and "length (queue (core_link (rt_core r))) + length (concat sweeps) < command_capacity"
  shows "rounds_of P C cfg r sweeps"
  using assms
proof (induction sweeps arbitrary: r)
  case (Cons xs sweeps)
  let ?r = "rt_run P C cfg r xs"
  have acts: "list_all (\<lambda>x. \<exists>i el. x = Acts i el) xs" using Cons.prems(1) by simp
  have nb: "list_all (\<lambda>x. \<not> begins x) xs" using acts by (auto simp: list_all_iff)
  have "\<exists>ys zs. xs = ys @ Acts i True # zs \<and> ready (rt_run P C cfg r ys) i" if "i < length (actions r)" for i
  proof -
    have "Acts i True \<in> set xs" using that Cons.prems(1) by simp
    then obtain ys zs where xs: "xs = ys @ Acts i True # zs" by (meson split_list)
    then have "length (queue (core_link (rt_core (rt_run P C cfg r ys)))) < command_capacity"
      using acts_run_queue [of ys P C cfg r] acts Cons.prems(2) by simp
    with xs show ?thesis unfolding ready_def full_def by force
  qed
  then have "round_of P C cfg r xs" using nb by (simp add: round_of_def)
  moreover have "length (actions ?r) = length (actions r)" using run_work [OF nb, of P C cfg r] by blast
  moreover have "length (queue (core_link (rt_core ?r))) + length (concat sweeps) < command_capacity"
    using acts_run_queue [OF acts, of P C cfg r] Cons.prems(2) by simp
  ultimately show ?case using Cons.IH [of ?r] Cons.prems(1) by simp
qed simp

lemma concat_replicate_length: "length (concat (replicate n xs)) = n * length xs"
  by (induction n) simp_all

section \<open>Runs to apply them to\<close>

text \<open>Two calls on one thread, at a system whose operation runs.\<close>

definition operating_core :: "jv Core" where
  "operating_core = test_core\<lparr>main := M_Operating\<rparr>"

abbreviation act_run :: "jv rt_input list \<Rightarrow> jv Runtime" where
  "act_run \<equiv> rt_run test_parts test_codec test_core_config (new_runtime operating_core)"

lemmas act_run_defs =
  rt_run_def act_def acquires_def put_def lock_for_def take_correlation_def new_runtime_def new_controller_def
  new_action_def Let_def

definition two_calls :: "jv rt_input list" where
  "two_calls = [Begins (A_Steer ''t'' ''u'' []), Begins (A_Interrupt ''t'' ''u''), Acts 0 False, Acts 1 False]"

lemma operating [simp]: "main operating_core = M_Operating"
  by (simp add: operating_core_def)

text \<open>A daemon that completes the turn and then accepts the request, by the texts of its messages.\<close>

definition chat_codec :: "jv codec" where
  "chat_codec = \<lparr>text_json = (\<lambda>t. Inr
       (if t = ''done'' then JObj [(''method'', JStr ''turn/completed''),
          (''params'', JObj [(''threadId'', JStr ''t''), (''turnId'', JStr ''u'')])]
        else JObj [(''id'', JNum (if t = ''accepted'' then 1 else 0)), (''result'', JStr t)])),
     bytes_json = (\<lambda>_. Inl [])\<rparr>"

abbreviation chat_core :: "jv Core \<Rightarrow> jv core_input list \<Rightarrow> jv Core" where
  "chat_core \<equiv> core_run test_parts chat_codec test_core_config"

abbreviation chat_links :: "jv link_op list \<Rightarrow> jv Link" where
  "chat_links ops \<equiv> foldl (link_step jv_api chat_codec (transport_config test_core_config)) (core_link test_core) ops"

lemma feed_empty_page_kept:
  "\<exists>g'. test_feed nothing_listed (start_reconcile default_ingest_config g, g) = Some (R_Done (Inr []), g') \<and>
     ti_reducer g' = ti_reducer g \<and> ti_store g' = ti_store g"
  by (simp add: start_reconcile_def page_answered_def end_listing_def empty_page_def core_parts_def get_str_def
      default_ingest_config_def Let_def)

abbreviation chat_admits :: "jv Core \<Rightarrow> jv core_input list \<Rightarrow> bool" where
  "chat_admits \<equiv> admissible (core_step test_parts chat_codec test_core_config) core_admits"

definition open_link :: "jv Link" where
  "open_link = chat_links (connect_ops @ [MarkReconciled, Loop (TakeCommand None)])"

lemma open_link_facts:
  "pc open_link = loop_pc.Driving" "is_reconciled open_link" "next_channel open_link = 1" "next_id open_link = 1"
  "seq open_link = 1" "queue open_link = []"
  by (simp_all add: open_link_def chat_codec_def link_run_defs take_ingress_def)

definition chatting :: "jv ThreadIngestor \<Rightarrow> jv Core" where
  "chatting g = test_core\<lparr>main := M_Operating, watcher := W_Waiting, core_ingestor := g,
     core_link := open_link\<rparr>"

lemma chat_leads:
  assumes "test_feed as (start_reconcile default_ingest_config (core_ingestor test_core), core_ingestor test_core) =
     Some (R_Done (Inr os), g)"
  shows "chat_core test_core (first_run as) = chatting g \<and> chat_admits test_core (first_run as)"
proof -
  let ?s1 = "test_core\<lparr>core_link := chat_links connect_ops\<rparr>"
  let ?s2 = "?s1\<lparr>main := M_Reconciling (R_Done (Inr os)), core_ingestor := g\<rparr>"
  have 1: "chat_core test_core connects = ?s1"
    unfolding connects_def by (subst link_feeds) (simp_all add: connect_ops_def)
  have 2: "chat_core ?s1 (map (\<lambda>a. MainRuns a 0 0) as) = ?s2"
    by (rule main_feeds) (use assms in simp_all)
  have driving: "pc (chat_links connect_ops) = loop_pc.Driving" "queue (chat_links connect_ops) = []"
      "seq (chat_links connect_ops) = 1"
    by (simp_all add: chat_codec_def link_run_defs take_ingress_def)
  then have 3: "chat_core ?s2 marking = chatting g"
    unfolding marking_def chatting_def open_link_def by (subst main_marks) simp_all
  have "chat_admits test_core connects" unfolding connects_def
    by (rule core_admits_links) (simp_all add: chat_codec_def link_run_defs take_ingress_def)
  moreover have "chat_admits ?s2 marking"
    using driving by (simp add: marking_def main_step_def marking_defs Let_def)
  ultimately show ?thesis
    using 1 2 3 unfolding first_run_def core_run_append admissible_append
    by (simp add: core_run_def [symmetric] del: test_core_fields)
qed

lemma chat_begins:
  "\<exists>g. chat_core test_core (first_run nothing_listed) = chatting g \<and> chat_admits test_core (first_run nothing_listed) \<and>
     ti_reducer g = empty_reducer 4096 \<and> ti_store g = Some new_store"
proof -
  from feed_empty_page_kept [of "core_ingestor test_core"] obtain g where
    fed: "test_feed nothing_listed (start_reconcile default_ingest_config (core_ingestor test_core), core_ingestor test_core) =
      Some (R_Done (Inr []), g)" "ti_reducer g = empty_reducer 4096" "ti_store g = Some new_store"
    by (auto simp: test_core_def test_ingestor_def with_store_def new_ingestor_def)
  with chat_leads [OF fed(1)] show ?thesis by blast
qed

lemma system_run:
  assumes "list_all (\<lambda>x. \<not> of_an_action x) xs"
  shows "rt_run P C cfg r (map System xs) = r\<lparr>rt_core := core_run P C cfg (rt_core r) xs\<rparr>"
  using assms
proof (induction xs arbitrary: r)
  case (Cons x xs)
  then show ?case using Cons.IH [of "rt_step P C cfg r (System x)"] by (simp add: rt_run_def core_run_def del: core_step.simps)
qed (simp add: rt_run_def)

lemma system_admits:
  assumes "list_all (\<lambda>x. \<not> of_an_action x) xs"
  shows "admissible (rt_step P C cfg) rt_admits r (map System xs) =
     admissible (core_step P C cfg) core_admits (rt_core r) xs"
  using assms
  by (induction xs arbitrary: r) (auto simp del: core_step.simps)

text \<open>An interrupt that is accepted, and whose completion comes before the response.\<close>

definition calling :: "jv rt_input list" where
  "calling = [Begins (A_Interrupt ''t'' ''u''), Acts 0 False, Acts 0 False, Acts 0 False]"

definition answering :: "jv core_input list" where
  "answering = map OnLink [Loop (TakeCommand None), Loop (DriveRead 0 0 True (Message (TextMessage ''done''))),
       Loop (DriveRead 0 0 True (Message (TextMessage ''accepted'')))]"

abbreviation chat_run :: "jv Runtime \<Rightarrow> jv rt_input list \<Rightarrow> jv Runtime" where
  "chat_run \<equiv> rt_run test_parts chat_codec test_core_config"

definition asked_link :: "jv Link" where
  "asked_link = snd (submit True ''turn/interrupt'' (interrupt_params jv_api ''t'' ''u'') open_link)"

abbreviation chat_hold :: Hold where
  "chat_hold \<equiv> \<lparr>h_lock = 0, h_number = 1, h_waiter = Some 0\<rparr>"

definition chat_action :: "jv Stage \<Rightarrow> jv Action" where
  "chat_action st = \<lparr>wanted = A_Interrupt ''t'' ''u'', stage = st, answers_had = [], submissions = [(1, Number 1)],
     watched_from = 0, watched_to = 0\<rparr>"

definition waiting_core :: "jv ThreadIngestor \<Rightarrow> jv Core" where
  "waiting_core g = (chatting g)\<lparr>core_ingestor := g\<lparr>ti_reducer := snd (register_waiter (completes ''t'' ''u'') (empty_reducer 4096))\<rparr>,
     core_link := asked_link\<rparr>"

lemma test_core_taken [simp]: "taken test_core = 0" "ingress_running test_core"
  by (simp_all add: test_core_def)

lemma chat_called:
  assumes "ti_reducer g = empty_reducer 4096"
  shows "\<exists>c. next_correlation c = 2 \<and> chat_run (new_runtime (chatting g)) calling = \<lparr>rt_core = waiting_core g, rt_control = c,
      mutexes = (\<lambda>_. [])(0 := [0]), actions = [chat_action (Asking chat_hold 0 1)]\<rparr>"
  using assms open_link_facts test_core_taken
  by (simp add: calling_def rt_run_def act_def acquires_def put_def lock_for_def take_correlation_def new_runtime_def
      new_controller_def new_action_def Let_def chatting_def advance_def sends_def submits_def full_def command_capacity_def submit_def
      core_run_def waiting_core_def asked_link_def chat_action_def register_waiter_def empty_reducer_def)

definition answered_link :: "jv Link" where
  "answered_link = foldl (link_step jv_api chat_codec (transport_config test_core_config)) asked_link
     [Loop (TakeCommand None), Loop (DriveRead 0 0 True (Message (TextMessage ''done''))),
      Loop (DriveRead 0 0 True (Message (TextMessage ''accepted'')))]"

lemma answered_link_facts:
  "\<exists>e1 e2 e3. ingress answered_link = [e1, e2, e3] \<and> completes ''t'' ''u'' e2 \<and> \<not> completes ''t'' ''u'' e1 \<and> sequence e2 = 2"
  "answer_on answered_link 1 = Some (Inr (JStr ''accepted''))" "next_id answered_link = 2"
  by (simp_all add: answered_link_def asked_link_def open_link_def answer_on_def chat_codec_def link_run_defs take_ingress_def
      drive_frame_def answer_pending_def pending_remove_def response_answer_def completes_def
      from_frame_def extract_thread_id_def extract_turn_id_def get_path_def event_method_def)

lemma chat_answered:
  "rt_run test_parts chat_codec test_core_config r (map System answering) =
     r\<lparr>rt_core := core_run test_parts chat_codec test_core_config (rt_core r) answering\<rparr>"
  by (rule system_run) (simp add: answering_def)

lemma chat_answering: "chat_core (waiting_core g) answering = (waiting_core g)\<lparr>core_link := answered_link\<rparr>"
  unfolding answering_def by (subst link_feeds) (simp_all add: waiting_core_def answered_link_def)

lemma answering_admits: "chat_admits (waiting_core g) answering"
  unfolding answering_def
  by (rule core_admits_links)
     (simp_all add: waiting_core_def asked_link_def open_link_def chat_codec_def link_run_defs take_ingress_def
       drive_frame_def answer_pending_def from_frame_def)

lemma chat_takes:
  assumes "ti_reducer g = empty_reducer 4096" "ti_store g = Some new_store"
    and "ingress answered_link = [e1, e2, e3]"
  shows "\<exists>s. chat_core ((waiting_core g)\<lparr>core_link := answered_link\<rparr>) [IngressTakes, IngressTakes] = s \<and>
    core_link s = answered_link \<and> taken s = 2 \<and> main s = M_Operating \<and>
    ti_reducer (core_ingestor s) = foldl (reducer_step jv_api)
      (snd (register_waiter (completes ''t'' ''u'') (empty_reducer 4096))) [Apply e1, Apply e2]"
proof -
  let ?P = "core_parts test_parts test_core_config"
  let ?s = "(waiting_core g)\<lparr>core_link := answered_link\<rparr>"
  have parts: "iter_ok (iteration ?P)" by (simp add: core_parts_def)
  have "store_sound ?P [] new_store"
    unfolding store_sound_def by (intro conjI exI [of _ "[]"]) simp_all
  then have ok: "core_store_ok ?P [] (core_ingestor ?s)" using assms(2) by (simp add: core_store_ok_def waiting_core_def)
  from ingress_takes_sound [OF parts ok, of e1] obtain s1 where
    s1: "ingress_takes ?P e1 ?s = Some s1" "core_store_ok ?P [e1] (core_ingestor s1)"
    "taken s1 = Suc (taken ?s)" "ingress_running s1 = ingress_running ?s" by auto
  from ingress_takes_sound [OF parts s1(2), of e2] obtain s2 where
    s2: "ingress_takes ?P e2 s1 = Some s2" "taken s2 = Suc (taken s1)" by auto
  note eff1 = ingress_takes_effect [OF s1(1)] and eff2 = ingress_takes_effect [OF s2(1)]
  have base: "taken ?s = 0" "ingress_running ?s" "core_link ?s = answered_link"
    by (simp_all add: waiting_core_def chatting_def)
  have "main ?s = M_Operating" "ti_reducer (core_ingestor ?s) = snd (register_waiter (completes ''t'' ''u'') (empty_reducer 4096))"
    by (simp_all add: waiting_core_def chatting_def)
  then show ?thesis
    using base s1 s2 eff1 eff2 assms(3) by (simp add: core_run_def)
qed

definition full_chat :: "jv rt_input list" where
  "full_chat = map System (first_run nothing_listed) @ calling @ map System (answering @ [IngressTakes, IngressTakes]) @
     [Acts 0 False, Acts 0 False]"

abbreviation "chat_rt_admits \<equiv> admissible (rt_step test_parts chat_codec test_core_config) rt_admits"

lemma calling_admits:
  assumes "ti_reducer g = empty_reducer 4096"
  shows "chat_rt_admits (new_runtime (chatting g)) calling"
  using assms open_link_facts test_core_taken
  by (simp add: calling_def rt_run_def act_def acquires_def put_def lock_for_def take_correlation_def new_runtime_def
      new_controller_def new_action_def Let_def chatting_def advance_def sends_def submits_def full_def command_capacity_def submit_def
      core_run_def register_waiter_def empty_reducer_def)

lemma chat_concludes:
  assumes "core_link s = answered_link" "completes ''t'' ''u'' e2" "\<not> completes ''t'' ''u'' e1" "next_correlation c = 2"
    and red: "ti_reducer (core_ingestor s) = foldl (reducer_step jv_api)
      (snd (register_waiter (completes ''t'' ''u'') (empty_reducer 4096))) [Apply e1, Apply e2]"
    and r: "r = \<lparr>rt_core = s, rt_control = c, mutexes = m, actions = [chat_action (Asking chat_hold 0 1)]\<rparr>"
  shows "chat_rt_admits r [Acts 0 False, Acts 0 False] \<and>
    (\<exists>a. actions (chat_run r [Acts 0 False, Acts 0 False]) = [a] \<and> wanted a = A_Interrupt ''t'' ''u'' \<and>
      stage a = Concluded (Confirmed (Turn ''t'' ''u'') (observed 1 True e2
        ''matching completion observed after interrupt; correlation is not proof of causation'')))"
proof -
  have zero: "fst (register_waiter (completes ''t'' ''u'') (empty_reducer 4096 :: jv Reducer)) = 0" by (simp add: register_waiter_def empty_reducer_def)
  have "mailbox (ti_reducer (core_ingestor s)) (fst (register_waiter (completes ''t'' ''u'') (empty_reducer 4096 :: jv Reducer))) = Some e2"
    unfolding red
    using confirmations.first_match [of "empty_reducer 4096" jv_api "completes ''t'' ''u''" "[Apply e1, Apply e2]"] assms(2,3)
    by simp
  then have "mailbox (ti_reducer (core_ingestor s)) 0 = Some e2" unfolding zero .
  with assms(1,4) answered_link_facts(2,3) show ?thesis
    by (simp add: r rt_run_def act_def advance_def chat_action_def waited_on_def after_answer_def send_decided_def
        window_closed_def hears_def put_def Let_def)
qed

lemma chat_calls:
  "\<exists>g c. chat_run (new_runtime test_core) (map System (first_run nothing_listed) @ calling) =
       \<lparr>rt_core = waiting_core g, rt_control = c, mutexes = (\<lambda>_. [])(0 := [0]),
        actions = [chat_action (Asking chat_hold 0 1)]\<rparr> \<and>
     chat_rt_admits (new_runtime test_core) (map System (first_run nothing_listed) @ calling) \<and>
     next_correlation c = 2 \<and> ti_reducer g = empty_reducer 4096 \<and> ti_store g = Some new_store"
proof -
  from chat_begins obtain g where g: "chat_core test_core (first_run nothing_listed) = chatting g"
    "chat_admits test_core (first_run nothing_listed)" "ti_reducer g = empty_reducer 4096" "ti_store g = Some new_store" by blast
  from chat_called [OF g(3)] obtain c where
    c: "next_correlation c = 2" and called: "chat_run (new_runtime (chatting g)) calling = \<lparr>rt_core = waiting_core g, rt_control = c,
      mutexes = (\<lambda>_. [])(0 := [0]), actions = [chat_action (Asking chat_hold 0 1)]\<rparr>" by blast
  have quiet: "list_all (\<lambda>x. \<not> of_an_action x) (first_run nothing_listed)"
    by (simp add: first_run_def connects_def connect_ops_def marking_def)
  have control: "new_runtime (chatting g) = (new_runtime test_core)\<lparr>rt_core := chatting g\<rparr>"
    using g(3) by (simp add: new_runtime_def chatting_def test_core_def test_ingestor_def with_store_def new_ingestor_def)
  have first: "chat_run (new_runtime test_core) (map System (first_run nothing_listed)) = new_runtime (chatting g)"
    unfolding control system_run [OF quiet] using g(1) by (simp add: new_runtime_def)
  have "chat_run (new_runtime test_core) (map System (first_run nothing_listed) @ calling) = chat_run (new_runtime (chatting g)) calling"
    using first by (simp add: rt_run_def)
  moreover have "chat_rt_admits (new_runtime test_core) (map System (first_run nothing_listed) @ calling)"
    using calling_admits [OF g(3)] g(2) first system_admits [OF quiet]
    unfolding admissible_append rt_run_def [symmetric] by (simp add: new_runtime_def)
  ultimately show ?thesis using called c g(3,4) by metis
qed

lemma chat_runs:
  "\<exists>a (e :: jv SequencedEvent). actions (chat_run (new_runtime test_core) full_chat) = [a] \<and> wanted a = A_Interrupt ''t'' ''u'' \<and>
     stage a = Concluded (Confirmed (Turn ''t'' ''u'') (observed 1 True e
      ''matching completion observed after interrupt; correlation is not proof of causation'')) \<and> sequence e = 2 \<and>
     chat_rt_admits (new_runtime test_core) full_chat"
proof -
  from chat_calls obtain g c where called: "chat_run (new_runtime test_core) (map System (first_run nothing_listed) @ calling) =
      \<lparr>rt_core = waiting_core g, rt_control = c, mutexes = (\<lambda>_. [])(0 := [0]),
        actions = [chat_action (Asking chat_hold 0 1)]\<rparr>" (is "_ = ?r2")
    and adm: "chat_rt_admits (new_runtime test_core) (map System (first_run nothing_listed) @ calling)"
    and c: "next_correlation c = 2" and g: "ti_reducer g = empty_reducer 4096" "ti_store g = Some new_store" by blast
  from answered_link_facts(1) obtain e1 e2 e3 where e: "ingress answered_link = [e1, e2, e3]"
    "completes ''t'' ''u'' e2" "\<not> completes ''t'' ''u'' e1" "sequence e2 = 2" by blast
  from chat_takes [OF g e(1)] obtain s where
    s: "chat_core ((waiting_core g)\<lparr>core_link := answered_link\<rparr>) [IngressTakes, IngressTakes] = s"
    "core_link s = answered_link" "taken s = 2" "main s = M_Operating"
    "ti_reducer (core_ingestor s) = foldl (reducer_step jv_api)
      (snd (register_waiter (completes ''t'' ''u'') (empty_reducer 4096))) [Apply e1, Apply e2]" by blast
  have quiet2: "list_all (\<lambda>x. \<not> of_an_action x) (answering @ [IngressTakes, IngressTakes])"
    by (simp add: answering_def)
  have answer: "chat_run ?r2 (map System (answering @ [IngressTakes, IngressTakes])) = ?r2\<lparr>rt_core := s\<rparr>"
    using s(1) unfolding system_run [OF quiet2] core_run_append by (simp add: chat_answering)
  from chat_concludes [OF s(2) e(2,3) c s(5), of "?r2\<lparr>rt_core := s\<rparr>" "(\<lambda>_. [])(0 := [0])"] obtain a where
    last: "chat_rt_admits (?r2\<lparr>rt_core := s\<rparr>) [Acts 0 False, Acts 0 False]" and a: "actions (chat_run (?r2\<lparr>rt_core := s\<rparr>) [Acts 0 False, Acts 0 False]) = [a]" "wanted a = A_Interrupt ''t'' ''u''"
    "stage a = Concluded (Confirmed (Turn ''t'' ''u'') (observed 1 True e2
      ''matching completion observed after interrupt; correlation is not proof of causation''))" by auto
  have split: "chat_run r (xs @ ys) = chat_run (chat_run r xs) ys" for r xs ys by (simp add: rt_run_def)
  have run: "actions (chat_run (new_runtime test_core) full_chat) = [a]"
    using a(1) called answer by (simp add: full_chat_def split append_assoc [symmetric] del: append_assoc)
  have "chat_rt_admits ?r2 (map System (answering @ [IngressTakes, IngressTakes]))"
    unfolding system_admits [OF quiet2] admissible_append using answering_admits [of g] by simp
  with last have "chat_rt_admits (new_runtime test_core) full_chat"
    using adm called answer
    unfolding full_chat_def append_assoc [symmetric, of "map System (first_run nothing_listed)"] admissible_append rt_run_def [symmetric]
    by simp
  with run a(2,3) e(4) show ?thesis by blast
qed

abbreviation chat_end :: "jv Runtime" where
  "chat_end \<equiv> chat_run (new_runtime test_core) full_chat"

section \<open>What becomes of waiters\<close>

abbreviation waiting :: "'v Core \<Rightarrow> 'v Waiter set" where
  "waiting s \<equiv> set (waiters (ti_reducer (core_ingestor s)))"

lemma waiting_ops:
  assumes "waiter_wf red" "w \<in> set (waiters red)" "\<forall>e \<in> set (applied ops). \<not> predicate w e"
  shows "w \<in> set (waiters (foldl (reducer_step J) red ops))"
  using assms
proof (induction ops arbitrary: red)
  case (Cons x ops)
  have "w \<in> set (waiters (reducer_step J red x))"
    using waiting_step [OF Cons.prems(1,2), of x J] Cons.prems(3) by (cases x) auto
  moreover have "\<forall>e \<in> set (applied ops). \<not> predicate w e" using Cons.prems(3) by (cases x) auto
  ultimately show ?case
    using Cons.IH [of "reducer_step J red x"] waiter_wf_step [OF Cons.prems(1), of J x]
    by (simp del: reducer_step.simps)
qed simp

lemma waiting_core_step:
  assumes tr: "tracks_ingress (api P) cap s" and w: "w \<in> waiting s" and coh: "coherent P C cfg s s'"
    and none: "\<forall>e \<in> set (drop (taken s) (received s')). \<not> predicate w e"
  shows "w \<in> waiting s'"
proof -
  have wf: "waiter_wf (ti_reducer (core_ingestor s))" using tr by (auto simp: tracks_ingress_def waiter_wf_run)
  from coh consider
      (quiet) ops where "list_all subscription_op ops"
        "ti_reducer (core_ingestor s') = foldl (reducer_step (api P)) (ti_reducer (core_ingestor s)) ops"
    | (takes) "taken s < length (ingress (core_link s))" "taken s' = Suc (taken s)" "core_link s' = core_link s"
        "ti_reducer (core_ingestor s') = apply_event (api P) (ingress (core_link s) ! taken s) (ti_reducer (core_ingestor s))"
    unfolding coherent_def subscriptions_only_def by blast
  then show ?thesis
  proof cases
    case quiet
    with waiting_ops [OF wf w, of ops] show ?thesis by (simp add: applied_subscriptions)
  next
    case takes
    with none have "\<not> predicate w (ingress (core_link s) ! taken s)" by (simp add: take_Suc_conv_app_nth)
    with takes(4) w show ?thesis by (simp add: set_waiters_apply)
  qed
qed

lemma waiting_core_run:
  assumes "tracks_ingress (api P) cap s" "admissible (core_step P C cfg) core_admits s zs" "w \<in> waiting s"
    and "\<forall>e \<in> set (drop (taken s) (received (foldl (core_step P C cfg) s zs))). \<not> predicate w e"
  shows "w \<in> waiting (foldl (core_step P C cfg) s zs) \<and> taken s \<le> taken (foldl (core_step P C cfg) s zs)"
  using assms
proof (induction zs rule: rev_induct)
  case (snoc z zs)
  let ?s = "foldl (core_step P C cfg) s zs" and ?s' = "foldl (core_step P C cfg) s (zs @ [z])"
  have adm: "admissible (core_step P C cfg) core_admits s zs" "core_admits ?s z"
    using snoc.prems(2) by (simp_all add: admissible_append)
  have coh: "coherent P C cfg ?s ?s'" using core_step_coherent [OF adm(2)] by simp
  have tr: "tracks_ingress (api P) cap ?s" by (rule tracking.run_inv [OF snoc.prems(1) adm(1)])
  then have le: "taken ?s \<le> length (ingress (core_link ?s))" by (simp add: tracks_ingress_def)
  from coherent_link [OF coh] obtain new where new: "ingress (core_link ?s') = ingress (core_link ?s) @ new" by blast
  from le new coherent_taken [OF coh] have pre: "received ?s = take (taken ?s) (received ?s')"
    by (simp add: min_def)
  have sub: "set (drop (taken s) (received ?s)) \<subseteq> set (drop (taken s) (received ?s'))"
    unfolding pre by (metis drop_take set_take_subset)
  with snoc.IH [OF snoc.prems(1) adm(1) snoc.prems(3)] snoc.prems(4) sub have w: "w \<in> waiting ?s" and up: "taken s \<le> taken ?s" by blast+
  have "set (drop (taken ?s) (received ?s')) \<subseteq> set (drop (taken s) (received ?s'))"
    using up by (rule set_drop_subset_set_drop)
  with snoc.prems(4) have "\<forall>e \<in> set (drop (taken ?s) (received ?s')). \<not> predicate w e" by blast
  from waiting_core_step [OF tr w coh this] coherent_taken [OF coh] up show ?case by simp
qed simp

section \<open>Properties\<close>

text \<open>C6. One action at a time on each thread: whatever the calls and however they interleave, while one
  action is past its mutex (from taking its correlation to its outcome) no other action on the same
  thread is, and those that have arrived stand behind it; an action on another thread never
  waits for it.\<close>

theorem one_action_per_thread:
  assumes "r = rt_run P C cfg (new_runtime s) xs"
    and "i < length (actions r)" "j < length (actions r)" "i \<noteq> j" "holding (stage (actions r ! i)) = Some h"
  shows "if thread_of (wanted (actions r ! j)) = thread_of (wanted (actions r ! i))
    then holding (stage (actions r ! j)) = None \<and>
      (\<forall>l. stage (actions r ! j) = InLine l \<longrightarrow> (\<exists>between later. mutexes r l = i # between @ j # later))
    else stage_lock (stage (actions r ! j)) \<noteq> Some (h_lock h)"
proof -
  have ok: "locks_held r" unfolding assms(1) by (rule run_locks)
  have line: "thread_locks (rt_control r) (thread_of (wanted (actions r ! k))) = Some l"
    if "k < length (actions r)" "stage_lock (stage (actions r ! k)) = Some l" for k l
    using ok that by (simp add: locks_held_def line_ok_def)
  have lead: "leads (mutexes r (h_lock g)) k" if "k < length (actions r)" "holding (stage (actions r ! k)) = Some g" for k g
    using ok that by (simp add: locks_held_def line_ok_def)
  have inj: "t = u" if "thread_locks (rt_control r) t = Some l" "thread_locks (rt_control r) u = Some l" for t u l
    using ok that unfolding locks_held_def locks_ok_def by blast
  note mine = line [OF assms(2), of "h_lock h"] lead [OF assms(2,5)]
  show ?thesis
  proof (cases "thread_of (wanted (actions r ! j)) = thread_of (wanted (actions r ! i))")
    case same: True
    have "holding (stage (actions r ! j)) = None"
    proof (rule ccontr)
      assume "holding (stage (actions r ! j)) \<noteq> None"
      then obtain g where g: "holding (stage (actions r ! j)) = Some g" by auto
      with line [OF assms(3), of "h_lock g"] mine(1) assms(5) same have "h_lock g = h_lock h" by simp
      with lead [OF assms(3) g] mine(2) leads_unique assms(4) show False by metis
    qed
    moreover have "\<exists>between later. mutexes r l = i # between @ j # later" if "stage (actions r ! j) = InLine l" for l
    proof -
      have "h_lock h = l" using that line [OF assms(3), of l] mine(1) assms(5) same by simp
      with mine(2) obtain rest where m: "mutexes r l = i # rest" by (cases "mutexes r l") auto
      have "j \<in> set (mutexes r l)" using ok assms(3) that by (simp add: locks_held_def lines_ok_def)
      with m assms(4) show ?thesis by (auto dest: split_list)
    qed
    ultimately show ?thesis using same by simp
  next
    case False
    with line [OF assms(3), of "h_lock h"] mine(1) assms(5) inj show ?thesis by fastforce
  qed
qed

theorem one_action_per_thread_witness:
  "holding (stage (actions (act_run (two_calls @ [Acts 0 False])) ! 1)) = None"
proof -
  let ?r = "act_run (two_calls @ [Acts 0 False])"
  have "length (actions ?r) = 2" "\<exists>h. holding (stage (actions ?r ! 0)) = Some h"
    "thread_of (wanted (actions ?r ! 1)) = thread_of (wanted (actions ?r ! 0))"
    by (simp_all add: two_calls_def act_run_defs)
  with one_action_per_thread [OF refl, of 0 test_parts test_codec test_core_config operating_core "two_calls @ [Acts 0 False]" 1]
  show ?thesis by auto
qed

text \<open>C10. No action overtakes another: of two calls on a thread, the one that reached its mutex first
  goes first. Whoever stood ahead of an action in the line is over, with an outcome or
  dropped by its caller, by the time that action holds the mutex.\<close>

theorem no_action_overtakes:
  assumes "mutexes (rt_run P C cfg (new_runtime s) before) l = ahead @ j # later_calls"
    and "holding (stage (actions (rt_run P C cfg (new_runtime s) (before @ onward)) ! j)) = Some h"
  shows "\<forall>i \<in> set ahead. over (stage (actions (rt_run P C cfg (new_runtime s) (before @ onward)) ! i))"
proof -
  let ?base = "rt_run P C cfg (new_runtime s) before"
  let ?r = "rt_run P C cfg (new_runtime s) (before @ onward)"
  have ok0: "locks_held ?base" and ok: "locks_held ?r" by (rule run_locks)+
  have mem: "i \<in> set (mutexes ?base l) \<Longrightarrow> i < length (actions ?base) \<and> stage_lock (stage (actions ?base ! i)) = Some l" for i
    using ok0 by (simp add: locks_held_def lines_ok_def)
  have "behind ?base l ahead j" unfolding behind_def using mem assms(1) by auto
  then have "behind (foldl (rt_step P C cfg) ?base onward) l ahead j"
    by (rule order.run_inv) simp
  then have b: "behind ?r l ahead j" by (simp add: rt_run_def)
  from assms(2) have "\<not> over (stage (actions ?r ! j))" by simp
  with b obtain xs ys where q: "mutexes ?r l = xs @ j # ys" "\<forall>i \<in> set ahead. i \<in> set xs \<or> over (stage (actions ?r ! i))"
    by (auto simp: behind_def)
  have mem': "j \<in> set (mutexes ?r k) \<longleftrightarrow> j < length (actions ?r) \<and> stage_lock (stage (actions ?r ! j)) = Some k" for k
    using ok by (simp add: locks_held_def lines_ok_def)
  have "h_lock h = l" "j < length (actions ?r)" using mem' [of l] q(1) assms(2) by auto
  moreover from this(2) have "leads (mutexes ?r (h_lock h)) j" using ok assms(2) by (simp add: locks_held_def line_ok_def)
  moreover have "distinct (mutexes ?r l)" using ok by (simp add: locks_held_def lines_ok_def)
  ultimately have "xs = []" using q(1) by (cases xs) auto
  with q(2) show ?thesis by simp
qed

theorem no_action_overtakes_witness:
  "over (stage (actions (act_run (two_calls @ [Abandons 0, Acts 1 False])) ! 0))"
proof -
  have "mutexes (act_run two_calls) 0 = [0] @ 1 # []"
    "\<exists>h. holding (stage (actions (act_run (two_calls @ [Abandons 0, Acts 1 False])) ! 1)) = Some h"
    by (simp_all add: two_calls_def act_run_defs)
  with no_action_overtakes [of test_parts test_codec test_core_config operating_core two_calls 0 "[0]" 1 "[]"]
  show ?thesis by auto
qed

text \<open>C8. Every action returns while the channel of the commands has room: from any state of any run, if no
  further call is made, each round in which every action gets one turn after its timers have run
  out, and one that waits for room to queue its request gets that turn when the channel is not full,
  brings all of them closer to their end, whatever else happens in between (a daemon that never
  answers, connections that break, other tasks that never move); after a number of rounds that
  depends only on the number of actions and the configured retries, every action has returned. An
  action that has nothing to queue needs no room, and a stopped loop refuses at once.\<close>

theorem every_action_returns:
  assumes "r = rt_run P C cfg (new_runtime s) xs" "rounds_of P C cfg r sweeps"
    and "length (actions r) * (4 * not_written_retries (control_config cfg) + 8) \<le> length sweeps"
  shows "\<forall>a \<in> set (actions (rt_run P C cfg r (concat sweeps))). over (stage a)"
proof -
  have "locks_held r" unfolding assms(1) by (rule run_locks)
  from rounds_work [OF this assms(2)] le_trans [OF work_left_bound assms(3)] show ?thesis by blast
qed

theorem every_action_returns_witness:
  "list_all (\<lambda>a. over (stage a)) (actions (rt_run test_parts test_codec test_core_config (act_run two_calls)
     (concat (replicate 32 [Acts 0 True, Acts 1 True]))))"
proof -
  let ?r = "act_run two_calls"
  have n: "length (actions ?r) = 2" by (simp add: two_calls_def act_run_defs)
  have "queue (core_link (rt_core ?r)) = []"
    by (simp add: two_calls_def act_run_defs operating_core_def test_core_def take_ingress_def spawn_def)
  then have "rounds_of test_parts test_codec test_core_config ?r (replicate 32 [Acts 0 True, Acts 1 True])"
    by (intro turns_are_rounds) (auto simp: n less_Suc_eq numeral_2_eq_2 concat_replicate_length command_capacity_def list_all_iff)
  moreover have "not_written_retries (control_config test_core_config) = 2"
    by (simp add: test_core_config_def default_config_def default_control_config_def Let_def)
  ultimately show ?thesis
    unfolding list_all_iff [of "\<lambda>a. over (stage a)"]
    by (intro every_action_returns [OF refl]) (simp_all add: n)
qed

text \<open>C2. An action's outcome tells what was written: in any run of the system with its actions, an action
  leaves at most one frame, its own request, on all the connections taken together. An
  action rejected without an error of the daemon has left none; one rejected by the daemon, or
  whose outcome counts as accepted, has left exactly one.\<close>

theorem outcome_tells_frames:
  assumes "json_laws (api P)" "begin_core cfg supervised = Some (Inr s0)"
    and "admissible (rt_step P C cfg) rt_admits (new_runtime s0) xs"
    and "a \<in> set (actions (rt_run P C cfg (new_runtime s0) xs))"
  shows "let fs = frames_left (api P) (core_link (rt_core (rt_run P C cfg (new_runtime s0) xs))) a
    in length fs \<le> 1 \<and> list_all (own_frame (api P) (wanted a)) fs \<and>
       (case stage a of Concluded out \<Rightarrow> frames_by out fs | _ \<Rightarrow> True)"
proof -
  let ?r = "rt_run P C cfg (new_runtime s0) xs"
  have "all_told (api P) ?r"
    unfolding rt_run_def by (rule tales.run_inv [OF begun_told [OF assms(1,2)] assms(3)])
  then have "link_ok (api P) (core_link (rt_core ?r))" "told (api P) (core_link (rt_core ?r)) a"
    using assms(4) by (simp_all add: all_told_def core_link_ok_def)
  from frames_left_one [OF this] outcome_frames [OF this] show ?thesis
    by (auto simp: Let_def split: Stage.split)
qed

theorem outcome_tells_frames_witness:
  "\<exists>a out. actions chat_end = [a] \<and> stage a = Concluded out \<and>
     length (frames_left jv_api (core_link (rt_core chat_end)) a) = 1"
proof -
  from chat_runs obtain a and e :: "jv SequencedEvent" where a: "actions chat_end = [a]"
    "stage a = Concluded (Confirmed (Turn ''t'' ''u'') (observed 1 True e
      ''matching completion observed after interrupt; correlation is not proof of causation''))"
    "chat_rt_admits (new_runtime test_core) full_chat" by blast
  with outcome_tells_frames [OF _ test_core_begins a(3), of a] show ?thesis
    by (simp add: Let_def observed_def)
qed

text \<open>C4. An interleaved action refines its direct reading: whatever the other tasks and actions do
  in between, the outcome of an action in a run is the one that \<open>interrupt\<close>, \<open>steer\<close> or \<open>start\<close> of the
  controller gives, read as one uninterrupted function, on the answers its own requests got and on
  the events the ingress received between the registration of its waiter and the end of its
  window, from the reducer as it was at that registration.\<close>

theorem interleaved_action_refines_direct:
  assumes "begin_core cfg supervised = Some (Inr s0)" "admissible (rt_step P C cfg) rt_admits (new_runtime s0) xs"
    and "a \<in> set (actions (rt_run P C cfg (new_runtime s0) xs))" "stage a = Concluded out"
  shows "\<exists>c before during.
    direct (api P) (id_debug P) (control_config cfg) (wanted a) (answers_had a) during c = Some out \<and>
    ct_reducer c = foldl (reducer_step (api P)) (empty_reducer (lifecycle_replay_capacity cfg)) before \<and>
    applied before = take (watched_from a) (ingress (core_link (rt_core (rt_run P C cfg (new_runtime s0) xs)))) \<and>
    applied during = drop (watched_from a) (take (watched_to a)
      (ingress (core_link (rt_core (rt_run P C cfg (new_runtime s0) xs)))))"
proof -
  let ?r = "rt_run P C cfg (new_runtime s0) xs"
  have "all_read P cfg ?r" unfolding rt_run_def by (rule readings.run_inv [OF begun_read [OF assms(1)] assms(2)])
  then have "stage_read P cfg (rt_core ?r) a (Concluded out)" using assms(3,4) by (force simp: all_read_def)
  then show ?thesis unfolding stage_read.simps watched_def began_def by blast
qed

theorem interleaved_action_refines_direct_witness:
  "\<exists>c during out. direct jv_api (id_debug test_parts) (control_config test_core_config) (A_Interrupt ''t'' ''u'')
     (answers_had (hd (actions chat_end))) during c = Some out \<and>
   applied during = drop (watched_from (hd (actions chat_end))) (take (watched_to (hd (actions chat_end)))
     (ingress (core_link (rt_core chat_end))))"
proof -
  from chat_runs obtain a out where a: "actions chat_end = [a]" "stage a = Concluded out" "wanted a = A_Interrupt ''t'' ''u''"
    "chat_rt_admits (new_runtime test_core) full_chat" by blast
  from interleaved_action_refines_direct [OF test_core_begins a(4) _ a(2)] a(1,3) show ?thesis by fastforce
qed

text \<open>C7. Evidence was received, and in time: a sequence that an outcome of an action cites, in any run, is that
  of an event the ingress received after the action had registered its waiter and before its window
  closed; it is the first such event that satisfies the waiter, and its method is the one cited.\<close>

theorem evidence_was_received:
  assumes "begin_core cfg supervised = Some (Inr s0)" "admissible (rt_step P C cfg) rt_admits (new_runtime s0) xs"
    and "a \<in> set (actions (rt_run P C cfg (new_runtime s0) xs))" "stage a = Concluded out"
    and "outcome_evidence out = Some ev" "observed_sequence ev = Some q"
  shows "\<exists>p j. let events = received (rt_core (rt_run P C cfg (new_runtime s0) xs))
    in wanted_waiter (wanted a) = Some p \<and> watched_from a \<le> j \<and> j < watched_to a \<and> j < length events \<and>
       p (events ! j) \<and> sequence (events ! j) = q \<and> observed_method ev = event_method (events ! j) \<and>
       (\<forall>k. watched_from a \<le> k \<and> k < j \<longrightarrow> \<not> p (events ! k))"
proof -
  let ?r = "rt_run P C cfg (new_runtime s0) xs"
  let ?in = "ingress (core_link (rt_core ?r))"
  have all: "all_read P cfg ?r" unfolding rt_run_def by (rule readings.run_inv [OF begun_read [OF assms(1)] assms(2)])
  then have "stage_read P cfg (rt_core ?r) a (Concluded out)" using assms(3,4) by (force simp: all_read_def)
  then obtain h c during where w: "watched (api P) (lifecycle_replay_capacity cfg) (rt_core ?r) a h c during"
    and d: "direct (api P) (id_debug P) (control_config cfg) (wanted a) (answers_had a) during c = Some out" by auto
  have le: "taken (rt_core ?r) \<le> length ?in" using all by (simp add: all_read_def tracks_ingress_def)
  from w have to: "watched_to a \<le> taken (rt_core ?r)" and app: "applied during = drop (watched_from a) (take (watched_to a) ?in)"
    and "waiter_wf (ct_reducer c)" by (auto simp: watched_def began_def waiter_wf_run)
  from direct_evidence [OF d assms(5,6)] obtain e where e: "mail_of (api P) (wanted a) during c = Some e"
    "sequence e = q" "observed_method ev = event_method e" by blast
  from mail_first [OF \<open>waiter_wf (ct_reducer c)\<close> e(1)] obtain p where p: "wanted_waiter (wanted a) = Some p"
    "find p (drop (watched_from a) (take (watched_to a) ?in)) = Some e" unfolding app by blast
  from find_window [OF p(2)] to le obtain j where "watched_from a \<le> j" "j < watched_to a" "e = ?in ! j" "p e"
    "\<forall>k. watched_from a \<le> k \<and> k < j \<longrightarrow> \<not> p (?in ! k)" by auto
  with p(1) e to le show ?thesis by (intro exI [of _ p] exI [of _ j]) (auto simp: Let_def)
qed

theorem evidence_was_received_witness:
  "\<exists>j. let events = received (rt_core chat_end)
     in j < length events \<and> completes ''t'' ''u'' (events ! j) \<and> sequence (events ! j) = 2"
proof -
  from chat_runs obtain a and e :: "jv SequencedEvent" where a: "actions chat_end = [a]" "wanted a = A_Interrupt ''t'' ''u''"
    "stage a = Concluded (Confirmed (Turn ''t'' ''u'') (observed 1 True e
      ''matching completion observed after interrupt; correlation is not proof of causation''))" "sequence e = 2"
    "chat_rt_admits (new_runtime test_core) full_chat" by blast
  from evidence_was_received [OF test_core_begins a(5) _ a(3), of "observed 1 True e
      ''matching completion observed after interrupt; correlation is not proof of causation''" 2] a
  show ?thesis by (auto simp: Let_def)
qed

text \<open>C33. The awaits of an action fit what was asked for, in every run: only an action with a waiter watches for an
  event, only an interrupt reads the thread, no request is tried more often than configured, and
  an outcome names the target of its call, so no \<open>unreachable!\<close> of the controller is reached.\<close>

theorem actions_are_well_typed:
  "list_all (\<lambda>a. well_typed (control_config cfg) (wanted a) (stage a)) (actions (rt_run P C cfg (new_runtime s) xs))"
proof -
  have "all_typed (control_config cfg) (rt_run P C cfg (new_runtime s) xs)"
    unfolding rt_run_def by (rule types.run_inv) (simp_all add: all_typed_def new_runtime_def)
  then show ?thesis by (simp add: all_typed_def list_all_iff)
qed

text \<open>Waiters outlive their actions: nothing but a matching event removes a waiter from the reducer, not
  the action's return and not its caller giving up, so each action whose event never comes leaves its
  waiter behind for good (the witness has an interrupt that was dropped).\<close>

theorem waiters_outlive_actions:
  assumes "begin_core cfg supervised = Some (Inr s0)" "r = rt_run P C cfg (new_runtime s0) xs"
    and "admissible (rt_step P C cfg) rt_admits (new_runtime s0) (xs @ ys)"
    and "w \<in> set (waiters (ti_reducer (core_ingestor (rt_core r))))"
    and "\<forall>e \<in> set (drop (taken (rt_core r)) (received (rt_core (rt_run P C cfg r ys)))). \<not> predicate w e"
  shows "w \<in> set (waiters (ti_reducer (core_ingestor (rt_core (rt_run P C cfg r ys)))))"
proof -
  have adm: "admissible (rt_step P C cfg) rt_admits (new_runtime s0) xs" "admissible (rt_step P C cfg) rt_admits r ys"
    using assms(3) unfolding assms(2) rt_run_def admissible_append by simp_all
  have "all_read P cfg r" unfolding assms(2) rt_run_def
    by (rule readings.run_inv [OF begun_read [OF assms(1)] adm(1)])
  then have tr: "tracks_ingress (api P) (lifecycle_replay_capacity cfg) (rt_core r)" by (simp add: all_read_def)
  from core_part.moves_run [OF adm(2)] obtain zs where zs: "admissible (core_step P C cfg) core_admits (rt_core r) zs"
    "rt_core (rt_run P C cfg r ys) = foldl (core_step P C cfg) (rt_core r) zs" unfolding rt_run_def by blast
  from waiting_core_run [OF tr zs(1) assms(4)] assms(5) show ?thesis unfolding zs(2) by blast
qed

theorem waiters_outlive_actions_witness:
  "let r = chat_run (new_runtime test_core) (map System (first_run nothing_listed) @ calling @ [Abandons 0])
   in map stage (actions r) = [Abandoned] \<and> (\<exists>w \<in> set (waiters (ti_reducer (core_ingestor (rt_core r)))). predicate w = completes ''t'' ''u'')"
proof -
  let ?xs = "map System (first_run nothing_listed) @ calling" and ?w = "\<lparr>predicate = completes ''t'' ''u'', sender = 0\<rparr>"
  from chat_calls obtain g c where r: "chat_run (new_runtime test_core) ?xs =
      \<lparr>rt_core = waiting_core g, rt_control = c, mutexes = (\<lambda>_. [])(0 := [0]),
        actions = [chat_action (Asking chat_hold 0 1)]\<rparr>" (is "_ = ?r")
    and adm: "chat_rt_admits (new_runtime test_core) ?xs" by blast
  have "chat_rt_admits (new_runtime test_core) (?xs @ [Abandons 0])"
    using adm unfolding admissible_append by simp
  moreover have "?w \<in> set (waiters (ti_reducer (core_ingestor (rt_core ?r))))"
    by (simp add: waiting_core_def register_waiter_def empty_reducer_def)
  ultimately have "?w \<in>
      set (waiters (ti_reducer (core_ingestor (rt_core (chat_run ?r [Abandons 0])))))"
    by (intro waiters_outlive_actions [OF test_core_begins r [symmetric]])
       (simp_all add: rt_run_def waiting_core_def chatting_def)
  moreover have "map stage (actions (chat_run ?r [Abandons 0])) = [Abandoned]"
    by (simp add: rt_run_def chat_action_def)
  moreover have "chat_run (new_runtime test_core) (?xs @ [Abandons 0]) = chat_run ?r [Abandons 0]"
    using r by (simp add: rt_run_def)
  ultimately show ?thesis unfolding Let_def by (intro conjI bexI [of _ ?w]) simp_all
qed

end
