(* ===== verification/Lifetime.thy ===== *)
theory Lifetime
  imports Action_Runs
begin

text \<open>
  A run as its caller sees it (\<open>src/core/src/lib.rs\<close>): the future of \<open>run\<close> and the calls of
  \<open>shutdown\<close>, which their callers may drop at any await; the guard that \<open>run\<close> leaves behind; the
  cleanup, one request on the link after the other; and the monitor of the supervisor, as one more
  task. The system with its actions (\<open>Runtime\<close>) is a part of it and moves by its own steps only.
\<close>

section \<open>The state\<close>

text \<open>Whose future runs the cleanup, and the await it stands at.\<close>

datatype Cleaner = By_Run | By_Caller | By_Guard

datatype Cleaning =
    K_None
  | K_Listing
  | K_Next "string list"
  | K_Asking nat "string list"
  | K_Awaiting
  | K_Finished
  | K_Dropped

fun in_progress :: "Cleaning \<Rightarrow> bool" where
  "in_progress K_None = False"
| "in_progress K_Finished = False"
| "in_progress K_Dropped = False"
| "in_progress _ = True"

text \<open>
  \<open>handles_out\<close>: a handle may still be held somewhere. \<open>spawned\<close>: the guard has spawned its call of
  \<open>shutdown\<close>. \<open>cleanup_answers\<close> records the channels and the answers of the cleanup's requests.
  \<open>machine\<close> is the host before the monitor takes it over.
\<close>

record ('v, 'w) Life =
  life_rt :: "'v Runtime"
  run_alive :: bool
  handles_out :: bool
  spawned :: bool
  cleaner :: Cleaner
  cleaning :: Cleaning
  cleanup_answers :: "(nat option \<times> 'v answer) list"
  machine :: "'w host"
  monitor :: "'w Monitor option"

abbreviation life_core :: "('v, 'w) Life \<Rightarrow> 'v Core" where
  "life_core L \<equiv> rt_core (life_rt L)"

abbreviation life_link :: "('v, 'w) Life \<Rightarrow> 'v Link" where
  "life_link L \<equiv> core_link (life_core L)"

definition life_host :: "('v, 'w) Life \<Rightarrow> 'w host" where
  "life_host L = (case monitor L of None \<Rightarrow> machine L | Some m \<Rightarrow> host m)"

definition begin_life ::
    "'w ProcessOps \<Rightarrow> Config \<Rightarrow> 'w host \<Rightarrow> ('v CoreError + ('v, 'w) Life) option" where
  "begin_life X cfg h =
     (case run_begin X cfg h of
        None \<Rightarrow> None
      | Some (Inl e, h') \<Rightarrow> Some (Inl e)
      | Some (Inr s, h') \<Rightarrow>
          Some (Inr \<lparr>life_rt = new_runtime s, run_alive = True, handles_out = True, spawned = False,
            cleaner = By_Run, cleaning = K_None, cleanup_answers = [], machine = h', monitor = None\<rparr>))"

section \<open>Shutdown\<close>

text \<open>A call of \<open>shutdown\<close>: the first one cleans up, in the future of its caller.\<close>

definition calls_shutdown ::
    "'v parts \<Rightarrow> 'v codec \<Rightarrow> Config \<Rightarrow> 'v core_input \<Rightarrow> Cleaner \<Rightarrow> ('v, 'w) Life \<Rightarrow> ('v, 'w) Life" where
  "calls_shutdown P C cfg x who L =
     (let r = rt_step P C cfg (life_rt L) (System x)
      in if stopped (rt_core r) \<and> \<not> stopped (life_core L)
         then L\<lparr>life_rt := r, cleaner := who, cleaning := K_Listing\<rparr> else L\<lparr>life_rt := r\<rparr>)"

definition subscribed_in :: "(string \<times> SubscriptionState) list \<Rightarrow> string list" where
  "subscribed_in order = map fst (filter (\<lambda>(_, st). st = Subscribed) order)"

text \<open>
  One turn of the cleanup: \<open>unsubscribe_all_best_effort\<close>, which lists the subscribed threads and then
  asks for each in turn, whatever the answers; and the shutdown of the transport. Each waits where
  the channel of the commands has no room.
\<close>

definition cleans ::
    "'v parts \<Rightarrow> 'v codec \<Rightarrow> Config \<Rightarrow> (string \<times> SubscriptionState) list \<Rightarrow> bool \<Rightarrow> ('v, 'w) Life \<Rightarrow> ('v, 'w) Life" where
  "cleans P C cfg order el L =
     (let on = (\<lambda>x. rt_step P C cfg (life_rt L) (System x));
          closing = (\<lambda>r. L\<lparr>life_rt := r, cleaning :=
            (case cleanup (rt_core r) of C_Finished \<Rightarrow> K_Finished | C_Closing \<Rightarrow> K_Next [] | _ \<Rightarrow> K_Awaiting)\<rparr>)
      in case cleaning L of
           K_Listing \<Rightarrow> L\<lparr>life_rt := on (CleanupRuns order), cleaning := K_Next (subscribed_in order)\<rparr>
         | K_Next (t # ts) \<Rightarrow>
             (case submits False ''thread/unsubscribe'' (resume_params (api P) t) (life_link L) of
                None \<Rightarrow> L
              | Some (Inl e) \<Rightarrow> L\<lparr>cleanup_answers := cleanup_answers L @ [(None, Inl e)], cleaning := K_Next ts\<rparr>
              | Some (Inr ch) \<Rightarrow> L\<lparr>life_rt := on (OnLink (Submit False ''thread/unsubscribe'' (resume_params (api P) t))),
                           cleaning := K_Asking ch ts\<rparr>)
         | K_Asking ch ts \<Rightarrow>
             (case waited_on (life_link L) ch el of
                None \<Rightarrow> L
              | Some x \<Rightarrow> L\<lparr>cleanup_answers := cleanup_answers L @ [(Some ch, request_result ''thread/unsubscribe'' x)], cleaning := K_Next ts\<rparr>)
         | K_Next [] \<Rightarrow> closing (on (CleanupRuns order))
         | K_Awaiting \<Rightarrow> closing (on (CleanupRuns order))
         | _ \<Rightarrow> L)"

section \<open>The run with its callers\<close>

fun of_main :: "'v core_input \<Rightarrow> bool" where
  "of_main (MainRuns ans clk el) = True"
| "of_main OperationEnds = True"
| "of_main _ = False"

fun of_cleanup :: "'v core_input \<Rightarrow> bool" where
  "of_cleanup ShutdownCalled = True"
| "of_cleanup (CleanupRuns order) = True"
| "of_cleanup HandlesGone = True"
| "of_cleanup _ = False"

text \<open>The guard exists while the operation runs and while \<open>run\<close> shuts down after it.\<close>

fun guarded :: "'v main_pc \<Rightarrow> bool" where
  "guarded M_Operating = True"
| "guarded (M_Ending own) = True"
| "guarded _ = False"

fun has_returned :: "'v main_pc \<Rightarrow> bool" where
  "has_returned (M_Returned r) = True"
| "has_returned _ = False"

text \<open>With the GUI managed, the monitor is started just before the handle is made.\<close>

definition starts_monitor :: "Config \<Rightarrow> ('v, 'w) Life \<Rightarrow> ('v, 'w) Life" where
  "starts_monitor cfg L =
     (if manage_gui cfg \<and> monitor L = None \<and> main (life_core L) = M_Operating
      then L\<lparr>monitor := Some (start_monitor (machine L))\<rparr> else L)"

text \<open>
  \<open>Turn\<close>: a turn of the system or of an action. \<open>Calls\<close>: somebody with a handle calls \<open>shutdown\<close>.
  \<open>CallerGone\<close>: the caller whose call cleans up drops it. \<open>RunDropped\<close>: the future of \<open>run\<close> is
  dropped; the input says whether there is a runtime to spawn on. \<open>GuardRuns\<close>: the task of the guard.
  \<open>HandlesDropped\<close>: no handle is left.
\<close>

datatype 'v life_input =
    Turn "'v rt_input"
  | Calls
  | Cleans "(string \<times> SubscriptionState) list" bool
  | CallerGone
  | RunDropped bool
  | GuardRuns
  | HandlesDropped
  | Monitors MonitorInput

definition takes_turn ::
    "'v parts \<Rightarrow> 'v codec \<Rightarrow> Config \<Rightarrow> 'v rt_input \<Rightarrow> ('v, 'w) Life \<Rightarrow> ('v, 'w) Life" where
  "takes_turn P C cfg y L =
     (let r = rt_step P C cfg (life_rt L) y
      in case y of
           System x \<Rightarrow>
             if of_cleanup x \<or> of_main x \<and> \<not> run_alive L then L
             else (case x of
                     OperationEnds \<Rightarrow> calls_shutdown P C cfg x By_Run L
                   | _ \<Rightarrow> starts_monitor cfg (L\<lparr>life_rt := r\<rparr>))
         | Begins w \<Rightarrow> if handles_out L then L\<lparr>life_rt := r\<rparr> else L
         | _ \<Rightarrow> L\<lparr>life_rt := r\<rparr>)"

text \<open>The drop of \<open>run\<close> drops a cleanup of its own, and then the guard's \<open>shutdown_in_background\<close> runs.\<close>

definition run_dropped ::
    "'v parts \<Rightarrow> 'v codec \<Rightarrow> Config \<Rightarrow> bool \<Rightarrow> ('v, 'w) Life \<Rightarrow> ('v, 'w) Life" where
  "run_dropped P C cfg runtime L =
     (let L1 = L\<lparr>run_alive := False,
            cleaning := (if cleaner L = By_Run \<and> in_progress (cleaning L) then K_Dropped else cleaning L)\<rparr>
      in if guarded (main (life_core L))
         then L1\<lparr>spawned := (runtime \<and> \<not> stopped (life_core L))\<rparr>
         else L1\<lparr>life_rt := rt_step P C cfg (life_rt L) (System HandlesGone), handles_out := False\<rparr>)"

fun life_step ::
    "'w ProcessOps \<Rightarrow> 'v parts \<Rightarrow> 'v codec \<Rightarrow> Config \<Rightarrow> ('v, 'w) Life \<Rightarrow> 'v life_input \<Rightarrow> ('v, 'w) Life" where
  "life_step X P C cfg L (Turn y) = takes_turn P C cfg y L"
| "life_step X P C cfg L Calls = (if handles_out L then calls_shutdown P C cfg ShutdownCalled By_Caller L else L)"
| "life_step X P C cfg L (Cleans order el) = cleans P C cfg order el L"
| "life_step X P C cfg L CallerGone =
     (if cleaner L = By_Caller \<and> in_progress (cleaning L) then L\<lparr>cleaning := K_Dropped\<rparr> else L)"
| "life_step X P C cfg L (RunDropped runtime) =
     (if run_alive L \<and> \<not> has_returned (main (life_core L)) then run_dropped P C cfg runtime L else L)"
| "life_step X P C cfg L GuardRuns =
     (if spawned L then calls_shutdown P C cfg ShutdownCalled By_Guard (L\<lparr>spawned := False\<rparr>) else L)"
| "life_step X P C cfg L HandlesDropped =
     (if (\<not> run_alive L \<or> has_returned (main (life_core L))) \<and> \<not> spawned L \<and> \<not> in_progress (cleaning L) \<and>
         list_all (\<lambda>a. over (stage a)) (actions (life_rt L))
      then L\<lparr>life_rt := rt_step P C cfg (life_rt L) (System HandlesGone), handles_out := False\<rparr> else L)"
| "life_step X P C cfg L (Monitors i) =
     L\<lparr>monitor := map_option (\<lambda>m. monitor_step X (supervisor_config cfg) m i) (monitor L)\<rparr>"

definition life_run ::
    "'w ProcessOps \<Rightarrow> 'v parts \<Rightarrow> 'v codec \<Rightarrow> Config \<Rightarrow> ('v, 'w) Life \<Rightarrow> 'v life_input list \<Rightarrow> ('v, 'w) Life" where
  "life_run X P C cfg L xs = foldl (life_step X P C cfg) L xs"

text \<open>
  The transport finds its ingress open exactly while the ingress task has not ended; the counters
  do not wrap; the monitor sees a signal only when it has been sent.
\<close>

fun finds_open :: "link_input \<Rightarrow> bool option" where
  "finds_open (HandshakeRead clk el is_open m) = Some is_open"
| "finds_open (DriveRead clk el is_open m) = Some is_open"
| "finds_open _ = None"

definition reads_truly :: "'v Core \<Rightarrow> 'v core_input \<Rightarrow> bool" where
  "reads_truly s x =
     (case x of
        OnLink op \<Rightarrow> (case op of Loop y \<Rightarrow> finds_open y = None \<or> finds_open y = Some (ingress_running s) | _ \<Rightarrow> True)
      | _ \<Rightarrow> True)"

definition rt_reads :: "'v Runtime \<Rightarrow> 'v rt_input \<Rightarrow> bool" where
  "rt_reads r y = (case y of System x \<Rightarrow> reads_truly (rt_core r) x | _ \<Rightarrow> True)"

fun life_admits :: "('v, 'w) Life \<Rightarrow> 'v life_input \<Rightarrow> bool" where
  "life_admits L (Turn y) = (rt_admits (life_rt L) y \<and> rt_reads (life_rt L) y)"
| "life_admits L (Cleans order el) =
     (core_admits (life_core L) (CleanupRuns order) \<and> unat (next_id (life_link L)) + 1 < 2 ^ 64)"
| "life_admits L (Monitors (ShutdownChanged v)) = (v = None \<or> v = Some True \<longrightarrow> stop_signal (life_core L))"
| "life_admits L _ = True"

section \<open>The system is a part that moves by its own steps\<close>

lemma calls_shutdown_rt: "life_rt (calls_shutdown P C cfg x who L) = rt_step P C cfg (life_rt L) (System x)"
  by (simp add: calls_shutdown_def Let_def del: rt_step.simps)

lemma starts_monitor_rt [simp]: "life_rt (starts_monitor cfg L) = life_rt L"
  by (simp add: starts_monitor_def)

text \<open>The turns that are not an input of their own: the cleanup's and the calls of \<open>shutdown\<close>.\<close>

fun by_cleanup :: "'v core_input \<Rightarrow> bool" where
  "by_cleanup (OnLink (Submit action m p)) = (\<not> action)"
| "by_cleanup x = of_cleanup x"

lemma life_moves_one:
  assumes "life_admits L x"
  shows "life_rt (life_step X P C cfg L x) = life_rt L \<or>
    (\<exists>y. rt_admits (life_rt L) y \<and> rt_reads (life_rt L) y \<and>
      life_rt (life_step X P C cfg L x) = rt_step P C cfg (life_rt L) y \<and>
      (x = Turn y \<or> (\<exists>z. y = System z \<and> by_cleanup z)))"
proof -
  have system: ?thesis if "rt_admits (life_rt L) (System y)" "rt_reads (life_rt L) (System y)" "by_cleanup y"
      "life_rt (life_step X P C cfg L x) = life_rt L \<or>
       life_rt (life_step X P C cfg L x) = rt_step P C cfg (life_rt L) (System y)" for y
    using that by blast
  show ?thesis
  proof (cases x)
    case (Turn y)
    then have "life_rt (life_step X P C cfg L x) = life_rt L \<or> life_rt (life_step X P C cfg L x) = rt_step P C cfg (life_rt L) y"
    proof (cases y)
      case (System z)
      with Turn show ?thesis by (cases z) (simp_all add: takes_turn_def calls_shutdown_rt Let_def del: rt_step.simps)
    qed (simp_all add: Turn takes_turn_def Let_def del: rt_step.simps)
    with assms Turn show ?thesis by (auto simp del: life_step.simps)
  next
    case (Cleans order el)
    have "life_rt (life_step X P C cfg L x) = life_rt L \<or>
        life_rt (life_step X P C cfg L x) = rt_step P C cfg (life_rt L) (System (CleanupRuns order)) \<or>
        (\<exists>m p. life_rt (life_step X P C cfg L x) = rt_step P C cfg (life_rt L) (System (OnLink (Submit False m p))))"
      by (auto simp: Cleans cleans_def Let_def simp del: rt_step.simps rt_admits.simps
          split: Cleaning.split list.split sum.split option.split)
    with assms Cleans show ?thesis
      using system [of "CleanupRuns order"] system [of "OnLink (Submit False m p)" for m p]
      by (auto simp: rt_reads_def reads_truly_def simp del: rt_step.simps life_step.simps)
  next
    case Calls
    then show ?thesis by (intro system [of ShutdownCalled]) (simp_all add: rt_reads_def reads_truly_def calls_shutdown_rt del: rt_step.simps)
  next
    case GuardRuns
    then show ?thesis by (intro system [of ShutdownCalled]) (simp_all add: rt_reads_def reads_truly_def calls_shutdown_rt del: rt_step.simps)
  next
    case (RunDropped runtime)
    then show ?thesis by (intro system [of HandlesGone]) (simp_all add: rt_reads_def reads_truly_def run_dropped_def Let_def del: rt_step.simps)
  next
    case HandlesDropped
    then show ?thesis by (intro system [of HandlesGone]) (simp_all add: rt_reads_def reads_truly_def del: rt_step.simps)
  qed simp_all
qed

lemma life_moves:
  assumes "life_admits L x"
  shows "\<exists>ys. admissible (rt_step P C cfg) rt_admits (life_rt L) ys \<and>
    life_rt (life_step X P C cfg L x) = foldl (rt_step P C cfg) (life_rt L) ys"
  using life_moves_one [OF assms, of X P C cfg]
proof
  assume "life_rt (life_step X P C cfg L x) = life_rt L"
  then show ?thesis by (intro exI [of _ "[]"]) simp
next
  assume "\<exists>y. rt_admits (life_rt L) y \<and> rt_reads (life_rt L) y \<and> life_rt (life_step X P C cfg L x) = rt_step P C cfg (life_rt L) y \<and>
      (x = Turn y \<or> (\<exists>z. y = System z \<and> by_cleanup z))"
  then obtain y where "rt_admits (life_rt L) y" "life_rt (life_step X P C cfg L x) = rt_step P C cfg (life_rt L) y" by blast
  then show ?thesis by (intro exI [of _ "[y]"]) (simp del: rt_step.simps life_step.simps)
qed

interpretation life_part: moving_part "life_step X P C cfg" life_admits life_rt "rt_step P C cfg" rt_admits for X P C cfg
  by unfold_locales (rule life_moves)

text \<open>What every step of the link keeps, every step of a life keeps.\<close>

lemma life_link_keeps:
  assumes "\<And>l y. Q l \<Longrightarrow> link_admits l y \<Longrightarrow> Q (link_step (api P) C (transport_config cfg) l y)"
    and "Q (life_link L)" "life_admits L x"
  shows "Q (life_link (life_step X P C cfg L x))"
proof (rule life_part.part_inv [where Q = "\<lambda>r. Q (core_link (rt_core r))", OF _ assms(2,3)])
  fix r y
  assume "Q (core_link (rt_core r))" "rt_admits r y"
  then show "Q (core_link (rt_core (rt_step P C cfg r y)))"
  proof (rule core_part.part_inv [where Q = "\<lambda>s. Q (core_link s)", rotated])
    fix s z
    assume "Q (core_link s)" "core_admits s z"
    then show "Q (core_link (core_step P C cfg s z))" by (rule link_part.part_inv [where Q = Q, rotated]) (rule assms(1))
  qed
qed

section \<open>The cleanup is the one of the system\<close>

text \<open>Nothing but a call of \<open>shutdown\<close> and the cleanup itself touches the flag and the stage.\<close>

lemma core_step_cleanup:
  assumes "\<not> of_cleanup x" "x \<noteq> OperationEnds"
  shows "cleanup (core_step P C cfg s x) = cleanup s \<and> stopped (core_step P C cfg s x) = stopped s"
proof (cases x)
  case IngressTakes
  then show ?thesis
    by (cases "ingress_takes (core_parts P cfg) (ingress (core_link s) ! taken s) s") (auto dest!: ingress_takes_effect)
next
  case (SignalRuns i ans clk el)
  then show ?thesis by (auto split: prod.split option.split simp del: discover_step.simps)
next
  case (MainRuns ans clk el)
  then show ?thesis by (simp add: main_step_frame)
next
  case (WatcherRuns ans clk el)
  then show ?thesis by (simp add: watcher_step_frame)
qed (use assms in \<open>auto simp: watcher_woken_def\<close>)

text \<open>The stage of the cleanup's future and the one the system has reached.\<close>

fun stage_of_cleanup :: "Cleaning \<Rightarrow> cleanup_pc \<Rightarrow> bool" where
  "stage_of_cleanup K_None c = (c = C_Idle)"
| "stage_of_cleanup K_Listing c = (c = C_Unsubscribing)"
| "stage_of_cleanup (K_Next ts) c = (c = C_Closing)"
| "stage_of_cleanup (K_Asking ch ts) c = (c = C_Closing)"
| "stage_of_cleanup K_Awaiting c = (\<exists>ch. c = C_Awaiting ch)"
| "stage_of_cleanup K_Finished c = (c = C_Finished)"
| "stage_of_cleanup K_Dropped c = (c \<noteq> C_Idle \<and> c \<noteq> C_Finished)"

definition in_step :: "('v, 'w) Life \<Rightarrow> bool" where
  "in_step L \<longleftrightarrow> stage_of_cleanup (cleaning L) (cleanup (life_core L)) \<and> (stopped (life_core L) \<longleftrightarrow> cleaning L \<noteq> K_None)"

lemma in_step_cong:
  "in_step L \<Longrightarrow> cleaning L' = cleaning L \<Longrightarrow> cleanup (life_core L') = cleanup (life_core L) \<Longrightarrow>
     stopped (life_core L') = stopped (life_core L) \<Longrightarrow> in_step L'"
  by (simp add: in_step_def)

lemma in_step_drop: "in_step L \<Longrightarrow> in_progress (cleaning L) \<Longrightarrow> in_step (L\<lparr>run_alive := b, cleaning := K_Dropped\<rparr>) \<and>
    in_step (L\<lparr>cleaning := K_Dropped\<rparr>)"
  by (cases "cleaning L") (auto simp: in_step_def)

text \<open>What a call does to the system: the flag and the first stage, or nothing.\<close>

lemma called_core:
  assumes "y = ShutdownCalled \<or> y = OperationEnds"
  shows "let s' = core_step P C cfg s y
    in (stopped s' \<and> \<not> stopped s \<and> cleanup s' = C_Unsubscribing) \<or> (stopped s' = stopped s \<and> cleanup s' = cleanup s)"
  using assms
  by (elim disjE) (simp_all add: shutdown_called_def Let_def split: if_split)

lemma in_step_calls:
  assumes "in_step L" "y = ShutdownCalled \<or> y = OperationEnds"
  shows "in_step (calls_shutdown P C cfg y who L)"
proof -
  have "\<not> of_an_action y" using assms(2) by auto
  then have rt: "rt_core (rt_step P C cfg (life_rt L) (System y)) = core_step P C cfg (life_core L) y"
    by (simp del: core_step.simps)
  from called_core [OF assms(2), of P C cfg "life_core L"] assms(1) show ?thesis
    by (auto simp: calls_shutdown_def in_step_def rt Let_def simp del: core_step.simps rt_step.simps)
qed

lemma rt_step_cleanup:
  assumes "\<And>y. x = System y \<Longrightarrow> \<not> of_cleanup y \<and> y \<noteq> OperationEnds"
  shows "cleanup (rt_core (rt_step P C cfg r x)) = cleanup (rt_core r) \<and> stopped (rt_core (rt_step P C cfg r x)) = stopped (rt_core r)"
proof (cases rule: rt_one_core [of P C cfg r x])
  case (system y)
  with core_step_cleanup [of y P C cfg "rt_core r"] assms show ?thesis by simp
next
  case (submits i el action m p)
  then show ?thesis using core_step_cleanup [of "OnLink (Submit action m p)" P C cfg "rt_core r"] by simp
next
  case (registers i el p)
  then show ?thesis using core_step_cleanup [of "RegistersWaiter p" P C cfg "rt_core r"] by simp
qed simp

lemma starts_monitor_frame [simp]:
  "cleaning (starts_monitor cfg L) = cleaning L" "cleanup_answers (starts_monitor cfg L) = cleanup_answers L"
  "cleaner (starts_monitor cfg L) = cleaner L" "run_alive (starts_monitor cfg L) = run_alive L"
  "handles_out (starts_monitor cfg L) = handles_out L" "spawned (starts_monitor cfg L) = spawned L"
  by (simp_all add: starts_monitor_def)

lemma in_step_cleans:
  assumes "in_step L"
  shows "in_step (cleans P C cfg order el L)"
proof -
  have on: "rt_core (rt_step P C cfg (life_rt L) (System (CleanupRuns order))) = cleanup_step (core_parts P cfg) order (life_core L)"
    by simp
  have sub: "cleanup (rt_core (rt_step P C cfg (life_rt L) (System (OnLink (Submit False m p))))) = cleanup (life_core L)"
    "stopped (rt_core (rt_step P C cfg (life_rt L) (System (OnLink (Submit False m p))))) = stopped (life_core L)" for m p
    by simp_all
  show ?thesis
  proof (cases "cleaning L")
    case (K_Next ts)
    with assms show ?thesis
      by (cases ts) (auto simp: cleans_def in_step_def on sub cleanup_step_def Let_def simp del: rt_step.simps split: sum.split option.split)
  next
    case (K_Asking ch ts)
    with assms show ?thesis by (auto simp: cleans_def in_step_def Let_def split: option.split)
  qed (use assms in \<open>auto simp: cleans_def in_step_def on cleanup_step_def Let_def simp del: rt_step.simps split: if_splits\<close>)
qed

lemma life_step_in_step:
  assumes "in_step L"
  shows "in_step (life_step X P C cfg L x)"
proof (cases x)
  case (Turn y)
  show ?thesis
  proof (cases "\<exists>z. y = System z \<and> (of_cleanup z \<or> of_main z \<and> \<not> run_alive L \<or> z = OperationEnds)")
    case True
    then show ?thesis using assms in_step_calls [OF assms, of OperationEnds] by (auto simp: Turn takes_turn_def Let_def simp del: rt_step.simps)
  next
    case False
    then have "life_step X P C cfg L x = L \<or> (\<exists>L'. life_step X P C cfg L x = L' \<and> life_rt L' = rt_step P C cfg (life_rt L) y \<and>
        cleaning L' = cleaning L)"
      by (cases y) (auto simp: Turn takes_turn_def Let_def simp del: rt_step.simps split: core_input.split)
    moreover have "cleanup (rt_core (rt_step P C cfg (life_rt L) y)) = cleanup (life_core L) \<and>
        stopped (rt_core (rt_step P C cfg (life_rt L) y)) = stopped (life_core L)"
      by (rule rt_step_cleanup) (use False in blast)
    ultimately show ?thesis using assms by (auto intro: in_step_cong)
  qed
next
  case Calls
  with in_step_calls [OF assms] show ?thesis using assms by simp
next
  case (Cleans order el)
  with in_step_cleans [OF assms] show ?thesis by simp
next
  case CallerGone
  with in_step_drop [OF assms] show ?thesis using assms by simp
next
  case (RunDropped runtime)
  have gone: "cleanup (rt_core (rt_step P C cfg (life_rt L) (System HandlesGone))) = cleanup (life_core L)"
    "stopped (rt_core (rt_step P C cfg (life_rt L) (System HandlesGone))) = stopped (life_core L)" by simp_all
  have "in_step (L\<lparr>run_alive := False,
      cleaning := (if cleaner L = By_Run \<and> in_progress (cleaning L) then K_Dropped else cleaning L)\<rparr>)" (is "in_step ?L")
    using in_step_drop [OF assms] assms by (auto intro: in_step_cong)
  with assms gone show ?thesis
    by (auto simp: RunDropped run_dropped_def Let_def simp del: rt_step.simps intro: in_step_cong)
next
  case GuardRuns
  have "in_step (L\<lparr>spawned := False\<rparr>)" using assms by (auto intro: in_step_cong)
  with in_step_calls [OF this] GuardRuns show ?thesis using assms by simp
next
  case HandlesDropped
  then show ?thesis using assms by (auto intro: in_step_cong)
qed (use assms in \<open>auto intro: in_step_cong\<close>)

interpretation stages: preserved_by "life_step X P C cfg" in_step "\<lambda>_ _. True" for X P C cfg
  by unfold_locales (rule life_step_in_step)

end
