(* ===== verification/Wired.thy ===== *)
theory Wired
  imports Lifetime
begin

text \<open>
  The requests of reconciliations and discoveries on the link (\<open>src/ingest/src/lib.rs\<close> over
  \<open>src/transport/src/lib.rs\<close>, composed in \<open>src/core/src/lib.rs\<close>): whatever the main task, the watcher
  of reconnections or the discovery of a signal asks for is submitted on the transport in the same
  turn, and the answer it goes on with is the one the wait on that submission gives. With the
  actions, the cleanup and the lifetime of the run, every request of the program is on the link.
\<close>

section \<open>The tasks that ask\<close>

datatype Asker = Of_Main | Of_Watcher | Of_Signal nat

text \<open>What a task waits for: a reply on a channel; room in the channel of the commands, with the parameters
  it has yet to send; or nothing more, as the loop had ended when it asked.\<close>

datatype 'v Wait = On nat | Ended | Unsent 'v

text \<open>\<open>asked_log\<close> records every request submitted, with its channel and its id.\<close>

record 'v Asked =
  asked_by :: Asker
  asked_method :: string
  asked_params :: 'v
  asked_channel :: nat
  asked_id :: RpcId

record ('v, 'w) Wired =
  wired_life :: "('v, 'w) Life"
  wait_of :: "Asker \<Rightarrow> (string \<times> 'v Wait) option"
  asked_log :: "'v Asked list"

abbreviation wired_core :: "('v, 'w) Wired \<Rightarrow> 'v Core" where
  "wired_core W \<equiv> life_core (wired_life W)"

abbreviation wired_link :: "('v, 'w) Wired \<Rightarrow> 'v Link" where
  "wired_link W \<equiv> life_link (wired_life W)"

definition new_wired :: "('v, 'w) Life \<Rightarrow> ('v, 'w) Wired" where
  "new_wired L = \<lparr>wired_life = L, wait_of = (\<lambda>_. None), asked_log = []\<rparr>"

section \<open>One turn of a task that asks\<close>

fun turn_of :: "Asker \<Rightarrow> 'v answer option \<Rightarrow> nat \<Rightarrow> nat \<Rightarrow> 'v core_input" where
  "turn_of Of_Main = MainRuns"
| "turn_of Of_Watcher = WatcherRuns"
| "turn_of (Of_Signal i) = SignalRuns i"

text \<open>Whether it stands at the await of a request; and the answer it finds there, if one has come.\<close>

fun awaiting :: "'v Core \<Rightarrow> Asker \<Rightarrow> bool" where
  "awaiting s Of_Main = (case main s of M_Reconciling rpc \<Rightarrow> reconcile_awaits rpc | _ \<Rightarrow> False)"
| "awaiting s Of_Watcher = (case watcher s of W_Reconciling rpc \<Rightarrow> reconcile_awaits rpc | _ \<Rightarrow> False)"
| "awaiting s (Of_Signal i) = (i < length (signals s) \<and> awaits_answer (snd (snd (signals s ! i))))"

fun answer_for :: "'v Link \<Rightarrow> bool \<Rightarrow> (string \<times> 'v Wait) option \<Rightarrow> 'v answer option" where
  "answer_for l el None = None"
| "answer_for l el (Some (m, Ended)) = Some (Inl TransportClosed)"
| "answer_for l el (Some (m, Unsent p)) = None"
| "answer_for l el (Some (m, On ch)) = map_option (request_result m) (waited_on l ch el)"

text \<open>The request the turn has made, if any, goes to the loop: \<open>request\<close> up to its wait. With no room for
  it, the task waits there, whatever its timers do.\<close>

definition puts_on_wire ::
    "'v parts \<Rightarrow> 'v codec \<Rightarrow> Config \<Rightarrow> Asker \<Rightarrow> string \<Rightarrow> 'v \<Rightarrow> ('v, 'w) Wired \<Rightarrow> ('v, 'w) Wired" where
  "puts_on_wire P C cfg k m p W =
     (case submits False m p (wired_link W) of
        None \<Rightarrow> W\<lparr>wait_of := (wait_of W)(k \<mapsto> (m, Unsent p))\<rparr>
      | Some (Inl e) \<Rightarrow> W\<lparr>wait_of := (wait_of W)(k \<mapsto> (m, Ended))\<rparr>
      | Some (Inr ch) \<Rightarrow>
          W\<lparr>wired_life := takes_turn P C cfg (System (OnLink (Submit False m p))) (wired_life W),
            wait_of := (wait_of W)(k \<mapsto> (m, On ch)),
            asked_log := asked_log W @ [\<lparr>asked_by = k, asked_method = m, asked_params = p,
              asked_channel = ch, asked_id = Number (next_id (wired_link W))\<rparr>]\<rparr>)"

definition moves_on ::
    "'v parts \<Rightarrow> 'v codec \<Rightarrow> Config \<Rightarrow> Asker \<Rightarrow> bool \<Rightarrow> nat \<Rightarrow> nat \<Rightarrow> ('v, 'w) Wired \<Rightarrow> ('v, 'w) Wired" where
  "moves_on P C cfg k el clock elapsed W =
     (let ans = answer_for (wired_link W) el (wait_of W k);
          made = length (requests (core_ingestor (wired_core W)));
          W1 = W\<lparr>wired_life := takes_turn P C cfg (System (turn_of k ans clock elapsed)) (wired_life W)\<rparr>
      in case drop made (requests (core_ingestor (wired_core W1))) of
           (m, p) # _ \<Rightarrow> puts_on_wire P C cfg k m p W1
         | [] \<Rightarrow> if awaiting (wired_core W1) k then W1 else W1\<lparr>wait_of := (wait_of W1)(k := None)\<rparr>)"

text \<open>A turn of the task: it tries again to send what it could not, unless its run has been dropped; or it
  goes on.\<close>

definition asks ::
    "'v parts \<Rightarrow> 'v codec \<Rightarrow> Config \<Rightarrow> Asker \<Rightarrow> bool \<Rightarrow> nat \<Rightarrow> nat \<Rightarrow> ('v, 'w) Wired \<Rightarrow> ('v, 'w) Wired" where
  "asks P C cfg k el clock elapsed W =
     (case wait_of W k of
        Some (m, Unsent p) \<Rightarrow>
          if k = Of_Main \<and> \<not> run_alive (wired_life W) then W else puts_on_wire P C cfg k m p W
      | _ \<Rightarrow> moves_on P C cfg k el clock elapsed W)"

section \<open>The wired system\<close>

text \<open>Nothing else takes a turn of these tasks, and nobody else submits.\<close>

fun of_asker :: "'v core_input \<Rightarrow> bool" where
  "of_asker (MainRuns ans clk el) = True"
| "of_asker (WatcherRuns ans clk el) = True"
| "of_asker (SignalRuns i ans clk el) = True"
| "of_asker _ = False"

fun of_the_wire :: "'v core_input \<Rightarrow> bool" where
  "of_the_wire (OnLink (Submit action m p)) = True"
| "of_the_wire y = of_asker y"

definition wire_turn :: "'v life_input \<Rightarrow> bool" where
  "wire_turn x = (case x of Turn (System y) \<Rightarrow> of_the_wire y | _ \<Rightarrow> False)"

datatype 'v wired_input =
    Lives "'v life_input"
  | Asks Asker bool nat nat

fun wired_step ::
    "'w ProcessOps \<Rightarrow> 'v parts \<Rightarrow> 'v codec \<Rightarrow> Config \<Rightarrow> ('v, 'w) Wired \<Rightarrow> 'v wired_input \<Rightarrow> ('v, 'w) Wired" where
  "wired_step X P C cfg W (Lives x) =
     (if wire_turn x then W else W\<lparr>wired_life := life_step X P C cfg (wired_life W) x\<rparr>)"
| "wired_step X P C cfg W (Asks k el clock elapsed) = asks P C cfg k el clock elapsed W"

definition wired_run ::
    "'w ProcessOps \<Rightarrow> 'v parts \<Rightarrow> 'v codec \<Rightarrow> Config \<Rightarrow> ('v, 'w) Wired \<Rightarrow> 'v wired_input list \<Rightarrow> ('v, 'w) Wired" where
  "wired_run X P C cfg W xs = foldl (wired_step X P C cfg) W xs"

text \<open>The counters do not wrap.\<close>

fun wired_admits :: "('v, 'w) Wired \<Rightarrow> 'v wired_input \<Rightarrow> bool" where
  "wired_admits W (Lives x) = life_admits (wired_life W) x"
| "wired_admits W (Asks k el clock elapsed) = (unat (next_id (wired_link W)) + 1 < 2 ^ 64)"

section \<open>The turns in the system\<close>

fun reconciling :: "'v Core \<Rightarrow> Asker \<Rightarrow> 'v reconcile_pc option" where
  "reconciling s Of_Main = (case main s of M_Reconciling rpc \<Rightarrow> Some rpc | _ \<Rightarrow> None)"
| "reconciling s Of_Watcher = (case watcher s of W_Reconciling rpc \<Rightarrow> Some rpc | _ \<Rightarrow> None)"
| "reconciling s (Of_Signal i) = None"

text \<open>The discovery a task is in: its thread and where it stands.\<close>

fun discovering :: "'v Core \<Rightarrow> Asker \<Rightarrow> (string \<times> 'v discover_pc) option" where
  "discovering s (Of_Signal i) =
     (if i < length (signals s) then (case signals s ! i of (t, source, dpc) \<Rightarrow> Some (t, dpc)) else None)"
| "discovering s k = (case reconciling s k of Some (R_Discovering dpc t ts outcomes) \<Rightarrow> Some (t, dpc) | _ \<Rightarrow> None)"

lemma awaiting_reconcile: "reconciling s k = Some rpc \<Longrightarrow> awaiting s k = reconcile_awaits rpc"
  by (cases k) (auto split: main_pc.splits watcher_pc.splits)

lemma awaiting_signal: "discovering s (Of_Signal i) = Some (t, dpc) \<Longrightarrow> awaiting s (Of_Signal i) = awaits_answer dpc"
  by (auto split: if_splits prod.splits)

lemma discovering_reconcile:
  "reconciling s k = Some rpc \<Longrightarrow>
     discovering s k = (case rpc of R_Discovering dpc t ts outcomes \<Rightarrow> Some (t, dpc) | _ \<Rightarrow> None)"
  by (cases k) (auto split: main_pc.splits watcher_pc.splits)

lemma resuming_awaits: "discovering s k = Some (t, Resuming n) \<Longrightarrow> awaiting s k"
  by (cases k) (auto split: main_pc.splits watcher_pc.splits reconcile_pc.splits if_splits prod.splits)

lemma marked_not_reconciling [simp]:
  "main (main_marked x) \<noteq> M_Reconciling rpc" "watcher (watcher_marked x) \<noteq> W_Reconciling rpc"
  by (cases x; simp add: main_marked_def watcher_marked_def split: option.split sum.split)+

lemma marks_ingestor [simp]: "core_ingestor (snd (marks s)) = core_ingestor s" "core_ingestor (snd (offers s)) = core_ingestor s"
  by (cases "marks s", cases "offers s", auto dest: marks_frame offers_frame)+

text \<open>What a turn of one of them does to the system.\<close>

lemma asker_turn_cases [consumes 1, case_names idle leaves reconciles discovers]:
  assumes "s' = core_step P C cfg s (turn_of k ans clk el)"
  obtains (idle) "s' = s"
  | (leaves) "core_ingestor s' = core_ingestor s"
      "reconciling s' k = None" "\<nexists>i. k = Of_Signal i"
  | (reconciles) rpc rpc' where "reconciling s k = Some rpc"
      "reconciling s' k = Some rpc'"
      "reconcile_step (core_parts P cfg) (ingest_config cfg) ans clk el rpc (core_ingestor s) =
         Some (rpc', core_ingestor s')"
      "core_link s' = core_link s"
  | (discovers) i t source dpc dpc' where "k = Of_Signal i" "discovering s k = Some (t, dpc)"
      "discovering s' k = Some (t, dpc')"
      "discover_step (core_parts P cfg) (ingest_config cfg) t source ans clk el dpc (core_ingestor s) =
         Some (dpc', core_ingestor s')"
      "core_link s' = core_link s"
proof -
  note idle = idle [unfolded assms] and leaves = leaves [unfolded assms]
    and reconciles = reconciles [unfolded assms] and discovers = discovers [unfolded assms]
  show thesis
  proof (cases k)
    case Of_Main
    show thesis
    proof (cases "reconciling s k")
      case None
      then have "core_ingestor (main_step (core_parts P cfg) cfg ans clk el s) = core_ingestor s"
        "reconciling (main_step (core_parts P cfg) cfg ans clk el s) k = None"
        using Of_Main by (auto simp: main_step_def split: main_pc.split)
      with leaves Of_Main show thesis by simp
    next
      case (Some rpc)
      then have main: "main s = M_Reconciling rpc" using Of_Main by (auto split: main_pc.splits)
      show thesis
      proof (cases "\<exists>r. rpc = R_Done r")
        case True
        then obtain r where "rpc = R_Done r" by blast
        then have "main_step (core_parts P cfg) cfg ans clk el s = s \<or>
            core_ingestor (main_step (core_parts P cfg) cfg ans clk el s) = core_ingestor s \<and>
            reconciling (main_step (core_parts P cfg) cfg ans clk el s) k = None"
          using Of_Main by (auto simp: main_step_def main split: sum.split main_pc.split)
        with idle leaves Of_Main show thesis by auto
      next
        case False
        then have "main_step (core_parts P cfg) cfg ans clk el s =
          (case reconcile_step (core_parts P cfg) (ingest_config cfg) ans clk el rpc (core_ingestor s) of
             None \<Rightarrow> s | Some (rpc', g) \<Rightarrow> s\<lparr>main := M_Reconciling rpc', core_ingestor := g\<rparr>)"
          by (cases rpc) (simp_all add: main_step_def main del: reconcile_step.simps)
        with idle reconciles [OF Some] Of_Main show thesis
          by (cases "reconcile_step (core_parts P cfg) (ingest_config cfg) ans clk el rpc (core_ingestor s)")
             (auto simp del: reconcile_step.simps)
      qed
    qed
  next
    case Of_Watcher
    show thesis
    proof (cases "reconciling s k")
      case None
      then have "core_ingestor (watcher_step (core_parts P cfg) cfg ans clk el s) = core_ingestor s"
        "reconciling (watcher_step (core_parts P cfg) cfg ans clk el s) k = None"
        using Of_Watcher by (auto simp: watcher_step_def split: watcher_pc.split)
      with leaves Of_Watcher show thesis by simp
    next
      case (Some rpc)
      then have watcher: "watcher s = W_Reconciling rpc" using Of_Watcher by (auto split: watcher_pc.splits)
      show thesis
      proof (cases "\<exists>r. rpc = R_Done r")
        case True
        then obtain r where "rpc = R_Done r" by blast
        then have "watcher_step (core_parts P cfg) cfg ans clk el s = s \<or>
            core_ingestor (watcher_step (core_parts P cfg) cfg ans clk el s) = core_ingestor s \<and>
            reconciling (watcher_step (core_parts P cfg) cfg ans clk el s) k = None"
          using Of_Watcher by (auto simp: watcher_step_def watcher split: sum.split watcher_pc.split)
        with idle leaves Of_Watcher show thesis by auto
      next
        case False
        then have "watcher_step (core_parts P cfg) cfg ans clk el s =
          (case reconcile_step (core_parts P cfg) (ingest_config cfg) ans clk el rpc (core_ingestor s) of
             None \<Rightarrow> s | Some (rpc', g) \<Rightarrow> s\<lparr>watcher := W_Reconciling rpc', core_ingestor := g\<rparr>)"
          by (cases rpc) (simp_all add: watcher_step_def watcher del: reconcile_step.simps)
        with idle reconciles [OF Some] Of_Watcher show thesis
          by (cases "reconcile_step (core_parts P cfg) (ingest_config cfg) ans clk el rpc (core_ingestor s)")
             (auto simp del: reconcile_step.simps)
      qed
    qed
  next
    case (Of_Signal i)
    show thesis
    proof (cases "i < length (signals s)")
      case True
      obtain t source dpc where sig: "signals s ! i = (t, source, dpc)" by (cases "signals s ! i")
      show thesis
      proof (cases "discover_step (core_parts P cfg) (ingest_config cfg) t source ans clk el dpc (core_ingestor s)")
        case None
        with True sig Of_Signal idle show thesis by (simp del: discover_step.simps)
      next
        case (Some r)
        obtain dpc' g where "r = (dpc', g)" by fastforce
        with True sig Of_Signal Some discovers [of i t dpc dpc' source] show thesis by (simp del: discover_step.simps)
      qed
    qed (use idle Of_Signal in simp)
  qed
qed

text \<open>The other tasks are not touched by it, but for the watcher, which the main task starts.\<close>

lemma asker_turn_others:
  assumes "j \<noteq> k"
  shows "(discovering (core_step P C cfg s (turn_of k ans clk el)) j = discovering s j \<or>
      discovering (core_step P C cfg s (turn_of k ans clk el)) j = None) \<and>
    (awaiting (core_step P C cfg s (turn_of k ans clk el)) j \<longrightarrow> awaiting s j) \<and>
    (reconciling (core_step P C cfg s (turn_of k ans clk el)) j = reconciling s j \<or>
      reconciling (core_step P C cfg s (turn_of k ans clk el)) j = None) \<and>
    (\<forall>i. j = Of_Signal i \<longrightarrow> discovering (core_step P C cfg s (turn_of k ans clk el)) j = discovering s j)"
proof (cases k)
  case Of_Main
  have "(watcher (main_step (core_parts P cfg) cfg ans clk el s) = watcher s \<or>
      watcher (main_step (core_parts P cfg) cfg ans clk el s) = W_Waiting) \<and>
    signals (main_step (core_parts P cfg) cfg ans clk el s) = signals s"
    by (auto simp: main_step_def marks_def split: main_pc.split reconcile_pc.split sum.split option.split prod.split)
  with assms Of_Main show ?thesis by (cases j) auto
next
  case Of_Watcher
  have "main (watcher_step (core_parts P cfg) cfg ans clk el s) = main s \<and>
    signals (watcher_step (core_parts P cfg) cfg ans clk el s) = signals s"
    by (auto simp: watcher_step_def marks_def split: watcher_pc.split reconcile_pc.split sum.split option.split prod.split)
  with assms Of_Watcher show ?thesis by (cases j) auto
next
  case (Of_Signal i)
  with assms show ?thesis
    by (cases j) (auto split: prod.splits option.splits simp del: discover_step.simps)
qed

text \<open>A step goes on to an await exactly when it asks; a resume asks for its own thread.\<close>

lemma resume_answered_quiet [simp]: "\<not> awaits_answer (resume_answered P cfg n a)"
  by (auto simp: resume_answered_def Let_def split: sum.splits RequestError.splits)

lemma discover_step_asks:
  assumes "discover_step P cfg t source ans clk el dpc g = Some (dpc', g')"
  shows "(requests g' = requests g \<and> \<not> awaits_answer dpc') \<or>
    (\<exists>m p. requests g' = requests g @ [(m, p)] \<and> awaits_answer dpc' \<and>
      (\<forall>n. dpc' = Resuming n \<longrightarrow> m = ''thread/resume'' \<and> p = resume_params (api P) t))"
proof (cases dpc)
  case Reading
  with assms obtain a where "ans = Some a" by auto
  with Reading assms show ?thesis
    by (cases a) (auto split: option.splits)
qed (use assms in \<open>auto simp: claim_def split: if_splits option.splits\<close>)

lemma page_answered_quiet:
  "page_answered P cfg pages previous newest candidates a g = (rpc', g') \<Longrightarrow>
     requests g' = requests g \<and> states g' = states g \<and> \<not> reconcile_awaits rpc' \<and>
     (\<forall>dpc t ts outcomes. rpc' \<noteq> R_Discovering dpc t ts outcomes)"
  by (auto simp: page_answered_def end_listing_def Let_def split: sum.splits option.splits prod.splits if_splits)

lemma thread_answered_quiet [simp]:
  "\<not> reconcile_awaits (thread_answered P t ts outcomes a)"
  "thread_answered P t ts outcomes a \<noteq> R_Discovering dpc t' ts' outcomes'"
  by (auto simp: thread_answered_def split: sum.splits option.splits if_splits)

lemma reconcile_step_asks:
  assumes "reconcile_step P cfg ans clk el rpc g = Some (rpc', g')"
  shows "(requests g' = requests g \<and> \<not> reconcile_awaits rpc') \<or>
    (\<exists>m p. requests g' = requests g @ [(m, p)] \<and> reconcile_awaits rpc' \<and>
      (\<forall>n t ts outcomes. rpc' = R_Discovering (Resuming n) t ts outcomes \<longrightarrow>
         m = ''thread/resume'' \<and> p = resume_params (api P) t))"
proof (cases rpc)
  case (R_Discovering dpc t ts outcomes)
  show ?thesis
  proof (cases "\<exists>r. dpc = Done r")
    case False
    with assms R_Discovering obtain dpc' where "rpc' = R_Discovering dpc' t ts outcomes"
      "discover_step P cfg t Reconciliation ans clk el dpc g = Some (dpc', g')"
      by (auto simp del: discover_step.simps split: discover_pc.splits)
    with discover_step_asks [OF this(2)] show ?thesis by auto
  qed (use assms R_Discovering in auto)
qed (use assms in \<open>auto simp: end_listing_def split: nat.splits if_splits list.splits
  dest: page_answered_quiet\<close>)

text \<open>The state of a thread becomes subscribed at one place only.\<close>

lemma discover_step_states:
  assumes "discover_step P cfg t source ans clk el dpc g = Some (dpc', g')"
  shows "states g' = states g \<or> (\<exists>st. states g' = (states g)(t \<mapsto> st) \<and>
    (st = Subscribed \<longrightarrow> dpc = MarkSubscribed \<or> (\<exists>outcome. dpc = GivingUp Subscribed outcome)))"
  using assms
  by (cases dpc) (auto simp: claim_def Let_def split: if_splits option.splits)

lemma reconcile_step_states:
  assumes "reconcile_step P cfg ans clk el rpc g = Some (rpc', g')"
    "\<nexists>dpc t ts outcomes. rpc = R_Discovering dpc t ts outcomes \<and> (\<forall>r. dpc \<noteq> Done r)"
  shows "states g' = states g \<and> (\<forall>dpc t ts outcomes. rpc' = R_Discovering dpc t ts outcomes \<longrightarrow> dpc = Claim)"
  using assms
  by (cases rpc) (auto simp: end_listing_def split: nat.splits if_splits list.splits discover_pc.splits
      dest: page_answered_quiet)

text \<open>What the rest of the system does to these tasks: it may start some.\<close>

definition leaves_askers :: "IngestConfig \<Rightarrow> 'v Core \<Rightarrow> 'v Core \<Rightarrow> bool" where
  "leaves_askers c s s' \<longleftrightarrow> states (core_ingestor s') = states (core_ingestor s) \<and>
     (\<forall>k. discovering s' k = discovering s k \<or> discovering s' k = None \<or> (\<exists>t. discovering s' k = Some (t, Claim))) \<and>
     (\<forall>k. awaiting s' k \<longrightarrow> awaiting s k) \<and>
     (\<forall>k. reconciling s' k = reconciling s k \<or> reconciling s k = None \<and> (\<exists>g. reconciling s' k = Some (start_reconcile c g))) \<and>
     (\<forall>i < length (signals s). i < length (signals s') \<and> signals s' ! i = signals s ! i)"

lemma leaves_askers_same:
  assumes "main s' = main s" "watcher s' = watcher s" "signals s' = signals s"
    "states (core_ingestor s') = states (core_ingestor s)"
  shows "leaves_askers c s s'"
proof -
  have "discovering s' k = discovering s k \<and> awaiting s' k = awaiting s k \<and> reconciling s' k = reconciling s k" for k
    by (cases k) (simp_all add: assms)
  then show ?thesis by (simp add: leaves_askers_def assms)
qed

lemma leaves_askers_refl [simp]: "leaves_askers c s s"
  by (rule leaves_askers_same) simp_all

lemma ingress_leaves_askers:
  assumes "ingress_takes P e s = Some s'"
  shows "leaves_askers c s s'"
proof -
  note eff = ingress_takes_effect [OF assms]
  from assms obtain new where new: "signals s' = signals s @ new" "\<forall>x \<in> set new. snd (snd x) = Claim"
    by (auto simp: ingress_takes_def split: option.splits)
  have "(discovering s' k = discovering s k \<or> discovering s' k = None \<or> (\<exists>t. discovering s' k = Some (t, Claim))) \<and>
      (awaiting s' k \<longrightarrow> awaiting s k)" for k
  proof (cases k)
    case (Of_Signal i)
    show ?thesis
    proof (cases "length (signals s) \<le> i \<and> i < length (signals s')")
      case True
      then have "signals s' ! i \<in> set new" using new(1) by (auto simp: nth_append intro!: nth_mem)
      with new(2) have "snd (snd (signals s' ! i)) = Claim" by blast
      then obtain t source where "signals s' ! i = (t, source, Claim)" by (metis prod.collapse)
      with True Of_Signal show ?thesis by simp
    qed (use Of_Signal new(1) in \<open>auto simp: nth_append\<close>)
  qed (use eff in simp_all)
  moreover have "reconciling s' k = reconciling s k" for k by (cases k) (simp_all add: eff)
  ultimately show ?thesis using eff new(1) by (simp add: leaves_askers_def nth_append)
qed

lemma core_step_leaves_askers:
  assumes "\<not> of_asker x"
  shows "leaves_askers (ingest_config cfg) s (core_step P C cfg s x)"
proof (cases x)
  case IngressTakes
  then show ?thesis
    by (cases "ingress_takes (core_parts P cfg) (ingress (core_link s) ! taken s) s")
       (auto intro: ingress_leaves_askers)
next
  case OperationEnds
  have "leaves_askers (ingest_config cfg) s (snd (shutdown_called s)\<lparr>main := M_Ending own\<rparr>)" if "main s = M_Operating" for own
  proof -
    have "discovering (snd (shutdown_called s)\<lparr>main := M_Ending own\<rparr>) k = discovering s k \<and>
        awaiting (snd (shutdown_called s)\<lparr>main := M_Ending own\<rparr>) k = awaiting s k \<and>
        reconciling (snd (shutdown_called s)\<lparr>main := M_Ending own\<rparr>) k = reconciling s k" for k
      using that by (cases k) (simp_all add: shutdown_called_def)
    then show ?thesis by (simp add: leaves_askers_def shutdown_called_def)
  qed
  then show ?thesis by (auto simp: OperationEnds split: prod.split)
next
  case WatcherWoken
  have "leaves_askers (ingest_config cfg) s (s\<lparr>watcher := W_Reconciling (start_reconcile (ingest_config cfg) g)\<rparr>)" if "watcher s = W_Waiting" for g
    unfolding leaves_askers_def
  proof (intro conjI allI impI)
    fix k
    show "discovering (s\<lparr>watcher := W_Reconciling (start_reconcile (ingest_config cfg) g)\<rparr>) k = discovering s k \<or>
        discovering (s\<lparr>watcher := W_Reconciling (start_reconcile (ingest_config cfg) g)\<rparr>) k = None \<or>
        (\<exists>t. discovering (s\<lparr>watcher := W_Reconciling (start_reconcile (ingest_config cfg) g)\<rparr>) k = Some (t, Claim))"
      by (cases k) (simp_all add: start_reconcile_def)
    show "awaiting (s\<lparr>watcher := W_Reconciling (start_reconcile (ingest_config cfg) g)\<rparr>) k \<Longrightarrow> awaiting s k"
      by (cases k) (simp_all add: start_reconcile_def)
    show "reconciling (s\<lparr>watcher := W_Reconciling (start_reconcile (ingest_config cfg) g)\<rparr>) k = reconciling s k \<or>
        reconciling s k = None \<and>
        (\<exists>g'. reconciling (s\<lparr>watcher := W_Reconciling (start_reconcile (ingest_config cfg) g)\<rparr>) k = Some (start_reconcile (ingest_config cfg) g'))"
      using that by (cases k) auto
  qed simp_all
  then show ?thesis by (simp add: WatcherWoken watcher_woken_def)
next
  case WatcherStops
  have "leaves_askers (ingest_config cfg) s (s\<lparr>watcher := W_Stopped\<rparr>)" if "watcher s = W_Waiting"
  proof -
    have "discovering (s\<lparr>watcher := W_Stopped\<rparr>) k = discovering s k \<and>
        awaiting (s\<lparr>watcher := W_Stopped\<rparr>) k = awaiting s k \<and>
        reconciling (s\<lparr>watcher := W_Stopped\<rparr>) k = reconciling s k" for k
      using that by (cases k) simp_all
    then show ?thesis by (simp add: leaves_askers_def)
  qed
  then show ?thesis by (simp add: WatcherStops)
next
  case (CleanupRuns order)
  then show ?thesis by (auto simp: cleanup_step_def intro: leaves_askers_same split: cleanup_pc.split)
qed (use assms in \<open>auto intro!: leaves_askers_same simp: shutdown_called_def\<close>)

lemma life_leaves_askers:
  assumes "life_admits L x" "\<not> wire_turn x"
  shows "leaves_askers (ingest_config cfg) (life_core L) (life_core (life_step X P C cfg L x))"
proof (cases "life_rt (life_step X P C cfg L x) = life_rt L")
  case False
  with life_moves_one [OF assms(1), of X P C cfg] obtain y where
    y: "life_rt (life_step X P C cfg L x) = rt_step P C cfg (life_rt L) y"
    and origin: "x = Turn y \<or> (\<exists>z. y = System z \<and> by_cleanup z)" by blast
  have "of_asker z \<Longrightarrow> of_the_wire z" "by_cleanup z \<Longrightarrow> \<not> of_asker z" for z :: "'a core_input"
    by (cases z; simp)+
  with origin assms(2) have quiet: "\<not> of_asker z" if "y = System z" for z
    using that by (auto simp: wire_turn_def)
  show ?thesis
    unfolding y
  proof (cases rule: rt_one_core [of P C cfg "life_rt L" y])
    case (system z)
    with core_step_leaves_askers [OF quiet] show
      "leaves_askers (ingest_config cfg) (life_core L) (rt_core (rt_step P C cfg (life_rt L) y))" by metis
  qed (simp_all del: core_step.simps rt_step.simps add: core_step_leaves_askers)
qed simp

section \<open>A subscription rests on a resume that was accepted\<close>

definition log_fated :: "'v json \<Rightarrow> 'v Link \<Rightarrow> 'v Asked list \<Rightarrow> bool" where
  "log_fated J l qs \<longleftrightarrow> link_ok J l \<and>
     (\<forall>q \<in> set qs. fate J l (asked_channel q) (asked_id q) (asked_method q) (asked_params q))"

text \<open>A resume of the thread that the log has; and one that the daemon has accepted.\<close>

definition a_resume :: "'v json \<Rightarrow> string \<Rightarrow> 'v Asked \<Rightarrow> bool" where
  "a_resume J t q \<longleftrightarrow> asked_method q = ''thread/resume'' \<and> asked_params q = resume_params J t"

definition accepted :: "'v json \<Rightarrow> 'v Link \<Rightarrow> 'v Asked list \<Rightarrow> string \<Rightarrow> bool" where
  "accepted J l qs t \<longleftrightarrow> (\<exists>q \<in> set qs. a_resume J t q \<and> (\<exists>v. answer_on l (asked_channel q) = Some (Inr v)))"

fun resuming_on :: "'v json \<Rightarrow> 'v Asked list \<Rightarrow> string \<Rightarrow> (string \<times> 'v Wait) option \<Rightarrow> bool" where
  "resuming_on J qs t (Some (m, On ch)) = (m = ''thread/resume'' \<and> (\<exists>q \<in> set qs. a_resume J t q \<and> asked_channel q = ch))"
| "resuming_on J qs t (Some (m, Ended)) = (m = ''thread/resume'')"
| "resuming_on J qs t (Some (m, Unsent p)) = (m = ''thread/resume'' \<and> p = resume_params J t)"
| "resuming_on J qs t None = False"

fun stage_wired ::
    "'v json \<Rightarrow> 'v Link \<Rightarrow> 'v Asked list \<Rightarrow> (string \<times> 'v Wait) option \<Rightarrow> string \<Rightarrow> 'v discover_pc \<Rightarrow> bool" where
  "stage_wired J l qs w t (Resuming n) = resuming_on J qs t w"
| "stage_wired J l qs w t FinishSubscription = accepted J l qs t"
| "stage_wired J l qs w t MarkSubscribed = accepted J l qs t"
| "stage_wired J l qs w t (GivingUp st outcome) = (st \<noteq> Subscribed)"
| "stage_wired J l qs w t _ = True"

definition task_wired ::
    "'v json \<Rightarrow> 'v Link \<Rightarrow> 'v Asked list \<Rightarrow> 'v Core \<Rightarrow> Asker \<Rightarrow> (string \<times> 'v Wait) option \<Rightarrow> bool" where
  "task_wired J l qs s k w \<longleftrightarrow> (awaiting s k \<longrightarrow> w \<noteq> None) \<and>
     (\<forall>t dpc. discovering s k = Some (t, dpc) \<longrightarrow> stage_wired J l qs w t dpc)"

definition all_accepted :: "'v json \<Rightarrow> 'v Link \<Rightarrow> 'v Asked list \<Rightarrow> (string \<rightharpoonup> SubscriptionState) \<Rightarrow> bool" where
  "all_accepted J l qs m \<longleftrightarrow> (\<forall>t. m t = Some Subscribed \<longrightarrow> accepted J l qs t)"

definition wired_ok :: "'v json \<Rightarrow> ('v, 'w) Wired \<Rightarrow> bool" where
  "wired_ok J W \<longleftrightarrow> log_fated J (wired_link W) (asked_log W) \<and>
     (\<forall>k. task_wired J (wired_link W) (asked_log W) (wired_core W) k (wait_of W k)) \<and>
     all_accepted J (wired_link W) (asked_log W) (states (core_ingestor (wired_core W)))"

text \<open>It stays so while the link moves, and when the log grows.\<close>

lemma accepted_step: "accepted J l qs t \<Longrightarrow> accepted J (link_step J' C cfg l x) qs t"
  by (auto simp: accepted_def intro: answer_on_step)

lemma stage_wired_step: "stage_wired J l qs w t dpc \<Longrightarrow> stage_wired J (link_step J' C cfg l x) qs w t dpc"
  by (cases dpc) (auto intro: accepted_step)

lemma log_fated_step: "log_fated J l qs \<Longrightarrow> link_admits l x \<Longrightarrow> log_fated J (link_step J C cfg l x) qs"
  using fate_step [of J l] links.step_inv [of J l x]
  by (auto simp: log_fated_def simp del: link_step.simps)

lemma accepted_more: "accepted J l qs t \<Longrightarrow> accepted J l (qs @ qs') t"
  by (auto simp: accepted_def)

lemma stage_wired_more: "stage_wired J l qs w t dpc \<Longrightarrow> stage_wired J l (qs @ qs') w t dpc"
proof (cases dpc)
  case (Resuming n)
  then show "stage_wired J l qs w t dpc \<Longrightarrow> ?thesis" by (cases "(J, qs, t, w)" rule: resuming_on.cases) auto
qed (auto intro: accepted_more)

text \<open>What a turn of the life does to the log's requests and to those that have been accepted.\<close>

lemma life_keeps_log:
  assumes "life_admits L x" "log_fated (api P) (life_link L) qs"
  shows "log_fated (api P) (life_link (life_step X P C cfg L x)) qs"
  by (rule life_link_keeps [OF log_fated_step assms(2,1)])

lemma life_keeps_accepted:
  assumes "life_admits L x" "accepted J (life_link L) qs t"
  shows "accepted J (life_link (life_step X P C cfg L x)) qs t"
  by (rule life_link_keeps [OF accepted_step assms(2,1)])

lemma life_keeps_stage:
  assumes "life_admits L x" "stage_wired J (life_link L) qs w t dpc"
  shows "stage_wired J (life_link (life_step X P C cfg L x)) qs w t dpc"
  by (rule life_link_keeps [OF stage_wired_step assms(2,1)])

lemma wired_ok_lives:
  assumes ok: "wired_ok (api P) W" and adm: "life_admits (wired_life W) x" and "\<not> wire_turn x"
  shows "wired_ok (api P) (W\<lparr>wired_life := life_step X P C cfg (wired_life W) x\<rparr>)"
proof -
  let ?L = "life_step X P C cfg (wired_life W) x"
  note quiet = life_leaves_askers [OF adm assms(3), of cfg X P C]
  have "task_wired (api P) (life_link ?L) (asked_log W) (life_core ?L) k (wait_of W k)" for k
  proof -
    have task: "task_wired (api P) (wired_link W) (asked_log W) (wired_core W) k (wait_of W k)"
      using ok by (simp add: wired_ok_def)
    have "stage_wired (api P) (life_link ?L) (asked_log W) (wait_of W k) t dpc"
      if "discovering (life_core ?L) k = Some (t, dpc)" for t dpc
    proof -
      from quiet that have "discovering (wired_core W) k = Some (t, dpc) \<or> dpc = Claim"
        unfolding leaves_askers_def by (metis option.distinct(1) option.inject prod.inject)
      with task show ?thesis by (auto simp: task_wired_def intro: life_keeps_stage [OF adm] simp del: life_step.simps)
    qed
    with quiet task show ?thesis by (auto simp: task_wired_def leaves_askers_def simp del: life_step.simps discovering.simps)
  qed
  moreover have "all_accepted (api P) (life_link ?L) (asked_log W) (states (core_ingestor (life_core ?L)))"
    using ok quiet life_keeps_accepted [OF adm]
    by (auto simp: wired_ok_def all_accepted_def leaves_askers_def simp del: life_step.simps)
  ultimately show ?thesis
    using ok life_keeps_log [OF adm] by (simp add: wired_ok_def del: life_step.simps)
qed

text \<open>A step of a discovery that goes on with what its wait gave.\<close>

lemma answer_for_accepts:
  assumes "answer_for l el w = Some (Inr v)" "resuming_on J qs t w"
  shows "accepted J l qs t"
proof -
  from assms obtain m ch x where w: "w = Some (m, On ch)" "waited_on l ch el = Some x" "request_result m x = Inr v"
    by (cases "(l, el, w)" rule: answer_for.cases) auto
  then have "answer_on l ch = Some (Inr v)"
    by (cases x) (auto simp: waited_on_def split: option.splits if_splits)
  with assms(2) w(1) show ?thesis by (auto simp: accepted_def)
qed

lemma discover_step_wired:
  assumes step: "discover_step P cfg t source (answer_for l el w) clk elapsed dpc g = Some (dpc', g')"
    and ok: "stage_wired J l qs w t dpc"
  shows "(\<forall>n. dpc' \<noteq> Resuming n) \<longrightarrow> stage_wired J l qs w' t dpc'"
    and "all_accepted J l qs (states g) \<Longrightarrow> all_accepted J l qs (states g')"
proof -
  show "(\<forall>n. dpc' \<noteq> Resuming n) \<longrightarrow> stage_wired J l qs w' t dpc'"
  proof (cases dpc)
    case (Resuming n)
    with step obtain a where a: "answer_for l el w = Some a" "dpc' = resume_answered P cfg n a" by auto
    have "stage_wired J l qs w' t (resume_answered P cfg n a)"
    proof (cases a)
      case (Inr v)
      with answer_for_accepts [of l el w v J qs t] a(1) ok Resuming show ?thesis by (simp add: resume_answered_def)
    qed (auto simp: resume_answered_def Let_def split: RequestError.split)
    with a(2) show ?thesis by simp
  next
    case Reading
    with step obtain a where "answer_for l el w = Some a" by auto
    with Reading step show ?thesis by (cases a) (auto split: option.splits)
  qed (use step ok in \<open>auto simp: claim_def split: if_splits option.splits\<close>)
  show "all_accepted J l qs (states g')" if "all_accepted J l qs (states g)"
    using discover_step_states [OF step] that ok
    by (auto simp: all_accepted_def split: if_splits)
qed

text \<open>A turn of a task that asks.\<close>

lemma asker_turn_asks:
  assumes "s1 = core_step P C cfg s (turn_of k ans clk elapsed)"
  shows "s1 = s \<or> requests (core_ingestor s1) = requests (core_ingestor s) \<and> \<not> awaiting s1 k \<or>
      (\<exists>m p. requests (core_ingestor s1) = requests (core_ingestor s) @ [(m, p)] \<and> awaiting s1 k \<and>
        core_link s1 = core_link s \<and>
        (\<forall>t n. discovering s1 k = Some (t, Resuming n) \<longrightarrow> m = ''thread/resume'' \<and> p = resume_params (api P) t))"
  using assms
proof (cases rule: asker_turn_cases)
  case leaves
  then have "\<not> awaiting s1 k" by (cases k) (auto split: main_pc.splits watcher_pc.splits)
  with leaves show ?thesis by simp
next
  case (reconciles rpc rpc')
  from reconcile_step_asks [OF reconciles(3)] reconciles(4) awaiting_reconcile [OF reconciles(2)]
    discovering_reconcile [OF reconciles(2)]
  show ?thesis by (auto split: reconcile_pc.splits)
next
  case (discovers i t source dpc dpc')
  from discover_step_asks [OF discovers(4)] discovers(3,5) awaiting_signal [of s1 i t dpc'] discovers(1)
  show ?thesis by (auto simp del: discovering.simps awaiting.simps)
qed blast

lemma asker_turn_wired:
  fixes P C cfg s k l el w clk elapsed
  assumes task: "task_wired J l qs s k w" and acc: "all_accepted J l qs (states (core_ingestor s))"
  defines "s1 \<equiv> core_step P C cfg s (turn_of k (answer_for l el w) clk elapsed)"
  shows "all_accepted J l qs (states (core_ingestor s1))"
    and "discovering s1 k = Some (t, dpc) \<Longrightarrow> \<forall>n. dpc \<noteq> Resuming n \<Longrightarrow> stage_wired J l qs w' t dpc"
proof -
  have again: "stage_wired J l qs w'' t dpc" if "stage_wired J l qs w t dpc" "\<forall>n. dpc \<noteq> Resuming n" for w'' t dpc
    using that by (cases dpc) auto
  have stages: "all_accepted J l qs (states (core_ingestor s1)) \<and>
      (\<forall>t dpc w'. discovering s1 k = Some (t, dpc) \<longrightarrow> (\<forall>n. dpc \<noteq> Resuming n) \<longrightarrow> stage_wired J l qs w' t dpc)"
    using meta_eq_to_obj_eq [OF s1_def]
  proof (cases rule: asker_turn_cases)
    case idle
    with task acc again show ?thesis by (auto simp: task_wired_def)
  next
    case leaves
    then have "discovering s1 k = None" by (cases k) auto
    with leaves acc show ?thesis by simp
  next
    case (reconciles rpc rpc')
    show ?thesis
    proof (cases "\<exists>dpc t ts outcomes. rpc = R_Discovering dpc t ts outcomes \<and> (\<forall>r. dpc \<noteq> Done r)")
      case True
      then obtain dpc t ts outcomes where r: "rpc = R_Discovering dpc t ts outcomes" "\<forall>r. dpc \<noteq> Done r" by blast
      with reconciles(3) obtain dpc' where d: "rpc' = R_Discovering dpc' t ts outcomes"
        "discover_step (core_parts P cfg) (ingest_config cfg) t Reconciliation (answer_for l el w) clk elapsed dpc
           (core_ingestor s) = Some (dpc', core_ingestor s1)"
        by (auto simp del: discover_step.simps split: discover_pc.splits)
      have "stage_wired J l qs w t dpc"
        using task discovering_reconcile [OF reconciles(1)] r(1) by (simp add: task_wired_def)
      from discover_step_wired [OF d(2) this] acc discovering_reconcile [OF reconciles(2)] d(1) show ?thesis by auto
    next
      case False
      from reconcile_step_states [OF reconciles(3) False] acc discovering_reconcile [OF reconciles(2)] show ?thesis
        by (auto split: reconcile_pc.splits)
    qed
  next
    case (discovers i t source dpc dpc')
    have "stage_wired J l qs w t dpc" using task discovers(2) by (simp add: task_wired_def)
    from discover_step_wired [OF discovers(4) this] acc discovers(3) show ?thesis by auto
  qed
  then show "all_accepted J l qs (states (core_ingestor s1))"
    "discovering s1 k = Some (t, dpc) \<Longrightarrow> \<forall>n. dpc \<noteq> Resuming n \<Longrightarrow> stage_wired J l qs w' t dpc" by blast+
qed

text \<open>The turn within the life of the run.\<close>

lemma turn_of_simps [simp]:
  "\<not> of_cleanup (turn_of k ans clk el)" "\<not> of_an_action (turn_of k ans clk el)" "core_admits s (turn_of k ans clk el)"
  "reads_truly s (turn_of k ans clk el)" "turn_of k ans clk el \<noteq> OperationEnds"
  by (cases k; simp add: reads_truly_def)+

lemma turn_core:
  "life_core (takes_turn P C cfg (System (turn_of k ans clk el)) L) = life_core L \<or>
   life_core (takes_turn P C cfg (System (turn_of k ans clk el)) L) = core_step P C cfg (life_core L) (turn_of k ans clk el)"
proof -
  have "(case turn_of k ans clk el of OperationEnds \<Rightarrow> A | _ \<Rightarrow> B) = B" for A B :: "('a, 'b) Life"
    by (cases k) simp_all
  then show ?thesis by (auto simp: takes_turn_def Let_def simp del: core_step.simps)
qed

lemma submit_core:
  "life_core (takes_turn P C cfg (System (OnLink (Submit False m p))) L) =
     (life_core L)\<lparr>core_link := link_step (api P) C (transport_config cfg) (life_link L) (Submit False m p)\<rparr>"
  by (simp add: takes_turn_def Let_def del: link_step.simps)

lemma turn_admitted: "life_admits L (Turn (System (turn_of k ans clk el)))"
  by (simp add: rt_reads_def)

lemma submit_admitted:
  "unat (next_id (life_link L)) + 1 < 2 ^ 64 \<Longrightarrow> life_admits L (Turn (System (OnLink (Submit False m p))))"
  by (simp add: rt_reads_def reads_truly_def)

lemma takes_turn_life: "takes_turn P C cfg y L = life_step X P C cfg L (Turn y)"
  by simp

text \<open>A request put on the wire: the log has it, and the task waits for it.\<close>

lemma put_wired:
  assumes ok: "log_fated (api P) (wired_link W) (asked_log W)"
    and tasks: "\<And>j. j \<noteq> k \<Longrightarrow> task_wired (api P) (wired_link W) (asked_log W) (wired_core W) j (wait_of W j)"
    and acc: "all_accepted (api P) (wired_link W) (asked_log W) (states (core_ingestor (wired_core W)))"
    and own: "\<And>t dpc w. discovering (wired_core W) k = Some (t, dpc) \<Longrightarrow> \<forall>n. dpc \<noteq> Resuming n \<Longrightarrow>
      stage_wired (api P) (wired_link W) (asked_log W) w t dpc"
    and resume: "\<And>t n. discovering (wired_core W) k = Some (t, Resuming n) \<Longrightarrow>
      m = ''thread/resume'' \<and> p = resume_params (api P) t"
    and room: "unat (next_id (wired_link W)) + 1 < 2 ^ 64"
  shows "wired_ok (api P) (puts_on_wire P C cfg k m p W)"
proof (cases "\<exists>ch. submits False m p (wired_link W) = Some (Inr ch)")
  case False
  then obtain w where w: "puts_on_wire P C cfg k m p W = W\<lparr>wait_of := (wait_of W)(k \<mapsto> (m, w))\<rparr>" "w = Ended \<or> w = Unsent p"
    by (cases "submits False m p (wired_link W)"; cases "the (submits False m p (wired_link W))")
       (auto simp: puts_on_wire_def)
  have "task_wired (api P) (wired_link W) (asked_log W) (wired_core W) j (((wait_of W)(k \<mapsto> (m, w))) j)" for j
  proof (cases "j = k")
    case True
    have "stage_wired (api P) (wired_link W) (asked_log W) (Some (m, w)) t dpc"
      if "discovering (wired_core W) k = Some (t, dpc)" for t dpc
      using own [OF that] resume that w(2) by (cases dpc) auto
    with True show ?thesis by (simp add: task_wired_def)
  qed (use tasks in simp)
  with ok acc show ?thesis by (simp add: wired_ok_def w(1))
next
  case True
  then obtain ch where Inr: "submits False m p (wired_link W) = Some (Inr ch)" by blast
  let ?l = "wired_link W" and ?L = "takes_turn P C cfg (System (OnLink (Submit False m p))) (wired_life W)"
  let ?q = "\<lparr>asked_by = k, asked_method = m, asked_params = p, asked_channel = ch, asked_id = Number (next_id ?l)\<rparr>"
  let ?qs = "asked_log W @ [?q]"
  note adm = submit_admitted [OF room, of m p]
  note acc_sub = submits_accepted [OF Inr, of "api P" C "transport_config cfg"]
  have core: "life_core ?L = (wired_core W)\<lparr>core_link := link_step (api P) C (transport_config cfg) ?l (Submit False m p)\<rparr>"
    by (rule submit_core)
  have link: "life_link ?L = link_step (api P) C (transport_config cfg) ?l (Submit False m p)" by (simp add: core)
  have same: "discovering (life_core ?L) = discovering (wired_core W)" "awaiting (life_core ?L) = awaiting (wired_core W)"
  proof -
    have "discovering (life_core ?L) j = discovering (wired_core W) j \<and> awaiting (life_core ?L) j = awaiting (wired_core W) j" for j
      unfolding core by (cases j) simp_all
    then show "discovering (life_core ?L) = discovering (wired_core W)" "awaiting (life_core ?L) = awaiting (wired_core W)"
      by (auto intro: ext)
  qed
  have room': "link_admits ?l (Submit False m p)" using room by simp
  have "fate (api P) (life_link ?L) ch (Number (next_id ?l)) m p"
    unfolding link using submit_begins_fate [OF _ room' conjunct2 [OF acc_sub]] ok by (simp add: log_fated_def)
  moreover have "log_fated (api P) (life_link ?L) (asked_log W)"
    unfolding link by (rule log_fated_step [OF ok room'])
  ultimately have log: "log_fated (api P) (life_link ?L) ?qs" by (simp add: log_fated_def)
  have keep: "stage_wired (api P) (life_link ?L) ?qs w t dpc" if "stage_wired (api P) ?l (asked_log W) w t dpc" for w t dpc
    unfolding link using that by (intro stage_wired_more stage_wired_step)
  have "task_wired (api P) (life_link ?L) ?qs (life_core ?L) j (((wait_of W)(k \<mapsto> (m, On ch))) j)" for j
  proof (cases "j = k")
    case True
    have "stage_wired (api P) (life_link ?L) ?qs (Some (m, On ch)) t dpc"
      if d: "discovering (wired_core W) k = Some (t, dpc)" for t dpc
    proof (cases "\<exists>n. dpc = Resuming n")
      case True
      then obtain n where "dpc = Resuming n" by blast
      with resume [of t n] d show ?thesis by (simp add: a_resume_def)
    qed (use own [OF d] keep in blast)
    with True show ?thesis by (simp add: task_wired_def same)
  next
    case False
    with tasks [OF False] keep show ?thesis by (simp add: task_wired_def same)
  qed
  moreover have "all_accepted (api P) (life_link ?L) ?qs (states (core_ingestor (life_core ?L)))"
    using acc unfolding all_accepted_def link by (auto simp: core intro!: accepted_more accepted_step simp del: link_step.simps)
  ultimately show ?thesis using log by (simp add: wired_ok_def puts_on_wire_def Inr)
qed

lemma wired_ok_moves_on:
  assumes ok: "wired_ok (api P) W" and room: "unat (next_id (wired_link W)) + 1 < 2 ^ 64"
  shows "wired_ok (api P) (moves_on P C cfg k el clk elapsed W)"
proof -
  let ?s = "wired_core W" and ?qs = "asked_log W" and ?w = "wait_of W"
  let ?x = "turn_of k (answer_for (wired_link W) el (?w k)) clk elapsed"
  let ?L = "takes_turn P C cfg (System ?x) (wired_life W)"
  let ?W = "W\<lparr>wired_life := ?L\<rparr>"
  note adm = turn_admitted [of "wired_life W" k "answer_for (wired_link W) el (?w k)" clk elapsed]
  note keeps_log = life_keeps_log [OF adm, folded takes_turn_life]
  note keeps_stage = life_keeps_stage [OF adm, folded takes_turn_life]
  note keeps_acc = life_keeps_accepted [OF adm, folded takes_turn_life]
  have task: "task_wired (api P) (wired_link W) ?qs ?s j (?w j)" for j using ok by (simp add: wired_ok_def)
  have acc: "all_accepted (api P) (wired_link W) ?qs (states (core_ingestor ?s))" using ok by (simp add: wired_ok_def)
  have log: "log_fated (api P) (life_link ?L) ?qs" using ok keeps_log by (simp add: wired_ok_def)
  define turned where "turned \<longleftrightarrow> life_core ?L = core_step P C cfg ?s ?x"
  have idle: "life_core ?L = ?s" if "\<not> turned" using that turn_core unfolding turned_def by metis
  note own = asker_turn_wired [OF task [of k] acc, of P C cfg el clk elapsed]
  note made = asker_turn_asks [OF refl, of P C cfg ?s k "answer_for (wired_link W) el (?w k)" clk elapsed]
  have acc': "all_accepted (api P) (life_link ?L) ?qs (states (core_ingestor (life_core ?L)))"
    using own(1) acc idle keeps_acc unfolding all_accepted_def turned_def by metis
  have others: "task_wired (api P) (life_link ?L) ?qs (life_core ?L) j (?w j)" if "j \<noteq> k" for j
    using task [of j] asker_turn_others [OF that, of P C cfg ?s] idle keeps_stage
    unfolding task_wired_def turned_def by (metis option.distinct(1))
  have stage: "stage_wired (api P) (life_link ?L) ?qs w t dpc"
    if "discovering (life_core ?L) k = Some (t, dpc)" "\<forall>n. dpc \<noteq> Resuming n" for w t dpc
  proof -
    have "stage_wired (api P) (wired_link W) ?qs w t dpc"
    proof (cases turned)
      case True
      with own(2) that show ?thesis by (simp add: turned_def)
    next
      case False
      with task [of k] that idle have "stage_wired (api P) (wired_link W) ?qs (?w k) t dpc" by (simp add: task_wired_def)
      with that(2) show ?thesis by (cases dpc) auto
    qed
    then show ?thesis by (rule keeps_stage)
  qed
  consider (same) "life_core ?L = ?s"
    | (silent) "requests (core_ingestor (life_core ?L)) = requests (core_ingestor ?s)" "\<not> awaiting (life_core ?L) k"
    | (request) m p where "requests (core_ingestor (life_core ?L)) = requests (core_ingestor ?s) @ [(m, p)]"
        "life_link ?L = wired_link W"
        "\<And>t n. discovering (life_core ?L) k = Some (t, Resuming n) \<Longrightarrow> m = ''thread/resume'' \<and> p = resume_params (api P) t"
    using made idle unfolding turned_def by metis
  then show ?thesis
  proof cases
    case (request m p)
    then have "moves_on P C cfg k el clk elapsed W = puts_on_wire P C cfg k m p ?W" by (simp add: moves_on_def Let_def)
    moreover have "wired_ok (api P) (puts_on_wire P C cfg k m p ?W)"
      by (rule put_wired) (use log acc' others stage request room in simp_all)
    ultimately show ?thesis by simp
  next
    case same
    have "moves_on P C cfg k el clk elapsed W = (if awaiting ?s k then ?W else ?W\<lparr>wait_of := ?w(k := None)\<rparr>)"
      by (simp add: moves_on_def same Let_def)
    moreover have "task_wired (api P) (life_link ?L) ?qs (life_core ?L) k (?w k)"
      using task [of k] keeps_stage same unfolding task_wired_def by metis
    moreover have "task_wired (api P) (life_link ?L) ?qs (life_core ?L) k None" if "\<not> awaiting ?s k"
    proof -
      have "\<forall>n. dpc \<noteq> Resuming n" if "discovering ?s k = Some (t, dpc)" for t dpc
        using that \<open>\<not> awaiting ?s k\<close> resuming_awaits by blast
      with stage same that show ?thesis by (simp add: task_wired_def)
    qed
    ultimately show ?thesis
      using log acc' others by (cases "awaiting ?s k"; simp add: wired_ok_def; metis)
  next
    case silent
    have "\<forall>n. dpc \<noteq> Resuming n" if "discovering (life_core ?L) k = Some (t, dpc)" for t dpc
      using that silent(2) resuming_awaits by blast
    with stage silent(2) have "task_wired (api P) (life_link ?L) ?qs (life_core ?L) k None" by (simp add: task_wired_def)
    with silent log acc' others show ?thesis by (auto simp: wired_ok_def moves_on_def Let_def)
  qed
qed

lemma wired_ok_asks:
  assumes ok: "wired_ok (api P) W" and room: "unat (next_id (wired_link W)) + 1 < 2 ^ 64"
  shows "wired_ok (api P) (asks P C cfg k el clk elapsed W)"
proof (cases "\<exists>m p. wait_of W k = Some (m, Unsent p)")
  case True
  then obtain m p where w: "wait_of W k = Some (m, Unsent p)" by blast
  have task: "task_wired (api P) (wired_link W) (asked_log W) (wired_core W) j (wait_of W j)" for j
    using ok by (simp add: wired_ok_def)
  have "wired_ok (api P) (puts_on_wire P C cfg k m p W)"
  proof (rule put_wired)
    show "stage_wired (api P) (wired_link W) (asked_log W) w' t dpc"
      if "discovering (wired_core W) k = Some (t, dpc)" "\<forall>n. dpc \<noteq> Resuming n" for w' t dpc
    proof -
      have "stage_wired (api P) (wired_link W) (asked_log W) (wait_of W k) t dpc"
        using task [of k] that(1) by (simp add: task_wired_def)
      with that(2) show ?thesis by (cases dpc) auto
    qed
    show "m = ''thread/resume'' \<and> p = resume_params (api P) t"
      if "discovering (wired_core W) k = Some (t, Resuming n)" for t n
      using task [of k] that w by (simp add: task_wired_def)
  qed (use ok task room in \<open>simp_all add: wired_ok_def\<close>)
  with w ok show ?thesis by (simp add: asks_def)
next
  case False
  then have "asks P C cfg k el clk elapsed W = moves_on P C cfg k el clk elapsed W"
    by (auto simp: asks_def split: option.split prod.split Wait.split)
  with wired_ok_moves_on [OF assms] show ?thesis by simp
qed

section \<open>The life of the run is a part that moves by its own steps\<close>

lemma moves_on_cases:
  obtains (turns) ans where "wired_life (moves_on P C cfg k el clk elapsed W) =
      takes_turn P C cfg (System (turn_of k ans clk elapsed)) (wired_life W)"
  | (submits) ans m p where "wired_life (moves_on P C cfg k el clk elapsed W) =
      takes_turn P C cfg (System (OnLink (Submit False m p))) (takes_turn P C cfg (System (turn_of k ans clk elapsed)) (wired_life W))"
      "life_link (takes_turn P C cfg (System (turn_of k ans clk elapsed)) (wired_life W)) = wired_link W"
proof -
  let ?x = "turn_of k (answer_for (wired_link W) el (wait_of W k)) clk elapsed"
  let ?L = "takes_turn P C cfg (System ?x) (wired_life W)"
  let ?made = "drop (length (requests (core_ingestor (wired_core W)))) (requests (core_ingestor (life_core ?L)))"
  show thesis
  proof (cases ?made)
    case Nil
    then show thesis by (intro turns) (simp add: moves_on_def Let_def)
  next
    case (Cons r rs)
    obtain m p where r: "r = (m, p)" by fastforce
    from Cons have "life_core ?L \<noteq> wired_core W"
      "requests (core_ingestor (life_core ?L)) \<noteq> requests (core_ingestor (wired_core W))" by auto
    with turn_core [of P C cfg k "answer_for (wired_link W) el (wait_of W k)" clk elapsed "wired_life W"]
      asker_turn_asks [OF refl, of P C cfg "wired_core W" k "answer_for (wired_link W) el (wait_of W k)" clk elapsed]
    have "life_link ?L = wired_link W" by metis
    with turns submits [where m = m and p = p] Cons r show thesis
      by (cases "submits False m p (wired_link W)"; cases "the (submits False m p (wired_link W))")
         (simp_all add: moves_on_def puts_on_wire_def Let_def)
  qed
qed

lemma asks_cases:
  obtains (idles) "wired_life (asks P C cfg k el clk elapsed W) = wired_life W"
  | (sends) m p where "wired_life (asks P C cfg k el clk elapsed W) =
      takes_turn P C cfg (System (OnLink (Submit False m p))) (wired_life W)"
  | (turns) ans where "wired_life (asks P C cfg k el clk elapsed W) =
      takes_turn P C cfg (System (turn_of k ans clk elapsed)) (wired_life W)"
  | (submits) ans m p where "wired_life (asks P C cfg k el clk elapsed W) =
      takes_turn P C cfg (System (OnLink (Submit False m p))) (takes_turn P C cfg (System (turn_of k ans clk elapsed)) (wired_life W))"
      "life_link (takes_turn P C cfg (System (turn_of k ans clk elapsed)) (wired_life W)) = wired_link W"
proof (cases "\<exists>m p. wait_of W k = Some (m, Unsent p)")
  case True
  then obtain m p where "wait_of W k = Some (m, Unsent p)" by blast
  then have "wired_life (asks P C cfg k el clk elapsed W) = wired_life W \<or>
      wired_life (asks P C cfg k el clk elapsed W) =
        takes_turn P C cfg (System (OnLink (Submit False m p))) (wired_life W)"
    by (simp add: asks_def puts_on_wire_def split: option.split sum.split)
  with idles sends show thesis by blast
next
  case False
  then have "asks P C cfg k el clk elapsed W = moves_on P C cfg k el clk elapsed W"
    by (auto simp: asks_def split: option.split prod.split Wait.split)
  with turns submits show thesis by (cases rule: moves_on_cases [of P C cfg k el clk elapsed W]) simp_all
qed

lemma wired_moves:
  assumes "wired_admits W x"
  shows "\<exists>ys. admissible (life_step X P C cfg) life_admits (wired_life W) ys \<and>
    wired_life (wired_step X P C cfg W x) = foldl (life_step X P C cfg) (wired_life W) ys"
proof (cases x)
  case (Lives y)
  show ?thesis
  proof (cases "wire_turn y")
    case True
    with Lives show ?thesis by (intro exI [of _ "[]"]) simp
  next
    case False
    with Lives assms show ?thesis by (intro exI [of _ "[y]"]) (simp del: life_step.simps)
  qed
next
  case (Asks k el clk elapsed)
  show ?thesis
  proof (cases rule: asks_cases [of P C cfg k el clk elapsed W])
    case idles
    with Asks show ?thesis by (intro exI [of _ "[]"]) simp
  next
    case (sends m p)
    have "life_admits (wired_life W) (Turn (System (OnLink (Submit False m p))))"
      using assms Asks by (intro submit_admitted) simp
    with Asks sends show ?thesis
      by (intro exI [of _ "[Turn (System (OnLink (Submit False m p)))]"]) (simp del: life_admits.simps)
  next
    case (turns ans)
    with Asks turn_admitted [of "wired_life W" k ans clk elapsed] show ?thesis
      by (intro exI [of _ "[Turn (System (turn_of k ans clk elapsed))]"]) simp
  next
    case (submits ans m p)
    have "life_admits (takes_turn P C cfg (System (turn_of k ans clk elapsed)) (wired_life W))
        (Turn (System (OnLink (Submit False m p))))"
      using assms Asks submits(2) by (intro submit_admitted) simp
    with Asks submits(1) turn_admitted [of "wired_life W" k ans clk elapsed] show ?thesis
      by (intro exI [of _ "[Turn (System (turn_of k ans clk elapsed)), Turn (System (OnLink (Submit False m p)))]"])
         (simp del: life_admits.simps)
  qed
qed

interpretation wired_part: moving_part "wired_step X P C cfg" wired_admits wired_life "life_step X P C cfg" life_admits
  for X P C cfg
  by unfold_locales (rule wired_moves)

lemma wired_step_ok:
  assumes "wired_ok (api P) W" "wired_admits W x"
  shows "wired_ok (api P) (wired_step X P C cfg W x)"
  using assms wired_ok_lives [OF assms(1)] wired_ok_asks [OF assms(1)]
  by (cases x) (simp_all del: life_step.simps)

interpretation wires: preserved_by "wired_step X P C cfg" "wired_ok (api P)" wired_admits for X P C cfg
  by unfold_locales (rule wired_step_ok)

end
