(* ===== verification/Lifetime_Runs.thy ===== *)
theory Lifetime_Runs
  imports Lifetime
begin

text \<open>
  What holds of a run as its caller sees it: it refines the system with its actions; what the
  daemon can still answer once the ingress task has ended; what becomes of a cleanup whose future is
  dropped; and what the monitor does to the machine.
\<close>

section \<open>The answers of the daemon once nobody takes its events\<close>

fun from_daemon :: "'v answer \<Rightarrow> bool" where
  "from_daemon (Inr v) = True"
| "from_daemon (Inl (Rejected m e)) = True"
| "from_daemon _ = False"

text \<open>
  The answers given so far, and the most there can be: a loop that finds its ingress closed gives
  one more, with the frame that ends it.
\<close>

definition given :: "'v Link \<Rightarrow> nat" where
  "given l = length (filter (\<lambda>(_, a). from_daemon a) (replies l))"

definition room :: "'v Link \<Rightarrow> nat" where
  "room l = given l + (if pc l = loop_pc.Stopped then 0 else 1)"

lemma given_room: "given l \<le> room l" "room l \<le> Suc (given l)"
  by (simp_all add: room_def)

lemma room_same: "replies l' = replies l \<Longrightarrow> (pc l = loop_pc.Stopped \<Longrightarrow> pc l' = loop_pc.Stopped) \<Longrightarrow> room l' \<le> room l"
  by (auto simp: room_def given_def)

lemma room_more:
  "replies l' = replies l @ new \<Longrightarrow> list_all (\<lambda>(_, a). \<not> from_daemon a) new \<Longrightarrow> pc l \<noteq> loop_pc.Stopped \<Longrightarrow> room l' \<le> room l"
proof -
  assume new: "replies l' = replies l @ new" "list_all (\<lambda>(_, a). \<not> from_daemon a) new" "pc l \<noteq> loop_pc.Stopped"
  then have "filter (\<lambda>(_, a). from_daemon a) new = []" by (auto simp: filter_empty_conv list_all_iff)
  with new show ?thesis by (simp add: room_def given_def)
qed

lemma exit_unanswered:
  "\<exists>new. replies (drive_exit x s) = replies s @ new \<and> list_all (\<lambda>(_, a). \<not> from_daemon a) new"
  by (auto simp: drive_exit_replies list_all_iff)

lemma room_exit: "pc s \<noteq> loop_pc.Stopped \<Longrightarrow> room (drive_exit x s) \<le> room s"
  using exit_unanswered [of x s] room_more by blast

lemma given_answer: "given (answer_pending J f s) \<le> Suc (given s)"
  by (auto simp: answer_pending_def pending_remove_def given_def reply_def split: IncomingFrame.split option.split)

text \<open>The frame that finds the ingress closed.\<close>

lemma room_last_frame: "pc s \<noteq> loop_pc.Stopped \<Longrightarrow> room (drive_frame J clk el False f s) \<le> room s"
proof -
  assume pc: "pc s \<noteq> loop_pc.Stopped"
  let ?s1 = "answer_pending J f (next_seq s)"
  from exit_unanswered [of CommandsClosed ?s1] obtain new where
    new: "replies (drive_exit CommandsClosed ?s1) = replies ?s1 @ new" "list_all (\<lambda>(_, a). \<not> from_daemon a) new" by blast
  then have "filter (\<lambda>(_, a). from_daemon a) new = []" by (auto simp: filter_empty_conv list_all_iff)
  with new have "given (drive_exit CommandsClosed ?s1) = given ?s1" by (simp add: given_def)
  moreover have "given (next_seq s) = given s" by (simp add: given_def)
  ultimately show ?thesis
    using given_answer [of J f "next_seq s"] pc by (simp add: drive_frame_def room_def Let_def)
qed

lemma room_loop:
  assumes "finds_open x \<noteq> Some True"
  shows "room (loop_step J C cfg x s) \<le> room s"
proof (cases "pc s")
  case AwaitingInitialize
  have "replies (initialize_read J C clk el b r s) = replies s" for clk el b r
    by (simp add: initialize_read_def initialize_frame_def degrade_def Let_def
        split: socket_read.splits sum.splits option.splits bool.splits)
  with AwaitingInitialize show ?thesis by (cases x) (auto simp: loop_step_def intro: room_same)
next
  case Driving
  then have pc: "pc s \<noteq> loop_pc.Stopped" by simp
  have "room (drive_read J C clk el False r s) \<le> room s" for clk el r
    using drive_read_cases [of J C clk el False r s] room_exit [OF pc] room_last_frame [OF pc] by auto
  moreover have "room (drive_command J failure c (s\<lparr>queue := cs\<rparr>)) \<le> room s" for failure c cs
  proof -
    let ?s = "s\<lparr>queue := cs\<rparr>"
    have base: "pc ?s \<noteq> loop_pc.Stopped" "room ?s = room s" using pc by (simp_all add: room_def given_def)
    have "room (drive_exit y (reply ch (Inl (NotWritten e)) ?s)) \<le> room s" for y ch e
      using room_exit [of "reply ch (Inl (NotWritten e)) ?s" y] base
        room_more [of "reply ch (Inl (NotWritten e)) ?s" ?s "[(ch, Inl (NotWritten e))]"] by simp
    with room_exit [OF base(1)] base show ?thesis
      by (cases c; cases failure) (auto simp: drive_command_def intro: room_same)
  qed
  ultimately show ?thesis
    using Driving assms room_exit [OF pc] by (cases x) (auto simp: loop_step_def drive_tick_def split: list.split)
next
  case (BackingOff d)
  show ?thesis
  proof (cases x)
    case (TakeCommand failure)
    with BackingOff show ?thesis
      by (cases "queue s"; cases "hd (queue s)")
         (auto simp: loop_step_def reject_while_disconnected_def after_backoff_def reconnecting_def room_def given_def)
  qed (use BackingOff in \<open>auto simp: loop_step_def reject_while_disconnected_def intro: room_same\<close>)
qed (cases x; auto simp: loop_step_def intro!: room_same split: option.split)+

lemma room_link:
  assumes "\<And>y. x = Loop y \<Longrightarrow> finds_open y \<noteq> Some True"
  shows "room (link_step J C cfg s x) \<le> room s"
proof (cases x)
  case (Loop y)
  with room_loop assms show ?thesis by simp
next
  case (Submit action m p)
  then show ?thesis by (auto simp: submit_def Let_def intro: room_same)
next
  case Shutdown
  then show ?thesis by (simp add: shutdown_def room_same)
qed (auto simp: notify_def mark_defs take_ingress_def Let_def intro!: room_same)

text \<open>A step of the system other than one on the link leaves the replies and the loop alone.\<close>

lemma core_step_replies:
  assumes "\<And>op. x \<noteq> OnLink op"
  shows "replies (core_link (core_step P C cfg s x)) = replies (core_link s) \<and> pc (core_link (core_step P C cfg s x)) = pc (core_link s)"
proof (cases x)
  case IngressTakes
  then show ?thesis
    by (cases "ingress_takes (core_parts P cfg) (ingress (core_link s) ! taken s) s") (auto dest!: ingress_takes_effect)
next
  case (SignalRuns i ans clk el)
  then show ?thesis by (auto split: prod.split option.split simp del: discover_step.simps)
next
  case (MainRuns ans clk el)
  then show ?thesis
    by (auto simp: main_step_def marking_defs shutdown_def Let_def
        split: main_pc.split reconcile_pc.split sum.split option.split prod.split)
next
  case (WatcherRuns ans clk el)
  then show ?thesis
    by (auto simp: watcher_step_def marking_defs Let_def
        split: watcher_pc.split reconcile_pc.split sum.split option.split prod.split)
next
  case (CleanupRuns order)
  then show ?thesis by (auto simp: cleanup_step_def shutdown_def split: cleanup_pc.split)
qed (use assms in \<open>auto simp: shutdown_called_def watcher_woken_def\<close>)

lemma core_step_ingress:
  assumes "\<not> ingress_running s"
  shows "\<not> ingress_running (core_step P C cfg s x)"
proof (cases x)
  case (SignalRuns i ans clk el)
  with assms show ?thesis by (auto split: prod.split option.split simp del: discover_step.simps)
next
  case (MainRuns ans clk el)
  with assms show ?thesis
    by (auto simp: main_step_def marks_def split: main_pc.split reconcile_pc.split sum.split option.split prod.split)
next
  case (WatcherRuns ans clk el)
  with assms show ?thesis
    by (auto simp: watcher_step_def marks_def split: watcher_pc.split reconcile_pc.split sum.split option.split prod.split)
next
  case (CleanupRuns order)
  with assms show ?thesis by (auto simp: cleanup_step_def split: cleanup_pc.split)
qed (use assms in \<open>auto simp: shutdown_called_def watcher_woken_def\<close>)

definition closing :: "nat \<Rightarrow> 'v Core \<Rightarrow> bool" where
  "closing n s \<longleftrightarrow> \<not> ingress_running s \<and> room (core_link s) \<le> n"

lemma closing_core:
  assumes "closing n s" "reads_truly s x"
  shows "closing n (core_step P C cfg s x)"
proof -
  have "room (core_link (core_step P C cfg s x)) \<le> room (core_link s)"
  proof (cases "\<exists>op. x = OnLink op")
    case True
    then obtain op where op: "x = OnLink op" by blast
    have "room (link_step (api P) C (transport_config cfg) (core_link s) op) \<le> room (core_link s)"
      by (rule room_link) (use assms op in \<open>auto simp: reads_truly_def closing_def\<close>)
    with op show ?thesis by simp
  next
    case False
    with core_step_replies [of x P C cfg s] show ?thesis by (intro room_same) auto
  qed
  with assms(1) core_step_ingress [of s P C cfg x] show ?thesis by (simp add: closing_def del: core_step.simps)
qed

lemma closing_rt:
  assumes "closing n (rt_core r)" "rt_reads r x"
  shows "closing n (rt_core (rt_step P C cfg r x))"
proof (cases rule: rt_one_core [of P C cfg r x])
  case (system y)
  with closing_core assms show ?thesis by (simp add: rt_reads_def del: core_step.simps)
next
  case (submits i el action m p)
  with closing_core [OF assms(1), of "OnLink (Submit action m p)"] show ?thesis
    by (simp add: reads_truly_def del: core_step.simps rt_step.simps)
next
  case (registers i el p)
  with closing_core [OF assms(1), of "RegistersWaiter p"] show ?thesis
    by (simp add: reads_truly_def del: core_step.simps rt_step.simps)
qed (use assms in simp)

lemma closing_life:
  assumes ok: "closing n (life_core L)" "life_admits L x"
  shows "closing n (life_core (life_step X P C cfg L x))"
  using life_moves_one [OF ok(2), of X P C cfg] closing_rt [OF ok(1)] ok(1) by (auto simp del: life_step.simps rt_step.simps)

interpretation closings: preserved_by "life_step X P C cfg" "\<lambda>L. closing n (life_core L)" life_admits for X P C cfg n
  by unfold_locales (rule closing_life)

text \<open>The replies only grow, and the channels only advance.\<close>

definition later_link :: "'v Link \<Rightarrow> 'v Link \<Rightarrow> bool" where
  "later_link l l' \<longleftrightarrow> (\<exists>new. replies l' = replies l @ new) \<and> Transport.next_channel l \<le> Transport.next_channel l'"

lemma next_channel_loop: "Transport.next_channel (loop_step J C cfg y l) = Transport.next_channel l"
proof (cases "pc l")
  case AwaitingInitialize
  have "Transport.next_channel (initialize_read J C clk el b r l) = Transport.next_channel l" for clk el b r
    by (simp add: initialize_read_def initialize_frame_def degrade_def hand_over_def next_seq_def Let_def
        split: socket_read.splits sum.splits option.splits bool.splits)
  with AwaitingInitialize show ?thesis by (cases y) (simp_all add: loop_step_def)
next
  case Driving
  have "Transport.next_channel (drive_read J C clk el b r l) = Transport.next_channel l" for clk el b r
    using drive_read_cases [of J C clk el b r l] by auto
  moreover have "Transport.next_channel (drive_command J failure c (l\<lparr>queue := cs\<rparr>)) = Transport.next_channel l" for failure c cs
    by (cases c; cases failure) (simp_all add: drive_command_def reply_def)
  ultimately show ?thesis using Driving by (cases y) (simp_all add: loop_step_def drive_tick_def split: list.split)
next
  case (BackingOff d)
  show ?thesis
  proof (cases y)
    case (TakeCommand failure)
    with BackingOff show ?thesis
      by (cases "queue l"; cases "hd (queue l)")
         (auto simp: loop_step_def reject_while_disconnected_def after_backoff_def reconnecting_def reply_def)
  qed (use BackingOff in \<open>simp_all add: loop_step_def reject_while_disconnected_def after_backoff_def reconnecting_def\<close>)
qed (cases y; simp add: loop_step_def degrade_def start_driving_def Let_def split: option.split)+

lemma later_link_step: "later_link l (link_step J C cfg l x)"
proof -
  have "Transport.next_channel (loop_step J C cfg y l) = Transport.next_channel l" for y
    by (rule next_channel_loop)
  with replies_loop_step show ?thesis
    by (cases x) (auto simp: later_link_def submit_def notify_def mark_defs shutdown_def take_ingress_def Let_def)
qed

lemma later_link_trans: "later_link a b \<Longrightarrow> later_link b c \<Longrightarrow> later_link a c"
  by (auto simp: later_link_def)

lemma later_life:
  assumes "life_admits L x"
  shows "later_link (life_link L) (life_link (life_step X P C cfg L x))"
proof -
  let ?Q = "later_link (life_link L)"
  have start: "?Q (life_link L)" by (simp add: later_link_def)
  have "?Q (core_link s) \<Longrightarrow> core_admits s y \<Longrightarrow> ?Q (core_link (core_step P C cfg s y))" for s y
    by (rule link_part.part_inv [where Q = ?Q]) (auto intro: later_link_trans later_link_step)
  then have "?Q (core_link (rt_core r)) \<Longrightarrow> rt_admits r y \<Longrightarrow> ?Q (core_link (rt_core (rt_step P C cfg r y)))" for r y
    using core_part.part_inv [where Q = "\<lambda>s. ?Q (core_link s)"] by metis
  with life_part.part_inv [where Q = "\<lambda>r. ?Q (core_link (rt_core r))", OF _ start assms] show ?thesis by metis
qed

text \<open>What the cleanup has heard from the daemon since \<open>k\<close> of its requests were over.\<close>

definition heard_since :: "nat \<Rightarrow> ('v, 'w) Life \<Rightarrow> (nat option \<times> 'v answer) list" where
  "heard_since k L = filter (\<lambda>(_, a). from_daemon a) (drop k (cleanup_answers L))"

definition hearing :: "nat \<Rightarrow> 'v Link \<Rightarrow> ('v, 'w) Life \<Rightarrow> nat list \<Rightarrow> bool" where
  "hearing k l L chs \<longleftrightarrow> later_link l (life_link L) \<and> k \<le> length (cleanup_answers L) \<and>
     map fst (heard_since k L) = map Some chs \<and> distinct chs \<and> (\<forall>ch \<in> set chs. ch < Transport.next_channel (life_link L)) \<and>
     (\<forall>(c, a) \<in> set (heard_since k L). (the c, a) \<in> set (drop (length (replies l)) (replies (life_link L)))) \<and>
     (case cleaning L of
        K_Asking ch ts \<Rightarrow> ch \<notin> set chs \<and> ch < Transport.next_channel (life_link L) \<and> ch \<notin> fst ` set (replies l)
      | _ \<Rightarrow> True)"

text \<open>All turns but the cleanup's.\<close>

lemma calls_shutdown_frame:
  "cleanup_answers (calls_shutdown P C cfg x who L) = cleanup_answers L"
  "cleaning (calls_shutdown P C cfg x who L) = cleaning L \<or> cleaning (calls_shutdown P C cfg x who L) = K_Listing"
  by (simp_all add: calls_shutdown_def Let_def del: rt_step.simps)

lemma takes_turn_frame:
  "cleanup_answers (takes_turn P C cfg y L) = cleanup_answers L \<and>
   (cleaning (takes_turn P C cfg y L) = cleaning L \<or> cleaning (takes_turn P C cfg y L) = K_Listing)"
proof (cases y)
  case (System z)
  with calls_shutdown_frame [of P C cfg OperationEnds By_Run L] show ?thesis
    by (cases z) (simp_all add: takes_turn_def Let_def del: rt_step.simps)
qed (simp_all add: takes_turn_def Let_def del: rt_step.simps)

lemma life_step_frame:
  assumes "\<And>order el. x \<noteq> Cleans order el"
  shows "cleanup_answers (life_step X P C cfg L x) = cleanup_answers L \<and>
    cleaning (life_step X P C cfg L x) \<in> {cleaning L, K_Listing, K_Dropped}"
proof (cases x)
  case (Turn y)
  with takes_turn_frame show ?thesis by (metis insertCI life_step.simps(1))
next
  case GuardRuns
  with calls_shutdown_frame [of P C cfg ShutdownCalled By_Guard "L\<lparr>spawned := False\<rparr>"] show ?thesis by auto
next
  case Calls
  with calls_shutdown_frame [of P C cfg ShutdownCalled By_Caller L] show ?thesis by auto
next
  case (RunDropped runtime)
  then show ?thesis by (simp add: run_dropped_def Let_def del: rt_step.simps)
qed (use assms in simp_all)

lemma hearing_later:
  assumes h: "hearing k l L chs" and later: "later_link (life_link L) (life_link L')"
    and "cleanup_answers L' = cleanup_answers L" "cleaning L' \<in> {cleaning L, K_Listing, K_Dropped}"
  shows "hearing k l L' chs"
proof -
  from later obtain new where "replies (life_link L') = replies (life_link L) @ new" by (auto simp: later_link_def)
  moreover from h obtain more where "replies (life_link L) = replies l @ more" by (auto simp: hearing_def later_link_def)
  moreover have "later_link l (life_link L')" using h later later_link_trans by (auto simp: hearing_def)
  moreover have "Transport.next_channel (life_link L) \<le> Transport.next_channel (life_link L')" using later by (simp add: later_link_def)
  ultimately show ?thesis
    using h assms(3,4) by (auto simp: hearing_def heard_since_def split: Cleaning.split_asm)
qed

lemma submits_plain:
  "submits False m p l = (if pc l = loop_pc.Stopped then Some (Inl TransportClosed)
     else if full l then None else Some (Inr (Transport.next_channel l)))"
  by (simp add: submits_def submit_def Let_def)

lemma submitted_link:
  assumes "pc (core_link s) \<noteq> loop_pc.Stopped" "\<not> full (core_link s)"
  shows "Transport.next_channel (core_link (core_step P C cfg s (OnLink (Submit False m p)))) = Suc (Transport.next_channel (core_link s))"
    "replies (core_link (core_step P C cfg s (OnLink (Submit False m p)))) = replies (core_link s)"
  using assms by (simp_all add: submit_def Let_def)

lemma hearing_cleans:
  assumes h: "hearing k l L chs" and fresh: "\<forall>(ch, a) \<in> set (replies l). ch < Transport.next_channel l"
    and later: "later_link (life_link L) (life_link (cleans P C cfg order el L))"
  shows "\<exists>chs'. hearing k l (cleans P C cfg order el L) chs'"
proof (cases "\<exists>ch ts. cleaning L = K_Asking ch ts")
  case True
  then obtain ch ts where c: "cleaning L = K_Asking ch ts" by blast
  show ?thesis
  proof (cases "waited_on (life_link L) ch el")
    case None
    with h c show ?thesis by (intro exI [of _ chs]) (simp add: cleans_def Let_def)
  next
    case (Some x)
    let ?a = "request_result ''thread/unsubscribe'' x"
    let ?L = "L\<lparr>cleanup_answers := cleanup_answers L @ [(Some ch, ?a)], cleaning := K_Next ts\<rparr>"
    have L: "cleans P C cfg order el L = ?L" using c Some by (simp add: cleans_def Let_def)
    have k: "k \<le> length (cleanup_answers L)" using h by (simp add: hearing_def)
    show ?thesis
    proof (cases "from_daemon ?a")
      case True
      then have "answer_on (life_link L) ch = Some ?a"
        using Some by (cases x) (auto simp: waited_on_def split: option.splits if_splits)
      then have "(ch, ?a) \<in> set (replies (life_link L))" by (simp add: answer_on_def map_of_SomeD)
      moreover from h obtain more where more: "replies (life_link L) = replies l @ more" by (auto simp: hearing_def later_link_def)
      moreover have "ch \<notin> fst ` set (replies l)" using h c by (simp add: hearing_def)
      ultimately have "(ch, ?a) \<in> set more" by force
      with h c k True more show ?thesis unfolding L
        by (intro exI [of _ "chs @ [ch]"]) (auto simp: hearing_def heard_since_def)
    next
      case False
      with h c k show ?thesis unfolding L by (intro exI [of _ chs]) (simp add: hearing_def heard_since_def)
    qed
  qed
next
  case asking: False
  show ?thesis
  proof (cases "\<exists>t ts. cleaning L = K_Next (t # ts)")
    case True
    then obtain t ts where c: "cleaning L = K_Next (t # ts)" by blast
    show ?thesis
    proof (cases "pc (life_link L) = loop_pc.Stopped")
      case True
      with h c show ?thesis
        by (intro exI [of _ chs]) (simp add: cleans_def submits_plain hearing_def heard_since_def Let_def)
    next
      case False
      show ?thesis
      proof (cases "full (life_link L)")
        case True
        with h c False show ?thesis by (intro exI [of _ chs]) (simp add: cleans_def submits_plain Let_def)
      next
      case room: False
      let ?ch = "Transport.next_channel (life_link L)"
      note sub = submitted_link [OF False room, of P C cfg "''thread/unsubscribe''" "resume_params (api P) t"]
      have "Transport.next_channel l \<le> ?ch" using h by (simp add: hearing_def later_link_def)
      with fresh have "?ch \<notin> fst ` set (replies l)" by fastforce
      moreover have "\<forall>ch \<in> set chs. ch < ?ch" using h by (simp add: hearing_def)
      ultimately show ?thesis
        using h c False room sub later
        by (intro exI [of _ chs])
           (force simp: cleans_def submits_plain hearing_def heard_since_def later_link_def Let_def simp del: core_step.simps)
      qed
    qed
  next
    case False
    with asking have "cleanup_answers (cleans P C cfg order el L) = cleanup_answers L \<and>
        (\<forall>ch ts. cleaning (cleans P C cfg order el L) \<noteq> K_Asking ch ts)"
      by (cases "cleaning L") (auto simp: cleans_def Let_def simp del: rt_step.simps split: list.split cleanup_pc.splits)
    moreover from this have "\<exists>c. cleaning (cleans P C cfg order el L) = c \<and> (\<forall>ch ts. c \<noteq> K_Asking ch ts)" by blast
    moreover have "hearing k l (L\<lparr>life_rt := life_rt (cleans P C cfg order el L), cleaning := K_Listing\<rparr>) chs"
      using h later by (intro hearing_later [OF h]) simp_all
    ultimately show ?thesis
      by (intro exI [of _ chs]) (auto simp: hearing_def heard_since_def split: Cleaning.split)
  qed
qed

lemma hearing_step:
  assumes "hearing k l L chs" "\<forall>(ch, a) \<in> set (replies l). ch < Transport.next_channel l" "life_admits L x"
  shows "\<exists>chs'. hearing k l (life_step X P C cfg L x) chs'"
proof (cases "\<exists>order el. x = Cleans order el")
  case True
  then obtain order el where x: "x = Cleans order el" by blast
  from later_life [OF assms(3), of X P C cfg] have "later_link (life_link L) (life_link (cleans P C cfg order el L))" by (simp add: x)
  from hearing_cleans [OF assms(1,2) this] show ?thesis by (simp add: x)
next
  case False
  then have "x \<noteq> Cleans order el" for order el by blast
  from life_step_frame [OF this, of X P C cfg L] hearing_later [OF assms(1) later_life [OF assms(3)], of X P C cfg]
  show ?thesis by metis
qed

definition heard_ok :: "nat \<Rightarrow> 'v Link \<Rightarrow> ('v, 'w) Life \<Rightarrow> bool" where
  "heard_ok k l L \<longleftrightarrow> (\<forall>(ch, a) \<in> set (replies l). ch < Transport.next_channel l) \<and> (\<exists>chs. hearing k l L chs)"

lemma heard_ok_step:
  assumes "heard_ok k l L" "life_admits L x"
  shows "heard_ok k l (life_step X P C cfg L x)"
proof -
  from assms(1) obtain chs where "hearing k l L chs" and fresh: "\<forall>(ch, a) \<in> set (replies l). ch < Transport.next_channel l"
    unfolding heard_ok_def by blast
  from hearing_step [OF this assms(2), of X P C cfg] fresh show ?thesis unfolding heard_ok_def by blast
qed

interpretation hearings: preserved_by "life_step X P C cfg" "heard_ok k l" life_admits for X P C cfg k l
  by unfold_locales (rule heard_ok_step)

text \<open>Each of those answers is one the loop has given since.\<close>

lemma heard_given:
  assumes "hearing k l L chs"
  shows "given l + length (heard_since k L) \<le> given (life_link L)"
proof -
  from assms obtain more where more: "replies (life_link L) = replies l @ more" by (auto simp: hearing_def later_link_def)
  let ?D = "filter (\<lambda>(_, a). from_daemon a) more"
  have "set chs \<subseteq> fst ` set ?D"
  proof
    fix ch
    assume "ch \<in> set chs"
    then have "Some ch \<in> set (map fst (heard_since k L))" using assms by (simp add: hearing_def)
    then obtain a where a: "(Some ch, a) \<in> set (heard_since k L)" by auto
    have "\<forall>(c, a) \<in> set (heard_since k L). (the c, a) \<in> set more" using assms more by (simp add: hearing_def)
    from bspec [OF this a] have "(ch, a) \<in> set more" by simp
    moreover have "from_daemon a" using a by (simp add: heard_since_def)
    ultimately have "(ch, a) \<in> set ?D" by simp
    then show "ch \<in> fst ` set ?D" by force
  qed
  then have "card (set chs) \<le> card (fst ` set ?D)" by (rule card_mono [rotated]) simp
  also have "\<dots> \<le> length ?D" by (metis card_length length_map set_map)
  finally have "card (set chs) \<le> length ?D" .
  moreover have "distinct chs" "length (heard_since k L) = length chs"
    using assms map_eq_imp_length_eq unfolding hearing_def by blast+
  then have "length (heard_since k L) = card (set chs)" by (simp add: distinct_card)
  ultimately show ?thesis by (simp add: given_def more)
qed

text \<open>Nothing on its way: no reply for a channel yet to come, none yet for the request that is awaited.\<close>

definition unheard :: "('v, 'w) Life \<Rightarrow> bool" where
  "unheard L \<longleftrightarrow> (\<forall>(ch, a) \<in> set (replies (life_link L)). ch < Transport.next_channel (life_link L)) \<and>
     (case cleaning L of
        K_Asking ch ts \<Rightarrow> ch < Transport.next_channel (life_link L) \<and> answer_on (life_link L) ch = None
      | _ \<Rightarrow> True)"

lemma unheard_begins: "unheard L \<Longrightarrow> heard_ok (length (cleanup_answers L)) (life_link L) L"
  by (auto simp: heard_ok_def unheard_def hearing_def heard_since_def later_link_def answer_on_def map_of_eq_None_iff
      intro!: exI [of _ "[]"] split: Cleaning.splits)

section \<open>A cleanup and its future\<close>

text \<open>Once the flag is up, calls change nothing, and the stage moves by turns of the cleanup only.\<close>

lemma called_again:
  assumes "stopped (life_core L)"
  shows "life_rt (calls_shutdown P C cfg ShutdownCalled who L) = life_rt L"
    "cleaning (calls_shutdown P C cfg x who L) = cleaning L" "cleaner (calls_shutdown P C cfg x who L) = cleaner L"
  using assms by (simp_all add: calls_shutdown_def shutdown_called_def Let_def del: rt_step.simps)
    (simp add: shutdown_called_def)

lemma stopped_stays:
  assumes "stopped (life_core L)" "\<And>order el. x \<noteq> Cleans order el"
  shows "cleaning (life_step X P C cfg L x) = cleaning L \<or>
      cleaning (life_step X P C cfg L x) = K_Dropped \<and> in_progress (cleaning L) \<and>
      (x = CallerGone \<and> cleaner L = By_Caller \<or> (\<exists>b. x = RunDropped b) \<and> cleaner L = By_Run)"
    "cleaner (life_step X P C cfg L x) = cleaner L"
    "cleanup (life_core (life_step X P C cfg L x)) = cleanup (life_core L)"
proof -
  have turn: "cleaning (takes_turn P C cfg y L) = cleaning L" "cleaner (takes_turn P C cfg y L) = cleaner L"
      "cleanup (life_core (takes_turn P C cfg y L)) = cleanup (life_core L)" for y
  proof -
    have "cleaning (takes_turn P C cfg y L) = cleaning L \<and> cleaner (takes_turn P C cfg y L) = cleaner L \<and>
      cleanup (life_core (takes_turn P C cfg y L)) = cleanup (life_core L)"
    proof (cases "y = System OperationEnds")
      case True
      with assms(1) called_again [OF assms(1)] show ?thesis
        by (simp add: takes_turn_def calls_shutdown_rt Let_def del: rt_step.simps) (simp add: shutdown_called_def)
    next
      case False
      with rt_step_cleanup [of y P C cfg "life_rt L"] show ?thesis
        by (cases y) (auto simp: takes_turn_def Let_def simp del: rt_step.simps split: core_input.split)
    qed
    then show "cleaning (takes_turn P C cfg y L) = cleaning L" "cleaner (takes_turn P C cfg y L) = cleaner L"
      "cleanup (life_core (takes_turn P C cfg y L)) = cleanup (life_core L)" by simp_all
  qed
  have call: "cleaning (calls_shutdown P C cfg ShutdownCalled who M) = cleaning M"
      "cleaner (calls_shutdown P C cfg ShutdownCalled who M) = cleaner M"
      "cleanup (life_core (calls_shutdown P C cfg ShutdownCalled who M)) = cleanup (life_core M)"
    if "stopped (life_core M)" for who and M :: "('a, 'b) Life"
    using called_again [OF that] by simp_all
  have "(cleaning (life_step X P C cfg L x) = cleaning L \<or>
      cleaning (life_step X P C cfg L x) = K_Dropped \<and> in_progress (cleaning L) \<and>
      (x = CallerGone \<and> cleaner L = By_Caller \<or> (\<exists>b. x = RunDropped b) \<and> cleaner L = By_Run)) \<and>
    cleaner (life_step X P C cfg L x) = cleaner L \<and> cleanup (life_core (life_step X P C cfg L x)) = cleanup (life_core L)"
  proof (cases x)
    case (RunDropped runtime)
    then show ?thesis by (simp add: run_dropped_def Let_def)
  qed (use assms turn call in simp_all)
  then show "cleaning (life_step X P C cfg L x) = cleaning L \<or>
      cleaning (life_step X P C cfg L x) = K_Dropped \<and> in_progress (cleaning L) \<and>
      (x = CallerGone \<and> cleaner L = By_Caller \<or> (\<exists>b. x = RunDropped b) \<and> cleaner L = By_Run)"
    "cleaner (life_step X P C cfg L x) = cleaner L"
    "cleanup (life_core (life_step X P C cfg L x)) = cleanup (life_core L)" by simp_all
qed

text \<open>The guard of a run that is dropped while its operation goes on begins the cleanup.\<close>

lemma guard_takes_over:
  assumes "run_alive L" "main (life_core L) = M_Operating" "\<not> stopped (life_core L)"
  shows "let L' = life_run X P C cfg L [RunDropped True, GuardRuns]
    in cleaning L' = K_Listing \<and> cleaner L' = By_Guard \<and> stop_signal (life_core L') \<and> cleanup (life_core L') = C_Unsubscribing"
  using assms by (simp add: life_run_def run_dropped_def calls_shutdown_def shutdown_called_def Let_def)

text \<open>A cleanup that was dropped stays as it was left.\<close>

definition left_at :: "cleanup_pc \<Rightarrow> (nat option \<times> 'v answer) list \<Rightarrow> ('v, 'w) Life \<Rightarrow> bool" where
  "left_at c hs L \<longleftrightarrow> in_step L \<and> cleaning L = K_Dropped \<and> cleanup (life_core L) = c \<and> cleanup_answers L = hs"

lemma left_at_step: "left_at c hs L \<Longrightarrow> left_at c hs (life_step X P C cfg L x)"
proof (cases "\<exists>order el. x = Cleans order el")
  case True
  then show "left_at c hs L \<Longrightarrow> ?thesis" by (auto simp: left_at_def cleans_def Let_def)
next
  case False
  assume left: "left_at c hs L"
  then have "stopped (life_core L)" by (simp add: left_at_def in_step_def)
  from stopped_stays [OF this, of x X P C cfg] life_step_frame [of x X P C cfg L] False left life_step_in_step [of L X P C cfg x]
  show ?thesis by (auto simp: left_at_def simp del: life_step.simps)
qed

interpretation left_overs: preserved_by "life_step X P C cfg" "left_at c hs" "\<lambda>_ _. True" for X P C cfg c hs
  by unfold_locales (rule left_at_step)

text \<open>What a cleanup that has listed its threads has left to do, in turns.\<close>

fun listed_threads :: "Cleaning \<Rightarrow> bool" where
  "listed_threads (K_Next ts) = True"
| "listed_threads (K_Asking ch ts) = True"
| "listed_threads K_Awaiting = True"
| "listed_threads K_Finished = True"
| "listed_threads _ = False"

fun turns_left :: "Cleaning \<Rightarrow> nat" where
  "turns_left (K_Next ts) = 2 * length ts + 1"
| "turns_left (K_Asking ch ts) = 2 * length ts + 2"
| "turns_left _ = 0"

text \<open>A future that is not dropped, and turns of the cleanup in which its timers have run out.\<close>

fun spares :: "Cleaner \<Rightarrow> 'v life_input \<Rightarrow> bool" where
  "spares who CallerGone = (who \<noteq> By_Caller)"
| "spares who (RunDropped b) = (who \<noteq> By_Run)"
| "spares who _ = True"

fun timely :: "'v life_input \<Rightarrow> bool" where
  "timely (Cleans order el) = el"
| "timely _ = False"

section \<open>A loop that has been told to stop\<close>

fun ack_channel :: "'v Command \<Rightarrow> nat list" where
  "ack_channel (C_Reconciled ch) = [ch]"
| "ack_channel (C_Shutdown ch) = [ch]"
| "ack_channel _ = []"

text \<open>What a turn of the loop does to its commands and to those it has acknowledged.\<close>

definition takes_one :: "'v Link \<Rightarrow> 'v Link \<Rightarrow> bool" where
  "takes_one l l' \<longleftrightarrow> (\<exists>c. queue l = c # queue l' \<and> acknowledged l' = acknowledged l @ ack_channel c \<and>
     ((\<exists>ch. c = C_Shutdown ch) \<longrightarrow> pc l' = loop_pc.Stopped))"

lemma loop_commands:
  "queue (loop_step J C cfg x l) = queue l \<and> acknowledged (loop_step J C cfg x l) = acknowledged l \<and>
      (pc l = loop_pc.Stopped \<longrightarrow> pc (loop_step J C cfg x l) = loop_pc.Stopped) \<or>
   takes_one l (loop_step J C cfg x l)"
proof -
  have read: "queue (drive_read J C clk el b r l) = queue l \<and> acknowledged (drive_read J C clk el b r l) = acknowledged l" for clk el b r
  proof -
    have exit: "queue (drive_exit e k) = queue k" "\<forall>ch. e \<noteq> ExitShutdown ch \<Longrightarrow> acknowledged (drive_exit e k) = acknowledged k" for e k
      by (cases e; simp add: drive_exit_def fail_pending_def Let_def reconnecting_def)+
    show ?thesis
      by (simp add: drive_read_def drive_frame_def answer_pending_def pending_remove_def hand_over_def next_seq_def reply_def exit Let_def
          split: socket_read.split sum.split option.split IncomingFrame.split)
  qed
  have init: "queue (initialize_read J C clk el b r l) = queue l \<and> acknowledged (initialize_read J C clk el b r l) = acknowledged l" for clk el b r
    by (simp add: initialize_read_def initialize_frame_def degrade_def hand_over_def next_seq_def Let_def
        split: socket_read.splits sum.splits option.splits bool.splits)
  show ?thesis
  proof (cases "queue l = [] \<or> (\<nexists>failure. x = TakeCommand failure) \<or> (pc l \<noteq> Driving \<and> (\<nexists>d. pc l = BackingOff d))")
    case True
    then show ?thesis
      by (intro disjI1, cases "pc l"; cases x)
        (auto simp: loop_step_def read init drive_tick_def reject_while_disconnected_def after_backoff_def reconnecting_def
          degrade_def start_driving_def Let_def drive_exit_def fail_pending_def split: option.splits)
  next
    case False
    then obtain c cs failure where "queue l = c # cs" "x = TakeCommand failure" "pc l = Driving \<or> (\<exists>d. pc l = BackingOff d)"
      by (cases "queue l") auto
    then have "takes_one l (loop_step J C cfg x l)"
      by (cases c; cases failure) (auto simp: takes_one_def loop_step_def drive_command_def reject_while_disconnected_def
          after_backoff_def reconnecting_def reply_def drive_exit_def fail_pending_def Let_def)
    then show ?thesis by blast
  qed
qed

text \<open>Channels of acknowledgements are below the next one; and a loop told on a channel stops before it
  acknowledges anything there.\<close>

definition acks_below :: "'v Link \<Rightarrow> bool" where
  "acks_below l \<longleftrightarrow> (\<forall>ch \<in> set (acknowledged l). ch < Transport.next_channel l) \<and>
     (\<forall>c \<in> set (queue l). \<forall>ch \<in> set (ack_channel c). ch < Transport.next_channel l)"

definition told_to_stop :: "nat \<Rightarrow> 'v Link \<Rightarrow> bool" where
  "told_to_stop ch l \<longleftrightarrow> pc l = loop_pc.Stopped \<or>
     C_Shutdown ch \<in> set (queue l) \<and> ch \<notin> set (acknowledged l) \<and> C_Reconciled ch \<notin> set (queue l) \<and>
     ch < Transport.next_channel l"

lemma acks_below_step: "acks_below l \<Longrightarrow> acks_below (link_step J C cfg l x)"
proof (cases x)
  case (Loop y)
  assume "acks_below l"
  with loop_commands [of J C cfg y l] next_channel_loop [of J C cfg y l] Loop show ?thesis
    by (auto simp: acks_below_def takes_one_def)
qed (fastforce simp: acks_below_def submit_def notify_def mark_defs shutdown_def take_ingress_def)+

lemma told_to_stop_step: "told_to_stop ch l \<Longrightarrow> told_to_stop ch (link_step J C cfg l x)"
proof (cases "pc l = loop_pc.Stopped")
  case True
  with stopped_step [OF True, of J C cfg x] show ?thesis by (simp add: told_to_stop_def)
next
  case False
  assume "told_to_stop ch l"
  with False have told: "C_Shutdown ch \<in> set (queue l)" "ch \<notin> set (acknowledged l)" "C_Reconciled ch \<notin> set (queue l)"
    "ch < Transport.next_channel l" by (simp_all add: told_to_stop_def)
  show ?thesis
  proof (cases x)
    case (Loop y)
    from loop_commands [of J C cfg y l] consider
      "queue (loop_step J C cfg y l) = queue l" "acknowledged (loop_step J C cfg y l) = acknowledged l"
      | c where "queue l = c # queue (loop_step J C cfg y l)"
        "acknowledged (loop_step J C cfg y l) = acknowledged l @ ack_channel c"
        "(\<exists>ch. c = C_Shutdown ch) \<longrightarrow> pc (loop_step J C cfg y l) = loop_pc.Stopped"
      unfolding takes_one_def by blast
    then show ?thesis
    proof cases
      case 1
      with told Loop next_channel_loop [of J C cfg y l] show ?thesis by (simp add: told_to_stop_def)
    next
      case 2
      with told Loop next_channel_loop [of J C cfg y l] show ?thesis by (cases c) (auto simp: told_to_stop_def)
    qed
  qed (use told in \<open>auto simp: told_to_stop_def submit_def notify_def mark_defs shutdown_def take_ingress_def\<close>)
qed

lemma shutdown_tells: "acks_below l \<Longrightarrow> told_to_stop (Transport.next_channel l) (shutdown l)"
  by (fastforce simp: told_to_stop_def acks_below_def shutdown_def)

interpretation acks: preserved_by "link_step J C cfg" acks_below "\<lambda>_ _. True" for J C cfg
  by unfold_locales (rule acks_below_step)

section \<open>A cleanup that gets through\<close>

text \<open>
  What the cleanup has done for a thread: its request is on the link, in one piece, and the answer noted
  is the one the loop gave, or that the wait ran out or ended; or the loop had stopped before it was sent.
\<close>

abbreviation unsubscribe :: "string" where
  "unsubscribe \<equiv> ''thread/unsubscribe''"

definition asked_for :: "'v json \<Rightarrow> 'v Link \<Rightarrow> string \<Rightarrow> nat option \<times> 'v answer \<Rightarrow> bool" where
  "asked_for J l t x \<longleftrightarrow> (case fst x of
     None \<Rightarrow> pc l = loop_pc.Stopped \<and> snd x = Inl TransportClosed
   | Some ch \<Rightarrow> (\<exists>i. fate J l ch i unsubscribe (resume_params J t)) \<and>
       (answer_on l ch = Some (snd x) \<or> snd x = Inl TransportClosed \<or> snd x = Inl (TimedOut unsubscribe)))"

lemma asked_for_step:
  assumes "link_ok J l" "link_admits l y" "asked_for J l t x"
  shows "asked_for J (link_step J C cfg l y) t x"
  using assms(3) fate_step [OF assms(1) _ assms(2), of _ _ unsubscribe "resume_params J t" C cfg]
    answer_on_step [of l _ "snd x" J C cfg y] stopped_step [of l J C cfg y]
  unfolding asked_for_def by (cases "fst x") (simp_all, blast)

definition all_asked :: "'v json \<Rightarrow> 'v Link \<Rightarrow> string list \<Rightarrow> (nat option \<times> 'v answer) list \<Rightarrow> bool" where
  "all_asked J l ts xs \<longleftrightarrow> list_all2 (asked_for J l) ts xs"

lemma all_asked_step:
  "link_ok J l \<Longrightarrow> link_admits l y \<Longrightarrow> all_asked J l ts xs \<Longrightarrow> all_asked J (link_step J C cfg l y) ts xs"
  unfolding all_asked_def by (erule list_all2_mono) (rule asked_for_step)

text \<open>Where a cleanup stands that has listed \<open>ts\<close>, with \<open>hs\<close> noted before.\<close>

definition link_sound :: "'v json \<Rightarrow> 'v Link \<Rightarrow> bool" where
  "link_sound J l \<longleftrightarrow> link_ok J l \<and> acks_below l"

lemma link_sound_step: "link_sound J l \<Longrightarrow> link_admits l y \<Longrightarrow> link_sound J (link_step J C cfg l y)"
  using links.step_inv [of J l y C cfg] acks_below_step [of l J C cfg y] by (simp add: link_sound_def del: link_step.simps)

definition cleaned ::
    "'v json \<Rightarrow> string list \<Rightarrow> (nat option \<times> 'v answer) list \<Rightarrow> Cleaning \<Rightarrow> cleanup_pc \<Rightarrow> 'v Link \<Rightarrow> bool" where
  "cleaned J ts xs k c l \<longleftrightarrow> link_sound J l \<and> (case k of
     K_Next rest \<Rightarrow> (\<exists>asked. ts = asked @ rest \<and> all_asked J l asked xs)
   | K_Asking ch rest \<Rightarrow> (\<exists>asked t i. ts = asked @ t # rest \<and> all_asked J l asked xs \<and>
       fate J l ch i unsubscribe (resume_params J t))
   | K_Awaiting \<Rightarrow> all_asked J l ts xs \<and> (\<exists>ch. c = C_Awaiting ch \<and> told_to_stop ch l)
   | K_Finished \<Rightarrow> all_asked J l ts xs \<and> pc l = loop_pc.Stopped
   | K_Dropped \<Rightarrow> True
   | _ \<Rightarrow> False)"

lemma cleaned_step:
  assumes "cleaned J ts xs k c l" "link_admits l y"
  shows "cleaned J ts xs k c (link_step J C cfg l y)"
proof -
  let ?l = "link_step J C cfg l y"
  have sound: "link_sound J l" using assms(1) by (simp add: cleaned_def)
  then have ok: "link_ok J l" "link_sound J ?l" by (simp add: link_sound_def, rule link_sound_step [OF _ assms(2)])
  have asked: "all_asked J l us xs \<Longrightarrow> all_asked J ?l us xs" for us by (rule all_asked_step [OF ok(1) assms(2)])
  have fated: "fate J l ch i m p \<Longrightarrow> fate J ?l ch i m p" for ch i m p by (rule fate_step [OF ok(1) _ assms(2)])
  show ?thesis
    using assms(1) ok(2) asked fated told_to_stop_step [of _ l J C cfg y] stopped_step [of l J C cfg y]
    unfolding cleaned_def by (cases k) (simp_all del: link_step.simps, blast+)
qed

definition cleans_for ::
    "'v json \<Rightarrow> string list \<Rightarrow> (nat option \<times> 'v answer) list \<Rightarrow> ('v, 'w) Life \<Rightarrow> bool" where
  "cleans_for J ts hs L \<longleftrightarrow> in_step L \<and> (\<exists>xs. cleanup_answers L = hs @ xs \<and>
     cleaned J ts xs (cleaning L) (cleanup (life_core L)) (life_link L))"

text \<open>Its own turns.\<close>

lemma submit_link:
  assumes "submits False m p (core_link s) = Some (Inr ch)"
  shows "core_link (core_step P C cfg s (OnLink (Submit False m p))) = snd (submit False m p (core_link s))"
    "submit False m p (core_link s) = (Inr ch, snd (submit False m p (core_link s)))"
  using assms by (auto simp: submits_def submit_def split: if_splits)

lemma cleaned_submits:
  assumes ok: "cleaned J us xs (K_Next (t # ts)) c (core_link s)" "J = api P"
    and sub: "submits False unsubscribe (resume_params J t) (core_link s) = Some (Inr ch)"
    and room: "unat (next_id (core_link s)) + 1 < 2 ^ 64"
  shows "cleaned J us xs (K_Asking ch ts) c (core_link (core_step P C cfg s (OnLink (Submit False unsubscribe (resume_params J t)))))"
proof -
  let ?y = "Submit False unsubscribe (resume_params J t) :: 'a link_op"
  let ?l = "link_step J C (transport_config cfg) (core_link s) ?y"
  have adm: "link_admits (core_link s) ?y" using room by simp
  have same: "core_link (core_step P C cfg s (OnLink ?y)) = ?l" using assms(2) by simp
  have "link_ok J (core_link s)" using ok(1) by (simp add: cleaned_def link_sound_def)
  from submit_begins_fate [OF this adm submit_link(2) [OF sub]] have
    "fate J ?l ch (Number (next_id (core_link s))) unsubscribe (resume_params J t)"
    using submit_link(1) [OF sub, of P C cfg] same by simp
  moreover have "cleaned J us xs (K_Next (t # ts)) c ?l" by (rule cleaned_step [OF ok(1) adm])
  ultimately show ?thesis unfolding same cleaned_def by auto
qed

lemma cleans_for_cleans:
  assumes ok: "cleans_for (api P) ts hs L" and adm: "life_admits L (Cleans order el)"
  shows "cleans_for (api P) ts hs (cleans P C cfg order el L)"
proof -
  let ?J = "api P" and ?l = "life_link L" and ?L = "cleans P C cfg order el L"
  from ok obtain xs where xs: "cleanup_answers L = hs @ xs" and c: "cleaned ?J ts xs (cleaning L) (cleanup (life_core L)) ?l"
    and step: "in_step L" by (auto simp: cleans_for_def)
  have on: "rt_core (rt_step P C cfg (life_rt L) (System (CleanupRuns order))) = cleanup_step (core_parts P cfg) order (life_core L)"
    by simp
  have sub: "rt_core (rt_step P C cfg (life_rt L) (System (OnLink (Submit False m p)))) =
      core_step P C cfg (life_core L) (OnLink (Submit False m p))" for m p by simp
  have "\<exists>xs'. cleanup_answers ?L = hs @ xs' \<and> cleaned ?J ts xs' (cleaning ?L) (cleanup (life_core ?L)) (life_link ?L)"
  proof (cases "cleaning L")
    case (K_Next rest)
    show ?thesis
    proof (cases rest)
      case Nil
      have "cleanup (life_core L) = C_Closing" using step K_Next by (simp add: in_step_def)
      with c xs K_Next Nil shutdown_tells [of ?l] cleaned_step [OF c, of Shutdown C "transport_config cfg"] show ?thesis
        by (cases "full ?l"; cases "link_open (life_core L)")
           (auto simp: cleans_def on cleanup_step_def cleaned_def link_sound_def Let_def simp del: rt_step.simps)
    next
      case (Cons t ts')
      let ?sub = "submits False unsubscribe (resume_params ?J t) ?l"
      consider "?sub = None" | e where "?sub = Some (Inl e)" | ch where "?sub = Some (Inr ch)"
        by (cases ?sub; cases "the ?sub") auto
      then show ?thesis
      proof cases
        case 1
        with c xs K_Next Cons show ?thesis by (simp add: cleans_def Let_def)
      next
        case (2 e)
        then have e: "e = TransportClosed" "pc ?l = loop_pc.Stopped" by (auto simp: submits_def submit_def split: if_splits)
        with 2 xs K_Next Cons have L: "?L = L\<lparr>cleanup_answers := hs @ xs @ [(None, Inl TransportClosed)], cleaning := K_Next ts'\<rparr>"
          by (simp add: cleans_def Let_def)
        from c K_Next Cons obtain asked where "ts = asked @ t # ts'" "all_asked ?J ?l asked xs" by (auto simp: cleaned_def)
        then have "ts = (asked @ [t]) @ ts'" "all_asked ?J ?l (asked @ [t]) (xs @ [(None, Inl TransportClosed)])"
          using e by (auto simp: all_asked_def asked_for_def intro: list_all2_appendI)
        with c K_Next show ?thesis unfolding L
          by (intro exI [of _ "xs @ [(None, Inl TransportClosed)]"]) (auto simp: cleaned_def)
      next
        case (3 ch)
        have "unat (next_id ?l) + 1 < 2 ^ 64" using adm by simp
        from cleaned_submits [OF c [unfolded K_Next Cons] refl 3 this, of C cfg] 3 xs K_Next Cons show ?thesis
          by (simp add: cleans_def sub Let_def del: rt_step.simps)
      qed
    qed
  next
    case (K_Asking ch rest)
    show ?thesis
    proof (cases "waited_on ?l ch el")
      case None
      with c xs K_Asking show ?thesis by (simp add: cleans_def Let_def)
    next
      case (Some w)
      let ?a = "request_result unsubscribe w"
      have L: "?L = L\<lparr>cleanup_answers := hs @ xs @ [(Some ch, ?a)], cleaning := K_Next rest\<rparr>"
        using Some xs K_Asking by (simp add: cleans_def Let_def)
      from c K_Asking obtain asked t i where t: "ts = asked @ t # rest" "all_asked ?J ?l asked xs"
        "fate ?J ?l ch i unsubscribe (resume_params ?J t)" by (auto simp: cleaned_def)
      have "answer_on ?l ch = Some ?a \<or> ?a = Inl TransportClosed \<or> ?a = Inl (TimedOut unsubscribe)"
        using Some by (cases w) (auto simp: waited_on_def split: option.splits if_splits)
      with t have "ts = (asked @ [t]) @ rest" "all_asked ?J ?l (asked @ [t]) (xs @ [(Some ch, ?a)])"
        by (auto simp: all_asked_def asked_for_def intro!: list_all2_appendI)
      with c K_Asking show ?thesis unfolding L
        by (intro exI [of _ "xs @ [(Some ch, ?a)]"]) (auto simp: cleaned_def)
    qed
  next
    case K_Awaiting
    with c obtain ch where "cleanup (life_core L) = C_Awaiting ch" "told_to_stop ch ?l" by (auto simp: cleaned_def)
    with c xs K_Awaiting show ?thesis
      by (auto simp: cleans_def on cleanup_step_def cleaned_def told_to_stop_def Let_def simp del: rt_step.simps)
  qed (use c xs in \<open>auto simp: cleaned_def cleans_def Let_def\<close>)
  with in_step_cleans [OF step] show ?thesis by (auto simp: cleans_for_def)
qed

lemma cleans_for_step:
  assumes ok: "cleans_for (api P) ts hs L" and adm: "life_admits L x"
  shows "cleans_for (api P) ts hs (life_step X P C cfg L x)"
proof (cases "\<exists>order el. x = Cleans order el")
  case True
  then obtain order el where "x = Cleans order el" by blast
  with cleans_for_cleans [OF ok, of order el C cfg] adm show ?thesis by simp
next
  case False
  let ?L = "life_step X P C cfg L x"
  from ok obtain xs where xs: "cleanup_answers L = hs @ xs"
    and c: "cleaned (api P) ts xs (cleaning L) (cleanup (life_core L)) (life_link L)" and step: "in_step L"
    by (auto simp: cleans_for_def)
  have plain: "x \<noteq> Cleans order el" for order el using False by blast
  have "stopped (life_core L)" using c step by (cases "cleaning L") (auto simp: cleaned_def in_step_def)
  note quiet = stopped_stays [OF this plain, of X P C cfg] life_step_frame [OF plain, of X P C cfg L]
  have moved: "cleaned (api P) ts xs (cleaning L) (cleanup (life_core L)) (life_link ?L)"
    by (rule life_link_keeps [where Q = "cleaned (api P) ts xs (cleaning L) (cleanup (life_core L))", OF cleaned_step c adm])
  then have "cleaned (api P) ts xs (cleaning ?L) (cleanup (life_core ?L)) (life_link ?L)"
    using quiet(1,3) by (auto simp: cleaned_def)
  with quiet(4) xs life_step_in_step [OF step, of X P C cfg x] show ?thesis by (auto simp: cleans_for_def)
qed

interpretation cleaners: preserved_by "life_step X P C cfg" "cleans_for (api P) ts hs" life_admits for X P C cfg ts hs
  by unfold_locales (rule cleans_for_step)

interpretation sound_links: preserved_by "life_step X P C cfg" "\<lambda>L. link_sound (api P) (life_link L)" life_admits for X P C cfg
  by unfold_locales (rule life_link_keeps [where Q = "link_sound (api P)" for P, OF link_sound_step])

text \<open>The turns that count: the timers have run out, and a task that needs room finds some.\<close>

fun wants_room :: "Cleaning \<Rightarrow> bool" where
  "wants_room (K_Next ts) = True"
| "wants_room k = False"

fun cleanup_turns ::
    "'w ProcessOps \<Rightarrow> 'v parts \<Rightarrow> 'v codec \<Rightarrow> Config \<Rightarrow> ('v, 'w) Life \<Rightarrow> 'v life_input list \<Rightarrow> nat" where
  "cleanup_turns X P C cfg L [] = 0"
| "cleanup_turns X P C cfg L (x # xs) =
     (if timely x \<and> (wants_room (cleaning L) \<longrightarrow> \<not> full (life_link L)) then 1 else 0) +
     cleanup_turns X P C cfg (life_step X P C cfg L x) xs"

lemma cleans_turn:
  assumes "listed_threads (cleaning L)" "in_step L"
  shows "listed_threads (cleaning (cleans P C cfg order el L)) \<and>
    turns_left (cleaning (cleans P C cfg order el L)) \<le>
      turns_left (cleaning L) - (if el \<and> (wants_room (cleaning L) \<longrightarrow> \<not> full (life_link L)) then 1 else 0)"
proof (cases "cleaning L")
  case (K_Next ts)
  show ?thesis
  proof (cases ts)
    case Nil
    have "cleanup (life_core L) = C_Closing" using assms(2) K_Next by (simp add: in_step_def)
    then have "cleanup (rt_core (rt_step P C cfg (life_rt L) (System (CleanupRuns order)))) = C_Closing \<and> full (life_link L) \<or>
        cleanup (rt_core (rt_step P C cfg (life_rt L) (System (CleanupRuns order)))) \<in> {C_Finished} \<union> range C_Awaiting"
      by (simp add: cleanup_step_def)
    then show ?thesis
      using K_Next Nil by (auto simp: cleans_def Let_def simp del: rt_step.simps)
  next
    case (Cons t us)
    with K_Next show ?thesis
      by (auto simp: cleans_def submits_plain Let_def simp del: rt_step.simps)
  qed
next
  case (K_Asking ch ts)
  then show ?thesis by (auto simp: cleans_def waited_on_def Let_def split: option.split)
next
  case K_Awaiting
  with assms(2) obtain ch where "cleanup (life_core L) = C_Awaiting ch" by (auto simp: in_step_def)
  then have "cleanup (rt_core (rt_step P C cfg (life_rt L) (System (CleanupRuns order)))) \<in> {C_Finished} \<union> range C_Awaiting"
    by (simp add: cleanup_step_def)
  with K_Awaiting show ?thesis by (auto simp: cleans_def Let_def simp del: rt_step.simps)
qed (use assms in \<open>auto simp: cleans_def Let_def simp del: rt_step.simps\<close>)

lemma cleanup_proceeds:
  assumes "in_step L" "listed_threads (cleaning L)" "list_all (spares (cleaner L)) xs"
  shows "listed_threads (cleaning (life_run X P C cfg L xs)) \<and>
    turns_left (cleaning (life_run X P C cfg L xs)) \<le> turns_left (cleaning L) - cleanup_turns X P C cfg L xs"
  using assms
proof (induction xs arbitrary: L)
  case Nil
  then show ?case by (simp add: life_run_def)
next
  case (Cons x xs)
  let ?L = "life_step X P C cfg L x"
  have stop: "stopped (life_core L)" using Cons.prems(1,2) by (cases "cleaning L") (simp_all add: in_step_def)
  have one: "listed_threads (cleaning ?L) \<and> cleaner ?L = cleaner L \<and>
      turns_left (cleaning ?L) \<le> turns_left (cleaning L) -
        (if timely x \<and> (wants_room (cleaning L) \<longrightarrow> \<not> full (life_link L)) then 1 else 0)"
  proof (cases "\<exists>order el. x = Cleans order el")
    case True
    then obtain order el where x: "x = Cleans order el" by blast
    have "cleaner (cleans P C cfg order el L) = cleaner L"
      by (simp add: cleans_def Let_def del: rt_step.simps split: Cleaning.split list.split sum.split option.split)
    with cleans_turn [OF Cons.prems(2,1), of P C cfg order el] show ?thesis by (simp add: x)
  next
    case False
    then have "\<not> timely x" by (cases x) auto
    with stopped_stays [OF stop, of x X P C cfg] False Cons.prems(2,3) show ?thesis
      by (auto simp del: life_step.simps)
  qed
  with Cons.IH [of ?L] Cons.prems(3) life_step_in_step [OF Cons.prems(1), of X P C cfg x]
  show ?case by (auto simp: life_run_def simp del: life_step.simps split: if_splits)
qed

text \<open>The listing.\<close>

lemma subscribed_in_set:
  assumes "distinct (map fst order)"
  shows "set (subscribed_in order) = {t. map_of order t = Some Subscribed}"
  using assms by (auto simp: subscribed_in_def dest: map_of_SomeD intro: rev_image_eqI)

lemma listing_begins:
  assumes "cleaning L = K_Listing" "in_step L" "link_sound (api P) (life_link L)"
  shows "cleans_for (api P) (subscribed_in order) (cleanup_answers L) (cleans P C cfg order el L) \<and>
    cleaning (cleans P C cfg order el L) = K_Next (subscribed_in order) \<and> cleaner (cleans P C cfg order el L) = cleaner L"
proof -
  have "cleanup (life_core L) = C_Unsubscribing" using assms(1,2) by (simp add: in_step_def)
  then have "life_link (cleans P C cfg order el L) = life_link L"
    using assms(1) by (simp add: cleans_def cleanup_step_def Let_def)
  with assms(1,3) in_step_cleans [OF assms(2), of P C cfg order el] show ?thesis
    by (auto simp: cleans_for_def cleans_def cleaned_def all_asked_def Let_def simp del: rt_step.simps)
qed

section \<open>The machine under the monitor\<close>

lemma life_host_cong: "machine L' = machine L \<Longrightarrow> monitor L' = monitor L \<Longrightarrow> life_host L' = life_host L"
  by (simp add: life_host_def split: option.split)

lemma life_host_rt [simp]: "life_host (L\<lparr>life_rt := r\<rparr>) = life_host L" "life_host (L\<lparr>life_rt := r, handles_out := b\<rparr>) = life_host L"
  by (rule life_host_cong; simp)+

lemma calls_shutdown_host: "machine (calls_shutdown P C cfg x who L) = machine L" "monitor (calls_shutdown P C cfg x who L) = monitor L"
  by (simp_all add: calls_shutdown_def Let_def del: rt_step.simps)

lemma cleans_host: "machine (cleans P C cfg order el L) = machine L" "monitor (cleans P C cfg order el L) = monitor L"
  by (simp_all add: cleans_def Let_def del: rt_step.simps split: Cleaning.split list.split sum.split option.split)

lemma starts_monitor_host: "life_host (starts_monitor cfg L) = life_host L" "machine (starts_monitor cfg L) = machine L"
  by (simp_all add: starts_monitor_def life_host_def start_monitor_def split: option.split)

lemma takes_turn_host: "life_host (takes_turn P C cfg y L) = life_host L \<and> machine (takes_turn P C cfg y L) = machine L"
proof (cases y)
  case (System z)
  have "life_host (starts_monitor cfg (L\<lparr>life_rt := r\<rparr>)) = life_host L" "machine (starts_monitor cfg (L\<lparr>life_rt := r\<rparr>)) = machine L" for r
    by (simp_all add: starts_monitor_host)
  with System calls_shutdown_host [of P C cfg OperationEnds By_Run L] show ?thesis
    by (cases z) (auto simp: takes_turn_def Let_def simp del: rt_step.simps intro: life_host_cong)
qed (simp_all add: takes_turn_def Let_def del: rt_step.simps)

lemma life_step_host:
  "life_host (life_step X P C cfg L x) = (case x of
     Monitors i \<Rightarrow> (case monitor L of None \<Rightarrow> machine L | Some m \<Rightarrow> host (monitor_step X (supervisor_config cfg) m i))
   | _ \<Rightarrow> life_host L)"
proof (cases x)
  case (Turn y)
  then show ?thesis using takes_turn_host [of P C cfg y L] by simp
next
  case GuardRuns
  have "life_host (calls_shutdown P C cfg ShutdownCalled By_Guard (L\<lparr>spawned := False\<rparr>)) = life_host L"
    using calls_shutdown_host [of P C cfg ShutdownCalled By_Guard "L\<lparr>spawned := False\<rparr>"] by (intro life_host_cong) simp_all
  with GuardRuns show ?thesis by simp
next
  case Calls
  then show ?thesis using calls_shutdown_host [of P C cfg ShutdownCalled By_Caller L] by (auto intro: life_host_cong)
next
  case (Cleans order el)
  then show ?thesis by (auto intro: life_host_cong simp: cleans_host)
next
  case (RunDropped b)
  then show ?thesis by (auto intro: life_host_cong simp: run_dropped_def Let_def)
next
  case (Monitors i)
  then show ?thesis by (cases "monitor L") (simp_all add: life_host_def)
qed (auto intro: life_host_cong)

lemma begin_life_cases:
  assumes "begin_life X cfg h = Some (Inr L)"
  obtains s supervised where "begin_core cfg supervised = Some (Inr s)" "life_rt L = new_runtime s" "in_step L"
    "cleaning L = K_None" "cleanup_answers L = []" "monitor L = None" "run_alive L" "\<not> spawned L"
    "if manage_gui cfg then \<exists>st. initialize X (supervisor_config cfg) h = Some (Inr st, machine L) else machine L = h"
proof -
  from assms obtain s h' where run: "run_begin X cfg h = Some (Inr s, h')"
    and L: "L = \<lparr>life_rt = new_runtime s, run_alive = True, handles_out = True, spawned = False,
            cleaner = By_Run, cleaning = K_None, cleanup_answers = [], machine = h', monitor = None\<rparr>"
    by (auto simp: begin_life_def split: option.splits sum.splits)
  from run obtain supervised where core: "begin_core cfg supervised = Some (Inr s)"
    and h': "if manage_gui cfg then \<exists>st. initialize X (supervisor_config cfg) h = Some (Inr st, h') else h' = h"
    by (auto simp: run_begin_def split: if_splits option.splits sum.splits)
  from core have "cleanup s = C_Idle" "\<not> stopped s"
    by (auto simp: begin_core_def Let_def split: option.splits if_splits prod.splits bool.splits)
  then have "in_step L" by (simp add: L in_step_def new_runtime_def)
  with that [OF core] h' show thesis by (simp add: L)
qed

text \<open>The monitor is there only once the handle is.\<close>

definition guarded_by :: "Config \<Rightarrow> 'w host \<Rightarrow> ('v, 'w) Life \<Rightarrow> bool" where
  "guarded_by cfg h L \<longleftrightarrow> machine L = h \<and> log_ok (supervisor_config cfg) (life_host L) \<and>
     (monitor L \<noteq> None \<longrightarrow> manage_gui cfg \<and> handle_minted (main (life_core L)))"

lemma minted_rt: "handle_minted (main (rt_core r)) \<Longrightarrow> handle_minted (main (rt_core (rt_step P C cfg r x)))"
  by (cases rule: rt_one_core [of P C cfg r x]) (simp_all add: handle_minted_step del: rt_step.simps core_step.simps)

lemma minted_life:
  "life_admits L x \<Longrightarrow> handle_minted (main (life_core L)) \<Longrightarrow> handle_minted (main (life_core (life_step X P C cfg L x)))"
  using life_moves_one [of L x X P C cfg] minted_rt by metis

lemma life_step_monitor:
  "machine (life_step X P C cfg L x) = machine L \<and>
   (monitor L = None \<longrightarrow> monitor (life_step X P C cfg L x) \<noteq> None \<longrightarrow>
      manage_gui cfg \<and> main (life_core (life_step X P C cfg L x)) = M_Operating)"
proof (cases x)
  case (Turn y)
  show ?thesis
  proof (cases y)
    case (System z)
    with Turn calls_shutdown_host [of P C cfg OperationEnds By_Run L] show ?thesis
      by (cases z) (simp_all add: takes_turn_def starts_monitor_def Let_def del: rt_step.simps)
  qed (simp_all add: Turn takes_turn_def Let_def del: rt_step.simps)
qed (simp_all add: calls_shutdown_host cleans_host run_dropped_def Let_def)

lemma guarded_by_step:
  assumes "guarded_by cfg h L" "life_admits L x"
  shows "guarded_by cfg h (life_step X P C cfg L x)"
proof -
  have "log_ok (supervisor_config cfg) (life_host (life_step X P C cfg L x))"
  proof (cases "\<exists>i m. x = Monitors i \<and> monitor L = Some m")
    case True
    then obtain i m where "x = Monitors i" "monitor L = Some m" by blast
    with assms(1) monitored.step_inv [where cfg = "supervisor_config cfg" and s = m and X = X and x = i] show ?thesis
      by (simp add: guarded_by_def life_host_def)
  next
    case False
    then have "life_host (life_step X P C cfg L x) = life_host L"
      unfolding life_step_host by (cases x; cases "monitor L") (simp_all add: life_host_def)
    with assms(1) show ?thesis by (simp add: guarded_by_def del: life_step.simps)
  qed
  moreover have "machine (life_step X P C cfg L x) = h"
    using assms(1) life_step_monitor [of X P C cfg L x] by (simp add: guarded_by_def del: life_step.simps)
  moreover have "manage_gui cfg \<and> handle_minted (main (life_core (life_step X P C cfg L x)))"
    if "monitor (life_step X P C cfg L x) \<noteq> None"
    using that assms minted_life [OF assms(2)] life_step_monitor [of X P C cfg L x]
    by (cases "monitor L") (auto simp: guarded_by_def simp del: life_step.simps)
  ultimately show ?thesis by (simp add: guarded_by_def del: life_step.simps)
qed

interpretation guards: preserved_by "life_step X P C cfg" "guarded_by cfg h" life_admits for X P C cfg h
  by unfold_locales (rule guarded_by_step)

section \<open>Lives to evaluate\<close>

definition new_life :: "jv Core \<Rightarrow> (jv, machine system) Life" where
  "new_life s = \<lparr>life_rt = new_runtime s, run_alive = True, handles_out = True, spawned = False, cleaner = By_Run,
     cleaning = K_None, cleanup_answers = [], machine = machine_host both_up, monitor = None\<rparr>"

lemma new_life_begins:
  "begin_life (real_ops machine_os) test_core_config (machine_host both_up) = Some (Inr (new_life test_core))"
proof -
  have "\<not> manage_gui test_core_config" by (simp add: test_core_config_def)
  with test_core_begins show ?thesis by (simp add: begin_life_def run_begin_def new_life_def)
qed

abbreviation life_test :: "(jv, machine system) Life \<Rightarrow> jv life_input list \<Rightarrow> (jv, machine system) Life" where
  "life_test \<equiv> life_run (real_ops machine_os) test_parts test_codec test_core_config"

text \<open>Turns of the system while nothing stops.\<close>

fun ordinary :: "'v core_input \<Rightarrow> bool" where
  "ordinary (OnLink op) = (case op of Submit action m p \<Rightarrow> \<not> action | Loop y \<Rightarrow> finds_open y \<in> {None, Some True} | _ \<Rightarrow> True)"
| "ordinary IngressTakes = True"
| "ordinary (MainRuns ans clk el) = True"
| "ordinary _ = False"

lemma ordinary_plain: "ordinary x \<Longrightarrow> \<not> of_an_action x \<and> \<not> of_cleanup x \<and> x \<noteq> OperationEnds"
  by (cases x) (auto split: link_op.splits elim: of_an_action.elims)

lemma ordinary_ingress:
  assumes "ordinary x" "ingress_running s"
  shows "ingress_running (core_step P C cfg s x) \<and> reads_truly s x"
proof (cases x)
  case (MainRuns ans clk el)
  have "ingress_running (main_step (core_parts P cfg) cfg ans clk el s) = ingress_running s"
    by (auto simp: main_step_def marks_def split: main_pc.split reconcile_pc.split sum.split option.split prod.split)
  with MainRuns assms show ?thesis by (simp add: reads_truly_def)
next
  case IngressTakes
  have "ingress_takes Q e s = Some s' \<Longrightarrow> ingress_running s' = ingress_running s" for Q e s'
    by (auto simp: ingress_takes_def Let_def split: option.splits)
  with IngressTakes assms show ?thesis
    by (cases "ingress_takes (core_parts P cfg) (ingress (core_link s) ! taken s) s") (auto simp: reads_truly_def)
next
  case (OnLink op)
  with assms show ?thesis by (auto simp: reads_truly_def split: link_op.splits)
qed (use assms in simp_all)

lemma ordinary_turn:
  assumes "ordinary x" "\<not> manage_gui cfg" "run_alive L"
  shows "life_step X P C cfg L (Turn (System x)) = L\<lparr>life_rt := (life_rt L)\<lparr>rt_core := core_step P C cfg (life_core L) x\<rparr>\<rparr>"
  using assms ordinary_plain [OF assms(1)]
  by (cases x) (simp_all add: takes_turn_def starts_monitor_def Let_def del: core_step.simps)

lemma ordinary_turns:
  assumes "list_all ordinary xs" "\<not> manage_gui cfg" "run_alive L"
  shows "life_run X P C cfg L (map (\<lambda>x. Turn (System x)) xs) = L\<lparr>life_rt := (life_rt L)\<lparr>rt_core := core_run P C cfg (life_core L) xs\<rparr>\<rparr>"
    (is ?run)
    and "ingress_running (life_core L) \<Longrightarrow> admissible (core_step P C cfg) core_admits (life_core L) xs \<Longrightarrow>
      admissible (life_step X P C cfg) life_admits L (map (\<lambda>x. Turn (System x)) xs)" (is "_ \<Longrightarrow> _ \<Longrightarrow> ?admits")
proof -
  have "?run \<and> (ingress_running (life_core L) \<longrightarrow> admissible (core_step P C cfg) core_admits (life_core L) xs \<longrightarrow> ?admits)"
    using assms
  proof (induction xs arbitrary: L)
    case (Cons x xs)
    let ?L = "L\<lparr>life_rt := (life_rt L)\<lparr>rt_core := core_step P C cfg (life_core L) x\<rparr>\<rparr>"
    have one: "life_step X P C cfg L (Turn (System x)) = ?L" using Cons.prems by (simp add: ordinary_turn del: life_step.simps)
    from Cons.IH [of ?L] Cons.prems one ordinary_ingress [of x "life_core L" P C cfg] show ?case
      by (auto simp: life_run_def core_run_def rt_reads_def simp del: core_step.simps life_step.simps)
  qed (simp add: life_run_def core_run_def)
  then show ?run "ingress_running (life_core L) \<Longrightarrow> admissible (core_step P C cfg) core_admits (life_core L) xs \<Longrightarrow> ?admits" by blast+
qed

lemma life_run_append: "life_run X P C cfg L (xs @ ys) = life_run X P C cfg (life_run X P C cfg L xs) ys"
  by (simp add: life_run_def)

text \<open>A run that has subscribed one thread.\<close>

definition operating_life :: "jv life_input list" where
  "operating_life = map (\<lambda>x. Turn (System x)) (first_run one_thread)"

lemma operating_life_leads:
  "\<exists>g. life_test (new_life test_core) operating_life = (new_life test_core)\<lparr>life_rt :=
      (new_runtime test_core)\<lparr>rt_core := test_core\<lparr>main := M_Operating, watcher := W_Waiting, core_ingestor := g,
        core_link := test_links (connect_ops @ [MarkReconciled, Loop (TakeCommand None)])\<rparr>\<rparr>\<rparr> \<and>
     admissible (life_step (real_ops machine_os) test_parts test_codec test_core_config) life_admits (new_life test_core) operating_life \<and>
     states g = [''t'' \<mapsto> Subscribed]"
proof -
  from feed_subscribes first_run_leads obtain g where
    run: "test_run test_core (first_run one_thread) = test_core\<lparr>main := M_Operating, watcher := W_Waiting,
      core_ingestor := g, core_link := test_links (connect_ops @ [MarkReconciled, Loop (TakeCommand None)])\<rparr>"
      and adm: "test_admits test_core (first_run one_thread)" and st: "states g = [''t'' \<mapsto> Subscribed]" by blast
  have ordinary: "list_all ordinary (first_run one_thread)"
    by (simp add: first_run_def connects_def connect_ops_def marking_def list_all_iff)
  have "\<not> manage_gui test_core_config" "run_alive (new_life test_core)" "ingress_running (life_core (new_life test_core))"
    "life_rt (new_life test_core) = new_runtime test_core" "life_core (new_life test_core) = test_core"
    by (simp_all add: test_core_config_def new_life_def new_runtime_def)
  with ordinary_turns [OF ordinary] run adm st show ?thesis unfolding operating_life_def by metis
qed

text \<open>A shutdown with two threads to unsubscribe, on an open link whose ingress task has ended.\<close>

definition two_subscribed :: "(string \<times> SubscriptionState) list" where
  "two_subscribed = [(''t'', Subscribed), (''u'', Subscribed)]"

definition closing_core :: "jv Core" where
  "closing_core = (chatting (test_ingestor\<lparr>states := map_of two_subscribed\<rparr>))
     \<lparr>ingress_running := False, stop_signal := True, stopped := True, cleanup := C_Unsubscribing\<rparr>"

definition closing_life :: "(jv, machine system) Life" where
  "closing_life = (new_life closing_core)\<lparr>cleaner := By_Caller, cleaning := K_Listing\<rparr>"

definition closing_inputs :: "jv life_input list" where
  "closing_inputs = [Cleans two_subscribed False, Cleans two_subscribed False] @
     map (\<lambda>x. Turn (System (OnLink (Loop x)))) [TakeCommand None, DriveRead 0 0 False (Message (TextMessage ''accepted''))] @
     [Cleans two_subscribed False, Cleans two_subscribed False]"

abbreviation chat_life :: "(jv, machine system) Life \<Rightarrow> jv life_input list \<Rightarrow> (jv, machine system) Life" where
  "chat_life \<equiv> life_run (real_ops machine_os) test_parts chat_codec test_core_config"

lemma closing_inputs_lead:
  "cleanup_answers (chat_life closing_life closing_inputs) = [(Some 1, Inr (JStr ''accepted'')), (None, Inl TransportClosed)]"
  "admissible (life_step (real_ops machine_os) test_parts chat_codec test_core_config) life_admits closing_life closing_inputs"
proof -
  let ?step = "life_step (real_ops machine_os) test_parts chat_codec test_core_config"
  have m: "\<not> manage_gui test_core_config" by (simp add: test_core_config_def)
  show "cleanup_answers (chat_life closing_life closing_inputs) = [(Some 1, Inr (JStr ''accepted'')), (None, Inl TransportClosed)]"
    using m
    by (simp add: life_run_def closing_inputs_def closing_life_def new_life_def new_runtime_def closing_core_def chatting_def
        two_subscribed_def subscribed_in_def cleans_def takes_turn_def starts_monitor_def submits_plain submit_def
        unsubscribe_all_best_effort_def cleanup_step_def open_link_def waited_on_def answer_on_def chat_codec_def link_run_defs
        take_ingress_def drive_frame_def answer_pending_def pending_remove_def response_answer_def Let_def)
  show "admissible ?step life_admits closing_life closing_inputs"
    using m
    by (simp add: life_run_def closing_inputs_def closing_life_def new_life_def new_runtime_def closing_core_def chatting_def
        two_subscribed_def subscribed_in_def cleans_def takes_turn_def starts_monitor_def submits_plain submit_def test_ingestor_def
        unsubscribe_all_best_effort_def cleanup_step_def open_link_def waited_on_def answer_on_def chat_codec_def link_run_defs
        take_ingress_def drive_frame_def answer_pending_def pending_remove_def response_answer_def rt_reads_def reads_truly_def
        Let_def)
qed

section \<open>Properties\<close>

text \<open>After the ingress task has ended, the cleanup hears the daemon at most once: the first frame that
  the transport reads then is the last one, so of the requests that unsubscribe the threads, however many there
  are, at most one is answered by the daemon; the others fail. (The stop signal, on which the ingress
  task ends, is raised before the cleanup begins; in the witness two threads are subscribed, and the second
  request is refused as the transport has closed.)\<close>

theorem one_answer_after_the_stop:
  assumes "\<not> ingress_running (life_core L)" "unheard L" "admissible (life_step X P C cfg) life_admits L xs"
  shows "length (heard_since (length (cleanup_answers L)) (life_run X P C cfg L xs)) \<le> 1"
proof -
  let ?L = "life_run X P C cfg L xs"
  have "heard_ok (length (cleanup_answers L)) (life_link L) ?L"
    unfolding life_run_def by (rule hearings.run_inv [OF unheard_begins [OF assms(2)] assms(3)])
  then obtain chs where "hearing (length (cleanup_answers L)) (life_link L) ?L chs" by (auto simp: heard_ok_def)
  from heard_given [OF this] have "given (life_link L) + length (heard_since (length (cleanup_answers L)) ?L) \<le> given (life_link ?L)" .
  moreover have "closing (room (life_link L)) (life_core ?L)"
    unfolding life_run_def by (rule closings.run_inv [OF _ assms(3)]) (simp add: closing_def assms(1))
  ultimately show ?thesis
    using given_room [of "life_link L"] given_room [of "life_link ?L"] by (simp add: closing_def)
qed

theorem one_answer_after_the_stop_witness:
  "let L = chat_life closing_life closing_inputs
   in map snd (cleanup_answers L) = [Inr (JStr ''accepted''), Inl TransportClosed] \<and> length (heard_since 0 L) \<le> 1"
proof -
  have "\<not> ingress_running (life_core closing_life)" "cleanup_answers closing_life = []" "unheard closing_life"
    by (simp_all add: closing_life_def new_life_def new_runtime_def closing_core_def chatting_def unheard_def open_link_def
        link_run_defs take_ingress_def chat_codec_def)
  with one_answer_after_the_stop [OF _ _ closing_inputs_lead(2)] closing_inputs_lead(1)
  show ?thesis by (simp add: Let_def del: life_step.simps)
qed

text \<open>A shutdown whose future is dropped is never finished: when the call that cleans up is given up by
  its caller, or is the run's own and the run is dropped, no further request of the cleanup is made and the
  transport is never asked to shut down by it; the flag stays up, so every other call of \<open>shutdown\<close>, the
  guard's included, changes nothing and returns at once.\<close>

theorem dropped_shutdown_stays_unfinished:
  assumes "begin_life X cfg h = Some (Inr L0)" "L = life_run X P C cfg L0 xs" "in_progress (cleaning L)"
    and "x = CallerGone \<and> cleaner L = By_Caller \<or>
      x = RunDropped runtime \<and> cleaner L = By_Run \<and> run_alive L \<and> \<not> has_returned (main (life_core L))"
  shows "let L' = life_run X P C cfg L (x # ys)
    in cleaning L' = K_Dropped \<and> cleanup (life_core L') = cleanup (life_core L) \<and>
       cleanup_answers L' = cleanup_answers L \<and> stopped (life_core L') \<and>
       rt_step P C cfg (life_rt L') (System ShutdownCalled) = life_rt L'"
proof -
  have all: "admissible (life_step X P C cfg) (\<lambda>_ _. True) K zs" for K :: "('a, 'b) Life" and zs
    by (induction zs arbitrary: K) simp_all
  from begin_life_cases [OF assms(1)] have "in_step L0" by metis
  from stages.run_inv [OF this all] have ok: "in_step L" by (simp add: assms(2) life_run_def)
  with assms(3) have "stopped (life_core L)" by (cases "cleaning L") (simp_all add: in_step_def)
  moreover have "cleaning (life_step X P C cfg L x) = K_Dropped"
    using assms(3,4) by (auto simp: run_dropped_def Let_def)
  moreover have plain: "x \<noteq> Cleans order el" for order el using assms(4) by auto
  ultimately have "left_at (cleanup (life_core L)) (cleanup_answers L) (life_step X P C cfg L x)"
    using stopped_stays(3) [of L x X P C cfg] life_step_frame [OF plain, of X P C cfg L] life_step_in_step [OF ok, of X P C cfg x]
    by (simp add: left_at_def del: life_step.simps)
  from left_overs.run_inv [OF this all] have
    left: "left_at (cleanup (life_core L)) (cleanup_answers L) (life_run X P C cfg L (x # ys))"
    by (simp add: life_run_def del: life_step.simps)
  then have "stopped (life_core (life_run X P C cfg L (x # ys)))" by (simp add: left_at_def in_step_def)
  with left called_again(1) [OF this, of P C cfg By_Caller] show ?thesis
    by (simp add: left_at_def calls_shutdown_rt Let_def del: rt_step.simps)
qed

theorem dropped_shutdown_stays_unfinished_witness:
  "let L = life_test (new_life test_core) (operating_life @ [Calls] @ CallerGone # [Calls, Cleans [(''t'', Subscribed)] True])
   in cleaning L = K_Dropped \<and> cleanup (life_core L) = C_Unsubscribing \<and> cleanup_answers L = []"
proof -
  from operating_life_leads obtain g where g: "life_test (new_life test_core) operating_life = (new_life test_core)\<lparr>life_rt :=
      (new_runtime test_core)\<lparr>rt_core := test_core\<lparr>main := M_Operating, watcher := W_Waiting, core_ingestor := g,
        core_link := test_links (connect_ops @ [MarkReconciled, Loop (TakeCommand None)])\<rparr>\<rparr>\<rparr>" by blast
  let ?L = "life_test (new_life test_core) (operating_life @ [Calls])"
  have L: "cleaner ?L = By_Caller" "cleaning ?L = K_Listing" "cleanup (life_core ?L) = C_Unsubscribing" "cleanup_answers ?L = []"
    unfolding life_run_append g by (simp_all add: life_run_def calls_shutdown_def shutdown_called_def new_life_def test_core_def Let_def)
  then have "in_progress (cleaning ?L)" by simp
  from dropped_shutdown_stays_unfinished [OF new_life_begins refl this, of CallerGone True "[Calls, Cleans [(''t'', Subscribed)] True]"]
  have "cleaning (life_test ?L (CallerGone # [Calls, Cleans [(''t'', Subscribed)] True])) = K_Dropped \<and>
      cleanup (life_core (life_test ?L (CallerGone # [Calls, Cleans [(''t'', Subscribed)] True]))) = C_Unsubscribing \<and>
      cleanup_answers (life_test ?L (CallerGone # [Calls, Cleans [(''t'', Subscribed)] True])) = []"
    unfolding Let_def L by blast
  moreover have "life_test (new_life test_core) (operating_life @ [Calls] @ zs) = life_test ?L zs" for zs
    by (simp add: life_run_def del: life_step.simps)
  ultimately show ?thesis unfolding Let_def by metis
qed

text \<open>C21. A cleanup that nobody drops asks for every thread and stops the transport: from when it begins, in
  at most two of its own turns for each subscribed thread and one more after the listing (turns with
  its timers run out if no answer came, and, where it has something to send, with room in the channel of the
  commands), a request to unsubscribe each subscribed thread is on the link, in one piece (or the loop had
  stopped before), with the answer noted that the loop gave or the end of the wait, and the loop has stopped
  or has the command to stop in its queue; whatever the daemon answers or does not and whatever else happens in between.\<close>

theorem cleanup_gets_through:
  assumes "json_laws (api P)" "begin_life X cfg h = Some (Inr L0)"
    and "admissible (life_step X P C cfg) life_admits L0 (xs @ Cleans order el # ys)" "L = life_run X P C cfg L0 xs"
    and "cleaning L = K_Listing" "list_all (spares (cleaner L)) ys"
    and "2 * length (subscribed_in order) + 1 \<le> cleanup_turns X P C cfg (cleans P C cfg order el L) ys"
  shows "set (subscribed_in order) = {t. states (core_ingestor (life_core L)) t = Some Subscribed} \<and>
    (let L' = life_run X P C cfg L (Cleans order el # ys)
     in (\<exists>as. cleanup_answers L' = cleanup_answers L @ as \<and>
           list_all2 (asked_for (api P) (life_link L')) (subscribed_in order) as) \<and>
        (pc (life_link L') = loop_pc.Stopped \<or>
         (\<exists>ch. cleanup (life_core L') = C_Awaiting ch \<and> C_Shutdown ch \<in> set (queue (life_link L')))))"
proof -
  let ?L = "cleans P C cfg order el L" and ?L' = "life_run X P C cfg L (Cleans order el # ys)"
  have all: "admissible (life_step X P C cfg) (\<lambda>_ _. True) K zs" for K :: "('a, 'b) Life" and zs
    by (induction zs arbitrary: K) simp_all
  from begin_life_cases [OF assms(2)] obtain s supervised where
    s: "begin_core cfg supervised = Some (Inr s)" "life_rt L0 = new_runtime s" "in_step L0" by metis
  have adm: "admissible (life_step X P C cfg) life_admits L0 xs" "life_admits L (Cleans order el)"
    "admissible (life_step X P C cfg) life_admits ?L ys"
    using assms(3) by (simp_all add: admissible_append assms(4) life_run_def)
  have step: "in_step L" unfolding assms(4) life_run_def by (rule stages.run_inv [OF s(3) all])
  have "link_sound (api P) (life_link L0)"
    using begun_link_ok [OF assms(1) s(1)] begin_core_cases [OF s(1)] s(2)
    by (simp add: link_sound_def core_link_ok_def new_runtime_def acks_below_def take_ingress_def spawn_def)
  then have "link_sound (api P) (life_link L)" unfolding assms(4) life_run_def by (rule sound_links.run_inv [OF _ adm(1)])
  note listed = listing_begins [OF assms(5) step this, of order C cfg el]
  have run: "?L' = life_run X P C cfg ?L ys" by (simp add: life_run_def)
  have "cleans_for (api P) (subscribed_in order) (cleanup_answers L) (life_run X P C cfg ?L ys)"
    unfolding life_run_def by (rule cleaners.run_inv [OF conjunct1 [OF listed] adm(3)])
  then have "cleans_for (api P) (subscribed_in order) (cleanup_answers L) ?L'" by (simp only: run)
  moreover have "listed_threads (cleaning ?L')" "turns_left (cleaning ?L') = 0"
    using cleanup_proceeds [OF in_step_cleans [OF step], of P C cfg order el ys X P C cfg] listed assms(6,7) unfolding run by auto
  then have "cleaning ?L' = K_Awaiting \<or> cleaning ?L' = K_Finished" by (cases "cleaning ?L'") simp_all
  ultimately have "\<exists>as. cleanup_answers ?L' = cleanup_answers L @ as \<and>
        list_all2 (asked_for (api P) (life_link ?L')) (subscribed_in order) as"
      "pc (life_link ?L') = loop_pc.Stopped \<or>
         (\<exists>ch. cleanup (life_core ?L') = C_Awaiting ch \<and> C_Shutdown ch \<in> set (queue (life_link ?L')))"
    by (auto simp: cleans_for_def cleaned_def all_asked_def told_to_stop_def)
  moreover have "distinct (map fst order)" "map_of order = states (core_ingestor (life_core L))" using adm(2) by simp_all
  then have "set (subscribed_in order) = {t. states (core_ingestor (life_core L)) t = Some Subscribed}"
    using subscribed_in_set [of order] by (simp only:)
  ultimately show ?thesis by (simp add: Let_def)
qed

text \<open>A cleanup of one thread, alone with an open link.\<close>

lemma lone_cleanup:
  assumes "cleaning L = K_Listing" "cleanup (life_core L) = C_Unsubscribing" "pc (life_link L) = Driving" "queue (life_link L) = []"
    "answer_on (life_link L) (Transport.next_channel (life_link L)) = None" "unat (next_id (life_link L)) < 10"
    "states (core_ingestor (life_core L)) = [t \<mapsto> Subscribed]"
  defines "x \<equiv> Cleans [(t, Subscribed)] True"
  shows "cleanup_turns X P C cfg (cleans P C cfg [(t, Subscribed)] True L) [x, x, x] = 3"
    "admissible (life_step X P C cfg) life_admits L [x, x, x, x]"
proof -
  let ?cl = "cleans P C cfg [(t, Subscribed)] True"
  let ?l = "life_link L" and ?s = "states (core_ingestor (life_core L))"
  obtain L1 where L1: "?cl L = L1" by blast
  have 1: "cleaning L1 = K_Next [t]" "cleanup (life_core L1) = C_Closing" "life_link L1 = ?l" "states (core_ingestor (life_core L1)) = ?s"
    using assms(1,2) by (simp_all add: L1 [symmetric] cleans_def subscribed_in_def cleanup_step_def Let_def)
  obtain L2 where L2: "?cl L1 = L2" by blast
  have sub: "submits False m p ?l = Some (Inr (Transport.next_channel ?l))" for m p
    using assms(3,4) by (simp add: submits_plain full_def command_capacity_def)
  have 2: "cleaning L2 = K_Asking (Transport.next_channel ?l) []" "cleanup (life_core L2) = C_Closing"
    "life_link L2 = snd (submit False unsubscribe (resume_params (api P) t) ?l)" "states (core_ingestor (life_core L2)) = ?s"
    using 1 sub assms(3,4) by (simp_all add: L2 [symmetric] cleans_def full_def command_capacity_def Let_def)
  have l2: "pc (life_link L2) = Driving" "length (queue (life_link L2)) = 1" "replies (life_link L2) = replies ?l"
    "next_id (life_link L2) = next_id ?l + 1"
    using assms(3,4) by (simp_all add: 2 submit_def)
  obtain L3 where L3: "?cl L2 = L3" by blast
  have "waited_on (life_link L2) (Transport.next_channel ?l) True = Some Elapsed"
    using assms(5) l2 by (simp add: waited_on_def answer_on_def)
  then have 3: "cleaning L3 = K_Next []" "life_core L3 = life_core L2" using 2 by (simp_all add: L3 [symmetric] cleans_def)
  have id: "unat (next_id ?l) + 1 < 2 ^ 64" "unat (next_id ?l + 1) + 1 < 2 ^ 64"
    using assms(6) succ_no_wrap [of "next_id ?l"] by simp_all
  have "\<not> full (life_link L1)" "\<not> full (life_link L3)"
    using assms(4) l2 by (simp_all add: 1 3 full_def command_capacity_def)
  then show "cleanup_turns X P C cfg (?cl L) [x, x, x] = 3" by (simp add: x_def L1 L2 L3 1 2 3)
  show "admissible (life_step X P C cfg) life_admits L [x, x, x, x]"
    using assms(7) id 1 2 3 l2 by (simp add: x_def L1 L2 L3)
qed

theorem cleanup_gets_through_witness:
  "let x = Cleans [(''t'', Subscribed)] True;
       L' = life_test (life_test (new_life test_core) (operating_life @ [Calls])) [x, x, x, x]
   in list_all2 (asked_for jv_api (life_link L')) [''t''] (cleanup_answers L') \<and>
      (pc (life_link L') = loop_pc.Stopped \<or> (\<exists>ch. C_Shutdown ch \<in> set (queue (life_link L'))))"
proof -
  from operating_life_leads obtain g where g: "life_test (new_life test_core) operating_life = (new_life test_core)\<lparr>life_rt :=
      (new_runtime test_core)\<lparr>rt_core := test_core\<lparr>main := M_Operating, watcher := W_Waiting, core_ingestor := g,
        core_link := test_links (connect_ops @ [MarkReconciled, Loop (TakeCommand None)])\<rparr>\<rparr>\<rparr>"
    and adm: "admissible (life_step (real_ops machine_os) test_parts test_codec test_core_config) life_admits (new_life test_core) operating_life"
    and st: "states g = [''t'' \<mapsto> Subscribed]" by blast
  let ?x = "Cleans [(''t'', Subscribed)] True :: jv life_input"
  obtain L where L: "life_test (new_life test_core) (operating_life @ [Calls]) = L" by blast
  have "cleaning L = K_Listing \<and> cleanup_answers L = [] \<and> cleanup (life_core L) = C_Unsubscribing \<and> cleaner L = By_Caller \<and>
      life_link L = test_links (connect_ops @ [MarkReconciled, Loop (TakeCommand None)]) \<and> core_ingestor (life_core L) = g"
    unfolding L [symmetric] life_run_append g
    by (simp add: life_run_def calls_shutdown_def shutdown_called_def new_life_def test_core_def Let_def)
  then have l: "cleaning L = K_Listing" "cleanup_answers L = []" "cleanup (life_core L) = C_Unsubscribing"
    "life_link L = test_links (connect_ops @ [MarkReconciled, Loop (TakeCommand None)])" "core_ingestor (life_core L) = g" by blast+
  have link: "pc (life_link L) = Driving" "queue (life_link L) = []" "unat (next_id (life_link L)) < 10"
    "answer_on (life_link L) (Transport.next_channel (life_link L)) = None"
    unfolding l by (simp_all add: connect_ops_def test_codec_def link_run_defs take_ingress_def mark_defs answer_on_def full_def
        command_capacity_def drive_command_def)
  note lone = lone_cleanup [OF l(1,3) link(1,2,4,3), of "''t''"]
  have st': "states (core_ingestor (life_core L)) = [''t'' \<mapsto> Subscribed]" by (simp add: l st)
  have "admissible (life_step (real_ops machine_os) test_parts test_codec test_core_config) life_admits
      (new_life test_core) ((operating_life @ [Calls]) @ ?x # [?x, ?x, ?x])"
  proof -
    have "admissible (life_step (real_ops machine_os) test_parts test_codec test_core_config) life_admits
        (new_life test_core) (operating_life @ [Calls])" using adm by (simp add: admissible_append)
    with lone(2) [OF st', of "real_ops machine_os" test_parts test_codec test_core_config] L show ?thesis
      unfolding admissible_append [of _ _ _ "operating_life @ [Calls]"] life_run_def by (simp only:)
  qed
  from cleanup_gets_through [OF _ new_life_begins this L [symmetric] l(1)]
    lone(1) [OF st', of "real_ops machine_os" test_parts test_codec test_core_config]
  show ?thesis unfolding L by (simp add: Let_def l subscribed_in_def del: life_step.simps) blast
qed

text \<open>C19. The machine under a run: over the initialisation, the monitor that the run starts, and
  whatever the callers drop, a daemon or a GUI is launched only after a listing without it; a run that does
  not manage the GUI makes no call at all; and the monitor does nothing before the first
  reconciliation has succeeded.\<close>

theorem run_launches_only_what_is_missing:
  assumes "begin_life X cfg h = Some (Inr L0)" "calls h = []"
    and "admissible (life_step X P C cfg) life_admits L0 xs"
  shows "let L = life_run X P C cfg L0 xs
    in justified (supervisor_config cfg) None (calls (life_host L)) \<and>
       (\<not> manage_gui cfg \<longrightarrow> life_host L = h) \<and>
       (before_marking (main (life_core L)) \<longrightarrow> life_host L = machine L0)"
proof -
  let ?L = "life_run X P C cfg L0 xs"
  from begin_life_cases [OF assms(1)] have
    start: "monitor L0 = None"
      "if manage_gui cfg then \<exists>st. initialize X (supervisor_config cfg) h = Some (Inr st, machine L0) else machine L0 = h" by metis+
  have "log_ok (supervisor_config cfg) (machine L0)"
  proof (cases "manage_gui cfg")
    case True
    with start(2) obtain st where "initialize X (supervisor_config cfg) h = Some (Inr st, machine L0)" by auto
    moreover have "log_ok (supervisor_config cfg) h" using assms(2) by simp
    ultimately show ?thesis using tripleD [OF initialize_keeps_log] by fastforce
  qed (use start(2) assms(2) in simp)
  with start(1) have "guarded_by cfg (machine L0) L0" by (simp add: guarded_by_def life_host_def)
  then have "guarded_by cfg (machine L0) ?L" unfolding life_run_def by (rule guards.run_inv [OF _ assms(3)])
  moreover have "before_marking m \<Longrightarrow> \<not> handle_minted m" for m :: "'a main_pc" by (cases m rule: before_marking.cases) simp_all
  ultimately show ?thesis using start(2) by (auto simp: guarded_by_def life_host_def Let_def split: option.split)
qed

theorem run_launches_only_what_is_missing_witness:
  "\<exists>L0. begin_life (real_ops machine_os) (test_core_config\<lparr>manage_gui := True, supervisor_config := sample_config\<rparr>) (machine_host both_up) =
      Some (Inr (L0 :: (jv, machine system) Life)) \<and>
    (let L = life_run (real_ops machine_os) test_parts test_codec
        (test_core_config\<lparr>manage_gui := True, supervisor_config := sample_config\<rparr>) L0 [Monitors MonitorTick]
     in justified sample_config None (calls (life_host L)) \<and> life_host L = machine L0)"
proof -
  let ?cfg = "test_core_config\<lparr>manage_gui := True, supervisor_config := sample_config\<rparr>"
  obtain st h' where init: "initialize (real_ops machine_os) sample_config (machine_host both_up) = Some (Inr st, h')"
    using both_up_initialize by blast
  obtain s :: "jv Core" where core: "begin_core ?cfg (Some st) = Some (Inr s)" "before_marking (main s)"
    by (simp add: begin_core_def take_ingress_def spawn_def new_reducer_def test_core_config_def default_config_def start_reconcile_def
        Let_def)
  obtain L0 :: "(jv, machine system) Life" where L0: "begin_life (real_ops machine_os) ?cfg (machine_host both_up) = Some (Inr L0)"
    "life_rt L0 = new_runtime s" "monitor L0 = None"
    using core(1) init by (simp add: begin_life_def run_begin_def)
  have none: "L0\<lparr>monitor := None\<rparr> = L0" using L0(3) by (cases L0) simp
  have "calls (machine_host both_up) = []" by (simp add: machine_host_def)
  from run_launches_only_what_is_missing [OF L0(1) this, of test_parts test_codec "[Monitors MonitorTick]"] L0(2,3) core(2)
  have "let L = life_run (real_ops machine_os) test_parts test_codec ?cfg L0 [Monitors MonitorTick]
     in justified sample_config None (calls (life_host L)) \<and> life_host L = machine L0"
    by (auto simp: Let_def life_run_def new_runtime_def none)
  with L0(1) show ?thesis by blast
qed

end
