(* ===== verification/Wired_Runs.thy ===== *)
theory Wired_Runs
  imports Wired Lifetime_Runs
begin

text \<open>
  What holds of every run of the wired system: each reconciliation and each discovery comes to its
  end, and a thread is subscribed only once the daemon has accepted a resume that was written.
\<close>

section \<open>The turns an inquiry has left\<close>

text \<open>At most three for each attempt of a discovery, and ten more; two for each page, and so on.\<close>

fun discover_left :: "nat \<Rightarrow> 'v discover_pc \<Rightarrow> nat" where
  "discover_left R Claim = 3 * R + 10"
| "discover_left R BeginSubscription = 3 * R + 9"
| "discover_left R (Resuming n) = 3 * (R - n) + 8"
| "discover_left R (Retrying n) = 3 * (R - n) + 10"
| "discover_left R (Sleeping n) = 3 * (R - n) + 9"
| "discover_left R (GivingUp st outcome) = 2"
| "discover_left R (Cancelling outcome) = 1"
| "discover_left R FinishSubscription = 7"
| "discover_left R MarkSubscribed = 6"
| "discover_left R Reading = 5"
| "discover_left R (Reconciling v) = 4"
| "discover_left R (ReadingSequence turn) = 3"
| "discover_left R (Anchoring sq turn) = 2"
| "discover_left R (Done outcome) = 0"

definition reading_left :: "IngestConfig \<Rightarrow> nat \<Rightarrow> nat" where
  "reading_left cfg n = (3 * resume_retry_limit cfg + 14) * n + 1"

fun reconcile_left :: "IngestConfig \<Rightarrow> 'v reconcile_pc \<Rightarrow> nat" where
  "reconcile_left cfg (R_Listing pages cur previous newest candidates) =
     2 * pages + 2 + reading_left cfg (max (length candidates) (reconcile_candidate_limit cfg))"
| "reconcile_left cfg (R_AwaitingPage pages previous newest candidates) =
     2 * pages + 3 + reading_left cfg (max (Suc (length candidates)) (reconcile_candidate_limit cfg))"
| "reconcile_left cfg (R_Reading candidates outcomes) = reading_left cfg (length candidates)"
| "reconcile_left cfg (R_AwaitingThread t ts outcomes) = reading_left cfg (length ts) + 3 * resume_retry_limit cfg + 13"
| "reconcile_left cfg (R_Applying v t ts outcomes) = reading_left cfg (length ts) + 3 * resume_retry_limit cfg + 12"
| "reconcile_left cfg (R_Discovering dpc t ts outcomes) =
     reading_left cfg (length ts) + 1 + discover_left (resume_retry_limit cfg) dpc"
| "reconcile_left cfg (R_Done r) = 0"

lemma reading_left_mono: "m \<le> n \<Longrightarrow> reading_left cfg m \<le> reading_left cfg n"
  by (simp add: reading_left_def)

lemma reading_left_Suc: "reading_left cfg (Suc n) = reading_left cfg n + 3 * resume_retry_limit cfg + 14"
  by (simp add: reading_left_def algebra_simps)

lemma discover_left_bound: "discover_left R dpc \<le> 3 * R + 10"
  by (cases dpc) simp_all

lemma resume_answered_left: "discover_left (resume_retry_limit cfg) (resume_answered P cfg n a) < 3 * (resume_retry_limit cfg - n) + 8"
  by (auto simp: resume_answered_def Let_def split: sum.split RequestError.split)

lemma discover_step_left:
  assumes "discover_step P cfg t source ans clk el dpc g = Some (dpc', g')"
  shows "discover_left (resume_retry_limit cfg) dpc' < discover_left (resume_retry_limit cfg) dpc"
proof (cases dpc)
  case Reading
  with assms obtain a where "ans = Some a" by auto
  with Reading assms show ?thesis by (cases a) (auto split: option.splits)
next
  case (Resuming n)
  with assms resume_answered_left [of cfg P n] show ?thesis by auto
qed (use assms in \<open>auto simp: claim_def split: if_splits option.splits\<close>)

lemma scan_page_length:
  "scan_page J cfg previous data newest cands = (newest', reached, cands') \<Longrightarrow>
     length cands' \<le> max (Suc (length cands)) (reconcile_candidate_limit cfg)"
proof (induction J cfg previous data newest cands rule: scan_page.induct)
  case (2 J cfg previous thread data newest cands)
  show ?case
  proof (cases "get_str J thread ''id''")
    case None
    with 2 show ?thesis by simp
  next
    case (Some i)
    let ?updated = "unwrap_or (numeric_timestamp J (get J thread ''updatedAt'')) 0"
    show ?thesis
    proof (cases "previous > 0 \<and> ?updated \<le> previous \<or> Suc (length cands) \<ge> reconcile_candidate_limit cfg")
      case True
      with 2(3) Some show ?thesis by (auto simp: Let_def split: if_splits)
    next
      case False
      with 2(3) Some have "scan_page J cfg previous data (max newest ?updated) (cands @ [i]) = (newest', reached, cands')"
        by (auto simp: Let_def split: if_splits)
      from 2(2) [OF Some refl refl _ refl _ this] False show ?thesis by auto
    qed
  qed
qed simp

lemma page_answered_left:
  assumes "page_answered P cfg pages previous newest candidates a g = (rpc', g')"
  shows "reconcile_left cfg rpc' < reconcile_left cfg (R_AwaitingPage pages previous newest candidates)"
proof -
  have len: "length cands' \<le> max (Suc (length candidates)) (reconcile_candidate_limit cfg)"
    if "scan_page (api P) cfg previous data newest candidates = (newest', reached, cands')" for data newest' reached cands'
    using scan_page_length [OF that] .
  have "reading_left cfg (length cands') \<le> reading_left cfg (max (Suc (length candidates)) (reconcile_candidate_limit cfg))"
    "reading_left cfg (max (length cands') (reconcile_candidate_limit cfg)) \<le>
       reading_left cfg (max (Suc (length candidates)) (reconcile_candidate_limit cfg))"
    if "scan_page (api P) cfg previous data newest candidates = (newest', reached, cands')" for data newest' reached cands'
    using len [OF that] by (auto intro!: reading_left_mono)
  with assms show ?thesis
    by (fastforce simp: page_answered_def end_listing_def Let_def split: sum.splits option.splits prod.splits if_splits)
qed

lemma reconcile_step_left:
  assumes "reconcile_step P cfg ans clk el rpc g = Some (rpc', g')"
  shows "reconcile_left cfg rpc' < reconcile_left cfg rpc"
proof (cases rpc)
  case (R_Listing pages cur previous newest candidates)
  have "reading_left cfg (length candidates) \<le> reading_left cfg (max (length candidates) (reconcile_candidate_limit cfg))"
    by (intro reading_left_mono) simp
  with assms R_Listing show ?thesis
    by (auto simp: end_listing_def max_def split: nat.splits if_splits)
next
  case (R_AwaitingPage pages previous newest candidates)
  with assms page_answered_left show ?thesis by fastforce
next
  case (R_Reading candidates outcomes)
  with assms show ?thesis by (auto simp: reading_left_Suc split: list.splits) (simp add: reading_left_def)
next
  case (R_AwaitingThread t ts outcomes)
  with assms obtain a where "rpc' = thread_answered P t ts outcomes a" by auto
  with R_AwaitingThread show ?thesis by (simp add: thread_answered_def split: option.split)
next
  case (R_Discovering dpc t ts outcomes)
  show ?thesis
  proof (cases "\<exists>r. dpc = Done r")
    case False
    with assms R_Discovering obtain dpc' where "rpc' = R_Discovering dpc' t ts outcomes"
      "discover_step P cfg t Reconciliation ans clk el dpc g = Some (dpc', g')"
      by (auto simp del: discover_step.simps split: discover_pc.splits)
    with discover_step_left [OF this(2)] R_Discovering show ?thesis by simp
  qed (use assms R_Discovering in auto)
qed (use assms in auto)

section \<open>Whether a task is in the middle of one\<close>

fun inquiring :: "'v Core \<Rightarrow> Asker \<Rightarrow> bool" where
  "inquiring s (Of_Signal i) = (i < length (signals s) \<and> (\<forall>outcome. snd (snd (signals s ! i)) \<noteq> Done outcome))"
| "inquiring s k = (case reconciling s k of None \<Rightarrow> False | Some rpc \<Rightarrow> \<forall>r. rpc \<noteq> R_Done r)"

fun inquiry_left :: "IngestConfig \<Rightarrow> 'v Core \<Rightarrow> Asker \<Rightarrow> nat" where
  "inquiry_left cfg s (Of_Signal i) =
     (case discovering s (Of_Signal i) of None \<Rightarrow> 0 | Some (t, dpc) \<Rightarrow> discover_left (resume_retry_limit cfg) dpc)"
| "inquiry_left cfg s k = (case reconciling s k of None \<Rightarrow> 0 | Some rpc \<Rightarrow> reconcile_left cfg rpc)"

lemma inquiry_left_none: "inquiry_left cfg s k = 0 \<Longrightarrow> \<not> inquiring s k"
proof (cases k)
  case (Of_Signal i)
  have "discover_left R dpc = 0 \<Longrightarrow> \<exists>outcome. dpc = Done outcome" for R and dpc :: "'a discover_pc" by (cases dpc) simp_all
  with Of_Signal show "inquiry_left cfg s k = 0 \<Longrightarrow> \<not> inquiring s k"
    by (auto split: if_splits prod.splits)
next
  case Of_Main
  have "reconcile_left cfg rpc = 0 \<Longrightarrow> \<exists>r. rpc = R_Done r" for rpc :: "'a reconcile_pc"
    by (cases rpc) (simp_all add: reading_left_def)
  with Of_Main show "inquiry_left cfg s k = 0 \<Longrightarrow> \<not> inquiring s k" by (auto split: option.splits simp del: reconciling.simps)
next
  case Of_Watcher
  have "reconcile_left cfg rpc = 0 \<Longrightarrow> \<exists>r. rpc = R_Done r" for rpc :: "'a reconcile_pc"
    by (cases rpc) (simp_all add: reading_left_def)
  with Of_Watcher show "inquiry_left cfg s k = 0 \<Longrightarrow> \<not> inquiring s k" by (auto split: option.splits simp del: reconciling.simps)
qed

text \<open>Every inquiry begins with at most this many turns, and never has more.\<close>

definition inquiry_bound :: "IngestConfig \<Rightarrow> nat" where
  "inquiry_bound cfg = 2 * reconcile_page_bound cfg +
     (3 * resume_retry_limit cfg + 14) * Suc (reconcile_candidate_limit cfg) + 3"

lemma start_left: "reconcile_left cfg (start_reconcile cfg g) \<le> inquiry_bound cfg"
  by (simp add: start_reconcile_def inquiry_bound_def reading_left_def algebra_simps)

lemma claim_left: "discover_left (resume_retry_limit cfg) dpc \<le> inquiry_bound cfg"
  using discover_left_bound [of "resume_retry_limit cfg" dpc] by (simp add: inquiry_bound_def)

definition within_bound :: "IngestConfig \<Rightarrow> 'v Core \<Rightarrow> bool" where
  "within_bound cfg s \<longleftrightarrow> (\<forall>k. inquiry_left cfg s k \<le> inquiry_bound cfg)"

text \<open>The other tasks and the rest of the system leave the turns of an inquiry as they are, or end it.\<close>

lemma leaves_reconciling:
  assumes "leaves_askers cfg s s'"
  shows "reconciling s' k = reconciling s k \<or>
    reconciling s k = None \<and> (\<exists>g. reconciling s' k = Some (start_reconcile cfg g))"
proof -
  have "\<forall>k. reconciling s' k = reconciling s k \<or>
      reconciling s k = None \<and> (\<exists>g. reconciling s' k = Some (start_reconcile cfg g))"
    using assms unfolding leaves_askers_def by (elim conjE)
  then show ?thesis by (rule spec)
qed

lemma left_alone:
  assumes "leaves_askers cfg s s'" "inquiring s k"
  shows "inquiry_left cfg s' k = inquiry_left cfg s k"
proof (cases k)
  case (Of_Signal i)
  with assms show ?thesis by (auto simp: leaves_askers_def)
next
  case Of_Main
  with assms(2) have "reconciling s k \<noteq> None" by (intro notI) simp
  with leaves_reconciling [OF assms(1), of k] have "reconciling s' k = reconciling s k" by blast
  with Of_Main show ?thesis by (simp del: reconciling.simps)
next
  case Of_Watcher
  with assms(2) have "reconciling s k \<noteq> None" by (intro notI) simp
  with leaves_reconciling [OF assms(1), of k] have "reconciling s' k = reconciling s k" by blast
  with Of_Watcher show ?thesis by (simp del: reconciling.simps)
qed

lemma left_by_others:
  assumes "j \<noteq> k"
  shows "inquiry_left cfg' (core_step P C cfg s (turn_of k ans clk el)) j = inquiry_left cfg' s j \<or>
    \<not> inquiring (core_step P C cfg s (turn_of k ans clk el)) j \<and>
      inquiry_left cfg' (core_step P C cfg s (turn_of k ans clk el)) j = 0"
  using asker_turn_others [OF assms, of P C cfg s ans clk el]
  by (cases j) (auto simp del: reconciling.simps discovering.simps core_step.simps)

text \<open>Its own turn takes one away, if it has what it waits for.\<close>

lemma own_turn_left:
  assumes s1: "s1 = core_step P C cfg s (turn_of k ans clk elapsed)"
  shows "s1 = s \<or> inquiry_left (ingest_config cfg) s1 k < inquiry_left (ingest_config cfg) s k \<or>
    \<not> inquiring s1 k \<and> inquiry_left (ingest_config cfg) s1 k = 0"
  using s1
proof (cases rule: asker_turn_cases)
  case leaves
  then show ?thesis by (cases k) (auto simp del: reconciling.simps)
next
  case (reconciles rpc rpc')
  then have "k = Of_Main \<or> k = Of_Watcher" by (cases k) auto
  with reconciles reconcile_step_left [OF reconciles(3)] show ?thesis by (auto simp del: reconciling.simps)
next
  case (discovers i t source dpc dpc')
  with discover_step_left [OF discovers(4)] show ?thesis by (auto simp del: discovering.simps)
qed simp

section \<open>The turn is always there to be taken\<close>

lemma discover_step_some:
  assumes "\<forall>outcome. dpc \<noteq> Done outcome" "awaits_answer dpc \<longrightarrow> ans \<noteq> None" "store_ready P g"
  shows "\<exists>r. discover_step P cfg t source ans clk el dpc g = Some r"
proof (cases dpc)
  case (Anchoring sq turn)
  show ?thesis
  proof (cases "ti_store g")
    case (Some st)
    with anchor_comes_back [OF assms(3) Some] Anchoring show ?thesis by fastforce
  qed (use Anchoring in simp)
qed (use assms in auto)

lemma reconcile_step_some:
  assumes "\<forall>r. rpc \<noteq> R_Done r" "reconcile_awaits rpc \<longrightarrow> ans \<noteq> None" "store_ready P g"
  shows "\<exists>r. reconcile_step P cfg ans clk el rpc g = Some r"
proof (cases rpc)
  case (R_Listing pages cur previous newest candidates)
  then show ?thesis by (cases pages) auto
next
  case (R_Discovering dpc t ts outcomes)
  with assms(2,3) discover_step_some [of dpc ans P g cfg t Reconciliation clk el] show ?thesis
    by (cases dpc) (auto simp del: discover_step.simps)
qed (use assms in auto)

definition stores_ok :: "'v parts \<Rightarrow> Config \<Rightarrow> 'v Core \<Rightarrow> bool" where
  "stores_ok P cfg s \<longleftrightarrow> json_laws (api P) \<and> iter_ok (iteration P) \<and> store_follows (core_parts P cfg) s"

lemma stores_ready: "stores_ok P cfg s \<Longrightarrow> store_ready (core_parts P cfg) (core_ingestor s)"
  by (auto simp: stores_ok_def store_follows_def core_store_ok_def store_sound_def store_ready_def core_parts_def)

text \<open>Whether a task waits for room.\<close>

fun room_wanted :: "(string \<times> 'v Wait) option \<Rightarrow> bool" where
  "room_wanted (Some (m, Unsent p)) = True"
| "room_wanted w = False"

definition waits_for_room :: "Asker \<Rightarrow> ('v, 'w) Wired \<Rightarrow> bool" where
  "waits_for_room k W = room_wanted (wait_of W k)"

lemma room_wanted_iff: "room_wanted w \<longleftrightarrow> (\<exists>m p. w = Some (m, Unsent p))"
  by (cases w rule: room_wanted.cases) auto

lemma answer_there: "w \<noteq> None \<Longrightarrow> \<not> room_wanted w \<Longrightarrow> \<exists>a. answer_for l True w = Some a"
  by (cases "(l, True, w)" rule: answer_for.cases) (auto simp: waited_on_def split: option.split)

lemma own_turn_moves:
  assumes "inquiring s k" "stores_ok P cfg s" "awaiting s k \<longrightarrow> ans \<noteq> None"
  shows "inquiry_left (ingest_config cfg) (core_step P C cfg s (turn_of k ans clk elapsed)) k < inquiry_left (ingest_config cfg) s k"
proof (cases k)
  case (Of_Signal i)
  obtain t source dpc where sig: "signals s ! i = (t, source, dpc)" by (cases "signals s ! i")
  with assms(1,3) Of_Signal have i: "i < length (signals s)" "\<forall>outcome. dpc \<noteq> Done outcome"
    "awaits_answer dpc \<longrightarrow> ans \<noteq> None" by auto
  from discover_step_some [OF i(2,3) stores_ready [OF assms(2)]] obtain dpc' g where
    d: "discover_step (core_parts P cfg) (ingest_config cfg) t source ans clk elapsed dpc (core_ingestor s) = Some (dpc', g)"
    by fastforce
  with discover_step_left [OF d] i(1) sig Of_Signal show ?thesis by (simp del: discover_step.simps)
next
  case Of_Main
  with assms(1) obtain rpc where r: "main s = M_Reconciling rpc" "\<forall>r. rpc \<noteq> R_Done r"
    by (auto split: main_pc.splits)
  with Of_Main assms(3) have "reconcile_awaits rpc \<longrightarrow> ans \<noteq> None" by simp
  from reconcile_step_some [OF r(2) this stores_ready [OF assms(2)]] obtain rpc' g where
    d: "reconcile_step (core_parts P cfg) (ingest_config cfg) ans clk elapsed rpc (core_ingestor s) = Some (rpc', g)"
    by fastforce
  with reconcile_step_left [OF d] Of_Main r(1) show ?thesis by (simp add: main_takes)
next
  case Of_Watcher
  with assms(1) obtain rpc where r: "watcher s = W_Reconciling rpc" "\<forall>r. rpc \<noteq> R_Done r"
    by (auto split: watcher_pc.splits)
  with Of_Watcher assms(3) have "reconcile_awaits rpc \<longrightarrow> ans \<noteq> None" by simp
  from reconcile_step_some [OF r(2) this stores_ready [OF assms(2)]] obtain rpc' g where
    d: "reconcile_step (core_parts P cfg) (ingest_config cfg) ans clk elapsed rpc (core_ingestor s) = Some (rpc', g)"
    by fastforce
  with reconcile_step_left [OF d] Of_Watcher r(1) show ?thesis by (simp add: watcher_takes)
qed

section \<open>Every inquiry ends\<close>

lemma left_link [simp]:
  "inquiry_left c (s\<lparr>core_link := l\<rparr>) k = inquiry_left c s k" "inquiring (s\<lparr>core_link := l\<rparr>) k = inquiring s k"
  by (cases k; simp)+

lemma put_core: "\<exists>l'. wired_core (puts_on_wire P C cfg k m p W) = (wired_core W)\<lparr>core_link := l'\<rparr>"
proof -
  have "\<exists>l'. wired_core W = (wired_core W)\<lparr>core_link := l'\<rparr>" by (intro exI [of _ "wired_link W"]) simp
  with submit_core [of P C cfg m p "wired_life W"] show ?thesis
    by (auto simp: puts_on_wire_def split: option.split sum.split)
qed

lemma moves_on_core:
  "\<exists>l'. wired_core (moves_on P C cfg k el clk elapsed W) =
     (life_core (takes_turn P C cfg (System (turn_of k (answer_for (wired_link W) el (wait_of W k)) clk elapsed))
       (wired_life W)))\<lparr>core_link := l'\<rparr>"
proof -
  let ?L = "takes_turn P C cfg (System (turn_of k (answer_for (wired_link W) el (wait_of W k)) clk elapsed)) (wired_life W)"
  have "\<exists>l'. life_core ?L = (life_core ?L)\<lparr>core_link := l'\<rparr>" by (intro exI [of _ "life_link ?L"]) simp
  moreover have "\<exists>l'. wired_core (puts_on_wire P C cfg k m p (W\<lparr>wired_life := ?L\<rparr>)) = (life_core ?L)\<lparr>core_link := l'\<rparr>" for m p
    using put_core [of P C cfg k m p "W\<lparr>wired_life := ?L\<rparr>"] by simp
  ultimately show ?thesis by (auto simp: moves_on_def Let_def split: list.split)
qed

text \<open>The turn of a task that waits for room moves the link only.\<close>

lemma asks_moves_on: "\<not> waits_for_room k W \<Longrightarrow> asks P C cfg k el clk elapsed W = moves_on P C cfg k el clk elapsed W"
  by (cases "wait_of W k" rule: room_wanted.cases) (simp_all add: asks_def waits_for_room_def)

lemma asks_again:
  assumes "waits_for_room k W"
  shows "\<exists>l'. wired_core (asks P C cfg k el clk elapsed W) = (wired_core W)\<lparr>core_link := l'\<rparr>"
    and "(k = Of_Main \<longrightarrow> run_alive (wired_life W)) \<Longrightarrow>
      waits_for_room k (asks P C cfg k el clk elapsed W) \<longleftrightarrow> full (wired_link W)"
proof -
  from assms obtain m p where w: "wait_of W k = Some (m, Unsent p)" by (auto simp: waits_for_room_def room_wanted_iff)
  have "\<exists>l'. wired_core W = (wired_core W)\<lparr>core_link := l'\<rparr>" by (intro exI [of _ "wired_link W"]) simp
  with w put_core [of P C cfg k m p W]
  show "\<exists>l'. wired_core (asks P C cfg k el clk elapsed W) = (wired_core W)\<lparr>core_link := l'\<rparr>" by (simp add: asks_def)
  show "(k = Of_Main \<longrightarrow> run_alive (wired_life W)) \<Longrightarrow>
      waits_for_room k (asks P C cfg k el clk elapsed W) \<longleftrightarrow> full (wired_link W)"
    using w by (auto simp: asks_def puts_on_wire_def submits_plain waits_for_room_def full_def)
qed

lemma asks_others_wait: "j \<noteq> k \<Longrightarrow> wait_of (asks P C cfg k el clk elapsed W) j = wait_of W j"
proof -
  assume j: "j \<noteq> k"
  have put: "wait_of (puts_on_wire P C cfg k m p V) j = wait_of V j" for m p and V :: "('a, 'b) Wired"
    using j by (simp add: puts_on_wire_def split: option.split sum.split)
  have "wait_of (moves_on P C cfg k el clk elapsed W) j = wait_of W j"
    using j by (simp add: moves_on_def put Let_def split: list.split)
  with put show ?thesis by (simp add: asks_def split: option.split prod.split Wait.split)
qed

lemma turn_core_alive:
  assumes "k = Of_Main \<longrightarrow> run_alive L"
  shows "life_core (takes_turn P C cfg (System (turn_of k ans clk el)) L) = core_step P C cfg (life_core L) (turn_of k ans clk el)"
proof -
  have "(case turn_of k ans clk el of OperationEnds \<Rightarrow> A | _ \<Rightarrow> B) = B" for A B :: "('a, 'b) Life"
    by (cases k) simp_all
  moreover have "of_main (turn_of k ans clk el) \<longrightarrow> run_alive L" using assms by (cases k) simp_all
  ultimately show ?thesis by (auto simp: takes_turn_def Let_def simp del: core_step.simps)
qed

text \<open>The turns of a task after its time-outs have run out.\<close>

fun elapsed_turn :: "Asker \<Rightarrow> 'v wired_input \<Rightarrow> bool" where
  "elapsed_turn k (Asks j el clock elapsed) = (j = k \<and> el)"
| "elapsed_turn k _ = False"

definition inquiry_work :: "IngestConfig \<Rightarrow> Asker \<Rightarrow> ('v, 'w) Wired \<Rightarrow> nat" where
  "inquiry_work c k W = 2 * inquiry_left c (wired_core W) k + (if waits_for_room k W then 1 else 0)"

lemma work_same:
  "inquiry_left c (wired_core W') k = inquiry_left c (wired_core W) k \<Longrightarrow> wait_of W' k = wait_of W k \<Longrightarrow>
     inquiry_work c k W' = inquiry_work c k W"
  by (simp add: inquiry_work_def waits_for_room_def)

lemma work_less:
  "inquiry_left c (wired_core W') k < inquiry_left c (wired_core W) k \<Longrightarrow> inquiry_work c k W' < inquiry_work c k W"
  by (simp add: inquiry_work_def)

text \<open>A turn that counts: its timers have run out, and if it waits for room there is some.\<close>

definition counts :: "Asker \<Rightarrow> ('v, 'w) Wired \<Rightarrow> 'v wired_input \<Rightarrow> bool" where
  "counts k W x \<longleftrightarrow> elapsed_turn k x \<and> (waits_for_room k W \<longrightarrow> \<not> full (wired_link W))"

lemma own_inquiry_progress:
  assumes ok: "wired_ok (api P) W" and st: "stores_ok P cfg (wired_core W)"
    and inq: "inquiring (wired_core W) k" and alive: "k = Of_Main \<longrightarrow> run_alive (wired_life W)"
    and W'_def: "W' = asks P C cfg k el clk elapsed W"
  shows "\<not> inquiring (wired_core W') k \<or>
    inquiry_work (ingest_config cfg) k W' + (if counts k W (Asks k el clk elapsed) then 1 else 0)
      \<le> inquiry_work (ingest_config cfg) k W"
proof (cases "waits_for_room k W")
  case True
  from asks_again(1) [OF True] have "inquiry_left (ingest_config cfg) (wired_core W') k = inquiry_left (ingest_config cfg) (wired_core W) k"
    unfolding W'_def by (metis left_link(1))
  with True asks_again(2) [OF True alive, of P C cfg el clk elapsed] show ?thesis
    by (auto simp: inquiry_work_def counts_def W'_def)
next
  case False
  let ?ans = "answer_for (wired_link W) el (wait_of W k)"
  let ?s1 = "core_step P C cfg (wired_core W) (turn_of k ?ans clk elapsed)"
  have W': "W' = moves_on P C cfg k el clk elapsed W" unfolding W'_def by (rule asks_moves_on [OF False])
  obtain l' where core: "wired_core W' = ?s1\<lparr>core_link := l'\<rparr>"
    using moves_on_core [of P C cfg k el clk elapsed W] turn_core_alive [OF alive] unfolding W' by metis
  show ?thesis
  proof (cases el)
    case el: True
    have "awaiting (wired_core W) k \<longrightarrow> ?ans \<noteq> None"
      using ok answer_there [of "wait_of W k" "wired_link W"] False el by (auto simp: wired_ok_def task_wired_def waits_for_room_def)
    from own_turn_moves [OF inq st this, of C clk elapsed] have
      "inquiry_left (ingest_config cfg) (wired_core W') k < inquiry_left (ingest_config cfg) (wired_core W) k" by (simp add: core)
    from work_less [OF this] show ?thesis by simp
  next
    case no: False
    consider (idle) "?s1 = wired_core W"
      | (less) "inquiry_left (ingest_config cfg) ?s1 k < inquiry_left (ingest_config cfg) (wired_core W) k"
      | (ends) "\<not> inquiring ?s1 k"
      using own_turn_left [OF refl, of P C cfg "wired_core W" k ?ans clk elapsed] by blast
    then show ?thesis
    proof cases
      case idle
      then have "life_core (takes_turn P C cfg (System (turn_of k ?ans clk elapsed)) (wired_life W)) = wired_core W"
        by (simp add: turn_core_alive [OF alive])
      then have "wait_of W' k = wait_of W k \<or> wait_of W' k = None" by (simp add: W' moves_on_def Let_def)
      then have "\<not> waits_for_room k W'" using False by (auto simp: waits_for_room_def)
      with idle no show ?thesis unfolding inquiry_work_def core left_link by (simp add: counts_def)
    next
      case less
      then have "inquiry_left (ingest_config cfg) (wired_core W') k < inquiry_left (ingest_config cfg) (wired_core W) k"
        unfolding core left_link .
      from work_less [OF this] show ?thesis by (simp add: counts_def no)
    next
      case ends
      then show ?thesis unfolding core left_link by simp
    qed
  qed
qed

lemma inquiry_progress:
  assumes ok: "wired_ok (api P) W" and st: "stores_ok P cfg (wired_core W)" and adm: "wired_admits W x"
    and inq: "inquiring (wired_core W) k" and alive: "k = Of_Main \<longrightarrow> run_alive (wired_life W)"
  shows "\<not> inquiring (wired_core (wired_step X P C cfg W x)) k \<or>
    inquiry_work (ingest_config cfg) k (wired_step X P C cfg W x) + (if counts k W x then 1 else 0)
      \<le> inquiry_work (ingest_config cfg) k W"
proof (cases x)
  case (Lives y)
  have "inquiry_work (ingest_config cfg) k (wired_step X P C cfg W x) = inquiry_work (ingest_config cfg) k W"
  proof (cases "wire_turn y")
    case False
    with left_alone [OF life_leaves_askers [OF _ False, of "wired_life W" cfg X P C] inq] adm Lives show ?thesis
      by (intro work_same) simp_all
  qed (use Lives in simp)
  with Lives show ?thesis by (simp add: counts_def)
next
  case (Asks j el clk elapsed)
  show ?thesis
  proof (cases "j = k")
    case True
    with own_inquiry_progress [OF ok st inq alive refl, of C el clk elapsed] Asks show ?thesis by simp
  next
    case False
    let ?W = "asks P C cfg j el clk elapsed W"
    have wait: "wait_of ?W k = wait_of W k" using False by (intro asks_others_wait) simp
    have "inquiry_left (ingest_config cfg) (wired_core ?W) k = inquiry_left (ingest_config cfg) (wired_core W) k \<or>
        \<not> inquiring (wired_core ?W) k"
    proof (cases "waits_for_room j W")
      case True
      with asks_again(1) [OF True, of P C cfg el clk elapsed] show ?thesis by (metis left_link(1))
    next
      case moves: False
      let ?ans = "answer_for (wired_link W) el (wait_of W j)"
      obtain l' where "wired_core ?W = (life_core (takes_turn P C cfg (System (turn_of j ?ans clk elapsed)) (wired_life W)))\<lparr>core_link := l'\<rparr>"
        using moves_on_core [of P C cfg j el clk elapsed W] unfolding asks_moves_on [OF moves] by blast
      with turn_core [of P C cfg j ?ans clk elapsed "wired_life W"]
        left_by_others [of k j "ingest_config cfg" P C cfg "wired_core W" ?ans clk elapsed] False
      show ?thesis by auto
    qed
    with work_same [of "ingest_config cfg" ?W k W] wait Asks False show ?thesis by (auto simp: counts_def)
  qed
qed

lemma wired_keeps_core:
  fixes W :: "('v, 'w) Wired" and X :: "'w ProcessOps"
  assumes "\<And>s y. Q s \<Longrightarrow> core_admits s y \<Longrightarrow> Q (core_step P C cfg s y)" "Q (wired_core W)" "wired_admits W x"
  shows "Q (wired_core (wired_step X P C cfg W x))"
proof (rule wired_part.part_inv [where Q = "\<lambda>L. Q (life_core L)", OF _ assms(2,3)])
  fix L :: "('v, 'w) Life" and y
  assume "Q (life_core L)" "life_admits L y"
  then show "Q (life_core (life_step X P C cfg L y))"
  proof (rule life_part.part_inv [where Q = "\<lambda>r. Q (rt_core r)", rotated])
    fix r z
    assume "Q (rt_core r)" "rt_admits r z"
    then show "Q (rt_core (rt_step P C cfg r z))" by (rule core_part.part_inv [where Q = Q, rotated]) (rule assms(1))
  qed
qed

lemma stores_ok_step: "stores_ok P cfg s \<Longrightarrow> core_admits s y \<Longrightarrow> stores_ok P cfg (core_step P C cfg s y)"
  using stores.step_inv [of P cfg s y C] by (simp add: stores_ok_def del: core_step.simps)

text \<open>How many of the turns count.\<close>

fun inquiry_turns ::
    "'w ProcessOps \<Rightarrow> 'v parts \<Rightarrow> 'v codec \<Rightarrow> Config \<Rightarrow> Asker \<Rightarrow> ('v, 'w) Wired \<Rightarrow> 'v wired_input list \<Rightarrow> nat" where
  "inquiry_turns X P C cfg k W [] = 0"
| "inquiry_turns X P C cfg k W (x # xs) =
     (if counts k W x then 1 else 0) + inquiry_turns X P C cfg k (wired_step X P C cfg W x) xs"

lemma inquiry_ends:
  assumes "wired_ok (api P) W" "stores_ok P cfg (wired_core W)" "admissible (wired_step X P C cfg) wired_admits W xs"
    and "inquiry_work (ingest_config cfg) k W \<le> inquiry_turns X P C cfg k W xs"
  shows "\<exists>n \<le> length xs. let W' = wired_run X P C cfg W (take n xs)
    in \<not> inquiring (wired_core W') k \<or> k = Of_Main \<and> \<not> run_alive (wired_life W')"
  using assms
proof (induction xs arbitrary: W)
  case Nil
  then have "\<not> inquiring (wired_core W) k" by (intro inquiry_left_none [of "ingest_config cfg"]) (simp add: inquiry_work_def)
  then show ?case by (simp add: wired_run_def)
next
  case (Cons x xs)
  show ?case
  proof (cases "\<not> inquiring (wired_core W) k \<or> k = Of_Main \<and> \<not> run_alive (wired_life W)")
    case True
    then show ?thesis by (intro exI [of _ 0]) (simp add: wired_run_def)
  next
    case False
    let ?W = "wired_step X P C cfg W x"
    have adm: "wired_admits W x" "admissible (wired_step X P C cfg) wired_admits ?W xs" using Cons.prems(3) by simp_all
    from inquiry_progress [OF Cons.prems(1,2) adm(1), of k X C] False consider
      "\<not> inquiring (wired_core ?W) k"
      | "inquiry_work (ingest_config cfg) k ?W \<le> inquiry_turns X P C cfg k ?W xs"
      using Cons.prems(4) by (auto split: if_splits)
    then show ?thesis
    proof cases
      case 1
      then show ?thesis by (intro exI [of _ 1]) (simp add: wired_run_def)
    next
      case 2
      from Cons.IH [OF wired_step_ok [OF Cons.prems(1) adm(1)]
          wired_keeps_core [where Q = "stores_ok P cfg", OF stores_ok_step Cons.prems(2) adm(1)] adm(2) 2]
      obtain n where "n \<le> length xs" "let W' = wired_run X P C cfg ?W (take n xs)
          in \<not> inquiring (wired_core W') k \<or> k = Of_Main \<and> \<not> run_alive (wired_life W')" by blast
      then show ?thesis by (intro exI [of _ "Suc n"]) (simp add: wired_run_def)
    qed
  qed
qed

text \<open>No inquiry ever has more turns left than it may begin with.\<close>

lemma bound_quiet:
  assumes "leaves_askers (ingest_config cfg) s s'" "within_bound (ingest_config cfg) s"
  shows "within_bound (ingest_config cfg) s'"
  unfolding within_bound_def
proof
  fix k
  have sig: "inquiry_left (ingest_config cfg) s' (Of_Signal i) \<le> inquiry_bound (ingest_config cfg)" for i
    by (auto simp: claim_left split: option.split)
  have "inquiry_left (ingest_config cfg) s' j \<le> inquiry_bound (ingest_config cfg)"
    if "inquiry_left (ingest_config cfg) s' j = (case reconciling s' j of None \<Rightarrow> 0 | Some rpc \<Rightarrow> reconcile_left (ingest_config cfg) rpc)"
      "inquiry_left (ingest_config cfg) s j = (case reconciling s j of None \<Rightarrow> 0 | Some rpc \<Rightarrow> reconcile_left (ingest_config cfg) rpc)" for j
  proof -
    consider "reconciling s' j = reconciling s j"
      | g where "reconciling s' j = Some (start_reconcile (ingest_config cfg) g)"
      using leaves_reconciling [OF assms(1), of j] by auto
    then show ?thesis
    proof cases
      case 1
      then have "inquiry_left (ingest_config cfg) s' j = inquiry_left (ingest_config cfg) s j" using that by simp
      with assms(2) show ?thesis unfolding within_bound_def by metis
    next
      case 2
      with that(1) start_left show ?thesis by simp
    qed
  qed
  with sig show "inquiry_left (ingest_config cfg) s' k \<le> inquiry_bound (ingest_config cfg)"
    by (cases k) (simp_all del: reconciling.simps discovering.simps)
qed

lemma bound_step:
  assumes "within_bound (ingest_config cfg) (wired_core W)" "wired_admits W x"
  shows "within_bound (ingest_config cfg) (wired_core (wired_step X P C cfg W x))"
proof (cases x)
  case (Lives y)
  with assms bound_quiet [OF life_leaves_askers [of "wired_life W" y cfg X P C]] show ?thesis by simp
next
  case (Asks j el clk elapsed)
  let ?ans = "answer_for (wired_link W) el (wait_of W j)"
  let ?s1 = "core_step P C cfg (wired_core W) (turn_of j ?ans clk elapsed)"
  show ?thesis
  proof (cases "waits_for_room j W")
    case True
    with asks_again(1) [OF True, of P C cfg el clk elapsed] assms(1) Asks show ?thesis
      by (auto simp: within_bound_def simp del: inquiry_left.simps)
  next
    case moves: False
  have "inquiry_left (ingest_config cfg) ?s1 k \<le> inquiry_bound (ingest_config cfg)" for k
  proof -
    have before: "inquiry_left (ingest_config cfg) (wired_core W) k \<le> inquiry_bound (ingest_config cfg)"
      using assms(1) by (simp add: within_bound_def del: inquiry_left.simps)
    have "inquiry_left (ingest_config cfg) ?s1 k \<le> inquiry_left (ingest_config cfg) (wired_core W) k"
    proof (cases "j = k")
      case True
      from own_turn_left [OF refl, of P C cfg "wired_core W" k ?ans clk elapsed] show ?thesis unfolding True
        by (elim disjE) simp_all
    next
      case False
      then have "k \<noteq> j" by simp
      from left_by_others [OF this, of "ingest_config cfg" P C cfg "wired_core W" ?ans clk elapsed] show ?thesis by linarith
    qed
    with before show ?thesis by linarith
  qed
  moreover obtain l' where "wired_core (wired_step X P C cfg W x) =
      (life_core (takes_turn P C cfg (System (turn_of j ?ans clk elapsed)) (wired_life W)))\<lparr>core_link := l'\<rparr>"
    using moves_on_core [of P C cfg j el clk elapsed W] asks_moves_on [OF moves, of P C cfg el clk elapsed] Asks by auto
  ultimately show ?thesis
    using turn_core [of P C cfg j ?ans clk elapsed "wired_life W"] assms(1)
    by (auto simp: within_bound_def simp del: core_step.simps inquiry_left.simps)
  qed
qed

interpretation bounds: preserved_by "wired_step X P C cfg" "\<lambda>W. within_bound (ingest_config cfg) (wired_core W)" wired_admits
  for X P C cfg
  by unfold_locales (rule bound_step)

interpretation wired_stores: preserved_by "wired_step X P C cfg" "\<lambda>W. stores_ok P cfg (wired_core W)" wired_admits
  for X P C cfg
  by unfold_locales (rule wired_keeps_core [where Q = "stores_ok P cfg" for P cfg, OF stores_ok_step])

section \<open>Where a run begins\<close>

lemma begun_discovering:
  assumes "begin_core cfg supervised = Some (Inr s)"
  shows "discovering s k = None" "\<not> awaiting s k" "within_bound (ingest_config cfg) s"
    "states (core_ingestor s) = Map.empty"
proof -
  note b = begin_core_cases [OF assms]
  show "discovering s k = None" "\<not> awaiting s k" using b by (cases k; simp add: start_reconcile_def)+
  have "inquiry_left (ingest_config cfg) s j \<le> inquiry_bound (ingest_config cfg)" for j
    using b start_left [of "ingest_config cfg" "core_ingestor s"] by (cases j) auto
  then show "within_bound (ingest_config cfg) s" by (simp add: within_bound_def)
  show "states (core_ingestor s) = Map.empty" using b by (simp add: with_store_def new_ingestor_def)
qed

lemma begun_wired:
  assumes laws: "json_laws (api P)" "iter_ok (iteration P)" and start: "begin_life X cfg h = Some (Inr L0)"
  shows "wired_ok (api P) (new_wired L0)" "stores_ok P cfg (wired_core (new_wired L0))"
    "within_bound (ingest_config cfg) (wired_core (new_wired L0))"
proof -
  from begin_life_cases [OF start] obtain s supervised where
    s: "begin_core cfg supervised = Some (Inr s)" "life_rt L0 = new_runtime s" by metis
  have core: "wired_core (new_wired L0) = s" by (simp add: new_wired_def s(2) new_runtime_def)
  note b = begun_discovering [OF s(1)]
  have "link_ok (api P) (core_link s)" using begun_link_ok [OF laws(1) s(1)] by (simp add: core_link_ok_def)
  moreover have "wired_link (new_wired L0) = core_link s" "asked_log (new_wired L0) = []"
    by (simp_all add: core) (simp add: new_wired_def)
  ultimately show "wired_ok (api P) (new_wired L0)"
    using b core by (simp add: wired_ok_def log_fated_def task_wired_def all_accepted_def)
  show "stores_ok P cfg (wired_core (new_wired L0))"
    using begun_store_ok [OF s(1), of P] laws core by (simp add: stores_ok_def)
  show "within_bound (ingest_config cfg) (wired_core (new_wired L0))" using b(3) core by simp
qed

section \<open>A run to evaluate\<close>

text \<open>A daemon that lists one thread, shows it active, and accepts its resume; the id of an answer is the
  length of its text.\<close>

definition wire_codec :: "jv codec" where
  "wire_codec = \<lparr>text_json = (\<lambda>t. Inr (JObj [(''id'', JNum (of_nat (length t))),
     (''result'', if t = ''1'' then page_of [''t''] else if t = ''22'' then active_thread ''t'' else JNull)])),
     bytes_json = (\<lambda>_. Inl [])\<rparr>"

abbreviation wire_step :: "(jv, machine system) Wired \<Rightarrow> jv wired_input \<Rightarrow> (jv, machine system) Wired" where
  "wire_step \<equiv> wired_step (real_ops machine_os) test_parts wire_codec test_core_config"

abbreviation wire_links :: "jv Link \<Rightarrow> jv link_op list \<Rightarrow> jv Link" where
  "wire_links \<equiv> foldl (link_step jv_api wire_codec (transport_config test_core_config))"

definition wired_at :: "jv Core \<Rightarrow> (string \<times> jv Wait) option \<Rightarrow> jv Asked list \<Rightarrow> (jv, machine system) Wired" where
  "wired_at s w qs = \<lparr>wired_life = (new_life test_core)\<lparr>life_rt := (new_runtime test_core)\<lparr>rt_core := s\<rparr>\<rparr>,
     wait_of = (\<lambda>_. None)(Of_Main := w), asked_log = qs\<rparr>"

lemma wired_at_simps [simp]:
  "wired_core (wired_at s w qs) = s" "wait_of (wired_at s w qs) Of_Main = w" "asked_log (wired_at s w qs) = qs"
  "run_alive (wired_life (wired_at s w qs))" "\<not> manage_gui test_core_config"
  by (simp_all add: wired_at_def new_life_def test_core_config_def)

lemma starts_wired: "new_wired (new_life test_core) = wired_at test_core None []"
  by (simp add: new_wired_def wired_at_def new_life_def new_runtime_def fun_upd_idem)

definition hears_on :: "link_input \<Rightarrow> jv wired_input" where
  "hears_on y = Lives (Turn (System (OnLink (Loop y))))"

lemma wire_loop:
  "wire_step (wired_at s w qs) (hears_on y) = wired_at (s\<lparr>core_link := wire_links (core_link s) [Loop y]\<rparr>) w qs"
  by (simp add: hears_on_def wire_turn_def takes_turn_def starts_monitor_def wired_at_def Let_def)

lemma wire_loop_admits:
  "wired_admits (wired_at s w qs) (hears_on y) \<longleftrightarrow> unat (seq (core_link s)) + 1 < 2 ^ 64 \<and>
     (finds_open y = None \<or> finds_open y = Some (ingress_running s))"
  by (simp add: hears_on_def wired_at_def rt_reads_def reads_truly_def)

lemma wire_main_admits:
  "wired_admits (wired_at s w qs) (Asks k el clk e) \<longleftrightarrow> unat (next_id (core_link s)) + 1 < 2 ^ 64"
  by (simp add: wired_at_def)

lemma wire_turn_main:
  assumes "reconcile_step (core_parts test_parts test_core_config) default_ingest_config
      (answer_for (core_link s) False w) 0 0 rpc (core_ingestor s) = Some (rpc', g)"
    and "main s = M_Reconciling rpc"
  shows "takes_turn test_parts wire_codec test_core_config (System (MainRuns (answer_for (core_link s) False w) 0 0))
      (wired_life (wired_at s w qs)) = wired_life (wired_at (s\<lparr>main := M_Reconciling rpc', core_ingestor := g\<rparr>) w qs)"
proof -
  have "run_alive (new_life test_core)" by (simp add: new_life_def)
  with main_takes [of "core_parts test_parts test_core_config" test_core_config, OF _ assms(2)] assms(1) show ?thesis
    by (simp add: takes_turn_def starts_monitor_def wired_at_def Let_def)
qed


lemma wire_quiet:
  assumes "reconcile_step (core_parts test_parts test_core_config) default_ingest_config
      (answer_for (core_link s) False w) 0 0 rpc (core_ingestor s) = Some (rpc', g)"
    and "main s = M_Reconciling rpc" "requests g = requests (core_ingestor s)" "\<not> reconcile_awaits rpc'"
    "\<not> room_wanted w"
  shows "wire_step (wired_at s w qs) (Asks Of_Main False 0 0) =
    wired_at (s\<lparr>main := M_Reconciling rpc', core_ingestor := g\<rparr>) None qs"
proof -
  have "\<not> waits_for_room Of_Main (wired_at s w qs)" using assms(5) by (simp add: waits_for_room_def)
  from asks_moves_on [OF this] show ?thesis
    using assms wire_turn_main [OF assms(1,2), of qs]
    by (simp add: moves_on_def Let_def del: reconcile_step.simps) (simp add: wired_at_def)
qed

lemma wire_asks:
  assumes "reconcile_step (core_parts test_parts test_core_config) default_ingest_config
      (answer_for (core_link s) False w) 0 0 rpc (core_ingestor s) = Some (rpc', g)"
    and "main s = M_Reconciling rpc" "requests g = requests (core_ingestor s) @ [(m, p)]" "pc (core_link s) = loop_pc.Driving"
    "queue (core_link s) = []" "\<not> room_wanted w"
  shows "wire_step (wired_at s w qs) (Asks Of_Main False 0 0) =
    wired_at (s\<lparr>main := M_Reconciling rpc', core_ingestor := g, core_link := wire_links (core_link s) [Submit False m p]\<rparr>)
      (Some (m, On (Transport.next_channel (core_link s))))
      (qs @ [\<lparr>asked_by = Of_Main, asked_method = m, asked_params = p,
         asked_channel = Transport.next_channel (core_link s), asked_id = Number (next_id (core_link s))\<rparr>])"
proof -
  have "\<not> waits_for_room Of_Main (wired_at s w qs)" using assms(6) by (simp add: waits_for_room_def)
  moreover have "\<not> full (core_link s)" using assms(5) by (simp add: full_def command_capacity_def)
  ultimately show ?thesis
    using assms wire_turn_main [OF assms(1,2), of qs]
    by (simp add: asks_moves_on moves_on_def puts_on_wire_def submits_plain submit_def Let_def del: reconcile_step.simps)
       (simp add: wired_at_def takes_turn_def starts_monitor_def submit_def Let_def)
qed

text \<open>One exchange on the link: a request is submitted, written, and answered.\<close>

definition ready_link :: "u64 \<Rightarrow> jv Link \<Rightarrow> bool" where
  "ready_link n l \<longleftrightarrow> pc l = loop_pc.Driving \<and> queue l = [] \<and> pending l = [] \<and> next_id l = n \<and>
     list_all (\<lambda>x. fst x < Transport.next_channel l) (replies l) \<and> seq l = n"

definition reads :: "string \<Rightarrow> jv link_op list" where
  "reads t = [Loop (TakeCommand None), Loop (DriveRead 0 0 True (Message (TextMessage t)))]"

lemma exchange:
  assumes "ready_link n l" "n = of_nat (length t)" "l' = wire_links (wire_links l [Submit False m p]) (reads t)"
  shows "ready_link (n + 1) l' \<and>
    answer_on l' (Transport.next_channel l) = Some (Inr (if t = ''1'' then page_of [''t''] else if t = ''22'' then active_thread ''t'' else JNull))"
proof -
  have "map_of (replies l) (Transport.next_channel l) = None"
    using assms(1) by (auto simp: ready_link_def map_of_eq_None_iff list_all_iff)
  with assms(1,2) show ?thesis
    unfolding assms(3)
    by (auto simp: ready_link_def reads_def list_all_iff answer_on_def wire_codec_def link_run_defs drive_frame_def
        answer_pending_def pending_remove_def response_answer_def from_frame_def map_add_def)
qed


definition stage_at :: "jv reconcile_pc \<Rightarrow> jv ThreadIngestor \<Rightarrow> jv Link \<Rightarrow> (string \<times> jv Wait) option \<Rightarrow> jv Asked list \<Rightarrow>
    (jv, machine system) Wired" where
  "stage_at rpc g l w qs = wired_at (test_core\<lparr>main := M_Reconciling rpc, core_ingestor := g, core_link := l\<rparr>) w qs"

abbreviation "wire_admits \<equiv> admissible wire_step wired_admits"

abbreviation main_turn :: "jv wired_input" where
  "main_turn \<equiv> Asks Of_Main False 0 0"

text \<open>A turn that asks, with the exchange; and a turn that does not.\<close>

lemma stage_asks:
  assumes "reconcile_step (core_parts test_parts test_core_config) default_ingest_config
      (answer_for l False w) 0 0 rpc g = Some (rpc', g')"
    and "requests g' = requests g @ [(m, p)]" "ready_link n l" "n = of_nat (length t)" "unat n < 10"
    "\<not> room_wanted w"
  shows "\<exists>l' q. foldl wire_step (stage_at rpc g l w qs) (main_turn # map hears_on [TakeCommand None, DriveRead 0 0 True (Message (TextMessage t))]) =
       stage_at rpc' g' l' (Some (m, On (asked_channel q))) (qs @ [q]) \<and>
     wire_admits (stage_at rpc g l w qs) (main_turn # map hears_on [TakeCommand None, DriveRead 0 0 True (Message (TextMessage t))]) \<and>
     asked_method q = m \<and> asked_params q = p \<and> ready_link (n + 1) l' \<and>
     answer_on l' (asked_channel q) = Some (Inr (if t = ''1'' then page_of [''t''] else if t = ''22'' then active_thread ''t'' else JNull))"
proof -
  let ?l = "wire_links (wire_links l [Submit False m p]) (reads t)"
  have one: "wire_step (stage_at rpc g l w qs) main_turn =
      stage_at rpc' g' (wire_links l [Submit False m p]) (Some (m, On (Transport.next_channel l)))
       (qs @ [\<lparr>asked_by = Of_Main, asked_method = m, asked_params = p,
         asked_channel = Transport.next_channel l, asked_id = Number (next_id l)\<rparr>])"
    unfolding stage_at_def
    by (subst wire_asks [where rpc = rpc and rpc' = rpc' and g = g' and m = m and p = p]) (use assms in \<open>simp_all add: ready_link_def\<close>)
  note ex = exchange [OF assms(3,4) refl, of m p]
  have seqs: "seq l = n" "next_id l = n" using assms(3) by (simp_all add: ready_link_def)
  have rest: "foldl wire_step (stage_at rpc' g' (wire_links l [Submit False m p]) w' qs')
      (map hears_on [TakeCommand None, DriveRead 0 0 True (Message (TextMessage t))]) = stage_at rpc' g' ?l w' qs'" for w' qs'
    by (simp add: stage_at_def wire_loop reads_def)
  have adm: "wire_admits (stage_at rpc' g' (wire_links l [Submit False m p]) w' qs')
      (map hears_on [TakeCommand None, DriveRead 0 0 True (Message (TextMessage t))])" for w' qs'
    using assms(3,5)
    by (simp add: stage_at_def wire_loop wire_loop_admits ready_link_def submit_def loop_step_def
        drive_command_def pending_insert_def del: wired_step.simps wired_admits.simps)
  have first: "wired_admits (stage_at rpc g l w qs) main_turn"
    using assms(5) seqs unfolding stage_at_def wire_main_admits by simp
  let ?q = "\<lparr>asked_by = Of_Main, asked_method = m, asked_params = p,
         asked_channel = Transport.next_channel l, asked_id = Number (next_id l)\<rparr>"
  show ?thesis
    by (rule exI [of _ ?l], rule exI [of _ ?q]) (use ex one rest adm first in \<open>simp del: link_step.simps wired_step.simps wired_admits.simps\<close>)
qed

lemma core_swap:
  "s\<lparr>core_link := l, main := m, core_ingestor := g\<rparr> = s\<lparr>main := m, core_ingestor := g, core_link := l\<rparr>"
  by (cases s) simp

lemma stage_quiet:
  assumes "reconcile_step (core_parts test_parts test_core_config) default_ingest_config
      (answer_for l False w) 0 0 rpc g = Some (rpc', g')"
    and "requests g' = requests g" "\<not> reconcile_awaits rpc'" "ready_link n l" "unat n < 10"
    "\<not> room_wanted w"
  shows "wire_step (stage_at rpc g l w qs) main_turn = stage_at rpc' g' l None qs \<and>
    wired_admits (stage_at rpc g l w qs) main_turn"
proof -
  have "wired_admits (stage_at rpc g l w qs) main_turn"
    using assms(4,5) unfolding stage_at_def wire_main_admits by (simp add: ready_link_def)
  then show ?thesis
    unfolding stage_at_def
    by (subst wire_quiet [where rpc = rpc and rpc' = rpc' and g = g'])
       (use assms in \<open>simp_all add: core_swap del: wired_admits.simps\<close>)
qed


text \<open>The whole run: the list, the read, and the resume.\<close>

definition heard :: "string \<Rightarrow> jv wired_input list" where
  "heard t = main_turn # map hears_on [TakeCommand None, DriveRead 0 0 True (Message (TextMessage t))]"

definition wire_inputs :: "jv wired_input list" where
  "wire_inputs = map hears_on [ConnectResult None, WriteResult None, HandshakeRead 0 0 True (Message (TextMessage [])), WriteResult None] @
     heard ''1'' @ [main_turn] @ heard ''22'' @ [main_turn, main_turn, main_turn] @ heard ''333'' @ [main_turn, main_turn] @ heard ''4444''"

lemma wire_connects:
  "\<exists>l. foldl wire_step (new_wired (new_life test_core)) (map hears_on [ConnectResult None, WriteResult None,
      HandshakeRead 0 0 True (Message (TextMessage [])), WriteResult None]) =
     stage_at (start_reconcile default_ingest_config (core_ingestor test_core)) (core_ingestor test_core) l None [] \<and>
   wire_admits (new_wired (new_life test_core)) (map hears_on [ConnectResult None, WriteResult None,
      HandshakeRead 0 0 True (Message (TextMessage [])), WriteResult None]) \<and> ready_link 1 l"
proof -
  let ?ops = "[ConnectResult None, WriteResult None, HandshakeRead 0 0 True (Message (TextMessage [])), WriteResult None]"
  let ?l = "wire_links (core_link test_core) (map Loop ?ops)"
  have "ready_link 1 ?l" by (simp add: ready_link_def wire_codec_def link_run_defs take_ingress_def)
  moreover have "foldl wire_step (new_wired (new_life test_core)) (map hears_on ?ops) =
      stage_at (start_reconcile default_ingest_config (core_ingestor test_core)) (core_ingestor test_core) ?l None []"
    unfolding starts_wired stage_at_def by (simp add: wire_loop del: wired_step.simps link_step.simps) (simp add: test_core_def)
  moreover have "wire_admits (new_wired (new_life test_core)) (map hears_on ?ops)"
    unfolding starts_wired
    by (simp add: wire_loop wire_loop_admits del: wired_step.simps wired_admits.simps link_step.simps test_core_fields)
       (simp add: wire_codec_def link_run_defs take_ingress_def)
  ultimately show ?thesis by blast
qed


lemma stage_heard:
  assumes "reconcile_step (core_parts test_parts test_core_config) default_ingest_config
      (answer_for l False w) 0 0 rpc g = Some (rpc', g')"
    and "requests g' = requests g @ [(m, p)]" "ready_link n l" "n = of_nat (length t)" "unat n < 10"
    "\<not> room_wanted w"
  shows "\<exists>l' q. foldl wire_step (stage_at rpc g l w qs) (heard t) = stage_at rpc' g' l' (Some (m, On (asked_channel q))) (qs @ [q]) \<and>
    wire_admits (stage_at rpc g l w qs) (heard t) \<and> asked_method q = m \<and> asked_params q = p \<and> ready_link (n + 1) l' \<and>
    answer_for l' False (Some (m, On (asked_channel q))) =
       Some (Inr (if t = ''1'' then page_of [''t''] else if t = ''22'' then active_thread ''t'' else JNull))"
  using stage_asks [OF assms, of qs] unfolding heard_def answer_for.simps waited_on_def by fastforce

lemma wire_runs:
  "\<exists>g l w q1 q2 q3 q4. foldl wire_step (new_wired (new_life test_core)) wire_inputs =
       stage_at (R_Discovering Reading ''t'' [] []) g l w [q1, q2, q3, q4] \<and>
     states g = [''t'' \<mapsto> Subscribed] \<and> ready_link 5 l \<and>
     wire_admits (new_wired (new_life test_core)) wire_inputs"
proof -
  let ?P = "core_parts test_parts test_core_config" and ?c = default_ingest_config and ?g0 = "core_ingestor test_core"
  let ?step = "reconcile_step ?P ?c"
  from wire_connects obtain l0 where l0: "ready_link 1 l0"
    "foldl wire_step (new_wired (new_life test_core)) (map hears_on [ConnectResult None, WriteResult None,
      HandshakeRead 0 0 True (Message (TextMessage [])), WriteResult None]) = stage_at (start_reconcile ?c ?g0) ?g0 l0 None []"
    "wire_admits (new_wired (new_life test_core)) (map hears_on [ConnectResult None, WriteResult None,
      HandshakeRead 0 0 True (Message (TextMessage [])), WriteResult None])" by blast
  have g0: "states ?g0 = Map.empty" "watermark ?g0 = 0"
    by (simp_all add: test_core_def test_ingestor_def with_store_def new_ingestor_def)
  let ?g1 = "call ''thread/list'' (list_params jv_api ?c None) ?g0"
  have "?step (answer_for l0 False None) 0 0 (start_reconcile ?c ?g0) ?g0 = Some (R_AwaitingPage 3 0 0 [], ?g1)"
    using g0 by (simp add: start_reconcile_def default_ingest_config_def)
  from stage_heard [OF this call_simps(4) l0(1), of "''1''" "[]"] obtain l1 q1 where
    1: "foldl wire_step (stage_at (start_reconcile ?c ?g0) ?g0 l0 None []) (heard ''1'') =
        stage_at (R_AwaitingPage 3 0 0 []) ?g1 l1 (Some (''thread/list'', On (asked_channel q1))) [q1]"
      "wire_admits (stage_at (start_reconcile ?c ?g0) ?g0 l0 None []) (heard ''1'')"
      "ready_link 2 l1" "answer_for l1 False (Some (''thread/list'', On (asked_channel q1))) = Some (Inr (page_of [''t'']))"
    by (auto simp del: answer_for.simps)
  let ?g2 = "?g1\<lparr>watermark := 0\<rparr>"
  have "?step (answer_for l1 False (Some (''thread/list'', On (asked_channel q1)))) 0 0 (R_AwaitingPage 3 0 0 []) ?g1 =
      Some (R_Reading [''t''] [], ?g2)"
    unfolding 1(4) by (simp add: page_answered_def end_listing_def page_of_def core_parts_def get_str_def
        default_ingest_config_def numeric_timestamp_def Let_def)
  note 2 = stage_quiet [OF this _ _ 1(3), of "[q1]"]
  let ?g3 = "call ''thread/read'' (read_params jv_api ''t'') ?g2"
  have "?step (answer_for l1 False None) 0 0 (R_Reading [''t''] []) ?g2 = Some (R_AwaitingThread ''t'' [] [], ?g3)" by simp
  from stage_heard [OF this call_simps(4) 1(3), of "''22''" "[q1]"] obtain l2 q2 where
    3: "foldl wire_step (stage_at (R_Reading [''t''] []) ?g2 l1 None [q1]) (heard ''22'') =
        stage_at (R_AwaitingThread ''t'' [] []) ?g3 l2 (Some (''thread/read'', On (asked_channel q2))) [q1, q2]"
      "wire_admits (stage_at (R_Reading [''t''] []) ?g2 l1 None [q1]) (heard ''22'')"
      "ready_link 3 l2" "answer_for l2 False (Some (''thread/read'', On (asked_channel q2))) = Some (Inr (active_thread ''t''))"
    by (auto simp del: answer_for.simps)
  obtain v where v: "?step (answer_for l2 False (Some (''thread/read'', On (asked_channel q2)))) 0 0 (R_AwaitingThread ''t'' [] []) ?g3 =
      Some (R_Applying v ''t'' [] [], ?g3)"
    unfolding 3(4) by (simp add: thread_answered_def active_thread_def thread_is_active_def get_path_def)
  note 4 = stage_quiet [OF v _ _ 3(3), of "[q1, q2]"]
  let ?g4 = "?g3\<lparr>ti_reducer := reconcile_thread jv_api v (ti_reducer ?g3)\<rparr>"
  have "?step (answer_for l2 False None) 0 0 (R_Applying v ''t'' [] []) ?g3 = Some (R_Discovering Claim ''t'' [] [], ?g4)" by simp
  note 5 = stage_quiet [OF this _ _ 3(3), of "[q1, q2]"]
  let ?g5 = "set_state ''t'' (Subscribing Reconciliation 1) ?g4"
  have "?step (answer_for l2 False None) 0 0 (R_Discovering Claim ''t'' [] []) ?g4 = Some (R_Discovering BeginSubscription ''t'' [] [], ?g5)"
    using g0 by (simp add: claim_def retained_count_def default_ingest_config_def)
  note 6 = stage_quiet [OF this _ _ 3(3), of "[q1, q2]"]
  let ?g6 = "call ''thread/resume'' (resume_params jv_api ''t'') (?g5\<lparr>ti_reducer := begin_subscription ''t'' (ti_reducer ?g5)\<rparr>)"
  have r: "requests ?g6 = requests ?g5 @ [(''thread/resume'', resume_params jv_api ''t'')]" by simp
  have "?step (answer_for l2 False None) 0 0 (R_Discovering BeginSubscription ''t'' [] []) ?g5 =
      Some (R_Discovering (Resuming 1) ''t'' [] [], ?g6)" by simp
  from stage_heard [OF this r 3(3), of "''333''" "[q1, q2]"] obtain l3 q3 where
    7: "foldl wire_step (stage_at (R_Discovering BeginSubscription ''t'' [] []) ?g5 l2 None [q1, q2]) (heard ''333'') =
        stage_at (R_Discovering (Resuming 1) ''t'' [] []) ?g6 l3 (Some (''thread/resume'', On (asked_channel q3))) [q1, q2, q3]"
      "wire_admits (stage_at (R_Discovering BeginSubscription ''t'' [] []) ?g5 l2 None [q1, q2]) (heard ''333'')"
      "ready_link 4 l3" "answer_for l3 False (Some (''thread/resume'', On (asked_channel q3))) = Some (Inr JNull)"
    by (auto simp del: answer_for.simps)
  have "?step (answer_for l3 False (Some (''thread/resume'', On (asked_channel q3)))) 0 0 (R_Discovering (Resuming 1) ''t'' [] []) ?g6 =
      Some (R_Discovering FinishSubscription ''t'' [] [], ?g6)"
    unfolding 7(4) by (simp add: resume_answered_def)
  note 8 = stage_quiet [OF this _ _ 7(3), of "[q1, q2, q3]"]
  let ?g7 = "?g6\<lparr>ti_reducer := finish_subscription ''t'' (ti_reducer ?g6)\<rparr>"
  have "?step (answer_for l3 False None) 0 0 (R_Discovering FinishSubscription ''t'' [] []) ?g6 =
      Some (R_Discovering MarkSubscribed ''t'' [] [], ?g7)" by simp
  note 9 = stage_quiet [OF this _ _ 7(3), of "[q1, q2, q3]"]
  let ?g8 = "call ''thread/read'' (read_params jv_api ''t'') (set_state ''t'' Subscribed ?g7)"
  have r': "requests ?g8 = requests ?g7 @ [(''thread/read'', read_params jv_api ''t'')]" by simp
  have "?step (answer_for l3 False None) 0 0 (R_Discovering MarkSubscribed ''t'' [] []) ?g7 =
      Some (R_Discovering Reading ''t'' [] [], ?g8)" by simp
  from stage_heard [OF this r' 7(3), of "''4444''" "[q1, q2, q3]"] obtain l4 q4 where
    10: "foldl wire_step (stage_at (R_Discovering MarkSubscribed ''t'' [] []) ?g7 l3 None [q1, q2, q3]) (heard ''4444'') =
        stage_at (R_Discovering Reading ''t'' [] []) ?g8 l4 (Some (''thread/read'', On (asked_channel q4))) [q1, q2, q3, q4]"
      "wire_admits (stage_at (R_Discovering MarkSubscribed ''t'' [] []) ?g7 l3 None [q1, q2, q3]) (heard ''4444'')"
      "ready_link 5 l4"
    by (auto simp del: answer_for.simps)
  have "states ?g8 = [''t'' \<mapsto> Subscribed]" using g0 by simp
  moreover note 10(3)
  moreover have "foldl wire_step (new_wired (new_life test_core)) wire_inputs =
      stage_at (R_Discovering Reading ''t'' [] []) ?g8 l4 (Some (''thread/read'', On (asked_channel q4))) [q1, q2, q3, q4]"
    using l0 1 2 3 4 5 6 7 8 9 10
    unfolding wire_inputs_def foldl_append
    by (simp del: wired_step.simps wired_admits.simps answer_for.simps map_append list.map)
  moreover have "wire_admits (new_wired (new_life test_core)) wire_inputs"
    using l0 1 2 3 4 5 6 7 8 9 10
    unfolding wire_inputs_def admissible_append foldl_append
    by (simp del: wired_step.simps wired_admits.simps answer_for.simps map_append list.map)
  ultimately show ?thesis by blast
qed

section \<open>Properties\<close>

lemma turn_link:
  "next_id (core_link (core_step P C cfg s (turn_of k ans clk el))) = next_id (core_link s) \<and>
   seq (core_link (core_step P C cfg s (turn_of k ans clk el))) = seq (core_link s) \<and>
   pc (core_link (core_step P C cfg s (turn_of k ans clk el))) = pc (core_link s)"
proof (cases k)
  case Of_Main
  then show ?thesis
    by (auto simp: main_step_def marking_defs shutdown_def Let_def
        split: main_pc.split reconcile_pc.split sum.split option.split prod.split)
next
  case Of_Watcher
  then show ?thesis
    by (auto simp: watcher_step_def marking_defs Let_def
        split: watcher_pc.split reconcile_pc.split sum.split option.split prod.split)
next
  case (Of_Signal i)
  then show ?thesis by (auto split: prod.split option.split simp del: discover_step.simps)
qed

lemma asks_link:
  "(next_id (wired_link (asks P C cfg k el clk elapsed W)) = next_id (wired_link W) \<or>
    next_id (wired_link (asks P C cfg k el clk elapsed W)) = next_id (wired_link W) + 1) \<and>
   seq (wired_link (asks P C cfg k el clk elapsed W)) = seq (wired_link W) \<and>
   pc (wired_link (asks P C cfg k el clk elapsed W)) = pc (wired_link W)"
proof (cases rule: asks_cases [of P C cfg k el clk elapsed W])
  case (turns ans)
  with turn_core [of P C cfg k ans clk elapsed "wired_life W"] turn_link [of P C cfg "wired_core W" k ans clk elapsed]
  show ?thesis by auto
next
  case (submits ans m p)
  then show ?thesis by (simp add: submit_core submit_def)
qed (simp_all add: submit_core submit_def)

text \<open>A task that takes turns while the loop takes a command after each: there is room at all of them.\<close>

definition sweep :: "Asker \<Rightarrow> jv wired_input list" where
  "sweep k = [Asks k True 0 0, hears_on (TakeCommand None)]"

definition roomy :: "nat \<Rightarrow> (jv, 'w) Wired \<Rightarrow> bool" where
  "roomy n W \<longleftrightarrow> within_capacity (wired_link W) \<and> \<not> full (wired_link W) \<and> pc (wired_link W) \<in> {loop_pc.Driving, loop_pc.Stopped} \<and>
     unat (next_id (wired_link W)) + n < 2 ^ 64 \<and> unat (seq (wired_link W)) + 1 < 2 ^ 64"

lemma hears_link:
  "wired_link (wired_step X P C cfg W (hears_on y)) = link_step (api P) C (transport_config cfg) (wired_link W) (Loop y)"
  by (simp add: hears_on_def wire_turn_def takes_turn_def starts_monitor_def Let_def del: link_step.simps)

lemma takes_roomy:
  fixes l :: "'v Link" and J :: "'v json" and C :: "'v codec" and cfg :: TransportConfig
  assumes "within_capacity l" "pc l \<in> {loop_pc.Driving, loop_pc.Stopped}"
  defines "l' \<equiv> link_step J C cfg l (Loop (TakeCommand None))"
  shows "within_capacity l' \<and> \<not> full l' \<and> pc l' \<in> {loop_pc.Driving, loop_pc.Stopped} \<and> next_id l' = next_id l \<and> seq l' = seq l"
proof (cases "pc l = loop_pc.Stopped")
  case True
  from stopped_step [OF True, of J C cfg "Loop (TakeCommand None)"] True assms(1) show ?thesis
    by (simp add: l'_def full_def within_capacity_def loop_step_def)
next
  case False
  with assms(2) have pc: "pc l = loop_pc.Driving" by simp
  have "pc l' \<in> {loop_pc.Driving, loop_pc.Stopped} \<and> next_id l' = next_id l \<and> seq l' = seq l"
    using pc by (cases "queue l"; cases "hd (queue l)")
      (auto simp: l'_def loop_step_def drive_command_def drive_exit_def fail_pending_def Let_def)
  with taking_makes_room [OF assms(1), of J C cfg None] pc within_capacity_step [OF assms(1), of J C cfg "Loop (TakeCommand None)"]
  show ?thesis by (simp add: l'_def)
qed

lemma sweep_counts:
  fixes W :: "(jv, 'w) Wired" and X :: "'w ProcessOps"
  assumes "roomy (Suc n) W"
  shows "counts k W (Asks k True 0 0)" "roomy n (foldl (wired_step X P C cfg) W (sweep k))"
    "admissible (wired_step X P C cfg) wired_admits W (sweep k)"
proof -
  let ?W = "wired_step X P C cfg W (Asks k True 0 0)"
  let ?V = "wired_step X P C cfg ?W (hears_on (TakeCommand None))"
  show "counts k W (Asks k True 0 0)" using assms by (simp add: counts_def roomy_def)
  have adm: "wired_admits W (Asks k True 0 0)" using assms by (simp add: roomy_def)
  have "within_capacity (wired_link ?W)"
  proof (rule wired_part.part_inv [where Q = "\<lambda>L. within_capacity (life_link L)", OF _ _ adm])
    show "within_capacity (life_link L) \<Longrightarrow> life_admits L y \<Longrightarrow> within_capacity (life_link (life_step X P C cfg L y))" for L y
      by (rule life_link_keeps [where Q = within_capacity, OF within_capacity_step])
    show "within_capacity (wired_link W)" using assms by (simp add: roomy_def)
  qed
  moreover have "pc (wired_link ?W) = pc (wired_link W)" "seq (wired_link ?W) = seq (wired_link W)"
    "unat (next_id (wired_link ?W)) \<le> unat (next_id (wired_link W)) + 1"
    using asks_link [of P C cfg k True 0 0 W] assms succ_no_wrap [of "next_id (wired_link W)"] by (auto simp: roomy_def)
  ultimately show "roomy n (foldl (wired_step X P C cfg) W (sweep k))"
    "admissible (wired_step X P C cfg) wired_admits W (sweep k)"
    using assms takes_roomy [of "wired_link ?W" "api P" C "transport_config cfg"] adm
    by (auto simp: sweep_def roomy_def hears_link simp del: link_step.simps wired_step.simps)
      (auto simp: hears_on_def rt_reads_def reads_truly_def simp del: wired_step.simps)
qed

lemma sweeps_count:
  fixes W :: "(jv, 'w) Wired" and X :: "'w ProcessOps"
  assumes "roomy n W"
  shows "inquiry_turns X P C cfg k W (concat (replicate n (sweep k))) = n"
    "admissible (wired_step X P C cfg) wired_admits W (concat (replicate n (sweep k)))"
  using assms
proof (induction n arbitrary: W)
  case (Suc n)
  have more: "inquiry_turns X P C cfg k V (sweep k @ xs) =
      inquiry_turns X P C cfg k V (sweep k) + inquiry_turns X P C cfg k (foldl (wired_step X P C cfg) V (sweep k)) xs"
    for V xs by (simp add: sweep_def)
  {
    case 1
    have "inquiry_turns X P C cfg k W (sweep k) = 1" using sweep_counts(1) [OF 1, of k] by (simp add: sweep_def counts_def hears_on_def)
    with Suc.IH(1) [OF sweep_counts(2) [where k = k and X = X and P = P and C = C and cfg = cfg, OF 1]] show ?case unfolding replicate_Suc concat.simps more by simp
  next
    case 2
    from Suc.IH(2) [OF sweep_counts(2) [OF 2]] sweep_counts(3) [OF 2] show ?case by (simp add: admissible_append)
  }
qed simp_all

text \<open>C3. A subscription rests on a resume that the daemon accepted: in any run of the program as a whole,
  with every request of its tasks on the link, a thread is marked as subscribed only after a
  \<open>thread/resume\<close> for that thread, which was written exactly once on all the connections taken
  together, has been answered with a result; whatever connections break, whichever tasks of the
  same thread race, and whatever is dropped.\<close>

theorem subscribed_means_accepted:
  assumes "json_laws (api P)" "iter_ok (iteration P)" "begin_life X cfg h = Some (Inr L0)"
    and "admissible (wired_step X P C cfg) wired_admits (new_wired L0) xs" "W = wired_run X P C cfg (new_wired L0) xs"
    and "states (core_ingestor (wired_core W)) t = Some Subscribed"
  shows "\<exists>q \<in> set (asked_log W). asked_method q = ''thread/resume'' \<and> asked_params q = resume_params (api P) t \<and>
    (\<exists>v. answer_on (wired_link W) (asked_channel q) = Some (Inr v)) \<and>
    frames_of (api P) (wired_link W) (asked_id q) =
      [request (api P) (asked_id q) ''thread/resume'' (resume_params (api P) t)]"
proof -
  have ok: "wired_ok (api P) W"
    unfolding assms(5) wired_run_def by (rule wires.run_inv [OF begun_wired(1) [OF assms(1-3)] assms(4)])
  with assms(6) obtain q v where q: "q \<in> set (asked_log W)" "a_resume (api P) t q"
    "answer_on (wired_link W) (asked_channel q) = Some (Inr v)"
    by (auto simp: wired_ok_def all_accepted_def accepted_def)
  with ok have "settled (api P) (wired_link W) (asked_channel q) (asked_id q) (asked_method q) (asked_params q) (Inr v)"
    by (intro answered_fate) (simp_all add: wired_ok_def log_fated_def)
  with q show ?thesis by (auto simp: settled_def a_resume_def)
qed

theorem subscribed_means_accepted_witness:
  "let W = wired_run (real_ops machine_os) test_parts wire_codec test_core_config (new_wired (new_life test_core)) wire_inputs
   in states (core_ingestor (wired_core W)) ''t'' = Some Subscribed \<and>
     (\<exists>q \<in> set (asked_log W). asked_method q = ''thread/resume'' \<and> (\<exists>v. answer_on (wired_link W) (asked_channel q) = Some (Inr v)))"
proof -
  let ?W = "wired_run (real_ops machine_os) test_parts wire_codec test_core_config (new_wired (new_life test_core)) wire_inputs"
  from wire_runs have "states (core_ingestor (wired_core ?W)) ''t'' = Some Subscribed"
    and adm: "wire_admits (new_wired (new_life test_core)) wire_inputs"
    by (auto simp: wired_run_def stage_at_def)
  with subscribed_means_accepted [OF _ _ new_life_begins adm refl, of "''t''"] show ?thesis
    by (auto simp: Let_def)
qed

text \<open>C9. Every inquiry comes to its end while the channel of the commands has room: from any state of any
  run of the program as a whole, once a reconciliation of the main task or of the watcher, or the
  discovery of a signal, has taken twice as many turns as the bound of its configuration says and one
  more, turns after its timers have run out and, where it waits for room to queue a request, with the
  channel not full, it has ended in between, or, for the main task, the run has been dropped;
  whatever else happens (a daemon that never answers, connections that break, other tasks that move
  or stand still). A stopped loop refuses at once, and needs no room.\<close>

theorem every_inquiry_ends:
  assumes "json_laws (api P)" "iter_ok (iteration P)" "begin_life X cfg h = Some (Inr L0)"
    and "admissible (wired_step X P C cfg) wired_admits (new_wired L0) (ws @ xs)"
    and "2 * inquiry_bound (ingest_config cfg) + 1 \<le> inquiry_turns X P C cfg k (wired_run X P C cfg (new_wired L0) ws) xs"
  shows "\<exists>n \<le> length xs. let W = wired_run X P C cfg (new_wired L0) (ws @ take n xs)
    in \<not> inquiring (wired_core W) k \<or> k = Of_Main \<and> \<not> run_alive (wired_life W)"
proof -
  let ?W = "wired_run X P C cfg (new_wired L0) ws"
  note b = begun_wired [OF assms(1-3)]
  have adm: "admissible (wired_step X P C cfg) wired_admits (new_wired L0) ws"
    "admissible (wired_step X P C cfg) wired_admits ?W xs"
    using assms(4) by (simp_all add: admissible_append wired_run_def)
  have ok: "wired_ok (api P) ?W" "stores_ok P cfg (wired_core ?W)" "within_bound (ingest_config cfg) (wired_core ?W)"
    unfolding wired_run_def
    by (rule wires.run_inv [OF b(1) adm(1)], rule wired_stores.run_inv [OF b(2) adm(1)], rule bounds.run_inv [OF b(3) adm(1)])
  have "inquiry_left (ingest_config cfg) (wired_core ?W) k \<le> inquiry_bound (ingest_config cfg)"
    using ok(3) unfolding within_bound_def by blast
  then have "inquiry_work (ingest_config cfg) k ?W \<le> inquiry_turns X P C cfg k ?W xs"
    using assms(5) by (auto simp: inquiry_work_def)
  from inquiry_ends [OF ok(1,2) adm(2) this] show ?thesis by (simp add: wired_run_def)
qed

theorem every_inquiry_ends_witness:
  "\<exists>n. let W = wired_run (real_ops machine_os) test_parts wire_codec test_core_config (new_wired (new_life test_core))
       (wire_inputs @ take n (concat (replicate 15299 (sweep Of_Main))))
     in \<not> inquiring (wired_core W) Of_Main \<or> \<not> run_alive (wired_life W)"
proof -
  let ?xs = "concat (replicate 15299 (sweep Of_Main))"
  let ?W = "foldl wire_step (new_wired (new_life test_core)) wire_inputs"
  from wire_runs obtain g l w qs where w: "?W = stage_at (R_Discovering Reading ''t'' [] []) g l w qs"
    and l: "ready_link 5 l" and adm: "wire_admits (new_wired (new_life test_core)) wire_inputs" by blast
  have bound: "inquiry_bound default_ingest_config = 7649" by (simp add: inquiry_bound_def default_ingest_config_def)
  have "roomy 15299 ?W"
    using l unfolding w by (simp add: roomy_def stage_at_def ready_link_def within_capacity_def full_def command_capacity_def)
  note swept = sweeps_count [OF this, of "real_ops machine_os" test_parts wire_codec test_core_config Of_Main]
  have "wire_admits (new_wired (new_life test_core)) (wire_inputs @ ?xs)"
    using adm swept(2) by (simp only: admissible_append)
  from every_inquiry_ends [OF _ _ new_life_begins this, of Of_Main] swept(1) show ?thesis
    by (simp add: wired_run_def bound Let_def) blast
qed

end
