(* ===== verification/Supervisor_Tests.thy ===== *)
theory Supervisor_Tests
  imports Process_Ops
begin

text \<open>
  The unit tests of the supervisor (the module \<open>tests\<close> of \<open>src/supervisor/src/lib.rs\<close>): the fake
  operating system they run on, each test as a function that computes whether its assertions hold,
  and the theorem that they all do. The clock of the runtime stays a parameter.
\<close>

section \<open>The fake of the tests\<close>

record FakeState =
  fk_standalone :: bool
  fk_gui :: bool
  fk_daemon :: bool
  fk_attached :: bool
  fk_stubborn :: bool
  fk_compatible :: bool
  fk_spawns :: "string list"
  fk_quit_requests :: nat

definition default_fake :: FakeState where
  "default_fake =
     \<lparr>fk_standalone = False, fk_gui = False, fk_daemon = False, fk_attached = False, fk_stubborn = False,
      fk_compatible = False, fk_spawns = [], fk_quit_requests = 0\<rparr>"

text \<open>The clock of the runtime stays a parameter: how it reads, and how a sleep moves it.\<close>

type_synonym 'c fake = "FakeState \<times> 'c"

definition fake_exists :: "string \<Rightarrow> FakeState \<Rightarrow> bool" where
  "fake_exists p s = (if str_contains (lossy p) ''codex'' then fk_standalone s else True)"

definition fake_listing :: "FakeState \<Rightarrow> string" where
  "fake_listing s =
     (if fk_daemon s then ''/mock/codex app-server --listen unix://'' @ [CHR 0x0A] else []) @
     (if fk_gui s
      then ''/mock/ChatGPT'' @ (if fk_attached s then '' CODEX_APP_SERVER_USE_LOCAL_DAEMON=1'' else []) @ [CHR 0x0A]
      else [])"

definition accepted_users :: string where
  "accepted_users = ''COMMAND PID USER FD TYPE NAME'' @ [CHR 0x0A] @
     ''codex 123 user 15u unix /mock/socket'' @ [CHR 0x0A] @ ''codex 123 user 31u unix /mock/socket''"

definition fake_output :: "FakeState \<Rightarrow> CommandOutput" where
  "fake_output s =
     (if fk_compatible s then \<lparr>success = True, stdout = ''codex-cli 0.144.6'', stderr = []\<rparr>
      else \<lparr>success = False, stdout = [], stderr = ''mismatch''\<rparr>)"

definition fake_spawn :: "string \<Rightarrow> (string \<times> string) list \<Rightarrow> FakeState \<Rightarrow> FakeState" where
  "fake_spawn p env s =
     (let s1 = s\<lparr>fk_spawns := fk_spawns s @ [lossy p]\<rparr>
      in if p = ''/usr/bin/open'' \<or> str_contains (lossy p) ''ChatGPT''
         then s1\<lparr>fk_gui := True, fk_attached := (''CODEX_APP_SERVER_USE_LOCAL_DAEMON'', ''1'') \<in> set env\<rparr>
         else s1\<lparr>fk_daemon := True\<rparr>)"

definition fake_quit :: "FakeState \<Rightarrow> FakeState" where
  "fake_quit s =
     (let s1 = s\<lparr>fk_quit_requests := fk_quit_requests s + 1\<rparr>
      in if fk_stubborn s1 then s1 else s1\<lparr>fk_gui := False, fk_attached := False\<rparr>)"

definition fake_ops :: "('c \<Rightarrow> nat) \<Rightarrow> (nat \<Rightarrow> 'c \<Rightarrow> 'c) \<Rightarrow> 'c fake ProcessOps" where
  "fake_ops read_clock pass =
     \<lparr>op_exists = (\<lambda>p (s, c). (fake_exists p s, (s, c))),
      op_ps_environment = (\<lambda>(s, c). (Inr (fake_listing s), (s, c))),
      op_socket_users = (\<lambda>p (s, c). (Inr (if fk_attached s then accepted_users else []), (s, c))),
      op_output = (\<lambda>p a (s, c). (Inr (fake_output s), (s, c))),
      op_spawn = (\<lambda>p a env (s, c). (Inr (), (fake_spawn p env s, c))),
      op_graceful_quit = (\<lambda>(s, c). (Inr (), (fake_quit s, c))),
      op_now = (\<lambda>(s, c). read_clock c),
      op_sleep = (\<lambda>d (s, c). (s, pass d c))\<rparr>"

definition fake_config :: SupervisorConfig where
  "fake_config =
     \<lparr>standalone_codex = ''/mock/codex'', daemon_socket = ''/mock/socket'', gui_executable = ''/mock/ChatGPT'',
      restart_gui_on_initialize = False, startup_timeout = 80, graceful_quit_timeout = 30, monitor_interval = 10\<rparr>"

abbreviation fake_host :: "FakeState \<Rightarrow> 'c \<Rightarrow> 'c fake host" where
  "fake_host s c \<equiv> \<lparr>world = (s, c), calls = []\<rparr>"

abbreviation fake_after :: "'c fake host \<Rightarrow> FakeState" where
  "fake_after h \<equiv> fst (world h)"

text \<open>What the supervisor reads in it.\<close>

lemma fake_lines:
  "lines (fake_listing s) =
     (if fk_daemon s then [''/mock/codex app-server --listen unix://''] else []) @
     (if fk_gui s
      then [''/mock/ChatGPT'' @ (if fk_attached s then '' CODEX_APP_SERVER_USE_LOCAL_DAEMON=1'' else [])] else [])"
  by (simp add: fake_listing_def lines_def strip_cr_def)

lemma fake_names:
  "lossy ''/mock/codex'' = ''/mock/codex''" "lossy ''/mock/ChatGPT'' = ''/mock/ChatGPT''"
  by (rule lossy_valid, rule ascii_valid, simp add: ascii_def)+

lemma fake_words:
  "\<not> str_contains ''/mock/codex app-server --listen unix://'' ''/mock/ChatGPT''"
  "str_contains ''/mock/codex app-server --listen unix://'' ''/mock/codex''"
  "str_contains ''/mock/codex app-server --listen unix://'' ''app-server''"
  "str_contains ''/mock/codex app-server --listen unix://'' ''--listen unix://''"
  "\<not> str_contains ''/mock/ChatGPT'' ''/mock/codex''" "str_contains ''/mock/ChatGPT'' ''/mock/ChatGPT''"
  "\<not> str_contains ''/mock/ChatGPT'' ''CODEX_APP_SERVER_USE_LOCAL_DAEMON=1''"
  "\<not> str_contains ''/mock/ChatGPT CODEX_APP_SERVER_USE_LOCAL_DAEMON=1'' ''/mock/codex''"
  "str_contains ''/mock/ChatGPT CODEX_APP_SERVER_USE_LOCAL_DAEMON=1'' ''/mock/ChatGPT''"
  "str_contains ''/mock/ChatGPT CODEX_APP_SERVER_USE_LOCAL_DAEMON=1'' ''CODEX_APP_SERVER_USE_LOCAL_DAEMON=1''"
  "\<not> str_contains ''/mock/ChatGPT CODEX_APP_SERVER_USE_LOCAL_DAEMON=1'' ''CODEX_APP_SERVER_FORCE_CLI=1''"
  "\<not> str_contains ''/mock/ChatGPT CODEX_APP_SERVER_USE_LOCAL_DAEMON=1'' ''CODEX_CLI_PATH=''"
  by (simp_all add: starts_with_def)

lemma fake_listed:
  "has_managed_daemon (fake_listing s) ''/mock/codex'' = fk_daemon s"
  "gui_running (fake_listing s) ''/mock/ChatGPT'' = fk_gui s"
  "gui_mode_enabled (fake_listing s) ''/mock/ChatGPT'' = (fk_gui s \<and> fk_attached s)"
  unfolding has_managed_daemon_def gui_running_def gui_mode_enabled_def fake_lines fake_names
  by (simp_all add: fake_words del: str_contains.simps)

lemma plain_lines:
  "trim ''COMMAND PID USER FD TYPE NAME'' = ''COMMAND PID USER FD TYPE NAME''"
  "trim ''codex 123 user 15u unix /mock/socket'' = ''codex 123 user 15u unix /mock/socket''"
  "trim ''codex 123 user 31u unix /mock/socket'' = ''codex 123 user 31u unix /mock/socket''"
  by (rule text_trim; simp add: white_space_def upt_rec char_of_def)+

lemma fake_accepted: "has_accepted_socket_connection accepted_users"
  by (simp add: has_accepted_socket_connection_def accepted_users_def lines_def strip_cr_def plain_lines starts_with_def)
lemma fake_none_accepted: "\<not> has_accepted_socket_connection []"
  by (simp add: has_accepted_socket_connection_def lines_def)
lemma fake_one_line: "\<not> has_accepted_socket_connection (''COMMAND PID USER FD TYPE NAME'' @ [CHR 0x0A] @ ''codex 123 user 15u unix /mock/socket'')"
  by (simp add: has_accepted_socket_connection_def lines_def strip_cr_def plain_lines starts_with_def)


section \<open>The tests of the supervisor\<close>

text \<open>\<open>accepted_socket_detection_matches_macos_lsof_shape\<close>.\<close>

definition accepted_socket_detection :: bool where
  "accepted_socket_detection \<longleftrightarrow>
     has_accepted_socket_connection accepted_users \<and>
     \<not> has_accepted_socket_connection
       (''COMMAND PID USER FD TYPE NAME'' @ [CHR 0x0A] @ ''codex 123 user 15u unix /mock/socket'')"

definition launch_services_receives_the_bundle :: bool where
  "launch_services_receives_the_bundle \<longleftrightarrow>
     application_bundle ''/Applications/ChatGPT.app/Contents/MacOS/ChatGPT'' = ''/Applications/ChatGPT.app''"

text \<open>The group of a child is the one its command asks for; \<open>0\<close> asks for one of its own.\<close>

definition children_run_in_their_own_group :: bool where
  "children_run_in_their_own_group \<longleftrightarrow> process_group (child_command ''/bin/sleep'' [''5''] []) = Some 0"

definition attaches_existing ::
    "('c \<Rightarrow> nat) \<Rightarrow> (nat \<Rightarrow> 'c \<Rightarrow> 'c) \<Rightarrow> 'c \<Rightarrow> bool" where
  "attaches_existing read_clock pass c =
     (let s = default_fake\<lparr>fk_standalone := True, fk_gui := True, fk_daemon := True, fk_attached := True,
                fk_compatible := True\<rparr>
      in case initialize (fake_ops read_clock pass) fake_config (fake_host s c) of
           Some (Inr state, h) \<Rightarrow>
             daemon_ownership state = Attached \<and> daemon_left_running (shutdown_state state)
         | _ \<Rightarrow> False)"

definition starts_daemon_and_relaunches_gui ::
    "('c \<Rightarrow> nat) \<Rightarrow> (nat \<Rightarrow> 'c \<Rightarrow> 'c) \<Rightarrow> 'c \<Rightarrow> bool" where
  "starts_daemon_and_relaunches_gui read_clock pass c =
     (let s = default_fake\<lparr>fk_standalone := True, fk_gui := True, fk_compatible := True\<rparr>
      in case initialize (fake_ops read_clock pass) fake_config (fake_host s c) of
           Some (Inr state, h) \<Rightarrow> daemon_ownership state = Started \<and> fk_attached (fake_after h)
         | _ \<Rightarrow> False)"

definition requested_restart_relaunches ::
    "('c \<Rightarrow> nat) \<Rightarrow> (nat \<Rightarrow> 'c \<Rightarrow> 'c) \<Rightarrow> 'c \<Rightarrow> bool" where
  "requested_restart_relaunches read_clock pass c =
     (let s = default_fake\<lparr>fk_standalone := True, fk_gui := True, fk_daemon := True, fk_attached := True,
                fk_compatible := True\<rparr>;
          restart_config = fake_config\<lparr>restart_gui_on_initialize := True\<rparr>
      in case initialize (fake_ops read_clock pass) restart_config (fake_host s c) of
           Some (Inr state, h) \<Rightarrow>
             fk_quit_requests (fake_after h) = 1 \<and> fk_spawns (fake_after h) = [''/usr/bin/open''] \<and>
             fk_gui (fake_after h) \<and> fk_attached (fake_after h) \<and> daemon_left_running (shutdown_state state)
         | _ \<Rightarrow> False)"

definition stubborn_gui_is_never_killed ::
    "('c \<Rightarrow> nat) \<Rightarrow> (nat \<Rightarrow> 'c \<Rightarrow> 'c) \<Rightarrow> 'c \<Rightarrow> bool" where
  "stubborn_gui_is_never_killed read_clock pass c =
     (let s = default_fake\<lparr>fk_standalone := True, fk_gui := True, fk_daemon := True, fk_stubborn := True,
                fk_compatible := True\<rparr>
      in case initialize (fake_ops read_clock pass) fake_config (fake_host s c) of
           Some (Inl (UserActionRequired d), h) \<Rightarrow> True
         | _ \<Rightarrow> False)"

definition monitor_reports_restart_and_incompatibility ::
    "('c \<Rightarrow> nat) \<Rightarrow> (nat \<Rightarrow> 'c \<Rightarrow> 'c) \<Rightarrow> 'c \<Rightarrow> bool" where
  "monitor_reports_restart_and_incompatibility read_clock pass c =
     (let s = default_fake\<lparr>fk_standalone := True, fk_gui := True, fk_attached := True, fk_compatible := True\<rparr>;
          (event, h) = check (fake_ops read_clock pass) fake_config (fake_host s c);
          h1 = h\<lparr>world := ((fake_after h)\<lparr>fk_compatible := False\<rparr>, snd (world h))\<rparr>
      in event = DaemonRestarted \<and>
         (case check (fake_ops read_clock pass) fake_config h1 of
            (Incompatible d, h2) \<Rightarrow> True
          | _ \<Rightarrow> False))"

definition monitor_restarts_a_missing_gui ::
    "('c \<Rightarrow> nat) \<Rightarrow> (nat \<Rightarrow> 'c \<Rightarrow> 'c) \<Rightarrow> 'c \<Rightarrow> bool" where
  "monitor_restarts_a_missing_gui read_clock pass c =
     (let s = default_fake\<lparr>fk_standalone := True, fk_daemon := True, fk_compatible := True\<rparr>;
          (event, h) = check (fake_ops read_clock pass) fake_config (fake_host s c)
      in event = GuiRestarted \<and> fk_attached (fake_after h))"

section \<open>They hold\<close>

lemma bundle_of_gui:
  "application_bundle ''/mock/ChatGPT'' = ''/mock/ChatGPT''"
  "launch_services_receives_the_bundle"
  unfolding launch_services_receives_the_bundle_def by code_simp+

lemma fake_paths:
  "fake_exists ''/mock/codex'' s = fk_standalone s" "fake_exists ''/mock/ChatGPT'' s"
  by (simp_all add: fake_exists_def lossy_valid ascii_valid ascii_def starts_with_def)

text \<open>Each call on it.\<close>

lemma fake_calls:
  "exists_path (fake_ops read_clock pass) p \<lparr>world = (s, c), calls = k\<rparr> =
     (fake_exists p s, \<lparr>world = (s, c), calls = k @ [Exists p (fake_exists p s)]\<rparr>)"
  "ps_environment (fake_ops read_clock pass) \<lparr>world = (s, c), calls = k\<rparr> =
     (Inr (fake_listing s), \<lparr>world = (s, c), calls = k @ [Ps (Inr (fake_listing s))]\<rparr>)"
  "socket_users (fake_ops read_clock pass) p \<lparr>world = (s, c), calls = k\<rparr> =
     (Inr (if fk_attached s then accepted_users else []),
      \<lparr>world = (s, c), calls = k @ [SocketUsers p (Inr (if fk_attached s then accepted_users else []))]\<rparr>)"
  "run_output (fake_ops read_clock pass) p a \<lparr>world = (s, c), calls = k\<rparr> =
     (Inr (fake_output s), \<lparr>world = (s, c), calls = k @ [Output p a (Inr (fake_output s))]\<rparr>)"
  "spawn_process (fake_ops read_clock pass) p a env \<lparr>world = (s, c), calls = k\<rparr> =
     (Inr (), \<lparr>world = (fake_spawn p env s, c), calls = k @ [Spawn p a env (Inr ())]\<rparr>)"
  "graceful_quit_chatgpt (fake_ops read_clock pass) \<lparr>world = (s, c), calls = k\<rparr> =
     (Inr (), \<lparr>world = (fake_quit s, c), calls = k @ [GracefulQuit (Inr ())]\<rparr>)"
  "now (fake_ops read_clock pass) \<lparr>world = (s, c), calls = k\<rparr> = read_clock c"
  "sleep (fake_ops read_clock pass) d \<lparr>world = (s, c), calls = k\<rparr> = \<lparr>world = (s, pass d c), calls = k\<rparr>"
  by (simp_all add: fake_ops_def process_call_defs now_def sleep_def)

lemma fake_daemon_spawn: "fake_spawn ''/mock/codex'' env s = s\<lparr>fk_spawns := fk_spawns s @ [''/mock/codex''], fk_daemon := True\<rparr>"
  by (simp add: fake_spawn_def Let_def fake_names starts_with_def)

lemma fake_launch:
  assumes "gui_executable cfg = ''/mock/ChatGPT''"
  shows "launch_gui (fake_ops read_clock pass) cfg \<lparr>world = (s, c), calls = k\<rparr> =
     (Inr (), \<lparr>world = (s\<lparr>fk_spawns := fk_spawns s @ [''/usr/bin/open''], fk_gui := True, fk_attached := True\<rparr>, c),
       calls = k @ [Spawn ''/usr/bin/open'' [''-a'', application_bundle (gui_executable cfg)]
          [(''CODEX_APP_SERVER_USE_LOCAL_DAEMON'', ''1''), (''CODEX_APP_SERVER_FORCE_CLI'', ''0'')] (Inr ())]\<rparr>)"
proof -
  have "to_str ''/mock/ChatGPT'' = Some ''/mock/ChatGPT''" "lossy ''/usr/bin/open'' = ''/usr/bin/open''"
    by (simp_all add: to_str_def lossy_valid ascii_valid ascii_def)
  with assms show ?thesis by (simp add: launch_gui_def bundle_of_gui fake_calls fake_spawn_def)
qed

lemmas fake_defs = fake_calls fake_listed fake_accepted fake_none_accepted fake_paths

lemma fake_version:
  "0 < startup_timeout cfg \<Longrightarrow> fk_compatible s \<Longrightarrow>
   wait_for_daemon_version (fake_ops read_clock pass) cfg \<lparr>world = (s, c), calls = k\<rparr> =
     Some (Inr ''codex-cli 0.144.6'', \<lparr>world = (s, c), calls = k @ [Output (standalone_codex cfg)
       [''app-server'', ''daemon'', ''version''] (Inr (fake_output s))]\<rparr>)"
  by (simp add: wait_for_daemon_version_def version_loop.simps  probe_version_def fake_defs fake_output_def)

lemma fake_attach:
  "0 < startup_timeout cfg \<Longrightarrow> gui_executable cfg = ''/mock/ChatGPT'' \<Longrightarrow> fk_gui s \<Longrightarrow> fk_attached s \<Longrightarrow>
   \<exists>k'. wait_for_gui_attachment (fake_ops read_clock pass) cfg \<lparr>world = (s, c), calls = k\<rparr> =
     Some (Inr (), \<lparr>world = (s, c), calls = k'\<rparr>)"
  by (simp add: wait_for_gui_attachment_def attachment_loop.simps  gui_attached_def fake_defs)

text \<open>One look after a pause of a tenth of a second: a willing GUI is gone, a stubborn one overstays.\<close>

lemma fake_quit_ends:
  assumes "\<And>d c. read_clock c + d \<le> read_clock (pass d c)" "gui_executable cfg = ''/mock/ChatGPT''"
    "graceful_quit_timeout cfg = 30" "fk_gui s"
  shows "\<exists>k'. quit_gui (fake_ops read_clock pass) cfg (fake_listing s) \<lparr>world = (s, c), calls = k\<rparr> =
     Some (if fk_stubborn s
           then Inl (UserActionRequired ''ChatGPT ignored graceful quit; quit it manually. It was not force-killed.'')
           else Inr (), \<lparr>world = (fake_quit s, pass 100 c), calls = k'\<rparr>)"
proof -
  have "\<not> read_clock (pass 100 c) < read_clock c + 30" using assms(1) [of c 100] by simp
  with assms show ?thesis
    by (cases "fk_stubborn s")
       (simp_all add: quit_gui_def and_then_def map_err_def quit_loop.simps  fake_defs fake_quit_def
         Let_def ok_def err_def)
qed


definition relaunched :: "FakeState \<Rightarrow> FakeState" where
  "relaunched s = (if fk_gui s then fake_quit s else s)
     \<lparr>fk_spawns := fk_spawns s @ [''/usr/bin/open''], fk_gui := True, fk_attached := True\<rparr>"

lemma fake_attached:
  "gui_executable cfg = ''/mock/ChatGPT'' \<Longrightarrow>
   \<exists>k'. gui_attached (fake_ops read_clock pass) cfg (fake_listing s) \<lparr>world = (s, c), calls = k\<rparr> =
     (fk_gui s \<and> fk_attached s, \<lparr>world = (s, c), calls = k'\<rparr>)"
  by (simp add: gui_attached_def fake_defs)

text \<open>A launch, and the wait for its attachment.\<close>

lemma fake_relaunch:
  assumes "gui_executable cfg = ''/mock/ChatGPT''" "0 < startup_timeout cfg"
  shows "\<exists>k'. and_then (map_err UserActionRequired (launch_gui (fake_ops read_clock pass) cfg))
     (\<lambda>_. wait_for_gui_attachment (fake_ops read_clock pass) cfg) \<lparr>world = (s, c), calls = k\<rparr> =
   Some (Inr (), \<lparr>world = (s\<lparr>fk_spawns := fk_spawns s @ [''/usr/bin/open''], fk_gui := True, fk_attached := True\<rparr>, c), calls = k'\<rparr>)"
proof -
  let ?s = "s\<lparr>fk_spawns := fk_spawns s @ [''/usr/bin/open''], fk_gui := True, fk_attached := True\<rparr>"
  have "fk_gui ?s" "fk_attached ?s" by simp_all
  from fake_attach [OF assms(2,1) this] show ?thesis by (simp add: and_then_def map_err_def fake_launch [OF assms(1)])
qed

lemma fake_ensure:
  assumes "\<And>d c. read_clock c + d \<le> read_clock (pass d c)" "gui_executable cfg = ''/mock/ChatGPT''"
    "0 < startup_timeout cfg" "graceful_quit_timeout cfg = 30"
  shows "\<exists>r h. ensure_gui (fake_ops read_clock pass) cfg \<lparr>world = (s, c), calls = k\<rparr> = Some (r, h) \<and>
    (if \<not> restart_gui_on_initialize cfg \<and> fk_gui s \<and> fk_attached s then r = Inr () \<and> fake_after h = s
     else if fk_gui s \<and> fk_stubborn s then \<exists>d. r = Inl (UserActionRequired d)
     else r = Inr () \<and> fake_after h = relaunched s)"
proof -
  let ?X = "fake_ops read_clock pass"
  have ps: "map_err Inspection (ps_environment ?X) \<lparr>world = (s, c), calls = k\<rparr> =
      Some (Inr (fake_listing s), \<lparr>world = (s, c), calls = k @ [Ps (Inr (fake_listing s))]\<rparr>)"
    by (simp add: map_err_def fake_defs)
  obtain k0 where "gui_attached ?X cfg (fake_listing s) \<lparr>world = (s, c), calls = k @ [Ps (Inr (fake_listing s))]\<rparr> =
      (fk_gui s \<and> fk_attached s, \<lparr>world = (s, c), calls = k0\<rparr>)"
    using fake_attached [OF assms(2), where s = s and c = c and k = "k @ [Ps (Inr (fake_listing s))]" and read_clock = read_clock and pass = pass] by blast
  then obtain k1 where needs: "infallible (needs_launch ?X cfg (fake_listing s)) \<lparr>world = (s, c), calls = k @ [Ps (Inr (fake_listing s))]\<rparr> =
      Some (Inr (restart_gui_on_initialize cfg \<or> \<not> (fk_gui s \<and> fk_attached s)), \<lparr>world = (s, c), calls = k1\<rparr>)"
    by (cases "restart_gui_on_initialize cfg") (auto simp: infallible_def needs_launch_def)
  show ?thesis
  proof (cases "fk_gui s")
    case True
    obtain k2 where quit: "quit_gui ?X cfg (fake_listing s) \<lparr>world = (s, c), calls = k1\<rparr> =
      Some (if fk_stubborn s
           then Inl (UserActionRequired ''ChatGPT ignored graceful quit; quit it manually. It was not force-killed.'')
           else Inr (), \<lparr>world = (fake_quit s, pass 100 c), calls = k2\<rparr>)"
      using fake_quit_ends [OF assms(1,2,4) True] by blast
    obtain k3 where "and_then (map_err UserActionRequired (launch_gui ?X cfg)) (\<lambda>_. wait_for_gui_attachment ?X cfg)
        \<lparr>world = (fake_quit s, pass 100 c), calls = k2\<rparr> =
      Some (Inr (), \<lparr>world = (relaunched s, pass 100 c), calls = k3\<rparr>)"
      using fake_relaunch [OF assms(2,3), of read_clock pass "fake_quit s" "pass 100 c" k2] True
      by (auto simp: relaunched_def fake_quit_def Let_def)
    with ps needs quit True show ?thesis by (auto simp: ensure_gui_def and_then_def ok_def)
  next
    case False
    then have "quit_gui ?X cfg (fake_listing s) \<lparr>world = (s, c), calls = k1\<rparr> = Some (Inr (), \<lparr>world = (s, c), calls = k1\<rparr>)"
      using assms(2) by (simp add: quit_gui_def fake_listed ok_def)
    with ps needs False fake_relaunch [OF assms(2,3), of read_clock pass s c k1] show ?thesis
      by (auto simp: ensure_gui_def and_then_def relaunched_def)
  qed
qed

definition daemon_started :: "FakeState \<Rightarrow> FakeState" where
  "daemon_started s = (if fk_daemon s then s else s\<lparr>fk_spawns := fk_spawns s @ [''/mock/codex''], fk_daemon := True\<rparr>)"

lemma fake_initialize:
  assumes "\<And>d c. read_clock c + d \<le> read_clock (pass d c)" "standalone_codex cfg = ''/mock/codex''"
    "gui_executable cfg = ''/mock/ChatGPT''" "0 < startup_timeout cfg" "graceful_quit_timeout cfg = 30"
    "fk_standalone s" "fk_compatible s"
  shows "\<exists>r h. initialize (fake_ops read_clock pass) cfg (fake_host s c) = Some (r, h) \<and>
    (if fk_gui s \<and> fk_stubborn s \<and> (restart_gui_on_initialize cfg \<or> \<not> fk_attached s)
     then \<exists>d. r = Inl (UserActionRequired d)
     else fake_after h = (if \<not> restart_gui_on_initialize cfg \<and> fk_gui s \<and> fk_attached s then daemon_started s
                          else relaunched (daemon_started s)) \<and>
       r = Inr \<lparr>daemon_ownership = (if fk_daemon s then Attached else Started), daemon_version = ''codex-cli 0.144.6'',
         state_gui_attached = True, daemon_left_running = True\<rparr>)"
proof -
  let ?X = "fake_ops read_clock pass"
  let ?s1 = "daemon_started s"
  let ?k0 = "[Exists ''/mock/codex'' True, Exists ''/mock/ChatGPT'' True, Ps (Inr (fake_listing s))]"
  have "\<exists>k'. claim_daemon ?X cfg (fake_listing s) \<lparr>world = (s, c), calls = ?k0\<rparr> =
      Some (Inr (if fk_daemon s then Attached else Started), \<lparr>world = (?s1, c), calls = k'\<rparr>)"
    using assms(2)
    by (simp add: claim_daemon_def and_then_def map_err_def ok_def start_daemon_def fake_defs fake_daemon_spawn daemon_started_def)
  then obtain k1 where claim: "claim_daemon ?X cfg (fake_listing s) \<lparr>world = (s, c), calls = ?k0\<rparr> =
      Some (Inr (if fk_daemon s then Attached else Started), \<lparr>world = (?s1, c), calls = k1\<rparr>)" by blast
  have same: "fk_compatible ?s1" "fk_gui ?s1 = fk_gui s" "fk_attached ?s1 = fk_attached s" "fk_stubborn ?s1 = fk_stubborn s"
    using assms(7) by (simp_all add: daemon_started_def)
  obtain k2 where version: "wait_for_daemon_version ?X cfg \<lparr>world = (?s1, c), calls = k1\<rparr> =
      Some (Inr ''codex-cli 0.144.6'', \<lparr>world = (?s1, c), calls = k2\<rparr>)"
    using fake_version [OF assms(4) same(1), of read_clock pass c k1] by (rule that)
  obtain r h where ensure: "ensure_gui ?X cfg \<lparr>world = (?s1, c), calls = k2\<rparr> = Some (r, h)"
    "if \<not> restart_gui_on_initialize cfg \<and> fk_gui s \<and> fk_attached s then r = Inr () \<and> fake_after h = ?s1
     else if fk_gui s \<and> fk_stubborn s then \<exists>d. r = Inl (UserActionRequired d)
     else r = Inr () \<and> fake_after h = relaunched ?s1"
    using fake_ensure [OF assms(1,3-5), of ?s1 c k2] by (auto simp: same)
  have paths: "require_path ?X ''/mock/codex'' e (fake_host s c) = Some (Inr (), \<lparr>world = (s, c), calls = [Exists ''/mock/codex'' True]\<rparr>)"
    "require_path ?X ''/mock/ChatGPT'' e \<lparr>world = (s, c), calls = [Exists ''/mock/codex'' True]\<rparr> =
       Some (Inr (), \<lparr>world = (s, c), calls = [Exists ''/mock/codex'' True, Exists ''/mock/ChatGPT'' True]\<rparr>)" for e
    using assms(6) by (simp_all add: require_path_def and_then_def infallible_def ok_def fake_defs)
  have "map_err Inspection (ps_environment ?X)
      \<lparr>world = (s, c), calls = [Exists ''/mock/codex'' True, Exists ''/mock/ChatGPT'' True]\<rparr> =
      Some (Inr (fake_listing s), \<lparr>world = (s, c), calls = ?k0\<rparr>)"
    by (simp add: map_err_def fake_defs)
  then have "initialize ?X cfg (fake_host s c) =
      (case r of Inl e \<Rightarrow> Some (Inl e, h)
       | Inr u \<Rightarrow> Some (Inr \<lparr>daemon_ownership = (if fk_daemon s then Attached else Started),
           daemon_version = ''codex-cli 0.144.6'', state_gui_attached = True, daemon_left_running = True\<rparr>, h))"
    by (simp add: initialize_def assms(2,3) and_then_def [of "require_path X p e" for X p e]
        and_then_def [of "map_err f m" for f m] and_then_def [of "claim_daemon X d p" for X d p]
        and_then_def [of "wait_for_daemon_version X d" for X d] and_then_def [of "ensure_gui X d" for X d]
        paths claim version ensure(1) ok_def split: sum.split)
  with ensure(2) show ?thesis by (cases r) (auto split: if_splits)
qed

section \<open>Property\<close>

text \<open>C26. The supervisor passes its own tests: run on the fake operating system of
  \<open>src/supervisor/src/lib.rs\<close>, whatever the clock reads as long as a sleep lasts, it attaches to what
  runs and leaves it running, starts a missing daemon and relaunches a GUI outside of daemon mode,
  relaunches an attached one when asked to (one quit, one launch), reports a GUI that ignores the
  quit instead of launching a second one, and its monitor restarts a daemon or a GUI that is gone and
  reports an incompatible daemon.\<close>

theorem supervisor_passes_its_tests:
  assumes clock: "\<And>d c. read_clock c + d \<le> read_clock (pass d c)"
  shows "accepted_socket_detection \<and> launch_services_receives_the_bundle \<and> children_run_in_their_own_group \<and>
    attaches_existing read_clock pass c \<and> starts_daemon_and_relaunches_gui read_clock pass c \<and>
    requested_restart_relaunches read_clock pass c \<and> stubborn_gui_is_never_killed read_clock pass c \<and>
    monitor_reports_restart_and_incompatibility read_clock pass c \<and> monitor_restarts_a_missing_gui read_clock pass c"
proof -
  have cfg: "standalone_codex fake_config = ''/mock/codex''" "gui_executable fake_config = ''/mock/ChatGPT''"
    "0 < startup_timeout fake_config" "graceful_quit_timeout fake_config = 30" "\<not> restart_gui_on_initialize fake_config"
    by (simp_all add: fake_config_def)
  note init = fake_initialize [OF clock, of fake_config _ c] fake_initialize [OF clock, of "fake_config\<lparr>restart_gui_on_initialize := True\<rparr>" _ c]
  let ?all = "default_fake\<lparr>fk_standalone := True, fk_gui := True, fk_daemon := True, fk_attached := True, fk_compatible := True\<rparr>"
  have "attaches_existing read_clock pass c"
    using init(1) [of ?all] cfg by (auto simp: attaches_existing_def shutdown_state_def default_fake_def Let_def)
  moreover have "starts_daemon_and_relaunches_gui read_clock pass c"
    using init(1) [of "default_fake\<lparr>fk_standalone := True, fk_gui := True, fk_compatible := True\<rparr>"] cfg
    by (auto simp: starts_daemon_and_relaunches_gui_def default_fake_def Let_def relaunched_def)
  moreover have "requested_restart_relaunches read_clock pass c"
    using init(2) [of ?all] cfg
    by (auto simp: requested_restart_relaunches_def default_fake_def Let_def relaunched_def daemon_started_def fake_quit_def shutdown_state_def)
  moreover have "stubborn_gui_is_never_killed read_clock pass c"
    using init(1) [of "default_fake\<lparr>fk_standalone := True, fk_gui := True, fk_daemon := True, fk_stubborn := True, fk_compatible := True\<rparr>"] cfg
    by (auto simp: stubborn_gui_is_never_killed_def default_fake_def Let_def)
  moreover have "monitor_reports_restart_and_incompatibility read_clock pass c"
    using cfg by (simp add: monitor_reports_restart_and_incompatibility_def check_def default_fake_def start_daemon_def probe_version_def
      fake_defs fake_daemon_spawn Let_def fake_output_def)
  moreover have "monitor_restarts_a_missing_gui read_clock pass c"
    using cfg by (simp add: monitor_restarts_a_missing_gui_def check_def default_fake_def probe_version_def gui_attached_def fake_launch
      fake_defs Let_def fake_output_def)
  ultimately show ?thesis
    using fake_accepted fake_one_line bundle_of_gui(2)
    by (simp add: accepted_socket_detection_def children_run_in_their_own_group_def child_command_def)
qed

theorem supervisor_passes_its_tests_witness:
  "requested_restart_relaunches (\<lambda>c. c) (+) 0 \<and> stubborn_gui_is_never_killed (\<lambda>c. c) (+) 0"
  using supervisor_passes_its_tests [of "\<lambda>c. c" "(+)" 0] by simp

end
