(* ===== verification/Json_Text.thy ===== *)
theory Json_Text
  imports Json_Api
begin

text \<open>
  A text for the values of the instance, and its reader: what a program writes with
  \<open>Value::to_string\<close> it reads back. The sources rely on no more than that, so the text is one that is
  easily read: every value begins with its kind, and strings and numbers with their length.
\<close>

section \<open>Writing\<close>

definition unary :: "nat \<Rightarrow> string" where
  "unary n = replicate n CHR ''1'' @ ''.''"

definition write_str :: "string \<Rightarrow> string" where
  "write_str s = unary (length s) @ s"

fun write_jv :: "jv \<Rightarrow> string" where
  "write_jv JNull = ''n''"
| "write_jv (JBool b) = (if b then ''t'' else ''f'')"
| "write_jv (JNum n) = CHR ''u'' # unary (unat n)"
| "write_jv (JStr s) = CHR ''s'' # write_str s"
| "write_jv (JArr vs) = CHR ''['' # concat (map write_jv vs) @ '']''"
| "write_jv (JObj kvs) = CHR ''{'' # concat (map (\<lambda>(k, v). CHR '':'' # write_str k @ write_jv v) kvs) @ ''}''"

section \<open>Reading\<close>

fun scan_unary :: "string \<Rightarrow> (nat \<times> string) option" where
  "scan_unary (c # cs) =
     (if c = CHR ''.'' then Some (0, cs)
      else if c = CHR ''1'' then map_option (\<lambda>(n, rest). (Suc n, rest)) (scan_unary cs) else None)"
| "scan_unary [] = None"

definition scan_str :: "string \<Rightarrow> (string \<times> string) option" where
  "scan_str cs =
     (case scan_unary cs of None \<Rightarrow> None
      | Some (n, rest) \<Rightarrow> if n \<le> length rest then Some (take n rest, drop n rest) else None)"

text \<open>The first argument bounds the depth of the calls; the length of the text is enough.\<close>

fun scan_jv :: "nat \<Rightarrow> string \<Rightarrow> (jv \<times> string) option"
  and scan_items :: "nat \<Rightarrow> string \<Rightarrow> (jv list \<times> string) option"
  and scan_members :: "nat \<Rightarrow> string \<Rightarrow> ((string \<times> jv) list \<times> string) option" where
  "scan_jv (Suc n) (c # cs) =
     (if c = CHR ''n'' then Some (JNull, cs)
      else if c = CHR ''t'' then Some (JBool True, cs)
      else if c = CHR ''f'' then Some (JBool False, cs)
      else if c = CHR ''u'' then map_option (\<lambda>(k, rest). (JNum (word_of_nat k), rest)) (scan_unary cs)
      else if c = CHR ''s'' then map_option (\<lambda>(s, rest). (JStr s, rest)) (scan_str cs)
      else if c = CHR ''['' then map_option (\<lambda>(vs, rest). (JArr vs, rest)) (scan_items n cs)
      else if c = CHR ''{'' then map_option (\<lambda>(kvs, rest). (JObj kvs, rest)) (scan_members n cs)
      else None)"
| "scan_jv _ _ = None"
| "scan_items (Suc n) (c # cs) =
     (if c = CHR '']'' then Some ([], cs)
      else case scan_jv n (c # cs) of None \<Rightarrow> None
           | Some (v, rest) \<Rightarrow> map_option (\<lambda>(vs, rest'). (v # vs, rest')) (scan_items n rest))"
| "scan_items _ _ = None"
| "scan_members (Suc n) (c # cs) =
     (if c = CHR ''}'' then Some ([], cs)
      else if c = CHR '':'' then
        (case scan_str cs of None \<Rightarrow> None
         | Some (k, rest) \<Rightarrow>
             (case scan_jv n rest of None \<Rightarrow> None
              | Some (v, rest') \<Rightarrow> map_option (\<lambda>(kvs, rest''). ((k, v) # kvs, rest'')) (scan_members n rest')))
      else None)"
| "scan_members _ _ = None"

definition read_jv :: "string \<Rightarrow> string + jv" where
  "read_jv t = (case scan_jv (length t) t of Some (v, []) \<Rightarrow> Inr v | _ \<Rightarrow> Inl ''not a value'')"

section \<open>What is written is read back\<close>

lemma scan_unary_back [simp]: "scan_unary (unary n @ rest) = Some (n, rest)"
  by (induction n) (simp_all add: unary_def)

lemma scan_str_back [simp]: "scan_str (write_str s @ rest) = Some (s, rest)"
  by (simp add: scan_str_def write_str_def)

lemma write_not_empty: "\<exists>c cs. write_jv v = c # cs \<and> c \<noteq> CHR '']''"
  by (cases v) auto

lemma scan_items_back:
  assumes "\<And>v n rest. v \<in> set vs \<Longrightarrow> length (write_jv v) \<le> n \<Longrightarrow> scan_jv n (write_jv v @ rest) = Some (v, rest)"
    and "length (concat (map write_jv vs)) + 1 \<le> n"
  shows "scan_items n (concat (map write_jv vs) @ CHR '']'' # rest) = Some (vs, rest)"
  using assms
proof (induction vs arbitrary: n)
  case Nil
  then show ?case by (cases n) simp_all
next
  case (Cons v vs)
  then obtain m where m: "n = Suc m" by (cases n) simp_all
  obtain c cs where c: "write_jv v = c # cs" "c \<noteq> CHR '']''" using write_not_empty by blast
  have "length (write_jv v) \<le> m" "length (concat (map write_jv vs)) + 1 \<le> m"
    using Cons.prems(2) c(1) by (simp_all add: m)
  with Cons.prems(1) [of v m "concat (map write_jv vs) @ CHR '']'' # rest"] Cons.IH [of m] Cons.prems(1) c
  show ?case by (simp add: m)
qed

lemma scan_members_back:
  assumes "\<And>k v n rest. (k, v) \<in> set kvs \<Longrightarrow> length (write_jv v) \<le> n \<Longrightarrow> scan_jv n (write_jv v @ rest) = Some (v, rest)"
    and "length (concat (map (\<lambda>(k, v). CHR '':'' # write_str k @ write_jv v) kvs)) + 1 \<le> n"
  shows "scan_members n (concat (map (\<lambda>(k, v). CHR '':'' # write_str k @ write_jv v) kvs) @ CHR ''}'' # rest) = Some (kvs, rest)"
  using assms
proof (induction kvs arbitrary: n)
  case Nil
  then show ?case by (cases n) simp_all
next
  case (Cons kv kvs)
  obtain k v where kv: "kv = (k, v)" by fastforce
  obtain m where m: "n = Suc m" using Cons.prems(2) by (cases n) simp_all
  let ?more = "concat (map (\<lambda>(k, v). CHR '':'' # write_str k @ write_jv v) kvs) @ CHR ''}'' # rest"
  have "length (write_jv v) \<le> m" using Cons.prems(2) by (simp add: m kv)
  then have "scan_jv m (write_jv v @ ?more) = Some (v, ?more)" by (intro Cons.prems(1) [of k]) (simp_all add: kv)
  moreover have "length (concat (map (\<lambda>(k, v). CHR '':'' # write_str k @ write_jv v) kvs)) + 1 \<le> m"
    using Cons.prems(2) by (simp add: m kv)
  then have "scan_members m ?more = Some (kvs, rest)"
  proof (rule Cons.IH [rotated])
    show "scan_jv n' (write_jv v' @ rest') = Some (v', rest')"
      if "(k', v') \<in> set kvs" "length (write_jv v') \<le> n'" for k' v' n' rest'
      by (rule Cons.prems(1) [of k']) (use that in simp_all)
  qed
  ultimately show ?case by (simp add: m kv)
qed

lemma scan_jv_back: "length (write_jv v) \<le> n \<Longrightarrow> scan_jv n (write_jv v @ rest) = Some (v, rest)"
proof (induction v arbitrary: n rest)
  case (JArr vs)
  then obtain m where m: "n = Suc m" by (cases n) simp_all
  have "scan_items m (concat (map write_jv vs) @ CHR '']'' # rest) = Some (vs, rest)"
    by (rule scan_items_back) (use JArr m in simp_all)
  then show ?case by (simp add: m)
next
  case (JObj kvs)
  then obtain m where m: "n = Suc m" by (cases n) simp_all
  have "scan_members m (concat (map (\<lambda>(k, v). CHR '':'' # write_str k @ write_jv v) kvs) @ CHR ''}'' # rest) = Some (kvs, rest)"
    by (rule scan_members_back) (use JObj m in \<open>fastforce+\<close>)
  then show ?case by (simp add: m)
next
  case (JNum x)
  then obtain m where "n = Suc m" by (cases n) (simp_all add: unary_def)
  then show ?case by simp
next
  case (JStr s)
  then obtain m where "n = Suc m" by (cases n) simp_all
  then show ?case by simp
next
  case (JBool b)
  then obtain m where "n = Suc m" by (cases n; cases b) simp_all
  then show ?case by simp
next
  case JNull
  then obtain m where "n = Suc m" by (cases n) simp_all
  then show ?case by simp
qed

text \<open>The instance with this text.\<close>

definition text_api :: "jv json" where
  "text_api = jv_api\<lparr>to_text := write_jv\<rparr>"

lemma text_api_simps [simp]:
  "get text_api = jv_get" "as_str text_api = jv_as_str" "as_array text_api = jv_as_array"
  "as_bool text_api = jv_as_bool" "as_u64 text_api = jv_as_u64" "jnull text_api = JNull"
  "jstr text_api = JStr" "jnum text_api = JNum" "jbool text_api = JBool" "jarr text_api = JArr"
  "jobj text_api = JObj" "to_text text_api = write_jv"
  by (simp_all add: text_api_def)

lemma text_api_laws [simp]: "json_laws text_api"
  by (simp add: json_laws_def)

lemma reads_what_it_writes [simp]: "read_jv (write_jv v) = Inr v"
  using scan_jv_back [of v "length (write_jv v)" "[]"] by (simp add: read_jv_def)

end
