(* ===== verification/Component_Tests.thy ===== *)
theory Component_Tests
  imports Ingest Control Json_Text
begin

text \<open>
  The unit tests of the protocol, the reducer, the store, the hub, the ingress and the controller
  (the modules \<open>tests\<close> of their crates): each test as a function that computes whether its
  assertions hold, and the theorem that they all do, for every lawful JSON library, every
  serialisation of the sizes the store's test supposes and every reading of the clock.
\<close>

section \<open>Events of the tests\<close>

text \<open>\<open>wall\<close> reads the system clock; a value that does not parse is a panic, \<open>None\<close>.\<close>

definition event_of :: "'v json \<Rightarrow> (u64 \<Rightarrow> nat) \<Rightarrow> u64 \<Rightarrow> nat \<Rightarrow> 'v \<Rightarrow> 'v SequencedEvent option" where
  "event_of J wall sq d raw =
     (case parse J raw of Inl e \<Rightarrow> None | Inr f \<Rightarrow> Some (from_frame J (wall sq) sq d f))"

definition thread_event :: "'v json \<Rightarrow> (u64 \<Rightarrow> nat) \<Rightarrow> u64 \<Rightarrow> string \<Rightarrow> string \<Rightarrow> 'v SequencedEvent option" where
  "thread_event J wall sq m t =
     event_of J wall sq (unat sq)
       (jobj J [(''jsonrpc'', jstr J ''2.0''), (''method'', jstr J m),
          (''params'', jobj J [(''threadId'', jstr J t)])])"

definition turn_event :: "'v json \<Rightarrow> (u64 \<Rightarrow> nat) \<Rightarrow> u64 \<Rightarrow> string \<Rightarrow> string \<Rightarrow> string \<Rightarrow> 'v SequencedEvent option" where
  "turn_event J wall sq m t u =
     event_of J wall 1 (unat sq)
       (jobj J [(''jsonrpc'', jstr J ''2.0''), (''method'', jstr J m),
          (''params'', jobj J [(''threadId'', jstr J t), (''turn'', jobj J [(''id'', jstr J u)])])])"

definition data_event :: "'v json \<Rightarrow> (u64 \<Rightarrow> nat) \<Rightarrow> u64 \<Rightarrow> string \<Rightarrow> string \<Rightarrow> 'v SequencedEvent option" where
  "data_event J wall sq m d =
     event_of J wall sq (unat sq)
       (jobj J [(''method'', jstr J m), (''params'', jobj J [(''threadId'', jstr J ''t''), (''data'', jstr J d)])])"

definition hub_event :: "'v json \<Rightarrow> (u64 \<Rightarrow> nat) \<Rightarrow> u64 \<Rightarrow> string \<Rightarrow> 'v SequencedEvent option" where
  "hub_event J wall sq m =
     event_of J wall sq (unat sq)
       (jobj J [(''method'', jstr J m), (''params'', jobj J [(''threadId'', jstr J ''t'')])])"

text \<open>\<open>format!("{n}")\<close>.\<close>

fun decimal :: "nat \<Rightarrow> string" where
  "decimal n = (if n < 10 then [] else decimal (n div 10)) @ [char_of (48 + n mod 10)]"

declare decimal.simps [simp del]

section \<open>Protocol\<close>

definition unknown_server_request_is_raw_and_answerless :: "'v json \<Rightarrow> bool" where
  "unknown_server_request_is_raw_and_answerless J =
     (let raw = jobj J [(''jsonrpc'', jstr J ''2.0''), (''id'', jnum J 7), (''method'', jstr J ''future/review''),
                  (''params'', jobj J [(''x'', jnum J 1)])]
      in case parse J raw of
           Inl e \<Rightarrow> False
         | Inr f \<Rightarrow> is_server_request f \<and> frame_raw f = raw)"

section \<open>Reducer\<close>

text \<open>The events in order, applied; a panic is \<open>None\<close>.\<close>

definition applies :: "'v json \<Rightarrow> 'v SequencedEvent option list \<Rightarrow> 'v Reducer \<Rightarrow> 'v Reducer option" where
  "applies J es r = map_option (\<lambda>es. foldl (\<lambda>r e. apply_event J e r) r es) (those es)"

definition retained_replay_and_gap_are_honest :: "'v json \<Rightarrow> (u64 \<Rightarrow> nat) \<Rightarrow> bool" where
  "retained_replay_and_gap_are_honest J wall =
     is_some_and (Option.bind (new_reducer 2)
       (applies J (map (\<lambda>n. thread_event J wall (of_nat n) ''thread/status/changed'' ''t'') [1 ..< 4])))
       (\<lambda>r. (case events_since r 1 of Events v \<Rightarrow> length v = 2 | _ \<Rightarrow> False) \<and>
            (case events_since r 0 of GapTooOld rq old sn \<Rightarrow> old = Some 2 | _ \<Rightarrow> False))"

definition idle_global_noise_is_pruned_inline :: "'v json \<Rightarrow> (u64 \<Rightarrow> nat) \<Rightarrow> bool" where
  "idle_global_noise_is_pruned_inline J wall =
     is_some_and (Option.bind default_reducer
       (applies J (map (\<lambda>n. thread_event J wall (of_nat n) ''thread/status/changed'' (''idle'' @ decimal n)) [1 ..< 51])))
       (\<lambda>r. threads (snapshot r) = Map.empty)"

definition subscription_setup_and_active_turns_survive :: "'v json \<Rightarrow> (u64 \<Rightarrow> nat) \<Rightarrow> bool" where
  "subscription_setup_and_active_turns_survive J wall =
     is_some_and (Option.bind default_reducer
       (\<lambda>r. applies J [thread_event J wall 100 ''thread/status/changed'' ''subscribing'']
              (begin_subscription ''subscribing'' r)))
       (\<lambda>r1. ''subscribing'' \<in> dom (threads (snapshot r1)) \<and>
          is_some_and (applies J [thread_event J wall 101 ''thread/status/changed'' ''subscribing'',
              turn_event J wall 200 ''turn/started'' ''act'' ''t9''] (finish_subscription ''subscribing'' r1))
            (\<lambda>r2. is_some_and (threads (snapshot r2) ''subscribing'') subscribed \<and>
                  ''act'' \<in> dom (threads (snapshot r2))))"

definition authoritative_waiter_fires_without_broadcast :: "'v json \<Rightarrow> (u64 \<Rightarrow> nat) \<Rightarrow> bool" where
  "authoritative_waiter_fires_without_broadcast J wall =
     is_some_and default_reducer (\<lambda>r.
       case register_waiter (\<lambda>e. event_method e = Some ''turn/completed'') r of
         (rx, r1) \<Rightarrow>
           is_some_and (applies J [thread_event J wall 1 ''turn/completed'' ''t''] r1)
             (\<lambda>r2. is_some_and (mailbox r2 rx) (\<lambda>e. sequence e = 1)))"

section \<open>Store\<close>

definition hard_cap_prefers_delta_eviction ::
    "'v json \<Rightarrow> (u64 \<Rightarrow> nat) \<Rightarrow> ('v SequencedEvent \<Rightarrow> 8 word list option) \<Rightarrow>
     ('v Inner \<Rightarrow> (string \<times> nat) list) \<Rightarrow> bool" where
  "hard_cap_prefers_delta_eviction J wall S it =
     (case (data_event J wall 1 ''item/output/delta'' (replicate 500 CHR ''x''),
            data_event J wall 2 ''turn/completed'' (replicate 500 CHR ''y''),
            data_event J wall 3 ''turn/completed'' (replicate 500 CHR ''z'')) of
        (Some sample, Some e2, Some e3) \<Rightarrow>
          (let size = encoded_len S sample;
               cfg = default_store_config\<lparr>global_bytes := size * 2, per_thread_bytes := size * 2\<rparr>
           in is_some_and (Option.bind (Option.bind (record_locked cfg S it new_store sample)
                (\<lambda>s. record_locked cfg S it s e2)) (\<lambda>s. record_locked cfg S it s e3))
                (\<lambda>s. bytes s \<le> size * 2 \<and>
                   is_some_and (q_gap (query_sequence s (Some ''t'') 0 None))
                     (\<lambda>g. summarized_delta_events g \<ge> 1)))
      | _ \<Rightarrow> False)"

section \<open>Streaming\<close>

text \<open>
  What the receiver yields is the runtime library's: on a channel of capacity one with three
  values sent and none received, a lag of two.
\<close>

definition lifecycle_lag_recovers :: "'v json \<Rightarrow> (u64 \<Rightarrow> nat) \<Rightarrow> 'v SequencedEvent recv_outcome \<Rightarrow> bool" where
  "lifecycle_lag_recovers J wall outcome =
     (case those (map (\<lambda>n. hub_event J wall (of_nat n) ''turn/completed'') [1 ..< 4]) of
        None \<Rightarrow> False
      | Some es \<Rightarrow>
          (case new_reducer 8 of
             None \<Rightarrow> False
           | Some r0 \<Rightarrow>
               (let (r, h) = foldl (\<lambda>(r, h) e. (apply_event J e r, publish e h)) (r0, new_hub) es
                in case fst (lifecycle_recv (events_since r) outcome (lifecycle_stream 0)) of
                     Replay v \<Rightarrow> length v = 3
                   | _ \<Rightarrow> False)))"

section \<open>The ingress\<close>

definition ingress_does_not_accumulate_idle_noise :: "'v parts \<Rightarrow> (u64 \<Rightarrow> nat) \<Rightarrow> bool" where
  "ingress_does_not_accumulate_idle_noise P wall =
     (let J = api P;
          event = (\<lambda>n. event_of J wall (of_nat n) n
            (jobj J [(''jsonrpc'', jstr J ''2.0''), (''method'', jstr J ''thread/status/changed''),
               (''params'', jobj J [(''threadId'', jstr J (''idle-'' @ decimal n)),
                  (''status'', jobj J [(''type'', jstr J (if n mod 2 = 0 then ''active'' else ''idle''))])])]))
      in is_some_and default_reducer (\<lambda>r.
           is_some_and (Option.bind (those (map event [1 ..< 101]))
             (\<lambda>es. ingress_run P es \<lparr>in_reducer = r, in_store = new_store, in_hub = new_hub\<rparr>))
             (\<lambda>g. threads (snapshot (in_reducer g)) = Map.empty)))"

section \<open>Control\<close>

text \<open>The clients of the tests: the answer of a request, and what they do to the reducer first.\<close>

definition completing_action ::
    "'v json \<Rightarrow> nat \<Rightarrow> string \<Rightarrow> 'v \<Rightarrow> ('v answer \<times> 'v reducer_op list) option" where
  "completing_action J wall m params =
     (if m = ''turn/interrupt''
      then map_option (\<lambda>e. (Inr (jnull J), [Apply e]))
             (event_of J (\<lambda>_. wall) 4 0
                (jobj J [(''method'', jstr J ''turn/completed''),
                   (''params'', jobj J [(''threadId'', index J params ''threadId''),
                      (''turn'', jobj J [(''id'', index J params ''turnId'')])])]))
      else Some (Inr (jnull J), []))"

definition ambiguous_action :: "string \<Rightarrow> 'v answer" where
  "ambiguous_action m = Inl (WrittenOutcomeUnknown (Number 9) m ''closed'')"

definition completion_before_response_confirms :: "'v json \<Rightarrow> (RpcId \<Rightarrow> string) \<Rightarrow> nat \<Rightarrow> bool" where
  "completion_before_response_confirms J D wall =
     is_some_and default_reducer (\<lambda>r.
       is_some_and (completing_action J wall ''turn/interrupt'' (interrupt_params J ''thread'' ''turn'')) (\<lambda>(a, during).
         (case interrupt J D (default_control_config\<lparr>correlation_window := 50\<rparr>) ''thread'' ''turn'' [a] during
                 (new_controller r) of
            Some (Confirmed target evidence, rest, c) \<Rightarrow> observed_sequence evidence = Some 4
          | _ \<Rightarrow> False)))"

definition ambiguous_start_and_steer_are_never_confirmed :: "'v json \<Rightarrow> (RpcId \<Rightarrow> string) \<Rightarrow> bool" where
  "ambiguous_start_and_steer_are_never_confirmed J D =
     is_some_and default_reducer (\<lambda>r.
       (case start J D default_control_config ''t'' [] [ambiguous_action ''turn/start''] [] (new_controller r) of
          Some (OutcomeUnknown target evidence, rest, c) \<Rightarrow>
            (case steer J D default_control_config ''t'' ''turn'' [] [ambiguous_action ''turn/steer''] c of
               Some (OutcomeUnknown target evidence, rest, c) \<Rightarrow> True
             | _ \<Rightarrow> False)
        | _ \<Rightarrow> False))"

section \<open>They hold\<close>


lemma event_of_notification:
  assumes "json_laws J" "distinct (map fst kvs)" "map_of kvs ''id'' = None" "map_of kvs ''method'' = Some (jstr J m)"
    "map_of kvs ''params'' = Some p"
  shows "\<exists>e. event_of J wall sq d (jobj J kvs) = Some e \<and> sequence e = sq \<and> monotonic_ms e = millis_u64 d \<and>
    event_method e = Some m \<and> frame_params (frame e) = Some p \<and> plane e = plane_for_method m \<and>
    thread_id e = extract_thread_id J p \<and> turn_id e = extract_turn_id J p \<and> \<not> reconstructed e"
  using assms by (simp add: event_of_def parse_def json_get_obj get_str_def)

lemma thread_event:
  assumes "json_laws J"
  shows "\<exists>e. thread_event J wall sq m t = Some e \<and> sequence e = sq \<and> event_method e = Some m \<and>
    frame_params (frame e) = Some (jobj J [(''threadId'', jstr J t)]) \<and> plane e = plane_for_method m \<and>
    thread_id e = Some t \<and> turn_id e = None"
  unfolding thread_event_def
  using event_of_notification [OF assms, of "[(''jsonrpc'', jstr J ''2.0''), (''method'', jstr J m),
      (''params'', jobj J [(''threadId'', jstr J t)])]" m _ wall sq "unat sq"] assms
  by (auto simp: extract_thread_id_def extract_turn_id_def get_str_def get_path_def json_get_obj)

lemma turn_event:
  assumes "json_laws J"
  shows "\<exists>e. turn_event J wall sq m t u = Some e \<and> sequence e = 1 \<and> event_method e = Some m \<and>
    plane e = plane_for_method m \<and> thread_id e = Some t \<and> turn_id e = Some u"
  unfolding turn_event_def
  using event_of_notification [OF assms, of "[(''jsonrpc'', jstr J ''2.0''), (''method'', jstr J m),
      (''params'', jobj J [(''threadId'', jstr J t), (''turn'', jobj J [(''id'', jstr J u)])])]" m _ wall 1 "unat sq"] assms
  by (auto simp: extract_thread_id_def extract_turn_id_def get_str_def get_path_def json_get_obj)

lemma data_event:
  assumes "json_laws J"
  shows "\<exists>e. data_event J wall sq m d = Some e \<and> sequence e = sq \<and> monotonic_ms e = millis_u64 (unat sq) \<and>
    event_method e = Some m \<and> plane e = plane_for_method m \<and> thread_id e = Some ''t''"
  unfolding data_event_def
  using event_of_notification [OF assms, of "[(''method'', jstr J m),
      (''params'', jobj J [(''threadId'', jstr J ''t''), (''data'', jstr J d)])]" m _ wall sq "unat sq"] assms
  by (auto simp: extract_thread_id_def get_str_def get_path_def json_get_obj)

lemma hub_event:
  assumes "json_laws J"
  shows "\<exists>e. hub_event J wall sq m = Some e \<and> sequence e = sq \<and> event_method e = Some m \<and> plane e = plane_for_method m"
  unfolding hub_event_def
  using event_of_notification [OF assms, of "[(''method'', jstr J m),
      (''params'', jobj J [(''threadId'', jstr J ''t'')])]" m _ wall sq "unat sq"] assms
  by auto

lemma planes [simp]:
  "plane_for_method ''thread/status/changed'' = Lifecycle" "plane_for_method ''turn/completed'' = Lifecycle"
  "plane_for_method ''turn/started'' = Lifecycle" "plane_for_method ''item/output/delta'' = Delta"
  by (simp_all add: plane_for_method_def starts_with_def ends_with_def)

text \<open>An event that starts no turn, on a thread nobody subscribes to, leaves no trace among the threads.\<close>

lemma noise_pruned:
  assumes "threads (snapshot r) = Map.empty" "subscribing r = {}" "event_method e = Some ''thread/status/changed''"
  shows "threads (snapshot (apply_state J e r)) = Map.empty"
  using assms
  by (auto simp: apply_state_def update_thread_def thread_entry_def unknown_thread_def is_prunable_def Let_def
      split: option.split)

lemma noise_pruned_all:
  assumes "threads (snapshot r) = Map.empty" "subscribing r = {}"
    "list_all (\<lambda>e. event_method e = Some ''thread/status/changed'') es"
  shows "threads (snapshot (foldl (\<lambda>r e. apply_event J e r) r es)) = Map.empty"
  using assms by (induction es arbitrary: r) (simp_all add: noise_pruned)

lemma those_map:
  assumes "\<And>x. x \<in> set xs \<Longrightarrow> \<exists>e. f x = Some e \<and> Q e"
  shows "\<exists>es. those (map f xs) = Some es \<and> list_all Q es"
  using assms
proof (induction xs)
  case (Cons x xs)
  then obtain e es where "f x = Some e" "Q e" "those (map f xs) = Some es" "list_all Q es" by fastforce
  then show ?case by simp
qed simp

text \<open>
  The lines of \<open>recorded-inner-messages.ndjson\<close>, in their order; \<open>code\<close> and \<open>percent\<close> stand for the two
  numbers that are not natural ones. \<open>decode\<close> is \<open>serde_json::from_slice\<close>.
\<close>

definition recorded_inner_messages :: "'v json \<Rightarrow> 'v \<Rightarrow> 'v \<Rightarrow> 'v list" where
  "recorded_inner_messages J code percent =
     [jobj J [(''jsonrpc'', jstr J ''2.0''), (''id'', jnum J 1), (''method'', jstr J ''initialize''),
        (''params'', jobj J [(''clientInfo'', jobj J [(''name'', jstr J ''fixture-client''),
        (''title'', jstr J ''Fixture Client''), (''version'', jstr J ''0.1.0'')]),
        (''capabilities'', jobj J [])])],
      jobj J [(''jsonrpc'', jstr J ''2.0''), (''id'', jnum J 1),
        (''result'', jobj J [(''userAgent'', jstr J ''codex-fixture'')])],
      jobj J [(''jsonrpc'', jstr J ''2.0''), (''id'', jnum J 2), (''error'', jobj J [(''code'', code),
        (''message'', jstr J ''fixture rejection'')])],
      jobj J [(''jsonrpc'', jstr J ''2.0''), (''method'', jstr J ''initialized''), (''params'', jobj J [])],
      jobj J [(''jsonrpc'', jstr J ''2.0''), (''method'', jstr J ''thread/started''),
        (''params'', jobj J [(''thread'', jobj J [(''id'', jstr J ''thread-fixture''),
        (''status'', jobj J [(''type'', jstr J ''idle'')]), (''ephemeral'', jbool J False)])])],
      jobj J [(''jsonrpc'', jstr J ''2.0''), (''method'', jstr J ''thread/status/changed''),
        (''params'', jobj J [(''threadId'', jstr J ''thread-fixture''),
        (''status'', jobj J [(''type'', jstr J ''active'')])])],
      jobj J [(''jsonrpc'', jstr J ''2.0''), (''method'', jstr J ''turn/started''),
        (''params'', jobj J [(''threadId'', jstr J ''thread-fixture''),
        (''turn'', jobj J [(''id'', jstr J ''turn-fixture''), (''status'', jstr J ''inProgress'')])])],
      jobj J [(''jsonrpc'', jstr J ''2.0''), (''method'', jstr J ''item/started''),
        (''params'', jobj J [(''threadId'', jstr J ''thread-fixture''), (''turnId'', jstr J ''turn-fixture''),
        (''item'', jobj J [(''id'', jstr J ''item-fixture''), (''type'', jstr J ''agentMessage'')])])],
      jobj J [(''jsonrpc'', jstr J ''2.0''), (''method'', jstr J ''item/agentMessage/delta''),
        (''params'', jobj J [(''threadId'', jstr J ''thread-fixture''), (''turnId'', jstr J ''turn-fixture''),
        (''itemId'', jstr J ''item-fixture''), (''delta'', jstr J ''fixture text'')])],
      jobj J [(''jsonrpc'', jstr J ''2.0''), (''method'', jstr J ''turn/diff/updated''),
        (''params'', jobj J [(''threadId'', jstr J ''thread-fixture''), (''turnId'', jstr J ''turn-fixture''),
        (''diff'', jstr J ''fixture diff'')])],
      jobj J [(''jsonrpc'', jstr J ''2.0''), (''method'', jstr J ''item/completed''),
        (''params'', jobj J [(''threadId'', jstr J ''thread-fixture''), (''turnId'', jstr J ''turn-fixture''),
        (''item'', jobj J [(''id'', jstr J ''item-fixture''), (''type'', jstr J ''agentMessage'')])])],
      jobj J [(''jsonrpc'', jstr J ''2.0''), (''method'', jstr J ''turn/completed''),
        (''params'', jobj J [(''threadId'', jstr J ''thread-fixture''),
        (''turn'', jobj J [(''id'', jstr J ''turn-fixture''), (''status'', jstr J ''completed'')])])],
      jobj J [(''jsonrpc'', jstr J ''2.0''), (''id'', jstr J ''approval-fixture''),
        (''method'', jstr J ''item/commandExecution/requestApproval''),
        (''params'', jobj J [(''threadId'', jstr J ''thread-fixture''), (''turnId'', jstr J ''turn-fixture''),
        (''itemId'', jstr J ''item-fixture''), (''reason'', jstr J ''fixture approval'')])],
      jobj J [(''jsonrpc'', jstr J ''2.0''), (''id'', jstr J ''input-fixture''),
        (''method'', jstr J ''item/tool/requestUserInput''),
        (''params'', jobj J [(''threadId'', jstr J ''thread-fixture''), (''turnId'', jstr J ''turn-fixture''),
        (''itemId'', jstr J ''item-fixture''), (''questions'', jarr J [])])],
      jobj J [(''jsonrpc'', jstr J ''2.0''), (''method'', jstr J ''thread/tokenUsage/updated''),
        (''params'', jobj J [(''threadId'', jstr J ''thread-fixture''), (''turnId'', jstr J ''turn-fixture''),
        (''tokenUsage'', jobj J [(''total'', jobj J [(''totalTokens'', jnum J 42)])])])],
      jobj J [(''jsonrpc'', jstr J ''2.0''), (''method'', jstr J ''account/rateLimits/updated''),
        (''params'', jobj J [(''rateLimits'', jobj J [(''primary'', jobj J [(''usedPercent'', percent)])])])],
      jobj J [(''jsonrpc'', jstr J ''2.0''), (''method'', jstr J ''process/outputDelta''),
        (''params'', jobj J [(''processId'', jstr J ''process-fixture''), (''stream'', jstr J ''stdout''),
        (''delta'', jstr J ''fixture output'')])],
      jobj J [(''jsonrpc'', jstr J ''2.0''), (''method'', jstr J ''future/unknownNotification''),
        (''params'', jobj J [(''threadId'', jstr J ''thread-fixture''),
        (''payload'', jobj J [(''preserved'', jbool J True)])])]]"

definition sanitized_recorded_inner_messages_round_trip_without_loss ::
    "'v json \<Rightarrow> (string \<Rightarrow> string + 'v) \<Rightarrow> 'v list \<Rightarrow> bool" where
  "sanitized_recorded_inner_messages_round_trip_without_loss J decode messages \<longleftrightarrow>
     list_all (\<lambda>message.
       case parse J message of
         Inl e \<Rightarrow> False
       | Inr f \<Rightarrow> frame_raw f = message \<and> decode (to_text J (frame_raw f)) = Inr message) messages \<and>
     18 \<le> length messages"

lemma recorded_test:
  assumes "json_laws J" "\<And>v. decode (to_text J v) = Inr v"
  shows "sanitized_recorded_inner_messages_round_trip_without_loss J decode (recorded_inner_messages J code percent)"
  using assms(1)
  by (simp add: sanitized_recorded_inner_messages_round_trip_without_loss_def recorded_inner_messages_def assms(2) parse_def
      json_get_obj get_str_def rpc_id_from_value_def split: option.split)

lemma protocol_test: "json_laws J \<Longrightarrow> unknown_server_request_is_raw_and_answerless J"
  by (simp add: unknown_server_request_is_raw_and_answerless_def parse_def json_get_obj get_str_def
      rpc_id_from_value_def split: option.split)

lemma noise_test: "json_laws J \<Longrightarrow> idle_global_noise_is_pruned_inline J wall"
proof -
  assume J: "json_laws J"
  have "\<exists>es. those (map (\<lambda>n. thread_event J wall (of_nat n) ''thread/status/changed'' (''idle'' @ decimal n)) [1 ..< 51]) = Some es \<and>
    list_all (\<lambda>e. event_method e = Some ''thread/status/changed'') es"
    by (rule those_map) (use thread_event [OF J] in blast)
  then obtain es where es: "those (map (\<lambda>n. thread_event J wall (of_nat n) ''thread/status/changed'' (''idle'' @ decimal n)) [1 ..< 51]) = Some es"
    "list_all (\<lambda>e. event_method e = Some ''thread/status/changed'') es" by blast
  have "threads (snapshot (foldl (\<lambda>r e. apply_event J e r) (empty_reducer 4096) es)) = Map.empty"
    by (rule noise_pruned_all) (simp_all add: empty_reducer_def es)
  with es show ?thesis
    by (simp add: idle_global_noise_is_pruned_inline_def default_reducer_def new_reducer_def applies_def)
qed

lemma replay_test: "json_laws J \<Longrightarrow> retained_replay_and_gap_are_honest J wall"
proof -
  assume J: "json_laws J"
  have "\<exists>e. thread_event J wall sq ''thread/status/changed'' ''t'' = Some e \<and> sequence e = sq \<and> plane e = Lifecycle" for sq
    using thread_event [OF J, of wall sq "''thread/status/changed''" "''t''"] by auto
  then obtain e where e: "\<And>sq. thread_event J wall sq ''thread/status/changed'' ''t'' = Some (e sq)"
    "\<And>sq. sequence (e sq) = sq" "\<And>sq. plane (e sq) = Lifecycle" by metis
  have "lifecycle (foldl (\<lambda>r e. apply_event J e r) (empty_reducer 2) [e 1, e 2, e 3]) = [e 2, e 3]"
    by (simp add: apply_event_lifecycle apply_log_def e empty_reducer_def)
  with e show ?thesis
    by (simp add: retained_replay_and_gap_are_honest_def new_reducer_def applies_def upt_rec events_since_def
        oldest_available_def saturating_add_def)
qed


lemma survival_test: "json_laws J \<Longrightarrow> subscription_setup_and_active_turns_survive J wall"
proof -
  assume J: "json_laws J"
  obtain e1 where e1: "thread_event J wall 100 ''thread/status/changed'' ''subscribing'' = Some e1"
    "event_method e1 = Some ''thread/status/changed''" "thread_id e1 = Some ''subscribing''"
    using thread_event [OF J, of wall 100 "''thread/status/changed''" "''subscribing''"] by blast
  obtain e2 where e2: "thread_event J wall 101 ''thread/status/changed'' ''subscribing'' = Some e2"
    "event_method e2 = Some ''thread/status/changed''" "thread_id e2 = Some ''subscribing''"
    using thread_event [OF J, of wall 101 "''thread/status/changed''" "''subscribing''"] by blast
  obtain e3 where e3: "turn_event J wall 200 ''turn/started'' ''act'' ''t9'' = Some e3"
    "event_method e3 = Some ''turn/started''" "thread_id e3 = Some ''act''" "turn_id e3 = Some ''t9''"
    using turn_event [OF J, of wall 200 "''turn/started''" "''act''" "''t9''"] by blast
  show ?thesis
    by (simp add: subscription_setup_and_active_turns_survive_def default_reducer_def new_reducer_def applies_def
        e1 e2 e3 apply_state_def update_thread_def Let_def begin_subscription_def finish_subscription_def
        empty_reducer_def thread_entry_def unknown_thread_def is_prunable_def)
qed

lemma waiter_test: "json_laws J \<Longrightarrow> authoritative_waiter_fires_without_broadcast J wall"
proof -
  assume J: "json_laws J"
  obtain e where e: "thread_event J wall 1 ''turn/completed'' ''t'' = Some e" "sequence e = 1"
    "event_method e = Some ''turn/completed''"
    using thread_event [OF J, of wall 1 "''turn/completed''" "''t''"] by blast
  have ready: "mailbox (apply_event J e r) 0 = Some e"
    if "waiters r = [\<lparr>predicate = \<lambda>e. event_method e = Some ''turn/completed'', sender = 0\<rparr>]" for r
    using that e(3)
    by (simp add: apply_event_def apply_waiters_def drain_waiters.simps swap_remove_def split: prod.split)
  show ?thesis
    by (simp add: authoritative_waiter_fires_without_broadcast_def default_reducer_def new_reducer_def applies_def e
        ready register_waiter_def empty_reducer_def)
qed

lemma lag_test:
  assumes "json_laws J"
  shows "lifecycle_lag_recovers J wall (Lagged n)"
proof -
  have "\<exists>e. hub_event J wall sq ''turn/completed'' = Some e \<and> sequence e = sq \<and> plane e = Lifecycle" for sq
    using hub_event [OF assms, of wall sq "''turn/completed''"] by auto
  then obtain e where e: "\<And>sq. hub_event J wall sq ''turn/completed'' = Some (e sq)"
    "\<And>sq. sequence (e sq) = sq" "\<And>sq. plane (e sq) = Lifecycle" by metis
  have l: "lifecycle (apply_event J (e 3) (apply_event J (e 2) (apply_event J (e 1) (empty_reducer 8)))) = [e 1, e 2, e 3]"
    by (simp add: apply_event_lifecycle apply_log_def e empty_reducer_def)
  show ?thesis
    by (simp add: lifecycle_lag_recovers_def new_reducer_def upt_rec e l events_since_def oldest_available_def
        saturating_add_def lifecycle_recv_def lifecycle_stream_def)
qed

lemma ingress_test:
  assumes "json_laws (api P)" "iter_ok (iteration P)"
  shows "ingress_does_not_accumulate_idle_noise P wall"
proof -
  let ?event = "\<lambda>n. event_of (api P) wall (of_nat n) n
     (jobj (api P) [(''jsonrpc'', jstr (api P) ''2.0''), (''method'', jstr (api P) ''thread/status/changed''),
        (''params'', jobj (api P) [(''threadId'', jstr (api P) (''idle-'' @ decimal n)),
           (''status'', jobj (api P) [(''type'', jstr (api P) (if n mod 2 = 0 then ''active'' else ''idle''))])])])"
  have one: "\<exists>e. ?event n = Some e \<and> event_method e = Some ''thread/status/changed''" for n
    using event_of_notification [OF assms(1), of "[(''jsonrpc'', jstr (api P) ''2.0''), (''method'', jstr (api P) ''thread/status/changed''),
        (''params'', jobj (api P) [(''threadId'', jstr (api P) (''idle-'' @ decimal n)),
           (''status'', jobj (api P) [(''type'', jstr (api P) (if n mod 2 = 0 then ''active'' else ''idle''))])])]" "''thread/status/changed''" _ wall "of_nat n" n]
    by auto
  have "\<exists>es. those (map ?event [1 ..< 101]) = Some es \<and> list_all (\<lambda>e. event_method e = Some ''thread/status/changed'') es"
    by (rule those_map) (rule one)
  then obtain es where es: "those (map ?event [1 ..< 101]) = Some es"
    "list_all (\<lambda>e. event_method e = Some ''thread/status/changed'') es" by blast
  have "\<exists>g'. ingress_run P es g = Some g' \<and> threads (snapshot (in_reducer g')) = Map.empty"
    if "store_inv (serialise P) (in_store g)" "threads (snapshot (in_reducer g)) = Map.empty" "subscribing (in_reducer g) = {}" for g
    using es(2) that
  proof (induction es arbitrary: g)
    case (Cons e es)
    obtain st where st: "record_locked (store_config P) (serialise P) (iteration P) (in_store g) e = Some st" "store_inv (serialise P) st"
      using record_locked_ends [OF assms(2) Cons.prems(2)] by blast
    with Cons.IH [of "g\<lparr>in_reducer := apply_event (api P) e (in_reducer g), in_store := st, in_hub := publish e (in_hub g)\<rparr>"] Cons.prems
    show ?case by (simp add: process_def noise_pruned)
  qed simp
  from this [of "\<lparr>in_reducer = empty_reducer 4096, in_store = new_store, in_hub = new_hub\<rparr>"] es(1) show ?thesis
    unfolding ingress_does_not_accumulate_idle_noise_def Let_def
    by (auto simp: default_reducer_def new_reducer_def empty_reducer_def)
qed

lemma confirmed_test: "json_laws J \<Longrightarrow> completion_before_response_confirms J D wall"
proof -
  assume J: "json_laws J"
  let ?p = "jobj J [(''threadId'', jstr J ''thread''), (''turn'', jobj J [(''id'', jstr J ''turn'')])]"
  have "index J (interrupt_params J ''thread'' ''turn'') ''threadId'' = jstr J ''thread''"
    "index J (interrupt_params J ''thread'' ''turn'') ''turnId'' = jstr J ''turn''"
    using J by (simp_all add: index_def interrupt_params_def json_get_obj)
  moreover obtain e where e: "event_of J (\<lambda>_. wall) 4 0 (jobj J [(''method'', jstr J ''turn/completed''), (''params'', ?p)]) = Some e"
    "sequence e = 4" "completes ''thread'' ''turn'' e"
    using event_of_notification [OF J, of "[(''method'', jstr J ''turn/completed''), (''params'', ?p)]" "''turn/completed''" ?p "\<lambda>_. wall" 4 0] J
    by (auto simp: completes_def extract_thread_id_def extract_turn_id_def get_str_def get_path_def json_get_obj)
  ultimately have client: "completing_action J wall ''turn/interrupt'' (interrupt_params J ''thread'' ''turn'') = Some (Inr (jnull J), [Apply e])"
    by (simp add: completing_action_def)
  have ready: "mailbox (apply_event J e r) 0 = Some e" if "waiters r = [\<lparr>predicate = completes ''thread'' ''turn'', sender = 0\<rparr>]" for r
    using that e(3)
    by (simp add: apply_event_def apply_waiters_def drain_waiters.simps swap_remove_def split: prod.split)
  show ?thesis
    by (simp add: completion_before_response_confirms_def default_reducer_def new_reducer_def client interrupt_def Let_def
       lock_for_def take_correlation_def register_def register_waiter_def new_controller_def empty_reducer_def ask_def await_def ready observed_def e
       split: prod.split)
qed

lemma ambiguous_test: "ambiguous_start_and_steer_are_never_confirmed J D"
  by (simp add: ambiguous_start_and_steer_are_never_confirmed_def default_reducer_def new_reducer_def start_def steer_def
      rpc_response_action_def ambiguous_action_def Let_def start_outcome_def response_outcome_def await_def split: prod.split)


text \<open>
  A thread whose only delta event comes first: pruning leaves everything, or that event goes first.
\<close>

lemma first_delta_goes:
  assumes "iter_ok it" "store_inv S s" "events s = e # es" "plane e = Delta" "thread_id e = Some t"
    "list_all (\<lambda>e. thread_id e = Some t) es"
  shows "(prune_caps cfg S it s = Some s \<and> bytes s \<le> global_bytes cfg) \<or>
    (\<exists>ev s'. prune_caps cfg S it s = Some s' \<and> removes S s (e # ev) s')"
proof (cases "bytes s > global_bytes cfg \<or> over_thread cfg it s \<noteq> None")
  case False
  then show ?thesis by (subst (1) prune_caps.simps) simp
next
  case True
  have "over_thread cfg it s = None \<or> over_thread cfg it s = Some t"
  proof (cases "over_thread cfg it s")
    case (Some t')
    with over_thread_Some [OF Some assms(1,2)] assms(3,5,6) show ?thesis
      by (cases "t' = t") (auto simp: on_thread_def filter_False list_all_iff)
  qed simp
  then have "evict_position (over_thread cfg it s) s = 0" using assms(3-5) by (auto simp: evict_position_def)
  with True have step: "prune_caps cfg S it s = prune_caps cfg S it (remove_at S s 0)"
    by (subst prune_caps.simps) auto
  have "0 < length (events s)" by (simp add: assms(3))
  from prune_caps_ends [OF assms(1) remove_at_inv [OF assms(2) this], of cfg]
  obtain ev s' where "prune_caps cfg S it (remove_at S s 0) = Some s'" "removes S (remove_at S s 0) ev s'" by blast
  with removes_zero [OF _ this(2)] step assms(3) show ?thesis by auto
qed

lemma record_first_delta:
  assumes "iter_ok it" "store_inv S s" "accounts recs ev s" "e \<in> set ev \<or> events s = e # es" "plane e = Delta" "thread_id e = Some t"
    "list_all (\<lambda>e. thread_id e = Some t) (es @ [x])" "list_all (in_retention cfg x) (e # es)"
  shows "\<exists>ev' s'. record_locked cfg S it s x = Some s' \<and> store_inv S s' \<and> within_caps cfg S s' \<and>
    accounts (recs @ [x]) (ev @ ev') s' \<and> (e \<in> set (ev @ ev') \<or> events s' = e # es @ [x])"
proof (cases "e \<in> set ev")
  case True
  with record_locked_step [OF assms(1-3), where cfg = cfg and e = x] show ?thesis by auto
next
  case False
  with assms(4) have ev: "events s = e # es" by simp
  let ?p = "push_event S s x"
  have "prune_age S (saturating_sub (monotonic_ms x) (millis_u64 (retention cfg))) ?p = ?p"
    using assms(8) ev by (simp add: prune_age.simps [of S _ ?p] leD in_retention_def)
  then have rec: "record_locked cfg S it s x = prune_caps cfg S it ?p"
    by (simp add: record_locked_def prune_locked_def Let_def)
  obtain ev1 s1 where one: "record_locked cfg S it s x = Some s1" "store_inv S s1" "within_caps cfg S s1"
    "accounts (recs @ [x]) (ev @ ev1) s1"
    using record_locked_step [OF assms(1-3), where cfg = cfg and e = x] by blast
  have "events ?p = e # es @ [x]" by (simp add: ev)
  from first_delta_goes [OF assms(1) push_event_inv [OF assms(2)] this assms(5-7), of cfg]
  show ?thesis
  proof (elim disjE exE conjE)
    assume "prune_caps cfg S it ?p = Some ?p"
    with rec one ev show ?thesis by (intro exI [of _ ev1] exI [of _ s1]) simp
  next
    fix ev2 s2
    assume two: "prune_caps cfg S it ?p = Some s2" "removes S ?p (e # ev2) s2"
    with rec one have "s2 = s1" by simp
    with removes_accounts [OF two(2) push_event_accounts [OF assms(3)]] one two rec show ?thesis by auto
  qed
qed

lemma cap_test:
  assumes "json_laws J" "iter_ok it"
    and sizes: "\<And>e1 e2 e3. data_event J wall 1 ''item/output/delta'' (replicate 500 CHR ''x'') = Some e1 \<Longrightarrow>
      data_event J wall 2 ''turn/completed'' (replicate 500 CHR ''y'') = Some e2 \<Longrightarrow>
      data_event J wall 3 ''turn/completed'' (replicate 500 CHR ''z'') = Some e3 \<Longrightarrow>
      encoded_len S e1 < encoded_len S e2 + encoded_len S e3"
  shows "hard_cap_prefers_delta_eviction J wall S it"
proof -
  obtain e1 where e1: "data_event J wall 1 ''item/output/delta'' (replicate 500 CHR ''x'') = Some e1"
    "monotonic_ms e1 = 1" "plane e1 = Delta" "thread_id e1 = Some ''t''"
    using data_event [OF assms(1), of wall 1 "''item/output/delta''" "replicate 500 CHR ''x''"] by (auto simp: millis_u64_def)
  obtain e2 where e2: "data_event J wall 2 ''turn/completed'' (replicate 500 CHR ''y'') = Some e2"
    "monotonic_ms e2 = 2" "thread_id e2 = Some ''t''"
    using data_event [OF assms(1), of wall 2 "''turn/completed''" "replicate 500 CHR ''y''"] by (auto simp: millis_u64_def)
  obtain e3 where e3: "data_event J wall 3 ''turn/completed'' (replicate 500 CHR ''z'') = Some e3"
    "monotonic_ms e3 = 3" "thread_id e3 = Some ''t''"
    using data_event [OF assms(1), of wall 3 "''turn/completed''" "replicate 500 CHR ''z''"] by (auto simp: millis_u64_def)
  let ?size = "encoded_len S e1"
  let ?cfg = "default_store_config\<lparr>global_bytes := ?size * 2, per_thread_bytes := ?size * 2\<rparr>"
  have fresh: "in_retention ?cfg x y" if "x \<in> {e2, e3}" for x y
    using that e2(2) e3(2) by (auto simp: in_retention_def saturating_sub_def default_store_config_def millis_u64_def)
  obtain ev1 s1 where s1: "record_locked ?cfg S it new_store e1 = Some s1" "store_inv S s1" "accounts [e1] ev1 s1"
    using record_locked_step [OF assms(2) new_store_ok(1,3), where cfg = ?cfg and e = e1 and S = S] by auto
  have "e1 \<in> set ev1 \<or> events s1 = [e1]"
  proof -
    from s1(3) have "mset [e1] = mset (events s1) + mset ev1" by (simp add: accounts_def)
    then have "e1 \<in># mset (events s1) + mset ev1" "length (events s1) + length ev1 = 1"
      by (metis list.set_intros(1) set_mset_mset) (metis One_nat_def \<open>mset [e1] = mset (events s1) + mset ev1\<close> length_Cons list.size(3) size_mset size_union)
    then show ?thesis by (cases "events s1") (auto simp: length_Suc_conv)
  qed
  from record_first_delta [OF assms(2) s1(2,3) this e1(3,4), where x = e2 and cfg = ?cfg]
  obtain ev2 s2 where s2: "record_locked ?cfg S it s1 e2 = Some s2" "store_inv S s2" "accounts [e1, e2] (ev1 @ ev2) s2"
    "e1 \<in> set (ev1 @ ev2) \<or> events s2 = [e1, e2]"
    using e2(3) fresh by auto
  from record_first_delta [OF assms(2) s2(2,3,4) e1(3,4), where x = e3 and cfg = ?cfg]
  obtain ev3 s3 where s3: "record_locked ?cfg S it s2 e3 = Some s3" "store_inv S s3" "within_caps ?cfg S s3"
    "accounts [e1, e2, e3] (ev1 @ ev2 @ ev3) s3" "e1 \<in> set (ev1 @ ev2 @ ev3) \<or> events s3 = [e1, e2, e3]"
    using e2(3) e3(3) fresh by auto
  have bytes: "bytes s3 = total_bytes S (events s3)" "bytes s3 \<le> ?size * 2"
    using s3(2,3) by (simp_all add: store_inv_def within_caps_def)
  with s3(5) sizes [OF e1(1) e2(1) e3(1)] have gone: "e1 \<in> set (ev1 @ ev2 @ ev3)" by auto
  let ?ev = "ev1 @ ev2 @ ev3"
  have "0 < deltas (on_thread (Some ''t'') ?ev)"
    using gone e1(3,4) by (auto simp: deltas_def on_thread_def filter_empty_conv)
  then obtain g where "gap_of (Some ''t'') ?ev = Some g" "1 \<le> summarized_delta_events g"
    using gap_of_counts(1) [of "Some ''t''" ?ev] by (auto split: option.splits)
  moreover have "gaps s3 (Some ''t'') = gap_of (Some ''t'') ?ev" using s3(4) by (simp add: accounts_def)
  ultimately show ?thesis
    using bytes(2) by (simp add: hard_cap_prefers_delta_eviction_def e1(1) e2(1) e3(1) s1(1) s2(1) s3(1) query_sequence_def Let_def)
qed


section \<open>Property\<close>

text \<open>C28. The components pass their own tests, whatever the JSON library within its laws, the wall clock and
  the lag the runtime reports, provided that the library reads back what it has written, and that of the three
  long events of the store's test the second and the third together are serialised to more bytes than the
  first: an unknown server request stays raw, the recorded messages come through the envelope and back
  without loss, the replay and its gap are honest,
  idle noise leaves no thread behind while subscriptions in set-up and active turns stay, a waiter
  fires on the event itself, a capped store lets the delta go first and says so, a lagging stream
  recovers the log, a completion before the response confirms the interrupt, and an ambiguous start
  or steer is never confirmed.\<close>

theorem components_pass_their_tests:
  assumes "json_laws (api P)" "iter_ok (iteration P)"
    and "\<And>e1 e2 e3. data_event (api P) wall 1 ''item/output/delta'' (replicate 500 CHR ''x'') = Some e1 \<Longrightarrow>
      data_event (api P) wall 2 ''turn/completed'' (replicate 500 CHR ''y'') = Some e2 \<Longrightarrow>
      data_event (api P) wall 3 ''turn/completed'' (replicate 500 CHR ''z'') = Some e3 \<Longrightarrow>
      encoded_len (serialise P) e1 < encoded_len (serialise P) e2 + encoded_len (serialise P) e3"
    and "\<And>v. decode (to_text (api P) v) = Inr v"
  shows "unknown_server_request_is_raw_and_answerless (api P) \<and>
    sanitized_recorded_inner_messages_round_trip_without_loss (api P) decode (recorded_inner_messages (api P) code percent) \<and>
    retained_replay_and_gap_are_honest (api P) wall \<and> idle_global_noise_is_pruned_inline (api P) wall \<and>
    subscription_setup_and_active_turns_survive (api P) wall \<and>
    authoritative_waiter_fires_without_broadcast (api P) wall \<and>
    hard_cap_prefers_delta_eviction (api P) wall (serialise P) (iteration P) \<and>
    lifecycle_lag_recovers (api P) wall (Lagged n) \<and> ingress_does_not_accumulate_idle_noise P wall \<and>
    completion_before_response_confirms (api P) (id_debug P) (wall 4) \<and>
    ambiguous_start_and_steer_are_never_confirmed (api P) (id_debug P)"
  using assms(1,2)
  by (intro conjI protocol_test recorded_test [OF assms(1,4)] replay_test noise_test survival_test waiter_test
      cap_test [OF assms(1-3)] lag_test ingress_test
      confirmed_test ambiguous_test)

theorem components_pass_their_tests_witness:
  "hard_cap_prefers_delta_eviction text_api (\<lambda>n. 0) (bytes_of 4) alphabetical \<and>
   idle_global_noise_is_pruned_inline text_api (\<lambda>n. 0) \<and>
   sanitized_recorded_inner_messages_round_trip_without_loss text_api read_jv (recorded_inner_messages text_api JNull JNull)"
proof -
  let ?P = "test_parts\<lparr>api := text_api\<rparr>"
  have "encoded_len (bytes_of 4) e1 < encoded_len (bytes_of 4) e2 + encoded_len (bytes_of 4) e3" for e1 e2 e3 :: "jv SequencedEvent"
    by (simp add: encoded_len_def)
  with components_pass_their_tests [of ?P "\<lambda>n. 0" read_jv JNull JNull 2] show ?thesis by simp
qed

end
