(* ===== verification/Ingest_Tests.thy ===== *)
theory Ingest_Tests
  imports Mock Reconcile
begin

text \<open>
  The unit tests of the ingestor (the module \<open>tests\<close> of \<open>src/ingest/src/lib.rs\<close>), which run it against
  the mock server of \<open>src/transport/src/mock.rs\<close>: the machines of its calls with every request answered
  by the server, each test as a function that computes whether its assertions hold, and the theorem
  that they all do. The sockets between the two are left out; a request makes its round trip
  (request_makes_round_trip of Mock).
\<close>

section \<open>The ingestor served by the mock server\<close>

text \<open>A request reaches the server, which records it; its id does not matter to the answer.\<close>

definition noted :: "'v mock_api \<Rightarrow> string \<times> 'v \<Rightarrow> 'v MockServer \<Rightarrow> 'v MockServer" where
  "noted M q s = note_received M
     (request (mock_json M) (Number (word_of_nat (length (mock_received s)))) (fst q) (snd q)) s"

definition serves :: "'v mock_api \<Rightarrow> string \<times> 'v \<Rightarrow> 'v MockServer \<Rightarrow> 'v answer \<times> 'v MockServer" where
  "serves M q s =
     (mock_answer M (noted M q s) q,
      snd (handle_request M (request (mock_json M) (Number 1) (fst q) (snd q)) (noted M q s)))"

text \<open>A machine of the ingestor, an answer that has come for it, the ingestor and the server.\<close>

type_synonym ('v, 'pc) served = "'pc \<times> 'v answer option \<times> 'v ThreadIngestor \<times> 'v MockServer"

text \<open>
  Its turns, until a state asked for or until it ends: a request made in one turn is answered before
  the next. \<open>None\<close> is the fuel exhausted.
\<close>

fun served_run ::
    "nat \<Rightarrow> 'v mock_api \<Rightarrow> ('v ThreadIngestor \<Rightarrow> bool) \<Rightarrow>
     ('v answer option \<Rightarrow> 'pc \<Rightarrow> 'v ThreadIngestor \<Rightarrow> ('pc \<times> 'v ThreadIngestor) option) \<Rightarrow>
     ('v, 'pc) served \<Rightarrow> ('v, 'pc) served option" where
  "served_run 0 M stop step w = None"
| "served_run (Suc n) M stop step (c, ans, g, s) =
     (if stop g then Some (c, ans, g, s)
      else case step ans c g of
             None \<Rightarrow> Some (c, ans, g, s)
           | Some (c', g') \<Rightarrow>
               (case drop (length (requests g)) (requests g') of
                  [] \<Rightarrow> served_run n M stop step (c', None, g', s)
                | q # _ \<Rightarrow> (case serves M q s of (a, s') \<Rightarrow> served_run n M stop step (c', Some a, g', s'))))"

text \<open>The calls of the tests, one after the other; the clocks are those the store reads.\<close>

record clocks =
  wall_ms :: nat
  since_start :: nat

definition discover_until ::
    "'v parts \<Rightarrow> 'v mock_api \<Rightarrow> IngestConfig \<Rightarrow> clocks \<Rightarrow> ('v ThreadIngestor \<Rightarrow> bool) \<Rightarrow> string \<Rightarrow> DiscoverySource \<Rightarrow>
     ('v, 'v discover_pc) served \<Rightarrow> ('v, 'v discover_pc) served option" where
  "discover_until P M cfg k stop t source w =
     served_run (discover_fuel cfg) M stop (\<lambda>ans. discover_step P cfg t source ans (wall_ms k) (since_start k)) w"

definition served_discover ::
    "'v parts \<Rightarrow> 'v mock_api \<Rightarrow> IngestConfig \<Rightarrow> clocks \<Rightarrow> string \<Rightarrow> DiscoverySource \<Rightarrow> 'v ThreadIngestor \<times> 'v MockServer \<Rightarrow>
     (DiscoveryOutcome \<times> 'v ThreadIngestor \<times> 'v MockServer) option" where
  "served_discover P M cfg k t source w =
     (case discover_until P M cfg k (\<lambda>_. False) t source (Claim, None, w) of
        Some (Done outcome, ans, w') \<Rightarrow> Some (outcome, w')
      | _ \<Rightarrow> None)"

definition served_reconcile ::
    "nat \<Rightarrow> 'v parts \<Rightarrow> 'v mock_api \<Rightarrow> IngestConfig \<Rightarrow> clocks \<Rightarrow> 'v ThreadIngestor \<times> 'v MockServer \<Rightarrow>
     (('v IngestError + (string \<times> DiscoveryOutcome) list) \<times> 'v ThreadIngestor \<times> 'v MockServer) option" where
  "served_reconcile fuel P M cfg k w =
     (case served_run fuel M (\<lambda>_. False) (\<lambda>ans. reconcile_step P cfg ans (wall_ms k) (since_start k))
             (start_reconcile cfg (fst w), None, w) of
        Some (R_Done result, ans, w') \<Rightarrow> Some (result, w')
      | _ \<Rightarrow> None)"

definition served_release ::
    "'v parts \<Rightarrow> 'v mock_api \<Rightarrow> IngestConfig \<Rightarrow> string \<Rightarrow> 'v ThreadIngestor \<times> 'v MockServer \<Rightarrow>
     bool \<times> 'v ThreadIngestor \<times> 'v MockServer" where
  "served_release P M cfg t w =
     (case serves M (''thread/unsubscribe'', resume_params (api P) t) (snd w) of
        (a, s') \<Rightarrow> (case release_if_idle P cfg t a (fst w) of
           (released, g') \<Rightarrow> (released, g', if requests g' = requests (fst w) then snd w else s')))"

text \<open>\<open>setup\<close>.\<close>

definition ingest_test_config :: "nat \<Rightarrow> bool \<Rightarrow> IngestConfig" where
  "ingest_test_config cap release =
     default_ingest_config\<lparr>subscription_cap := cap, release_idle_subscriptions := release, retry_delay := 5\<rparr>"

definition ingest_test_setup :: "nat \<Rightarrow> bool \<Rightarrow> ('v ThreadIngestor \<times> 'v MockServer) option" where
  "ingest_test_setup cap release =
     map_option (\<lambda>r. (new_ingestor (ingest_test_config cap release) r, mock_start)) default_reducer"

definition resumes_received :: "'v mock_api \<Rightarrow> 'v MockServer \<Rightarrow> nat" where
  "resumes_received M s =
     length (filter (\<lambda>v. value_is_str (mock_json M) (index (mock_json M) v ''method'') ''thread/resume'') (mock_received s))"

section \<open>The tests\<close>

definition active_mock :: "string \<Rightarrow> string \<Rightarrow> u64 \<Rightarrow> MockThread" where
  "active_mock t u n =
     \<lparr>mt_id = t, mt_status = ''active'', mt_turn_id = Some u, mt_ephemeral = False, mt_updated_at = n\<rparr>"

definition reconciliation_duplicate_discovery_and_capacity :: "'v parts \<Rightarrow> 'v mock_api \<Rightarrow> clocks \<Rightarrow> bool" where
  "reconciliation_duplicate_discovery_and_capacity P M k =
     (let cfg = ingest_test_config 1 False
      in is_some_and (ingest_test_setup 1 False) (\<lambda>(g0, s0).
           let s1 = add_thread (active_mock ''b'' ''y'' 1) (add_thread (active_mock ''a'' ''x'' 2) s0)
           in case served_reconcile 60 P M cfg k (g0, s1) of
                Some (Inr outcomes, g1, s2) \<Rightarrow>
                  length outcomes = 2 \<and> subscription_state g1 ''a'' = Subscribed \<and>
                  subscription_state g1 ''b'' = CapacityDegraded \<and>
                  is_some_and (served_discover P M cfg k ''a'' FromThreadStarted (g1, s2)) (\<lambda>(outcome, g2, s3).
                    outcome = AlreadyManaged \<and> resumes_received M s3 = 1)
              | _ \<Rightarrow> False))"

definition idle_release_requires_verified_reactivation :: "'v parts \<Rightarrow> 'v mock_api \<Rightarrow> clocks \<Rightarrow> bool" where
  "idle_release_requires_verified_reactivation P M k =
     (let cfg = ingest_test_config 2 True
      in is_some_and (ingest_test_setup 2 True) (\<lambda>w0.
           is_some_and (served_discover P M cfg k ''a'' FromThreadStarted w0) (\<lambda>(outcome, w1).
             case served_release P M cfg ''a'' w1 of
               (released, g2, s2) \<Rightarrow>
                 outcome = O_Subscribed \<and> \<not> released \<and>
                 fst (served_release P M cfg ''a'' (set_reactivation_verified True g2, s2)))))"

text \<open>The store of the ingestor, asked for the whole time of a thread.\<close>

definition all_of :: "'v ThreadIngestor \<Rightarrow> string \<Rightarrow> 'v SequencedEvent list" where
  "all_of g t = (case ti_store g of None \<Rightarrow> [] | Some st \<Rightarrow> q_events (query_time default_store_config st (Some t) 0 (- 1)))"

definition in_flight_turn_yields_anchor :: "'v parts \<Rightarrow> 'v mock_api \<Rightarrow> clocks \<Rightarrow> bool" where
  "in_flight_turn_yields_anchor P M k =
     (let cfg = ingest_test_config 4 False
      in is_some_and (ingest_test_setup 4 False) (\<lambda>(g0, s0).
           is_some_and (served_discover P M cfg k ''a'' FromThreadStarted
               (with_store new_store g0, add_thread (active_mock ''a'' ''t1'' 1) s0)) (\<lambda>(outcome, g1, s1).
             outcome = O_Subscribed \<and>
             (case filter reconstructed (all_of g1 ''a'') of
                [anchor] \<Rightarrow> turn_id anchor = Some ''t1'' \<and> event_method anchor = Some ''turn/started'' \<and> unix_receipt_ms anchor > 0
              | _ \<Rightarrow> False))))"

definition genuine_start_prevents_anchor :: "'v parts \<Rightarrow> 'v mock_api \<Rightarrow> clocks \<Rightarrow> bool" where
  "genuine_start_prevents_anchor P M k =
     (let cfg = ingest_test_config 4 False; J = api P
      in is_some_and (ingest_test_setup 4 False) (\<lambda>(g0, s0).
           case parse J (jobj J [(''jsonrpc'', jstr J ''2.0''), (''method'', jstr J ''turn/started''),
               (''params'', jobj J [(''threadId'', jstr J ''a''), (''turn'', jobj J [(''id'', jstr J ''t1'')])])]) of
             Inl e \<Rightarrow> False
           | Inr f \<Rightarrow>
               is_some_and (record_locked (store_config P) (serialise P) (iteration P) new_store (from_frame J (wall_ms k) 7 7 f)) (\<lambda>st.
                 is_some_and (served_discover P M cfg k ''a'' FromThreadStarted
                     (with_store st g0, add_thread (active_mock ''a'' ''t1'' 1) s0)) (\<lambda>(outcome, g1, s1).
                   outcome = O_Subscribed \<and>
                   (case filter (\<lambda>e. event_method e = Some ''turn/started'') (all_of g1 ''a'') of
                      [e] \<Rightarrow> \<not> reconstructed e
                    | _ \<Rightarrow> False)))))"

text \<open>The first call runs until its state is \<open>RetryWait\<close>; the second is made then; the first goes on.\<close>

definition waits_to_retry :: "string \<Rightarrow> 'v ThreadIngestor \<Rightarrow> bool" where
  "waits_to_retry t g \<longleftrightarrow> (case subscription_state g t of RetryWait attempt \<Rightarrow> True | _ \<Rightarrow> False)"

definition retry_wait_deduplicates :: "'v parts \<Rightarrow> 'v mock_api \<Rightarrow> clocks \<Rightarrow> bool" where
  "retry_wait_deduplicates P M k =
     (let cfg = ingest_test_config 4 False;
          waiting = waits_to_retry ''retrying''
      in is_some_and (ingest_test_setup 4 False) (\<lambda>(g0, s0).
           is_some_and (discover_until P M cfg k waiting ''retrying'' FromThreadStarted
               (Claim, None, g0, set_resume_failures 1 s0)) (\<lambda>(c1, ans1, g1, s1).
             waiting g1 \<and>
             is_some_and (served_discover P M cfg k ''retrying'' ActivationStatus (g1, s1)) (\<lambda>(second, g2, s2).
               second = AlreadyManaged \<and>
               (case discover_until P M cfg k (\<lambda>_. False) ''retrying'' FromThreadStarted (c1, ans1, g2, s2) of
                  Some (Done first, ans3, g3, s3) \<Rightarrow> first = O_Subscribed \<and> resumes_received M s3 = 2
                | _ \<Rightarrow> False)))))"

definition rollout_race_retries_then_gives_up :: "'v parts \<Rightarrow> 'v mock_api \<Rightarrow> clocks \<Rightarrow> bool" where
  "rollout_race_retries_then_gives_up P M k =
     (let cfg = ingest_test_config 2 False
      in is_some_and (ingest_test_setup 2 False) (\<lambda>(g0, s0).
           is_some_and (served_discover P M cfg k ''persisted'' FromThreadStarted (g0, set_resume_failures 2 s0)) (\<lambda>(first, g1, s1).
             is_some_and (served_discover P M cfg k ''ephemeral'' FromThreadStarted (g1, set_resume_failures 20 s1)) (\<lambda>(second, g2, s2).
               first = O_Subscribed \<and> second = O_Ephemeral))))"

section \<open>How the server answers\<close>

lemma mock_answer_refused:
  assumes "mock_laws M" "0 < resume_failures_remaining s"
  shows "mock_answer M s (''thread/resume'', p) = Inl (Rejected ''thread/resume'' (refused M))"
proof -
  let ?J = "mock_json M"
  have "parse ?J (jobj ?J [(''jsonrpc'', jstr ?J ''2.0''), (''id'', rpc_id_value ?J (Number 1)), (''error'', r)]) =
      Inr (Response (Number 1) None (Some r)
        (jobj ?J [(''jsonrpc'', jstr ?J ''2.0''), (''id'', rpc_id_value ?J (Number 1)), (''error'', r)]))" for r
    by (subst parse_answer [OF mock_lawsD(1) [OF assms(1)], where kvs = "[(''error'', r)]"]) simp_all
  with assms show ?thesis by (simp add: mock_answer_def handle_built_request response_answer_def Let_def)
qed

lemma noted_simps [simp]:
  "resume_failures_remaining (noted M q s) = resume_failures_remaining s" "mock_threads (noted M q s) = mock_threads s"
  "method_result M (noted M q s) m p = method_result M s m p"
  by (simp_all add: noted_def note_received_def method_result_def Let_def)

lemma serves_refused:
  assumes "mock_laws M" "0 < resume_failures_remaining s"
  shows "serves M (''thread/resume'', p) s = (Inl (Rejected ''thread/resume'' (refused M)),
    (noted M (''thread/resume'', p) s)\<lparr>resume_failures_remaining := resume_failures_remaining s - 1\<rparr>)"
  using assms mock_answer_refused [OF assms(1), of "noted M (''thread/resume'', p) s"]
  by (simp add: serves_def handle_built_request Let_def)

lemma serves_ok:
  assumes "mock_laws M" "m = ''thread/resume'' \<longrightarrow> resume_failures_remaining s = 0"
  shows "serves M (m, p) s = (Inr (method_result M s m p), noted M (m, p) s)"
proof -
  have "resume_failures_remaining (noted M (m, p) s) = 0 \<or> m \<noteq> ''thread/resume''" using assms(2) by auto
  from mock_answer_ok [OF assms(1) this, of p] assms show ?thesis
    by (auto simp: serves_def handle_built_request Let_def)
qed

lemma resumes_received_noted:
  assumes "mock_laws M"
  shows "resumes_received M (noted M (m, p) s) = resumes_received M s + (if m = ''thread/resume'' then 1 else 0)"
  using mock_lawsD(1) [OF assms]
  by (simp add: resumes_received_def noted_def note_received_def request_def index_def json_get_obj value_is_str_def)

lemma served_run_numeral:
  "served_run (numeral n) M stop step (c, ans, g, s) =
     (if stop g then Some (c, ans, g, s)
      else case step ans c g of
             None \<Rightarrow> Some (c, ans, g, s)
           | Some (c', g') \<Rightarrow>
               (case drop (length (requests g)) (requests g') of
                  [] \<Rightarrow> served_run (pred_numeral n) M stop step (c', None, g', s)
                | q # _ \<Rightarrow> (case serves M q s of (a, s') \<Rightarrow> served_run (pred_numeral n) M stop step (c', Some a, g', s'))))"
  unfolding numeral_eq_Suc by (rule served_run.simps(2))


section \<open>They hold\<close>

text \<open>The answers the tests get.\<close>

lemma known_thread:
  assumes "mock_laws M" "mock_threads s t = Some th"
  shows "get (mock_json M) (method_result M s ''thread/read'' (read_params (mock_json M) t)) ''thread'' =
    Some (mock_thread_json (mock_json M) th)"
  using mock_lawsD(1) [OF assms(1)] assms(2)
  by (simp add: method_result_def read_params_def get_str_def json_get_obj Let_def)

lemma missing_read:
  assumes "mock_laws M" "mock_threads s t = None"
  shows "get (mock_json M) (method_result M s ''thread/read'' (read_params (mock_json M) t)) ''thread'' =
    Some (mock_thread_json (mock_json M) (missing_thread t))"
  using mock_lawsD(1) [OF assms(1)] assms(2)
  by (simp add: method_result_def read_params_def get_str_def json_get_obj Let_def)

lemma mock_in_flight:
  assumes "mock_laws M"
  shows "in_flight_turn_id (mock_json M) (mock_thread_json (mock_json M) th) =
    (if mt_status th \<in> {''completed'', ''failed'', ''interrupted''} then None else mt_turn_id th)"
proof -
  note J = mock_lawsD [OF assms]
  show ?thesis
    using J(1,2) mock_thread_fields(4) [OF assms refl, of th]
    by (cases "mt_turn_id th")
       (auto simp: in_flight_turn_id_def turn_is_finished_def get_str_def json_get_obj)
qed


lemma test_config [simp]:
  "discover_fuel (ingest_test_config cap release) = 36" "resume_retry_limit (ingest_test_config cap release) = 8"
  "subscription_cap (ingest_test_config cap release) = cap"
  "release_idle_subscriptions (ingest_test_config cap release) = release"
  "reconcile_page_bound (ingest_test_config cap release) = 4"
  "reconcile_candidate_limit (ingest_test_config cap release) = 200"
  "\<not> cfg_reactivation_verified (ingest_test_config cap release)"
  by (simp_all add: discover_fuel_def ingest_test_config_def default_ingest_config_def)

definition unclaimed :: "nat \<Rightarrow> string \<Rightarrow> 'v ThreadIngestor \<Rightarrow> bool" where
  "unclaimed cap t g \<longleftrightarrow> \<not> is_some_and (states g t) managed \<and> retained_count g < cap"

lemma claims: "unclaimed cap t g \<Longrightarrow>
    claim (ingest_test_config cap release) t source g = (BeginSubscription, set_state t (Subscribing source 1) g)"
  by (simp add: claim_def unclaimed_def)

text \<open>A discovery that the server lets through: one resume and one read.\<close>

definition given :: "'v mock_api \<Rightarrow> 'v MockServer \<Rightarrow> string \<Rightarrow> MockThread" where
  "given M s t = unwrap_or (mock_threads s t) (missing_thread t)"

lemma given_read:
  assumes "mock_laws M"
  shows "get (mock_json M) (method_result M s ''thread/read'' (read_params (mock_json M) t)) ''thread'' =
    Some (mock_thread_json (mock_json M) (given M s t))"
  using mock_lawsD(1) [OF assms]
  by (simp add: method_result_def read_params_def get_str_def json_get_obj Let_def given_def)

lemma given_noted [simp]: "given M (noted M q s) t = given M s t"
  by (simp add: given_def)

lemma served_accepted:
  assumes "mock_laws M" "api P = mock_json M" "unclaimed cap t g" "resume_failures_remaining s = 0" "ti_store g = None"
  shows "\<exists>g'. served_discover P M (ingest_test_config cap release) k t source (g, s) =
     Some (O_Subscribed, g', noted M (''thread/read'', read_params (api P) t) (noted M (''thread/resume'', resume_params (api P) t) s)) \<and>
     states g' = (states g)(t \<mapsto> Subscribed) \<and> reactivation_verified g' = reactivation_verified g \<and>
     ti_reducer g' = reconcile_thread (api P) (mock_thread_json (api P) (given M s t))
       (finish_subscription t (begin_subscription t (ti_reducer g)))"
  unfolding served_discover_def discover_until_def
  by (simp add: served_run_numeral claims [OF assms(3)] serves_ok [OF assms(1)] resume_answered_def assms(2,4,5)
      given_read [OF assms(1)])


lemma sequence_kept:
  "current_sequence (reconcile_thread J v r) = current_sequence r"
  "current_sequence (finish_subscription t r) = current_sequence r"
  "current_sequence (begin_subscription t r) = current_sequence r"
  by (simp_all add: current_sequence_def reconcile_thread_def finish_subscription_def begin_subscription_def Let_def
      split: option.split)

lemma served_anchored:
  assumes "mock_laws M" "api P = mock_json M" "unclaimed cap t g" "resume_failures_remaining s = 0" "ti_store g = Some st"
    and "mt_turn_id (given M s t) = Some u" "mt_status (given M s t) = ''active''"
    and "record_reconstructed_active_turn (api P) (store_config P) (serialise P) (iteration P)
      (wall_ms k) (since_start k) (current_sequence (ti_reducer g)) t u st = Some (b, st')"
  shows "\<exists>g' s'. served_discover P M (ingest_test_config cap release) k t source (g, s) = Some (O_Subscribed, g', s') \<and>
     ti_store g' = Some st'"
  using assms(8) unfolding served_discover_def discover_until_def
  by (simp add: served_run_numeral claims [OF assms(3)] serves_ok [OF assms(1)] resume_answered_def assms(2,4-7)
      given_read [OF assms(1)] mock_in_flight [OF assms(1)] sequence_kept)

lemma served_duplicate:
  assumes "is_some_and (states g t) managed"
  shows "served_discover P M (ingest_test_config cap release) k t source (g, s) = Some (AlreadyManaged, g, s)"
  using assms unfolding served_discover_def discover_until_def
  by (simp add: served_run_numeral claim_def)

text \<open>Resumes that are refused: tried again while attempts are left.\<close>

definition refuses :: "'v mock_api \<Rightarrow> string \<times> 'v \<Rightarrow> 'v MockServer \<Rightarrow> 'v MockServer" where
  "refuses M q s = (noted M q s)\<lparr>resume_failures_remaining := resume_failures_remaining s - 1\<rparr>"

lemma refuses_simps [simp]:
  "resume_failures_remaining (refuses M q s) = resume_failures_remaining s - 1" "given M (refuses M q s) t = given M s t"
  by (simp_all add: refuses_def given_def)

lemma serves_refuses:
  "mock_laws M \<Longrightarrow> 0 < resume_failures_remaining s \<Longrightarrow>
     serves M (''thread/resume'', p) s = (Inl (Rejected ''thread/resume'' (refused M)), refuses M (''thread/resume'', p) s)"
  by (simp add: serves_refused refuses_def)

lemma served_twice_refused:
  assumes "mock_laws M" "api P = mock_json M" "unclaimed cap t g" "resume_failures_remaining s = 2" "ti_store g = None"
    "is_ephemeral_error (api P) (refused M)"
  shows "\<exists>g' s'. served_discover P M (ingest_test_config cap release) k t source (g, s) = Some (O_Subscribed, g', s') \<and>
     states g' = (states g)(t \<mapsto> Subscribed) \<and> ti_store g' = None"
  using assms(6) unfolding served_discover_def discover_until_def
  by (simp add: served_run_numeral claims [OF assms(3)] serves_refuses [OF assms(1)] serves_ok [OF assms(1)]
      resume_answered_def assms(2,4,5) given_read [OF assms(1)])

lemma served_given_up:
  assumes "mock_laws M" "api P = mock_json M" "unclaimed cap t g" "resume_failures_remaining s = 20"
    "is_ephemeral_error (api P) (refused M)"
  shows "\<exists>g' s'. served_discover P M (ingest_test_config cap release) k t source (g, s) = Some (O_Ephemeral, g', s')"
  using assms(5) unfolding served_discover_def discover_until_def
  by (simp add: served_run_numeral claims [OF assms(3)] serves_refuses [OF assms(1)] resume_answered_def assms(2,4))

text \<open>At the start of the tests.\<close>

lemma setup_some:
  "ingest_test_setup cap release = Some (new_ingestor (ingest_test_config cap release) (empty_reducer 4096), mock_start)"
  by (simp add: ingest_test_setup_def default_reducer_def new_reducer_def)

lemma fresh_ingestor:
  "states (new_ingestor c r) = Map.empty" "ti_store (new_ingestor c r) = None" "ti_reducer (new_ingestor c r) = r"
  "reactivation_verified (new_ingestor c r) = cfg_reactivation_verified c" "watermark (new_ingestor c r) = 0"
  "requests (new_ingestor c r) = []" "states (with_store st g) = states g" "ti_store (with_store st g) = Some st"
  "ti_reducer (with_store st g) = ti_reducer g"
  by (simp_all add: new_ingestor_def with_store_def)

lemma first_claims: "states g = Map.empty \<Longrightarrow> 0 < cap \<Longrightarrow> unclaimed cap t g"
  by (simp add: unclaimed_def retained_count_def)


lemma fresh_server: "resume_failures_remaining mock_start = 0" "mock_threads mock_start = Map.empty" "mock_received mock_start = []"
  by (simp_all add: mock_start_def)

lemma mock_status:
  assumes "mock_laws M" "J = mock_json M"
  shows "status_text J (mock_thread_json J th) = Some (mt_status th)" "get_str J (mock_thread_json J th) ''id'' = Some (mt_id th)"
    "mt_turn_id th = None \<Longrightarrow> reconciled_active_turn J (mock_thread_json J th) = None"
  using mock_lawsD [OF assms(1)] mock_thread_fields [OF assms, of th] unfolding assms(2)
  by (auto simp: status_text_def get_path_def get_str_def reconciled_active_turn_def Option.bind_eq_Some_conv or_else_def)

lemma release_test:
  assumes "mock_laws M" "api P = mock_json M"
  shows "idle_release_requires_verified_reactivation P M k"
proof -
  let ?cfg = "ingest_test_config 2 True"
  let ?g = "new_ingestor ?cfg (empty_reducer 4096) :: 'a ThreadIngestor"
  have "unclaimed 2 ''a'' ?g" by (rule first_claims) (simp_all add: fresh_ingestor)
  from served_accepted [OF assms this fresh_server(1), of True k FromThreadStarted] obtain g' s' where
    d: "served_discover P M ?cfg k ''a'' FromThreadStarted (?g, mock_start) = Some (O_Subscribed, g', s')"
      "\<not> reactivation_verified g'" "ti_reducer g' = reconcile_thread (api P) (mock_thread_json (api P) (given M mock_start ''a''))
         (finish_subscription ''a'' (begin_subscription ''a'' (empty_reducer 4096)))"
    by (auto simp: fresh_ingestor)
  have "is_some_and (threads (snapshot (ti_reducer g')) ''a'') (\<lambda>th. status th = ''idle'')"
    using mock_status [OF assms, of "missing_thread ''a''"]
    by (simp add: d(3) given_def fresh_server reconcile_thread_def Let_def missing_thread_def)
  then have idle: "\<not> is_some_and (threads (snapshot (ti_reducer g')) ''a'') (\<lambda>th. status th \<noteq> ''idle'')"
    by (cases "threads (snapshot (ti_reducer g')) ''a''") auto
  have "served_release P M ?cfg ''a'' (g', s') = (False, g', s')"
    using d(2) by (simp add: served_release_def release_if_idle_def release_allowed_def split: prod.split)
  moreover have "fst (served_release P M ?cfg ''a'' (set_reactivation_verified True g', s'))"
    using idle serves_ok [OF assms(1), of "''thread/unsubscribe''" s' "resume_params (api P) ''a''"]
    by (simp add: served_release_def release_if_idle_def release_allowed_def set_reactivation_verified_def)
  ultimately show ?thesis
    using d(1) by (simp add: idle_release_requires_verified_reactivation_def setup_some)
qed

lemma rollout_test:
  assumes "mock_laws M" "api P = mock_json M" "is_ephemeral_error (api P) (refused M)"
  shows "rollout_race_retries_then_gives_up P M k"
proof -
  let ?cfg = "ingest_test_config 2 False"
  let ?g = "new_ingestor ?cfg (empty_reducer 4096) :: 'a ThreadIngestor"
  have "unclaimed 2 ''persisted'' ?g" by (rule first_claims) (simp_all add: fresh_ingestor)
  from served_twice_refused [OF assms(1,2) this _ _ assms(3), of "set_resume_failures 2 mock_start" False k FromThreadStarted]
  obtain g1 s1 where one: "served_discover P M ?cfg k ''persisted'' FromThreadStarted (?g, set_resume_failures 2 mock_start) = Some (O_Subscribed, g1, s1)"
    "states g1 = [''persisted'' \<mapsto> Subscribed]"
    by (auto simp: fresh_ingestor set_resume_failures_def)
  have "{t. is_some_and (states g1 t) managed} = {''persisted''}" by (auto simp: one(2) is_some_and_def split: option.splits if_splits)
  then have "unclaimed 2 ''ephemeral'' g1" by (simp add: unclaimed_def retained_count_def one(2))
  from served_given_up [OF assms(1,2) this _ assms(3), of "set_resume_failures 20 s1" False k FromThreadStarted]
  obtain g2 s2 where "served_discover P M ?cfg k ''ephemeral'' FromThreadStarted (g1, set_resume_failures 20 s1) = Some (O_Ephemeral, g2, s2)"
    by (auto simp: set_resume_failures_def)
  with one(1) show ?thesis by (simp add: rollout_race_retries_then_gives_up_def setup_some)
qed


text \<open>A refused first attempt stands in \<open>RetryWait\<close>; from there the resume is accepted.\<close>

lemma resumes_received_refuses:
  assumes "mock_laws M"
  shows "resumes_received M (refuses M (m, p) s) = resumes_received M s + (if m = ''thread/resume'' then 1 else 0)"
  using resumes_received_noted [OF assms, of m p s] by (simp add: refuses_def resumes_received_def)

lemma served_until_retry:
  assumes "mock_laws M" "api P = mock_json M" "unclaimed cap t g" "resume_failures_remaining s = 1" "ti_store g = None"
    "is_ephemeral_error (api P) (refused M)" "states g = Map.empty"
  shows "\<exists>g1 s1. discover_until P M (ingest_test_config cap release) k (waits_to_retry t) t source (Claim, None, g, s) =
      Some (Sleeping 2, None, g1, s1) \<and> states g1 = [t \<mapsto> RetryWait 2] \<and> ti_store g1 = None \<and>
      resume_failures_remaining s1 = 0 \<and> resumes_received M s1 = resumes_received M s + 1"
  using assms(6) unfolding discover_until_def
  by (simp add: served_run_numeral claims [OF assms(3)] serves_refuses [OF assms(1)] resume_answered_def assms(2,4,5,7)
      subscription_state_def waits_to_retry_def resumes_received_refuses [OF assms(1)] numeral_2_eq_2)

lemma served_retry:
  assumes "mock_laws M" "api P = mock_json M" "resume_failures_remaining s = 0" "ti_store g = None"
  shows "\<exists>g' s'. discover_until P M (ingest_test_config cap release) k (\<lambda>_. False) t source (Sleeping n, None, g, s) =
      Some (Done O_Subscribed, None, g', s') \<and> resumes_received M s' = resumes_received M s + 1"
  unfolding discover_until_def
  by (simp add: served_run_numeral serves_ok [OF assms(1)] resume_answered_def assms(2-4)
      given_read [OF assms(1)] resumes_received_noted [OF assms(1)])

lemma retry_test:
  assumes "mock_laws M" "api P = mock_json M" "is_ephemeral_error (api P) (refused M)"
  shows "retry_wait_deduplicates P M k"
proof -
  let ?cfg = "ingest_test_config 4 False"
  let ?g = "new_ingestor ?cfg (empty_reducer 4096) :: 'a ThreadIngestor"
  let ?s = "set_resume_failures 1 mock_start"
  have failures: "resume_failures_remaining (set_resume_failures n mock_start) = n"
    "resumes_received M (set_resume_failures n mock_start) = 0" for n
    by (simp_all add: set_resume_failures_def resumes_received_def fresh_server)
  have "unclaimed 4 ''retrying'' ?g" by (rule first_claims) (simp_all add: fresh_ingestor)
  from served_until_retry [OF assms(1,2) this failures(1) _ assms(3), of False k FromThreadStarted] obtain g1 s1 where
    one: "discover_until P M ?cfg k (waits_to_retry ''retrying'') ''retrying'' FromThreadStarted (Claim, None, ?g, ?s) =
      Some (Sleeping 2, None, g1, s1)" "states g1 = [''retrying'' \<mapsto> RetryWait 2]" "ti_store g1 = None"
      "resume_failures_remaining s1 = 0" "resumes_received M s1 = 1"
    by (auto simp: fresh_ingestor failures(2))
  have "is_some_and (states g1 ''retrying'') managed" by (simp add: one(2))
  from served_duplicate [OF this, of P M 4 False k ActivationStatus s1]
  have two: "served_discover P M ?cfg k ''retrying'' ActivationStatus (g1, s1) = Some (AlreadyManaged, g1, s1)" .
  from served_retry [OF assms(1,2) one(4,3), of 4 False k "''retrying''" FromThreadStarted 2] obtain g3 s3 where
    three: "discover_until P M ?cfg k (\<lambda>_. False) ''retrying'' FromThreadStarted (Sleeping 2, None, g1, s1) =
      Some (Done O_Subscribed, None, g3, s3)" "resumes_received M s3 = 2"
    by (auto simp: one(5))
  have "waits_to_retry ''retrying'' g1" by (simp add: waits_to_retry_def subscription_state_def one(2))
  with one(1) two three show ?thesis by (simp add: retry_wait_deduplicates_def setup_some)
qed

section \<open>What the store holds after\<close>

lemma record_small:
  assumes "iter_ok it" "\<And>e. encoded_len S e \<le> 1024 * 1024" "store_inv S s" "events s = []"
  shows "\<exists>s'. record_locked default_store_config S it s e = Some s' \<and> events s' = [e] \<and> store_inv S s'"
proof -
  have "\<exists>s'. record_locked default_store_config S it s e = Some s' \<and> events s' = filter (in_retention default_store_config e) (events s @ [e])"
  proof (rule retention_window_exact [OF assms(1,3)])
    show "sorted (map monotonic_ms (events s @ [e]))" by (simp add: assms(4))
    have one: "total_bytes S (filter R (events s @ [e])) \<le> 1024 * 1024" "total_bytes S (filter Q (filter R (events s @ [e]))) \<le> 1024 * 1024" for Q R
      using assms(2) [of e] by (simp_all add: assms(4))
    show "total_bytes S (filter (in_retention default_store_config e) (events s @ [e])) \<le> global_bytes default_store_config"
      by (rule order_trans [OF one(1)]) (simp add: default_store_config_def)
    show "total_bytes S (on_thread (Some t) (filter (in_retention default_store_config e) (events s @ [e]))) \<le> per_thread_bytes default_store_config" for t
      unfolding on_thread_def by (rule order_trans [OF one(2)]) (simp add: default_store_config_def)
  qed
  moreover have "in_retention default_store_config e e" by (simp add: in_retention_def)
  ultimately show ?thesis using record_locked_ends [OF assms(1,3), of default_store_config e] assms(4) by auto
qed


lemma query_all: "q_events (query_time default_store_config st (Some t) 0 (- 1)) = filter (\<lambda>e. thread_id e = Some t) (events st)"
proof -
  have "saturating_add (- 1) b = - 1" for b :: u64
    by (rule antisym [OF word_n1_ge saturating_add_le])
  then show ?thesis by (simp add: query_time_def Let_def)
qed

lemma given_active:
  assumes "mock_threads s t = Some (active_mock t u n)"
  shows "mt_turn_id (given M s t) = Some u" "mt_status (given M s t) = ''active''"
  using assms by (simp_all add: given_def active_mock_def)

lemma in_flight_test:
  assumes "mock_laws M" "api P = mock_json M" "iter_ok (iteration P)" "store_config P = default_store_config"
    "\<And>e. encoded_len (serialise P) e \<le> 1024 * 1024" "0 < millis_u64 (wall_ms k)"
  shows "in_flight_turn_yields_anchor P M k"
proof -
  let ?cfg = "ingest_test_config 4 False"
  let ?g = "with_store new_store (new_ingestor ?cfg (empty_reducer 4096)) :: 'a ThreadIngestor"
  let ?s = "add_thread (active_mock ''a'' ''t1'' 1) mock_start"
  have J: "json_laws (api P)" using mock_lawsD(1) [OF assms(1)] assms(2) by simp
  have s: "mock_threads ?s ''a'' = Some (active_mock ''a'' ''t1'' 1)" "resume_failures_remaining ?s = 0"
    by (simp_all add: add_thread_def active_mock_def fresh_server)
  have claimed: "unclaimed 4 ''a'' ?g" by (rule first_claims) (simp_all add: fresh_ingestor)
  obtain e where e: "reconstructed_active_turn (api P) (wall_ms k) (current_sequence (ti_reducer ?g)) (since_start k) ''a'' ''t1'' = Some e"
    "thread_id e = Some ''a''" "turn_id e = Some ''t1''" "reconstructed e" "event_method e = Some ''turn/started''"
    "unix_receipt_ms e = millis_u64 (wall_ms k)"
    using reconstructed_active_turn_Some [OF J] by blast
  obtain st where st: "record_locked default_store_config (serialise P) (iteration P) new_store e = Some st" "events st = [e]"
    using record_small [OF assms(3,5) new_store_ok(1) new_store_events] by blast
  have "record_reconstructed_active_turn (api P) (store_config P) (serialise P) (iteration P) (wall_ms k) (since_start k)
      (current_sequence (ti_reducer ?g)) ''a'' ''t1'' new_store = Some (True, st)"
    by (simp add: record_reconstructed_active_turn_def e(1) st(1) assms(4))
  from served_anchored [OF assms(1,2) claimed s(2) _ given_active [OF s(1)] this, of False FromThreadStarted] obtain g' s' where
    "served_discover P M ?cfg k ''a'' FromThreadStarted (?g, ?s) = Some (O_Subscribed, g', s')" "ti_store g' = Some st"
    by (auto simp: fresh_ingestor)
  with st(2) e assms(6) show ?thesis
    by (simp add: in_flight_turn_yields_anchor_def setup_some all_of_def query_all)
qed

lemma genuine_test:
  assumes "mock_laws M" "api P = mock_json M" "iter_ok (iteration P)" "store_config P = default_store_config"
    "\<And>e. encoded_len (serialise P) e \<le> 1024 * 1024"
  shows "genuine_start_prevents_anchor P M k"
proof -
  let ?cfg = "ingest_test_config 4 False"
  let ?raw = "jobj (api P) [(''jsonrpc'', jstr (api P) ''2.0''), (''method'', jstr (api P) ''turn/started''),
     (''params'', jobj (api P) [(''threadId'', jstr (api P) ''a''), (''turn'', jobj (api P) [(''id'', jstr (api P) ''t1'')])])]"
  have J: "json_laws (api P)" using mock_lawsD(1) [OF assms(1)] assms(2) by simp
  from parse_reconstructed [OF J, of "''a''" "''t1''"] obtain f where f: "parse (api P) ?raw = Inr f" "frame_method f = Some ''turn/started''"
    "frame_params f = Some (jobj (api P) [(''threadId'', jstr (api P) ''a''), (''turn'', jobj (api P) [(''id'', jstr (api P) ''t1'')])])"
    by (auto simp: reconstructed_frame_value_def)
  let ?e = "from_frame (api P) (wall_ms k) 7 7 f"
  have e: "genuine_start ''a'' ''t1'' ?e" "thread_id ?e = Some ''a''" "event_method ?e = Some ''turn/started''" "\<not> reconstructed ?e"
    using reconstructed_ids [OF J, of "''a''" "''t1''"] by (simp_all add: genuine_start_def f(2,3))
  obtain st where st: "record_locked default_store_config (serialise P) (iteration P) new_store ?e = Some st" "events st = [?e]"
    using record_small [OF assms(3,5) new_store_ok(1) new_store_events] by blast
  let ?g = "with_store st (new_ingestor ?cfg (empty_reducer 4096)) :: 'a ThreadIngestor"
  let ?s = "add_thread (active_mock ''a'' ''t1'' 1) mock_start"
  have s: "mock_threads ?s ''a'' = Some (active_mock ''a'' ''t1'' 1)" "resume_failures_remaining ?s = 0"
    by (simp_all add: add_thread_def active_mock_def fresh_server)
  have claimed: "unclaimed 4 ''a'' ?g" by (rule first_claims) (simp_all add: fresh_ingestor)
  have "record_reconstructed_active_turn (api P) (store_config P) (serialise P) (iteration P) (wall_ms k) (since_start k)
      (current_sequence (ti_reducer ?g)) ''a'' ''t1'' st = Some (False, st)"
    by (simp add: record_reconstructed_active_turn_def st(2) e(1))
  from served_anchored [OF assms(1,2) claimed s(2) _ given_active [OF s(1)] this, of False FromThreadStarted] obtain g' s' where
    "served_discover P M ?cfg k ''a'' FromThreadStarted (?g, ?s) = Some (O_Subscribed, g', s')" "ti_store g' = Some st"
    by (auto simp: fresh_ingestor)
  with st e f(1) show ?thesis
    by (simp add: genuine_start_prevents_anchor_def setup_some all_of_def query_all assms(4) Let_def)
qed

lemma listed_two:
  assumes "mock_laws M" "s = add_thread (active_mock ''b'' ''y'' 1) (add_thread (active_mock ''a'' ''x'' 2) mock_start)"
  shows "listed M s = [active_mock ''a'' ''x'' 2, active_mock ''b'' ''y'' 1]"
proof -
  have m: "mock_threads s = [''a'' \<mapsto> active_mock ''a'' ''x'' 2, ''b'' \<mapsto> active_mock ''b'' ''y'' 1]"
    by (simp add: assms(2) add_thread_def fresh_server active_mock_def)
  then have "finite (dom (mock_threads s))" by simp
  from mock_values [OF assms(1) this] obtain ks where ks: "distinct ks" "set ks = {''a'', ''b''}"
    "map_values M (mock_threads s) = map (\<lambda>k. the (mock_threads s k)) ks"
    by (auto simp: m insert_commute)
  then have "length ks = 2" using distinct_card [OF ks(1)] by simp
  with ks(1,2) have "ks = [''a'', ''b''] \<or> ks = [''b'', ''a'']"
    by (cases ks; cases "tl ks") (auto simp: doubleton_eq_iff)
  with ks(3) show ?thesis by (auto simp: listed_def newest_first_def m active_mock_def)
qed


lemma served_listing:
  assumes "mock_laws M" "api P = mock_json M" "listed M s = [x, y]" "0 < mt_updated_at x" "mt_updated_at y < mt_updated_at x"
  shows "page_answered P (ingest_test_config cap release) 3 0 0 [] (Inr (method_result M s ''thread/list'' p)) g =
    end_listing (mt_updated_at x) [mt_id x, mt_id y] g"
proof -
  let ?J = "mock_json M"
  note J = mock_lawsD [OF assms(1)]
  have data: "get ?J (method_result M s ''thread/list'' p) ''data'' = Some (jarr ?J [mock_thread_json ?J x, mock_thread_json ?J y])"
    "get_str ?J (method_result M s ''thread/list'' p) ''nextCursor'' = None"
    using J assms(3) by (simp_all add: method_result_def get_str_def json_get_obj Let_def listed_def)
  have "numeric_timestamp ?J (get ?J (mock_thread_json ?J th) ''updatedAt'') = Some (mt_updated_at th)" for th
    using mock_thread_fields(2) [OF assms(1) refl, of th] J(1) by (simp add: numeric_timestamp_def)
  moreover have "\<not> mt_updated_at x \<le> mt_updated_at y" using assms(5) by (simp add: not_le)
  ultimately show ?thesis
    using data mock_thread_fields(1) [OF assms(1) refl] J(2) assms(4,5)
    by (simp add: page_answered_def assms(2) Let_def max_def less_imp_le)
qed

lemma capacity_full:
  assumes "states g = [t \<mapsto> Subscribed]" "u \<noteq> t"
  shows "claim (ingest_test_config (Suc 0) release) u source g = (Done O_CapacityDegraded, set_state u CapacityDegraded g)"
proof -
  have "{v. is_some_and (states g v) managed} = {t}" using assms by (auto simp: is_some_and_def split: option.splits if_splits)
  with assms show ?thesis by (simp add: claim_def retained_count_def)
qed

lemma reconciliation_test:
  assumes "mock_laws M" "api P = mock_json M"
  shows "reconciliation_duplicate_discovery_and_capacity P M k"
proof -
  let ?cfg = "ingest_test_config (Suc 0) False"
  let ?g = "new_ingestor ?cfg (empty_reducer 4096) :: 'a ThreadIngestor"
  let ?a = "active_mock ''a'' ''x'' 2" and ?b = "active_mock ''b'' ''y'' 1"
  define s :: "'a MockServer" where s: "s = add_thread ?b (add_thread ?a mock_start)"
  have "mock_threads s ''a'' = Some ?a" "mock_threads s ''b'' = Some ?b" and ok: "resume_failures_remaining s = 0" "resumes_received M s = 0"
    by (simp_all add: s add_thread_def active_mock_def fresh_server resumes_received_def)
  then have given_two: "given M s ''a'' = ?a" "given M s ''b'' = ?b" by (simp_all add: given_def)
  have active: "thread_is_active (mock_json M) (mock_thread_json (mock_json M) ?a)" "thread_is_active (mock_json M) (mock_thread_json (mock_json M) ?b)"
    by (simp_all add: mock_thread_active [OF assms(1) refl] shows_active_def active_mock_def)
  have page: "page_answered P ?cfg 3 0 0 [] (Inr (method_result M s ''thread/list'' p)) g = end_listing 2 [''a'', ''b''] g" for p g
    using served_listing [OF assms listed_two [OF assms(1) s], of "Suc 0" False p g] by (simp add: active_mock_def)
  have first: "unclaimed (Suc 0) ''a'' g" if "states g = Map.empty" for g :: "'a ThreadIngestor"
    using that by (rule first_claims) simp
  have "\<exists>g' s'. served_reconcile 60 P M ?cfg k (?g, s) =
      Some (Inr [(''a'', O_Subscribed), (''b'', O_CapacityDegraded)], g', s') \<and>
      states g' = [''a'' \<mapsto> Subscribed, ''b'' \<mapsto> CapacityDegraded] \<and> resumes_received M s' = 1"
    unfolding served_reconcile_def
    by (simp add: served_run_numeral start_reconcile_def fresh_ingestor serves_ok [OF assms(1)] page end_listing_def
        thread_answered_def given_read [OF assms(1)] assms(2) given_two active claims [OF first] ok resume_answered_def
        capacity_full resumes_received_noted [OF assms(1)])
  then obtain g' s' where r: "served_reconcile 60 P M ?cfg k (?g, s) =
      Some (Inr [(''a'', O_Subscribed), (''b'', O_CapacityDegraded)], g', s')"
      "states g' = [''a'' \<mapsto> Subscribed, ''b'' \<mapsto> CapacityDegraded]" "resumes_received M s' = 1" by blast
  have "is_some_and (states g' ''a'') managed" by (simp add: r(2))
  from served_duplicate [OF this, of P M "Suc 0" False k FromThreadStarted s'] r show ?thesis
    by (simp add: reconciliation_duplicate_discovery_and_capacity_def setup_some subscription_state_def s [symmetric])
qed


section \<open>Property\<close>

text \<open>C27. The ingestor passes its own tests against the mock server, whatever the JSON library within its laws
  and whatever the clocks, provided that the wall clock is past the epoch, every event encodes to at most one
  mebibyte, and the text of the server's refusal reads as that of an ephemeral thread: a reconciliation subscribes up to the cap, one duplicate discovery asks for nothing, an idle
  subscription is released only once reactivation is verified, a turn in flight at the subscription
  leaves one reconstructed anchor, a genuine start prevents it, a call that waits to retry keeps a
  second one out and asks twice in all, and refused resumes are retried and then given up as ephemeral.\<close>

theorem ingestor_passes_its_tests:
  assumes "mock_laws M" "api P = mock_json M" "iter_ok (iteration P)" "store_config P = default_store_config"
    and "\<And>e. encoded_len (serialise P) e \<le> 1024 * 1024" "0 < millis_u64 (wall_ms k)"
    and "is_ephemeral_error (api P) (refused M)"
  shows "reconciliation_duplicate_discovery_and_capacity P M k \<and> idle_release_requires_verified_reactivation P M k \<and>
    in_flight_turn_yields_anchor P M k \<and> genuine_start_prevents_anchor P M k \<and> retry_wait_deduplicates P M k \<and>
    rollout_race_retries_then_gives_up P M k"
  using assms
  by (intro conjI reconciliation_test release_test in_flight_test genuine_test retry_test rollout_test)

theorem ingestor_passes_its_tests_witness:
  "retry_wait_deduplicates test_parts test_mock_api \<lparr>wall_ms = 1, since_start = 0\<rparr> \<and>
   in_flight_turn_yields_anchor test_parts test_mock_api \<lparr>wall_ms = 1, since_start = 0\<rparr>"
proof -
  have "is_ephemeral_error jv_api (refused test_mock_api)"
    by (simp add: is_ephemeral_error_def refused_def test_mock_api_def ascii_lower_def starts_with_def)
  moreover have "encoded_len (serialise test_parts) e \<le> 1024 * 1024" for e
    by (simp add: encoded_len_def test_parts_def)
  moreover have "0 < millis_u64 1" by (simp add: millis_u64_def)
  ultimately show ?thesis
    using ingestor_passes_its_tests [of test_mock_api test_parts "\<lparr>wall_ms = 1, since_start = 0\<rparr>"]
    by (simp add: test_parts_def)
qed

end
