(* ===== verification/Spec2Isabelle.thy ===== *)
theory Spec2Isabelle
  imports Core_Runs Mock Wired_Runs Supervisor_Tests Component_Tests Ingest_Tests
begin

text \<open>
  A verification development of the Codex control library: a Rust workspace that supervises the
  Codex daemon and its GUI, speaks JSON-RPC to the daemon over a reconnecting WebSocket, keeps the
  authoritative state of its threads, and offers replay, queries, event streams and actions to an
  embedding program.

  The program's parts. The transport (src/transport) owns the socket: it submits requests, answers
  them from the frames it reads, and hands every frame, numbered, to the ingress. The ingress
  (src/ingest) applies each event to the reducer (src/reducer), records it in the store (src/store)
  and publishes it to the hub (src/streaming), in this order. The ingestor (src/ingest) discovers
  and subscribes threads, on signals and by reconciliations over the daemon's listing. The
  controller (src/control) interrupts, steers and starts turns and looks for evidence of what it
  did. The supervisor (src/supervisor) starts the daemon and the GUI and checks on them. The core
  (src/core) starts all of these, runs their tasks and hands out the handle. The protocol
  (src/protocol) is the wire envelope they share.

  The theories, in the order they build on each other.
  \<^item> Prelude: machine integers, strings, lists and maps as the sources use them; the locale
    preserved_by, in which an invariant of an operation is one of its runs, interpreted for the
    reducer, the streams, the transport, the monitor, the running system, its actions, the lifetime
    of a run and the wired system.
  \<^item> Json_Api: serde_json as a parameter, with its documented laws and one instance.
  \<^item> Protocol: IncomingFrame, SequencedEvent, classification, the built requests.
  \<^item> Reducer: Reducer and all its operations; its interfaces are the locales replay_log,
    confirmation_source and subscription_marks, interpreted on it.
  \<^item> Store: EventStore; the cap loop is a partial function whose termination is proved.
  \<^item> Streaming: EventHub and the two streams; the locale replay_recovery extends replay_log.
  \<^item> Rpc: the errors and answers of a request.
  \<^item> Ingest: AuthoritativeIngress and ThreadIngestor; discover as a machine with one step per
    critical section, so that calls interleave; reconcile read directly.
  \<^item> Reconcile: reconcile as such a machine, and its equivalence with the direct reading.
  \<^item> Control: Controller and its actions.
  \<^item> Transport: TransportHandle, connect, the handshake, drive and connection_loop as one machine
    over the results of the socket operations.
  \<^item> Os_Text: lines, trimming, UTF-8 and paths of the standard library.
  \<^item> Supervisor: initialize, check, monitor over abstract process operations, every call of which
    is logged; Process_Ops: RealProcessOps over an abstract operating system, the locale
    kept_by_calls for what every run of the supervisor keeps, and a machine to evaluate.
  \<^item> Core: Config, run and Handle: the tasks of a run interleaved, one input per turn of one task
    between two of its awaits. They share the ingestor (with its reducer and store), the hub and
    the link.
  \<^item> Core_Runs: concrete runs of this system.
  \<^item> Fates: what becomes of one submitted request on the link: queued, written once, or answered.
  \<^item> Actions: the actions of the handle as tasks of the system (Runtime): each waits for the mutex of
    its thread, registers its waiter, submits, waits for answers and timers, and returns an outcome.
  \<^item> Action_Outcomes: what their outcomes say; the locale moving_part, for a part of a state that moves
    by its own steps, interpreted for the link in the system, the system under its actions, the
    runtime in a lifetime and the lifetime in the wired system. Action_Runs: the types of their awaits, concrete runs, the properties.
  \<^item> Lifetime: a run as its caller sees it (Life): the futures of run and shutdown and their drops, the
    guard, the cleanup request by request, the monitor. Lifetime_Runs: its properties.
  \<^item> Wired: the requests of reconciliations and discoveries on the link of such a run: each turn of
    one of these tasks submits what it asks for (puts_on_wire) and goes on with what the wait on that
    submission gives (answer_for). With it every request of the program is on the link. Wired_Runs:
    its properties.
  \<^item> Mock: the app-server of the integration tests (src/transport/src/mock.rs), and the client
    parts against it.
  \<^item> Supervisor_Tests, Component_Tests, Ingest_Tests: the unit tests of the crates (their modules tests)
    as functions, and that the model passes them; those of the ingestor run against Mock.

  What the lemmas show. Each component: an invariant every operation keeps, and the behaviour of
  its operations on every branch, errors included. Reducer: replay returns exactly the retained
  events or says what it lost; a waiter gets the first match; active turns refine a contract over
  events. Store: every event recorded is retained or counted, within the caps; deltas go before
  lifecycle events. Streams: a lag loses no lifecycle event. Ingestor: one resume per thread,
  within the cap, decided by its answers. Controller: nothing ambiguous is written twice.
  Transport: each request is answered once and truthfully, receipts increase, and the link can
  always recover. Supervisor: it returns within a bound, launches only what the last listing did
  not show, and runs only its fixed commands. The properties of this theory are about the running
  system, for every interleaving of its tasks and every behaviour of daemon and sockets: what the
  handle replays and finds is what was received, the ingress never stalls, the gate stays shut until
  the first reconciliation, a shutdown cleans up once. Actions in the running system: one at a time
  on each thread and in the order of their arrival; each returns, and its outcome tells truly how
  many frames it left and cites only events received in its window; it is the outcome of the
  direct reading in Control. Lifetimes: whatever is dropped, the system stays in a state it reaches
  by its own steps; a cleanup that is not dropped gets through, one that is dropped is never
  resumed, and after the ingress task has ended it hears the daemon at most once. The wired system: a
  thread is subscribed only once the daemon has accepted a resume that was written once, and every
  reconciliation and discovery ends. The properties of
  Mock put client and server together: a request makes the round trip, and a reconciliation
  subscribes what is active. The unit tests say what the authors expect of each part; the model
  meets them for every JSON library, clock and serialisation within the hypotheses.

  Parameters. The JSON library (J, with json_laws), the serialisation of an event and the iteration
  orders of hash maps (iter_ok, mock_laws), the Debug text of ids, the readers of JSON text
  (codec), the answers of the daemon, the results of socket operations, the clocks, what a
  broadcast receiver yields, the operating system and its clock (clock_laws). Inputs stand for
  everything the environment decides, so a statement over all inputs is one over all its choices.

  Bounds and fuel. A discovery takes at most three steps per attempt and eight more, below its
  fuel of 3 * limit + 12; that it ends within it is proved. A reconciliation requests at most
  page_bound pages. The loops of the store and of the supervisor are partial functions of the
  option type, and returning is proved. Counters are 64-bit words; runs are those in which the
  sequence and request counters do not wrap (link_admits, core_admits, rt_admits, life_admits), 2^64
  events on one link. An action returns within 3 * retries + 7 rounds for each action there is; a
  cleanup takes two turns for each thread and one more; a reconciliation, or a discovery, at most
  inquiry_bound turns with its timers run out: two for each page, 3 * retry limit + 14 for each
  candidate and one more, and three. In a lifetime the transport finds its
  ingress open exactly while the ingress task runs (reads_truly); elsewhere that is an input.

  Not modelled, or abstracted. Tokio's scheduling is the arbitrary order of inputs; the bounded
  channels never block (capacities are left out, save the panic on zero); a write that fails is
  taken to have written nothing; health is a value, and a watcher may also be woken without a
  change. The mutexes of the controller are fair, as tokio documents. The record of requests in the
  ingestor is written when a task decides on them; in Core by itself the answers to reconciliations
  and discoveries are inputs, which Wired ties to the link. A supervision check that a
  shutdown cancels midway, and a run dropped while the supervisor initialises, are left out.
  A server that cannot bind its socket is left out of Mock. The schema types generated by
  src/protocol/build.rs, the examples of src/core/examples, the tests over real sockets (of the
  transport and of the core) or fixture files, logging and scripts are not modelled.
\<close>

text \<open>Two frames read after the handshake.\<close>

definition reads_two :: "jv core_input list" where
  "reads_two = connects @ map (\<lambda>t. OnLink (Loop (DriveRead 0 0 True (Message (TextMessage t))))) [''a'', ''b'']"

section \<open>Properties\<close>

text \<open>C1. Replay, end to end: for any system that begins and runs, however its tasks interleave and
  whatever the daemon sends over however many connections, the replay query of the handle returns exactly
  the lifecycle events, after the cursor, among those the transport handed over and the ingress has
  received, none missing, in order; or it answers \<open>GapTooOld\<close> with the handle's snapshot, and then an
  event it received does lie beyond the cursor.\<close>

theorem handle_replays_what_was_received:
  assumes "json_laws (api P)" "begin_core cfg supervised = Some (Inr s0)"
    and "admissible (core_step P C cfg) core_admits s0 xs"
  shows "let s = core_run P C cfg s0 xs; received = take (taken s) (ingress (core_link s))
    in case handle_events_since s after of
         Events es \<Rightarrow> es = filter (\<lambda>e. plane e = Lifecycle \<and> after < sequence e) received
       | GapTooOld rq old sn \<Rightarrow> rq = after \<and> sn = handle_snapshot s \<and>
           (\<exists>d \<in> set received. plane d = Lifecycle \<and> old = Some (sequence d) \<and> unat after + 1 < unat (sequence d))"
proof -
  let ?s = "core_run P C cfg s0 xs"
  from run_reducer [OF assms] obtain ops where ops:
    "ti_reducer (core_ingestor ?s) = foldl (reducer_step (api P)) (empty_reducer (lifecycle_replay_capacity cfg)) ops"
    "applied ops = take (taken ?s) (ingress (core_link ?s))" "increasing (applied ops)" by blast
  have "0 < lifecycle_replay_capacity cfg" using begin_core_cases [OF assms(2)] by blast
  from events_since_honest [OF this ops(3), where J = "api P" and s = after] show ?thesis
    by (auto simp: Let_def handle_events_since_def handle_snapshot_def ops(1) lifecycle_events_def ops(2)
        filter_filter conj_commute split: ReplayResult.splits)
qed

theorem handle_replays_what_was_received_witness:
  "\<exists>s. s = core_run test_parts test_codec test_core_config test_core (connects @ [IngressTakes]) \<and>
     (case handle_events_since s 0 of
        Events es \<Rightarrow> es = filter (\<lambda>e. plane e = Lifecycle \<and> 0 < sequence e) (take (taken s) (ingress (core_link s)))
      | GapTooOld rq old sn \<Rightarrow> rq = 0)"
proof -
  have "admissible (core_step test_parts test_codec test_core_config) core_admits test_core (connects @ [IngressTakes])"
    by (simp add: connects_def test_core_def test_core_config_def default_config_def take_ingress_def
        link_run_defs)
  from handle_replays_what_was_received [OF _ test_core_begins this, of 0] show ?thesis
    by (auto simp: Let_def split: ReplayResult.splits)
qed

text \<open>C5. Queries, end to end: for any system that begins and runs, a query for a thread over a range of
  sequences always has an answer; every event of the thread in the range that the ingress has received is in
  it, or the answer carries a gap whose bound lies at or after it; and it holds nothing but events received
  and flagged reconstructions.\<close>

theorem handle_query_is_honest:
  assumes "json_laws (api P)" "iter_ok (iteration P)" "begin_core cfg supervised = Some (Inr s0)"
    and "admissible (core_step P C cfg) core_admits s0 xs"
  shows "let s = core_run P C cfg s0 xs
    in \<exists>q. handle_query_sequence s (Some t) after through = Some q \<and>
         (\<forall>e \<in> set (received s). requested t after through e \<longrightarrow>
            e \<in> set (q_events q) \<or> (\<exists>g b. q_gap q = Some g \<and> before_sequence g = Some b \<and> sequence e \<le> b)) \<and>
         (\<forall>e \<in> set (q_events q). e \<in> set (received s) \<or> reconstructed e)"
proof -
  let ?s = "core_run P C cfg s0 xs"
  from run_store [OF assms] obtain st recs ev where st: "ti_store (core_ingestor ?s) = Some st" "accounts recs ev st"
    and recs: "subseq (received ?s) recs" "\<forall>e \<in> set recs. e \<in> set (received ?s) \<or> reconstructed e"
    by (auto simp: store_follows_def core_store_ok_def store_sound_def)
  from st(2) have gap: "gaps st (Some t) = gap_of (Some t) ev" and kept: "set recs = set (events st) \<union> set ev"
    unfolding accounts_def by (simp, metis set_mset_mset set_mset_union)
  have "e \<in> set (events st) \<or> (\<exists>g b. gaps st (Some t) = Some g \<and> before_sequence g = Some b \<and> sequence e \<le> b)"
    if "e \<in> set (received ?s)" "thread_id e = Some t" for e
    using subseq_set_subset [OF recs(1)] that kept gap gap_of_before [of e ev "Some t"] by auto
  with st(1) recs(2) kept show ?thesis
    by (auto simp: Let_def handle_query_sequence_def query_sequence_def requested_def)
qed

theorem handle_query_is_honest_witness:
  "\<exists>q. handle_query_sequence (test_run test_core (connects @ [IngressTakes])) (Some ''t'') 0 None = Some q \<and>
     (\<forall>e \<in> set (q_events q). e \<in> set (received (test_run test_core (connects @ [IngressTakes]))) \<or> reconstructed e)"
proof -
  have "test_admits test_core (connects @ [IngressTakes])"
    by (simp add: connects_def test_core_def test_core_config_def default_config_def take_ingress_def link_run_defs)
  from handle_query_is_honest [OF _ _ test_core_begins this, of "''t''" 0 None] show ?thesis
    by (auto simp: Let_def)
qed

text \<open>C25. The ingress never stalls: in any system that begins and runs, the ingress task, while it runs,
  receives every event the transport has handed over in as many turns as there are such events; no event
  makes the store or the reducer get stuck.\<close>

theorem ingress_never_stalls:
  assumes "json_laws (api P)" "iter_ok (iteration P)" "begin_core cfg supervised = Some (Inr s0)"
    and "admissible (core_step P C cfg) core_admits s0 xs" "ingress_running (core_run P C cfg s0 xs)"
  shows "let s = core_run P C cfg s0 xs; n = length (ingress (core_link s)) - taken s
    in taken (core_run P C cfg s (replicate n IngressTakes)) = length (ingress (core_link s))"
proof -
  let ?s = "core_run P C cfg s0 xs"
  have parts: "iter_ok (iteration (core_parts P cfg))" using assms(2) by (simp add: core_parts_def)
  have ok: "taken ?s \<le> length (ingress (core_link ?s))"
    "core_store_ok (core_parts P cfg) (received ?s) (core_ingestor ?s)"
    using run_store [OF assms(1-4)] by (simp_all add: store_follows_def)
  have "taken s + n \<le> length (ingress (core_link s)) \<Longrightarrow> ingress_running s \<Longrightarrow>
      core_store_ok (core_parts P cfg) rs (core_ingestor s) \<Longrightarrow>
      taken (core_run P C cfg s (replicate n IngressTakes)) = taken s + n" for n s rs
  proof (induction n arbitrary: s rs)
    case 0
    then show ?case by (simp add: core_run_def)
  next
    case (Suc n)
    let ?e = "ingress (core_link s) ! taken s"
    from ingress_takes_sound [OF parts Suc.prems(3), of ?e] obtain s' where s':
      "ingress_takes (core_parts P cfg) ?e s = Some s'" "core_store_ok (core_parts P cfg) (rs @ [?e]) (core_ingestor s')"
      "taken s' = Suc (taken s)" "ingress_running s' = ingress_running s" by blast
    have "core_link s' = core_link s" using ingress_takes_effect [OF s'(1)] by simp
    with Suc.IH [of s' "rs @ [?e]"] Suc.prems s' show ?case by (simp add: core_run_def)
  qed
  from this [OF _ assms(5) ok(2)] ok(1) show ?thesis by (simp add: Let_def)
qed

theorem ingress_never_stalls_witness:
  "let s = test_run test_core reads_two
   in taken s = 0 \<and> length (ingress (core_link s)) = 3 \<and>
      taken (test_run s (replicate 3 IngressTakes)) = 3"
proof -
  let ?s = "test_run test_core reads_two"
  have adm: "test_admits test_core reads_two" and run: "ingress_running ?s" "taken ?s = 0" "length (ingress (core_link ?s)) = 3"
    by (simp_all add: reads_two_def connects_def core_run_def test_core_def test_core_config_def default_config_def
        take_ingress_def link_run_defs drive_frame_def answer_pending_def pending_remove_def)
  from ingress_never_stalls [OF _ _ test_core_begins adm run(1)] run(2,3) show ?thesis by (simp add: Let_def)
qed

text \<open>C11. The gate waits for the first reconciliation: in any system that begins and runs, until the
  first reconciliation has returned successfully, and for ever when it has failed, the gate is closed, no
  command that opens it is queued, and an action is refused as not written, with nothing queued for it.\<close>

theorem gate_waits_for_first_reconciliation:
  assumes "begin_core cfg supervised = Some (Inr s0)"
    and "before_marking (main (core_run P C cfg s0 xs))"
  shows "let l = core_link (core_run P C cfg s0 xs)
    in \<not> is_reconciled l \<and> list_all (\<lambda>c. \<not> reconciled_command c) (queue l) \<and>
       submit True m p l = (Inl (NotWritten ''reconciliation gate is closed''), l)"
proof -
  have "gate_waits (core_run P C cfg s0 xs)"
    unfolding core_run_def by (rule gates.run_inv [OF begun_gate [OF assms(1)]]) simp
  with assms(2) show ?thesis
    by (simp add: gate_waits_def gate_shut_def is_reconciled_def submit_def Let_def)
qed

theorem gate_waits_for_first_reconciliation_witness:
  "\<not> is_reconciled (core_link (core_run test_parts test_codec test_core_config test_core (MainRuns None 0 0 # connects)))"
proof -
  have "before_marking (main (core_run test_parts test_codec test_core_config test_core (MainRuns None 0 0 # connects)))"
    by (simp add: core_run_def connects_def connect_ops_def test_core_def main_step_def start_reconcile_def
        default_ingest_config_def test_core_config_def default_config_def Let_def)
  from gate_waits_for_first_reconciliation [OF test_core_begins this] show ?thesis by (simp add: Let_def)
qed

text \<open>C18. A shutdown cleans up once: over any run, with any number of calls of \<open>shutdown\<close> (explicit, by
  the end of the operation, or by the guard), no thread is asked to be unsubscribed twice; nothing is before
  the first call; and the step that cleans up asks for exactly the threads that are then subscribed.\<close>

theorem shutdown_unsubscribes_once:
  assumes "begin_core cfg supervised = Some (Inr s0)" "admissible (core_step P C cfg) core_admits s0 xs"
  shows "let s = core_run P C cfg s0 xs
    in (\<exists>ts. distinct ts \<and> unsubscribes (core_ingestor s) = unsubscribe_each (api P) ts) \<and>
       (\<not> stopped s \<longrightarrow> unsubscribes (core_ingestor s) = []) \<and>
       (cleanup s = C_Unsubscribing \<longrightarrow> distinct (map fst order) \<longrightarrow> map_of order = states (core_ingestor s) \<longrightarrow>
          (\<exists>ts. distinct ts \<and> set ts = {t. states (core_ingestor s) t = Some Subscribed} \<and>
             unsubscribes (core_ingestor (core_step P C cfg s (CleanupRuns order))) = unsubscribe_each (api P) ts))"
proof -
  let ?s = "core_run P C cfg s0 xs"
  have clean: "cleaned_once (api P) ?s"
    unfolding core_run_def by (rule cleanups.run_inv [OF begun_clean [OF assms(1)] assms(2)])
  have "\<exists>ts. distinct ts \<and> set ts = {t. states (core_ingestor ?s) t = Some Subscribed} \<and>
      unsubscribes (core_ingestor (core_step P C cfg ?s (CleanupRuns order))) = unsubscribe_each (api P) ts"
    if c: "cleanup ?s = C_Unsubscribing" and d: "distinct (map fst order)" and m: "map_of order = states (core_ingestor ?s)"
  proof -
    let ?ts = "map fst (filter (\<lambda>(_, st). st = Subscribed) order)"
    have "set ?ts = {t. map_of order t = Some Subscribed}"
      using d by (force simp: map_of_eq_Some_iff)
    moreover have "unsubscribes (core_ingestor ?s) = []"
      using clean c by (simp add: cleaned_once_def)
    ultimately show ?thesis
      using c distinct_subscribed [OF d]
      by (intro exI [of _ ?ts]) (simp add: cleanup_step_def unsubscribe_all_asks m)
  qed
  moreover have "\<exists>ts. distinct ts \<and> unsubscribes (core_ingestor ?s) = unsubscribe_each (api P) ts"
    using clean by (auto simp: cleaned_once_def unsubscribe_each_def split: if_splits intro: exI [of _ "[]"])
  moreover have "\<not> stopped ?s \<longrightarrow> unsubscribes (core_ingestor ?s) = []"
    using clean by (auto simp: cleaned_once_def)
  ultimately show ?thesis by (simp add: Let_def)
qed

theorem shutdown_unsubscribes_once_witness:
  "unsubscribes (core_ingestor (test_run test_core
     (first_run one_thread @ [OperationEnds, ShutdownCalled, CleanupRuns [(''t'', Subscribed)]]))) =
   [(''thread/unsubscribe'', resume_params jv_api ''t'')]"
proof -
  from feed_subscribes first_run_leads obtain g where
    run: "test_run test_core (first_run one_thread) = test_core\<lparr>main := M_Operating, watcher := W_Waiting,
      core_ingestor := g, core_link := test_links (connect_ops @ [MarkReconciled, Loop (TakeCommand None)])\<rparr>"
      and adm: "test_admits test_core (first_run one_thread)" and st: "states g = [''t'' \<mapsto> Subscribed]" by blast
  let ?xs = "first_run one_thread @ [OperationEnds, ShutdownCalled]"
  have "test_admits test_core ?xs" using adm by (simp add: admissible_append)
  moreover have "cleanup (test_run test_core ?xs) = C_Unsubscribing"
      "states (core_ingestor (test_run test_core ?xs)) = [''t'' \<mapsto> Subscribed]"
    unfolding core_run_append run using st by (simp_all add: core_run_def shutdown_called_def test_core_def)
  moreover have "{t. [''t'' \<mapsto> Subscribed] t = Some Subscribed} = {''t''}" by auto
  ultimately obtain ts where "distinct ts" "set ts = {''t''}"
      "unsubscribes (core_ingestor (core_step test_parts test_codec test_core_config
         (test_run test_core ?xs) (CleanupRuns [(''t'', Subscribed)]))) = unsubscribe_each jv_api ts"
    using shutdown_unsubscribes_once [OF test_core_begins, of test_parts test_codec ?xs "[(''t'', Subscribed)]"]
    unfolding Let_def by (auto simp del: core_step.simps)
  moreover from this(1,2) have "ts = [''t'']" by (cases ts; cases "tl ts") auto
  moreover have "test_run test_core (?xs @ ys) = test_run (test_run test_core ?xs) ys" for ys by (rule core_run_append)
  ultimately show ?thesis by (simp add: core_run_def unsubscribe_each_def)
qed

text \<open>The gate can open before a connection is reconciled: when the watcher has reconciled over one
  connection, that connection breaks off, and the handshake of the next one completes before the watcher
  marks, then its mark opens the gate of the new connection, for which no request of a reconciliation has
  been made: the phase is still that of a reconciliation to come, and actions are accepted.\<close>

theorem gate_opens_on_unreconciled_connection:
  assumes "watcher s = W_Reconciling (R_Done (Inr outcomes))" "pc (core_link s) = SendingInitialized"
  shows "let s' = core_run P C cfg s [OnLink (Loop (WriteResult None)), WatcherRuns None 0 0]
    in pc (core_link s') = loop_pc.Driving \<and> phase (health (core_link s')) = P_Reconciling \<and>
       requests (core_ingestor s') = requests (core_ingestor s) \<and>
       is_reconciled (core_link s') \<and> \<not> isl (fst (submit True m p (core_link s')))"
  using assms
  by (simp add: core_run_def loop_step_def start_driving_def watcher_step_def marking_defs
      submit_def is_reconciled_def set_health_def Let_def)


theorem gate_opens_on_unreconciled_connection_witness:
  "let s = core_run test_parts test_codec test_core_config test_core
       (racing_run @ [OnLink (Loop (WriteResult None)), WatcherRuns None 0 0])
   in pc (core_link s) = loop_pc.Driving \<and> phase (health (core_link s)) = P_Reconciling \<and> is_reconciled (core_link s)"
proof -
  let ?s = "core_run test_parts test_codec test_core_config test_core racing_run"
  from racing_run_leads have "watcher ?s = W_Reconciling (R_Done (Inr []))" "pc (core_link ?s) = SendingInitialized"
    by (auto simp: link_run_defs take_ingress_def breaks_off_def)
  from gate_opens_on_unreconciled_connection [OF this, of test_parts test_codec test_core_config] show ?thesis
    by (simp add: Let_def core_run_append)
qed


end
